(* ===== verification/Prelude.thy ===== *)
theory Prelude
  imports Main "HOL-Library.Word" "HOL-Library.AList" "HOL-Library.Multiset"
    "HOL-Library.Monad_Syntax"
begin

text \<open>
  What the components share: the machine types of the Go program (bytes, float32 bit patterns,
  vectors), its nil-able maps as association lists, the big- and little-endian encodings of
  \<open>encoding/binary\<close>, the IEEE-754 comparison of float32 values on their bit patterns, the
  runtime environment that resolves what the Go language leaves open (the iteration order of a
  map), and the list, map and word lemmas that the component proofs rest on.

  A Go panic is the value \<open>None\<close> of an option; an error return is a value of the datatype
  \<open>error\<close>.
\<close>

unbundle bit_operations_syntax

named_theorems wire_simps \<open>round trips of the encoders and readers\<close>
named_theorems panic_splits \<open>inversion of option-monad results\<close>

section \<open>Machine types\<close>

type_synonym byte = "8 word"
type_synonym bytes = "8 word list"
type_synonym uuid = "8 word list"
type_synonym f32 = "32 word"
type_synonym vec = "32 word list"

text \<open>
  Errors the modelled code returns. \<open>EOF\<close> and \<open>UnexpectedEOF\<close> are those of package
  \<open>io\<close>; the others are the package-level error variables of the repository.
\<close>

datatype error =
    ItemNotFound
  | ItemAlreadyExists
  | InvalidSpaceType
  | NoEntrypoint
  | EOF
  | UnexpectedEOF
  | BadUuid
  | NotificatorChannelDoesNotExist
  | NotificatorReceiverNotAvailable
  | EntryNotFound
  | EmptyConfState
  | ErrCompacted
  | ErrUnavailable
  | ErrSnapOutOfDate
  | KeyNotFound
  | BadMessage
  | DimensionMissmatch
  | PartitionNotFound
  | PartitionNotOnNode
  | BatchRequestTooLarge
  | RaftNotLoadedOnNode
  | DatasetNotFound
  | DatasetAlreadyExists
  | ProcessFnAlreadyRegistered
  | SnapshotFnAlreadyRegistered
  | GroupAlreadyExists
  | GroupNotFound
  | NodeAddressNotFound
  | NodeIdMismatch
  | RemoteError string

section \<open>Option monad: panics\<close>

declare Option.bind_eq_Some_conv [panic_splits]

section \<open>Lists\<close>

lemma swap_nth: "i < length xs \<Longrightarrow> j < length xs \<Longrightarrow> xs[i := xs ! j, j := xs ! i] ! k =
    (if k = j then xs ! i else if k = i then xs ! j else xs ! k)"
  by (auto simp: nth_list_update)

lemma mset_take_last:
  assumes "length xs = Suc n"
  shows "mset xs = add_mset (xs ! n) (mset (take n xs))"
proof -
  have "xs = take n xs @ [xs ! n]"
    using assms take_Suc_conv_app_nth [of n xs] by simp
  then have "mset xs = mset (take n xs @ [xs ! n])" by simp
  then show ?thesis by simp
qed

lemma mset_add_set: "mset xs = add_mset x (mset ys) \<Longrightarrow> set xs = insert x (set ys)"
  by (drule arg_cong [where f = set_mset]) simp

lemma mset_add_length: "mset xs = add_mset x (mset ys) \<Longrightarrow> length xs = Suc (length ys)"
  by (drule arg_cong [where f = size]) simp

lemma mset_union_set: "mset xs = mset ys + mset zs \<Longrightarrow> set xs = set ys \<union> set zs"
  by (drule arg_cong [where f = set_mset]) simp

lemma mset_add_distinct: "mset xs = add_mset x (mset ys) \<Longrightarrow>
    distinct (map f xs) = (f x \<notin> f ` set ys \<and> distinct (map f ys))"
proof -
  assume "mset xs = add_mset x (mset ys)"
  then have "mset xs = mset (x # ys)" by simp
  then have "distinct (map f xs) = distinct (map f (x # ys))"
    by (intro mset_eq_imp_distinct_iff) simp
  then show ?thesis by simp
qed

lemma sum_list_mset_cong:
  fixes f :: "'a \<Rightarrow> 'b::comm_monoid_add"
  assumes "mset xs = mset ys"
  shows "sum_list (map f xs) = sum_list (map f ys)"
proof -
  have "sum_mset (mset (map f xs)) = sum_mset (mset (map f ys))" using assms by simp
  then show ?thesis by (simp only: sum_mset_sum_list)
qed

lemma distinct_mset_map_cong: "mset xs = mset ys \<Longrightarrow> distinct (map f xs) = distinct (map f ys)"
  by (rule mset_eq_imp_distinct_iff) simp

section \<open>Association lists: Go maps\<close>

lemma map_of_AList_update [simp]: "map_of (AList.update k v m) = (map_of m)(k \<mapsto> v)"
  by (rule AList.update_conv')

lemma map_of_AList_delete [simp]: "map_of (AList.delete k m) = (map_of m)(k := None)"
  by (rule AList.delete_conv')

lemma distinct_fst_delete [simp, intro]:
  "distinct (map fst m) \<Longrightarrow> distinct (map fst (AList.delete k m))"
  by (rule AList.distinct_delete)

lemma distinct_fst_update [simp, intro]:
  "distinct (map fst m) \<Longrightarrow> distinct (map fst (AList.update k v m))"
  by (rule AList.distinct_update)

lemma set_AList_delete: "distinct (map fst m) \<Longrightarrow>
    set (AList.delete k m) = {p \<in> set m. fst p \<noteq> k}"
  by (auto simp: AList.delete_eq)

lemma set_AList_update: "distinct (map fst m) \<Longrightarrow>
    set (AList.update k v m) = insert (k, v) {p \<in> set m. fst p \<noteq> k}"
  by (induction m) (auto simp: image_iff)

lemma length_AList_update_fresh: "map_of m k = None \<Longrightarrow>
    AList.update k v m = m @ [(k, v)]"
  by (induction m) (auto split: if_splits)

lemma length_AList_delete: "distinct (map fst m) \<Longrightarrow> map_of m k = Some v \<Longrightarrow>
    Suc (length (AList.delete k m)) = length m"
proof (induction m)
  case (Cons p m)
  show ?case
  proof (cases "fst p = k")
    case True
    then have "k \<notin> fst ` set m" using Cons.prems by auto
    then show ?thesis using True by (simp add: AList.delete_eq split_beta filter_id_conv image_iff)
  next
    case False
    with Cons show ?thesis by (auto simp: AList.delete_eq split: if_splits)
  qed
qed simp

lemma mset_AList_delete: "distinct (map fst m) \<Longrightarrow> map_of m k = Some v \<Longrightarrow>
    mset m = add_mset (k, v) (mset (AList.delete k m))"
proof (induction m)
  case (Cons p m)
  show ?case
  proof (cases "fst p = k")
    case True
    then have "k \<notin> fst ` set m" using Cons.prems by auto
    moreover have "p = (k, v)" using True Cons.prems by (cases p) simp
    ultimately show ?thesis by (simp add: AList.delete_eq filter_id_conv split_beta image_iff)
  next
    case False
    with Cons show ?thesis by (cases p) auto
  qed
qed simp

section \<open>Programs over a mutable state\<close>

text \<open>
  A Go function that mutates a state, may return an error and may panic: \<open>None\<close> is the panic,
  \<open>Some (Inl e, s)\<close> the return of error \<open>e\<close> with the state as it was left, and
  \<open>Some (Inr x, s)\<close> the normal return of \<open>x\<close>. \<open>andthen m f\<close> is the statement
  \<open>x, err := m; if err != nil { return err }; f(x)\<close>.
\<close>

type_synonym ('s, 'a) prog = "'s \<Rightarrow> ((error + 'a) \<times> 's) option"

definition ret :: "'a \<Rightarrow> ('s, 'a) prog" where
  "ret x = (\<lambda>s. Some (Inr x, s))"

definition fail :: "error \<Rightarrow> ('s, 'a) prog" where
  "fail e = (\<lambda>s. Some (Inl e, s))"

definition panic :: "('s, 'a) prog" where
  "panic = (\<lambda>s. None)"

definition andthen :: "('s, 'a) prog \<Rightarrow> ('a \<Rightarrow> ('s, 'b) prog) \<Rightarrow> ('s, 'b) prog" where
  "andthen m f = (\<lambda>s. case m s of None \<Rightarrow> None
     | Some (Inl e, t) \<Rightarrow> Some (Inl e, t)
     | Some (Inr x, t) \<Rightarrow> f x t)"

definition of_option :: "'a option \<Rightarrow> ('s, 'a) prog" where
  "of_option x = (case x of None \<Rightarrow> panic | Some y \<Rightarrow> ret y)"

lemma prog_simps [simp]:
  "ret x s = Some (Inr x, s)"
  "fail e s = Some (Inl e, s)"
  "panic s = None"
  "of_option None = panic"
  "of_option (Some x) = ret x"
  by (simp_all add: ret_def fail_def panic_def of_option_def)

lemma andthen_Inr [simp]: "m s = Some (Inr x, t) \<Longrightarrow> andthen m f s = f x t"
  by (simp add: andthen_def)

lemma andthen_Inl [simp]: "m s = Some (Inl e, t) \<Longrightarrow> andthen m f s = Some (Inl e, t)"
  by (simp add: andthen_def)

lemma andthen_None [simp]: "m s = None \<Longrightarrow> andthen m f s = None"
  by (simp add: andthen_def)

lemma andthen_assoc: "andthen (andthen m f) g s = andthen m (\<lambda>x. andthen (f x) g) s"
  by (auto simp: andthen_def split: option.splits prod.splits sum.splits)

text \<open>\<open>repeat_prog n body i\<close>: the loop \<open>for ; i < i + n; i++ { body(i) }\<close>.\<close>

fun repeat_prog :: "nat \<Rightarrow> ('s, unit) prog \<Rightarrow> ('s, unit) prog" where
  "repeat_prog 0 body = ret ()"
| "repeat_prog (Suc n) body = andthen body (\<lambda>_. repeat_prog n body)"

section \<open>Float32 values as bit patterns\<close>

text \<open>
  A Go \<open>float32\<close> is its IEEE-754 bit pattern: sign, 8 bits of exponent, 23 bits of fraction.
  \<open>f32_key\<close> reads a pattern that is not a NaN as a sign-and-magnitude integer, which orders
  the values as IEEE-754 does (both zeros have key 0); every comparison with a NaN is false.
\<close>

definition f32_nan :: "f32 \<Rightarrow> bool" where
  "f32_nan x = (0x7F800000 < x AND 0x7FFFFFFF)"

definition f32_key :: "f32 \<Rightarrow> int" where
  "f32_key x = (if bit x 31 then - uint (x AND 0x7FFFFFFF) else uint (x AND 0x7FFFFFFF))"

definition f32_lt :: "f32 \<Rightarrow> f32 \<Rightarrow> bool" where
  "f32_lt x y = (\<not> f32_nan x \<and> \<not> f32_nan y \<and> f32_key x < f32_key y)"

abbreviation f32_negative :: "f32 \<Rightarrow> bool" where
  "f32_negative x \<equiv> f32_lt x 0"

text \<open>\<open>math.MaxFloat\<close> is \<open>float32(goMath.MaxFloat32)\<close>.\<close>

definition max_float :: f32 where
  "max_float = 0x7F7FFFFF"

lemma f32_lt_irrefl [simp]: "\<not> f32_lt x x"
  by (simp add: f32_lt_def)

lemma f32_lt_trans: "f32_lt x y \<Longrightarrow> f32_lt y z \<Longrightarrow> f32_lt x z"
  by (simp add: f32_lt_def)

lemma f32_lt_asym: "f32_lt x y \<Longrightarrow> \<not> f32_lt y x"
  by (simp add: f32_lt_def)

lemma f32_not_lt_trans:
  "\<not> f32_lt x y \<Longrightarrow> \<not> f32_lt y z \<Longrightarrow> \<not> f32_nan x \<Longrightarrow> \<not> f32_nan y \<Longrightarrow> \<not> f32_nan z \<Longrightarrow> \<not> f32_lt x z"
  by (simp add: f32_lt_def)

lemma f32_lt_key: "f32_lt x y \<Longrightarrow> f32_key x < f32_key y"
  by (simp add: f32_lt_def)

lemma f32_key_lower: "- (2 ^ 31) < f32_key x"
proof -
  have "(0x7FFFFFFF :: f32) = mask 31" by (simp add: mask_eq_exp_minus_1)
  then have "x AND 0x7FFFFFFF = take_bit 31 x" by (simp add: take_bit_eq_mask)
  then have "uint (x AND 0x7FFFFFFF) < 2 ^ 31"
    using take_bit_int_less_exp [of 31 "uint x"] by (simp add: unsigned_take_bit_eq)
  moreover have "0 \<le> uint (x AND 0x7FFFFFFF)" by (rule unsigned_greater_eq)
  moreover have "f32_key x = uint (x AND 0x7FFFFFFF) \<or> f32_key x = - uint (x AND 0x7FFFFFFF)"
    by (simp add: f32_key_def)
  ultimately show ?thesis by arith
qed

text \<open>The patterns of 1, 2 and 3, for concrete inputs.\<close>

lemma f32_small [simp]:
  "f32_lt 0x3F800000 0x40000000" "\<not> f32_lt 0x40000000 0x3F800000"
  "f32_lt 0x3F800000 0x40400000" "\<not> f32_lt 0x40400000 0x3F800000"
  "f32_lt 0x40000000 0x40400000" "\<not> f32_lt 0x40400000 0x40000000"
  "f32_lt 0 0x3F800000" "f32_lt 0 0x40000000" "f32_lt 0 0x40400000"
  "\<not> f32_lt 0x3F800000 0" "\<not> f32_lt 0x40000000 0" "\<not> f32_lt 0x40400000 0"
  "\<not> f32_nan 0x3F800000" "\<not> f32_nan 0x40000000" "\<not> f32_nan 0x40400000" "\<not> f32_nan 0"
  by (simp_all add: f32_lt_def f32_nan_def f32_key_def)

section \<open>The runtime environment\<close>

text \<open>
  The Go language leaves two things open that the code's results depend on: the order in which
  \<open>range\<close> visits a map, and how much spare capacity \<open>append\<close> leaves behind a slice.
  An environment answers both, for every dynamic occurrence: an occurrence is named by its call
  path, a list of numbers, and \<open>sub env i\<close> is the environment of the \<open>i\<close>-th callee or loop
  iteration. Every theorem is about every environment whose orders are permutations.
\<close>

record env =
  order :: "nat list \<Rightarrow> nat \<Rightarrow> nat list"
  spare :: "nat list \<Rightarrow> nat"

definition sub :: "env \<Rightarrow> nat \<Rightarrow> env" where
  "sub env i = \<lparr>order = (\<lambda>p. order env (i # p)), spare = (\<lambda>p. spare env (i # p))\<rparr>"

definition visit :: "env \<Rightarrow> 'e list \<Rightarrow> 'e list" where
  "visit env m = map ((!) m) (order env [] (length m))"

definition fair :: "env \<Rightarrow> bool" where
  "fair env = (\<forall>p n. mset (order env p n) = mset [0..<n])"

lemma fair_sub [simp, intro]: "fair env \<Longrightarrow> fair (sub env i)"
  by (simp add: fair_def sub_def)

lemma mset_visit [simp]:
  assumes "fair env"
  shows "mset (visit env m) = mset m"
proof -
  have "mset (visit env m) = image_mset ((!) m) (mset (order env [] (length m)))"
    by (simp add: visit_def)
  also have "\<dots> = mset (map ((!) m) [0..<length m])"
    using assms by (simp only: fair_def mset_map)
  finally show ?thesis by (simp add: map_nth)
qed

lemma set_visit [simp]: "fair env \<Longrightarrow> set (visit env m) = set m"
  by (metis mset_visit set_mset_mset)

lemma length_visit [simp]: "fair env \<Longrightarrow> length (visit env m) = length m"
  by (metis mset_visit size_mset)

lemma distinct_visit [simp]: "fair env \<Longrightarrow> distinct (map f (visit env m)) = distinct (map f m)"
  by (rule distinct_mset_map_cong) simp

lemma distinct_visit' [simp]: "fair env \<Longrightarrow> distinct (visit env m) = distinct m"
  by (rule mset_eq_imp_distinct_iff) simp

text \<open>The environment that visits every map in list order and leaves \<open>n\<close> spare cells.\<close>

definition plain_env :: "nat \<Rightarrow> env" where
  "plain_env n = \<lparr>order = (\<lambda>_ k. [0..<k]), spare = (\<lambda>_. n)\<rparr>"

lemma plain_env [simp]: "fair (plain_env n)" "visit (plain_env n) m = m" "sub (plain_env n) i = plain_env n"
  "spare (plain_env n) p = n"
  by (simp_all add: plain_env_def fair_def visit_def sub_def map_nth)

end
