(* ===== verification/Wire.thy ===== *)
theory Wire
  imports Prelude
begin

text \<open>
  The byte streams the index is saved to and loaded from: \<open>encoding/binary\<close> in big-endian
  order over a \<open>bytes.Buffer\<close>, the only reader and writer the repository passes to \<open>Save\<close>
  and \<open>Load\<close>. A writer is the list of bytes written (a \<open>bytes.Buffer\<close> never returns an
  error on a write); a reader is a program over a pair of a state and the unread bytes.
  \<open>read_full\<close> is \<open>io.ReadFull\<close>, which \<open>binary.Read\<close> uses; \<open>buf_read\<close> is
  \<open>(*bytes.Buffer).Read\<close>, which returns fewer bytes than asked for without an error.

  Also here: \<open>utils/uuid.go\<close>, which reads a UUID as two little-endian numbers.
\<close>

section \<open>Bytes of a word\<close>

primrec le_bytes :: "nat \<Rightarrow> 'a::len word \<Rightarrow> bytes" where
  "le_bytes 0 w = []"
| "le_bytes (Suc n) w = ucast w # le_bytes n (drop_bit 8 w)"

primrec le_word :: "bytes \<Rightarrow> 'a::len word" where
  "le_word [] = 0"
| "le_word (b # bs) = ucast b OR push_bit 8 (le_word bs)"

definition be_bytes :: "nat \<Rightarrow> 'a::len word \<Rightarrow> bytes" where
  "be_bytes n w = rev (le_bytes n w)"

definition be_word :: "bytes \<Rightarrow> 'a::len word" where
  "be_word bs = le_word (rev bs)"

lemma length_le_bytes [simp]: "length (le_bytes n w) = n"
  by (induction n arbitrary: w) simp_all

lemma length_be_bytes [simp]: "length (be_bytes n w) = n"
  by (simp add: be_bytes_def)

lemma le_word_le_bytes: "le_word (le_bytes n w) = (take_bit (8 * n) w :: 'a::len word)"
proof (induction n arbitrary: w)
  case (Suc n)
  show ?case
  proof (rule bit_word_eqI)
    fix i assume i: "i < LENGTH('a)"
    show "bit (le_word (le_bytes (Suc n) w) :: 'a word) i = bit (take_bit (8 * Suc n) w) i"
      using i by (auto simp: Suc.IH bit_simps not_less)
  qed
qed simp

lemma be_word_be_bytes [wire_simps]:
  "LENGTH('a) \<le> 8 * n \<Longrightarrow> be_word (be_bytes n w) = (w :: 'a::len word)"
  by (simp add: be_word_def be_bytes_def le_word_le_bytes take_bit_word_eq_self)

section \<open>Readers\<close>

type_synonym ('s, 'a) reader = "('s \<times> bytes, 'a) prog"

definition read_full :: "nat \<Rightarrow> ('s, bytes) reader" where
  "read_full n = (\<lambda>(s, bs).
     if length bs < n then
       (if bs = [] then Some (Inl EOF, (s, bs)) else Some (Inl UnexpectedEOF, (s, [])))
     else Some (Inr (take n bs), (s, drop n bs)))"

definition buf_read :: "bytes \<Rightarrow> ('s, bytes) reader" where
  "buf_read p = (\<lambda>(s, bs).
     if bs = [] \<and> p \<noteq> [] then Some (Inl EOF, (s, bs))
     else let n = min (length p) (length bs)
          in Some (Inr (take n bs @ drop n p), (s, drop n bs)))"

definition read_word :: "nat \<Rightarrow> ('s, 'a::len word) reader" where
  "read_word n = andthen (read_full n) (\<lambda>bs. ret (be_word bs))"

definition get_state :: "('s, 's) reader" where
  "get_state = (\<lambda>(s, bs). Some (Inr s, (s, bs)))"

definition modify :: "('s \<Rightarrow> 's) \<Rightarrow> ('s, unit) reader" where
  "modify f = (\<lambda>(s, bs). Some (Inr (), (f s, bs)))"

lemma read_full_append [wire_simps]:
  "length xs = n \<Longrightarrow> read_full n (s, xs @ rest) = Some (Inr xs, (s, rest))"
  by (simp add: read_full_def)

lemma buf_read_append [wire_simps]:
  "length xs = length p \<Longrightarrow> buf_read p (s, xs @ rest) = Some (Inr xs, (s, rest))"
  by (auto simp: buf_read_def)

lemma read_word_append [wire_simps]:
  "LENGTH('a) \<le> 8 * n \<Longrightarrow>
   read_word n (s, be_bytes n w @ rest) = Some (Inr (w :: 'a::len word), (s, rest))"
  by (simp add: read_word_def read_full_append be_word_be_bytes)

lemma state_simps [simp]:
  "get_state (s, bs) = Some (Inr s, (s, bs))"
  "modify f (s, bs) = Some (Inr (), (f s, bs))"
  by (simp_all add: get_state_def modify_def)

section \<open>UUIDs\<close>

text \<open>\<open>uuid.FromBytes\<close> of the package the code imports checks the length and nothing else.\<close>

definition uuid_wf :: "uuid \<Rightarrow> bool" where
  "uuid_wf u = (length u = 16)"

definition uuid_from_bytes :: "bytes \<Rightarrow> error + uuid" where
  "uuid_from_bytes bs = (if length bs = 16 then Inr bs else Inl BadUuid)"

definition uuid_nil :: uuid where
  "uuid_nil = replicate 16 0"

definition uuid_from_bytes_or_nil :: "bytes \<Rightarrow> uuid" where
  "uuid_from_bytes_or_nil bs = (case uuid_from_bytes bs of Inl _ \<Rightarrow> uuid_nil | Inr u \<Rightarrow> u)"

definition uuid_mod :: "uuid \<Rightarrow> 64 word \<Rightarrow> 64 word option" where
  "uuid_mod x m = (if m = 0 then None
     else let res = (le_word (take 8 x) mod m) + (le_word (drop 8 x) mod m)
          in Some (res mod m))"

lemma uuid_mod_bound: "uuid_mod x m = Some i \<Longrightarrow> i < m"
  by (auto simp: uuid_mod_def Let_def word_mod_less_divisor word_neq_0_conv split: if_splits)

lemma uuid_mod_total: "m \<noteq> 0 \<Longrightarrow> \<exists>i. uuid_mod x m = Some i"
  by (simp add: uuid_mod_def Let_def)

text \<open>
  Below half of the word range the sum does not wrap, and the result is the sum of the two
  halves modulo \<open>m\<close>.
\<close>

lemma uuid_mod_exact:
  assumes "m \<noteq> 0" "unat m \<le> 2 ^ 63"
  shows "map_option unat (uuid_mod x m) =
    Some ((unat (le_word (take 8 x) :: 64 word) + unat (le_word (drop 8 x) :: 64 word)) mod unat m)"
proof -
  let ?a = "le_word (take 8 x) mod m" and ?b = "le_word (drop 8 x) mod m"
  have "0 < unat m" using assms(1) by (simp add: unat_gt_0)
  then have "unat ?a < unat m" "unat ?b < unat m" by (simp_all add: unat_mod)
  then have "unat ?a + unat ?b < 2 ^ 64" using assms(2) by simp
  then have "unat (?a + ?b) = unat ?a + unat ?b"
    by (subst unat_add_lem [THEN iffD1]) simp_all
  then show ?thesis
    using assms(1) by (simp add: uuid_mod_def Let_def unat_mod mod_simps)
qed

end
