(* ===== verification/Metadata.thy ===== *)
theory Metadata
  imports Wire
begin

text \<open>
  \<open>index/metadata.go\<close>: a nil-able map from strings to strings, its size in bytes and its
  binary form. \<open>save\<close> writes the number of entries and the length of a value in two bytes and
  the length of a key in one byte, without a check, so the round trip holds for metadata within
  those bounds only; \<open>metadata_fits\<close> names them.
\<close>

section \<open>The operations\<close>

type_synonym metadata = "(bytes \<times> bytes) list option"

fun metadata_entries :: "metadata \<Rightarrow> (bytes \<times> bytes) list" where
  "metadata_entries None = []"
| "metadata_entries (Some kvs) = kvs"

definition metadata_bytes_size :: "metadata \<Rightarrow> 64 word" where
  "metadata_bytes_size m = of_nat (sum_list (map (\<lambda>(k, v). length k + length v) (metadata_entries m)))"

fun save_kv :: "bytes \<times> bytes \<Rightarrow> bytes" where
  "save_kv (k, v) = be_bytes 1 (of_nat (length k) :: 8 word) @ k @
     be_bytes 2 (of_nat (length v) :: 16 word) @ v"

definition metadata_save :: "env \<Rightarrow> metadata \<Rightarrow> bytes" where
  "metadata_save env m =
     be_bytes 2 (of_nat (length (metadata_entries m)) :: 16 word) @
     concat (map save_kv (visit env (metadata_entries m)))"

definition load_kv :: "('s, bytes \<times> bytes) reader" where
  "load_kv =
     andthen (read_word 1) (\<lambda>key_length :: 8 word.
     andthen (buf_read (replicate (unat key_length) 0)) (\<lambda>k.
     andthen (read_word 2) (\<lambda>val_length :: 16 word.
     andthen (buf_read (replicate (unat val_length) 0)) (\<lambda>v.
     ret (k, v)))))"

text \<open>The loop of \<open>load\<close>: a write to a nil map panics.\<close>

fun load_entries :: "nat \<Rightarrow> metadata \<Rightarrow> ('s, metadata) reader" where
  "load_entries 0 m = ret m"
| "load_entries (Suc n) m =
     andthen load_kv (\<lambda>(k, v).
       case m of None \<Rightarrow> panic | Some kvs \<Rightarrow> load_entries n (Some (AList.update k v kvs)))"

definition metadata_load :: "metadata \<Rightarrow> ('s, metadata) reader" where
  "metadata_load m = andthen (read_word 2) (\<lambda>n :: 16 word. load_entries (unat n) m)"

section \<open>The round trip\<close>

definition metadata_fits :: "metadata \<Rightarrow> bool" where
  "metadata_fits m =
     (distinct (map fst (metadata_entries m)) \<and> length (metadata_entries m) < 2 ^ 16 \<and>
      (\<forall>(k, v) \<in> set (metadata_entries m). length k < 2 ^ 8 \<and> length v < 2 ^ 16))"

lemma unat_of_nat_fits: "n < 2 ^ LENGTH('a) \<Longrightarrow> unat (of_nat n :: 'a::len word) = n"
  by (simp add: unsigned_of_nat take_bit_nat_eq_self)

lemma load_kv_save [wire_simps]:
  assumes "length k < 2 ^ 8" "length v < 2 ^ 16"
  shows "load_kv (s, save_kv (k, v) @ rest) = Some (Inr (k, v), (s, rest))"
proof -
  have "unat (of_nat (length k) :: 8 word) = length k" "unat (of_nat (length v) :: 16 word) = length v"
    using assms by (simp_all add: unat_of_nat_fits)
  then show ?thesis by (simp add: load_kv_def wire_simps)
qed

lemma load_entries_save:
  "(\<And>k v. (k, v) \<in> set kvs \<Longrightarrow> length k < 2 ^ 8 \<and> length v < 2 ^ 16) \<Longrightarrow>
   distinct (map fst (acc @ kvs)) \<Longrightarrow>
   load_entries (length kvs) (Some acc) (s, concat (map save_kv kvs) @ rest) =
     Some (Inr (Some (acc @ kvs)), (s, rest))"
proof (induction kvs arbitrary: acc)
  case (Cons p kvs)
  obtain k v where p: "p = (k, v)" by (cases p)
  have bounds: "length k < 2 ^ 8" "length v < 2 ^ 16" using Cons.prems(1) p by auto
  have "map_of acc k = None" using Cons.prems(2) p by (simp add: map_of_eq_None_iff)
  then have "AList.update k v acc = acc @ [p]" by (simp add: p length_AList_update_fresh)
  moreover have "load_entries (length kvs) (Some (acc @ [p])) (s, concat (map save_kv kvs) @ rest) =
      Some (Inr (Some ((acc @ [p]) @ kvs)), (s, rest))"
    by (rule Cons.IH) (use Cons.prems in auto)
  ultimately show ?case
    using load_kv_save [OF bounds, of s] by (simp add: p del: save_kv.simps)
qed simp

lemma metadata_load_save [wire_simps]:
  assumes "metadata_fits m" "fair env"
  shows "metadata_load (Some []) (s, metadata_save env m @ rest) =
    Some (Inr (Some (visit env (metadata_entries m))), (s, rest))"
proof -
  let ?kvs = "visit env (metadata_entries m)"
  have "length k < 2 ^ 8 \<and> length v < 2 ^ 16" if "(k, v) \<in> set ?kvs" for k v
    using that assms by (auto simp: metadata_fits_def)
  moreover have "distinct (map fst ([] @ ?kvs))" using assms by (simp add: metadata_fits_def)
  moreover have "unat (of_nat (length (metadata_entries m)) :: 16 word) = length ?kvs"
    using assms by (simp add: unat_of_nat_fits metadata_fits_def)
  ultimately show ?thesis
    using load_entries_save [of ?kvs "[]" s rest]
    by (simp add: metadata_load_def metadata_save_def wire_simps)
qed

text \<open>Two maps with the same entries: what a Go program can tell apart, nil aside.\<close>

definition metadata_lookup :: "metadata \<Rightarrow> bytes \<Rightarrow> bytes option" where
  "metadata_lookup m = map_of (metadata_entries m)"

lemma metadata_lookup_visit:
  "metadata_fits m \<Longrightarrow> fair env \<Longrightarrow>
   metadata_lookup (Some (visit env (metadata_entries m))) = metadata_lookup m"
  unfolding metadata_lookup_def metadata_fits_def metadata_entries.simps
  by (rule map_of_inject_set [THEN iffD2]) auto

lemma metadata_size_visit:
  "fair env \<Longrightarrow> metadata_bytes_size (Some (visit env (metadata_entries m))) = metadata_bytes_size m"
  unfolding metadata_bytes_size_def metadata_entries.simps
  by (subst sum_list_mset_cong [of _ "metadata_entries m"]) simp_all

end
