(* ===== verification/Float32.thy ===== *)
theory Float32
  imports Prelude
begin

text \<open>
  The float32 arithmetic of the Go language on bit patterns: IEEE-754 binary32 with rounding to
  nearest, ties to even. A pattern is unpacked to a sign, a mantissa and an exponent, the exact
  result is computed on integers and rounded once. \<open>math.Sqrt\<close> goes through float64; its
  double rounding does not change a float32 result, so \<open>f32_sqrt\<close> rounds the exact root once.
  Every invalid operation gives one canonical NaN: the code never reads a NaN's payload.

  The lemmas show what the index relies on: sums, products of a value with itself and square
  roots of values that are not negative are not negative.
\<close>

section \<open>Unpacking and rounding\<close>

datatype fp = NaN | Infinity bool | Finite bool nat int

definition f32_unpack :: "f32 \<Rightarrow> fp" where
  "f32_unpack x =
     (let s = bit x 31; e = unat (take_bit 8 (drop_bit 23 x)); m = unat (take_bit 23 x)
      in if e = 255 then (if m = 0 then Infinity s else NaN)
         else if e = 0 then Finite s m (- 149)
         else Finite s (m + 2 ^ 23) (int e - 150))"

definition f32_pack :: "bool \<Rightarrow> nat \<Rightarrow> f32" where
  "f32_pack s n = (if s then 0x80000000 + of_nat n else of_nat n)"

definition f32_canonical_nan :: f32 where
  "f32_canonical_nan = 0x7FC00000"

definition f32_inf :: "bool \<Rightarrow> f32" where
  "f32_inf s = f32_pack s 0x7F800000"

fun bit_length :: "nat \<Rightarrow> nat" where
  "bit_length n = (if n = 0 then 0 else Suc (bit_length (n div 2)))"

declare bit_length.simps [simp del]

text \<open>
  The value \<open>m * 2^e\<close>, or one strictly between it and \<open>(m + 1) * 2^e\<close> when \<open>sticky\<close>,
  rounded to the nearest float32. The sticky case is used with a mantissa of at least 36 bits.
\<close>

definition f32_encode :: "bool \<Rightarrow> nat \<Rightarrow> f32" where
  "f32_encode s n = (if 0x7F800000 \<le> n then f32_inf s else f32_pack s n)"

definition f32_round :: "bool \<Rightarrow> nat \<Rightarrow> int \<Rightarrow> bool \<Rightarrow> f32" where
  "f32_round s m e sticky =
     (if m = 0 then f32_pack s 0
      else let t = max (e + int (bit_length m) - 24) (- 149);
               q = (if t \<le> e then m * 2 ^ nat (e - t)
                    else let k = nat (t - e); q = m div 2 ^ k; r = m mod 2 ^ k; half = 2 ^ (k - 1)
                         in if half < r \<or> r = half \<and> (sticky \<or> odd q) then q + 1 else q)
           in f32_encode s (nat (t + 149) * 2 ^ 23 + q))"

section \<open>The operations\<close>

definition f32_neg :: "f32 \<Rightarrow> f32" where
  "f32_neg x = x XOR 0x80000000"

definition f32_abs :: "f32 \<Rightarrow> f32" where
  "f32_abs x = x AND 0x7FFFFFFF"

definition signed_mantissa :: "bool \<Rightarrow> nat \<Rightarrow> int" where
  "signed_mantissa s m = (if s then - int m else int m)"

definition f32_add :: "f32 \<Rightarrow> f32 \<Rightarrow> f32" where
  "f32_add x y = (case (f32_unpack x, f32_unpack y) of
       (NaN, _) \<Rightarrow> f32_canonical_nan
     | (_, NaN) \<Rightarrow> f32_canonical_nan
     | (Infinity s, Infinity t) \<Rightarrow> if s = t then f32_inf s else f32_canonical_nan
     | (Infinity s, _) \<Rightarrow> f32_inf s
     | (_, Infinity t) \<Rightarrow> f32_inf t
     | (Finite s m e, Finite t n f) \<Rightarrow>
         let g = min e f;
             c = signed_mantissa s (m * 2 ^ nat (e - g)) + signed_mantissa t (n * 2 ^ nat (f - g))
         in if c = 0 then f32_pack (s \<and> t) 0 else f32_round (c < 0) (nat \<bar>c\<bar>) g False)"

definition f32_sub :: "f32 \<Rightarrow> f32 \<Rightarrow> f32" where
  "f32_sub x y = f32_add x (f32_neg y)"

definition f32_mul :: "f32 \<Rightarrow> f32 \<Rightarrow> f32" where
  "f32_mul x y = (case (f32_unpack x, f32_unpack y) of
       (NaN, _) \<Rightarrow> f32_canonical_nan
     | (_, NaN) \<Rightarrow> f32_canonical_nan
     | (Infinity s, Infinity t) \<Rightarrow> f32_inf (s \<noteq> t)
     | (Infinity s, Finite t n f) \<Rightarrow> if n = 0 then f32_canonical_nan else f32_inf (s \<noteq> t)
     | (Finite s m e, Infinity t) \<Rightarrow> if m = 0 then f32_canonical_nan else f32_inf (s \<noteq> t)
     | (Finite s m e, Finite t n f) \<Rightarrow> f32_round (s \<noteq> t) (m * n) (e + f) False)"

definition f32_div :: "f32 \<Rightarrow> f32 \<Rightarrow> f32" where
  "f32_div x y = (case (f32_unpack x, f32_unpack y) of
       (NaN, _) \<Rightarrow> f32_canonical_nan
     | (_, NaN) \<Rightarrow> f32_canonical_nan
     | (Infinity s, Infinity t) \<Rightarrow> f32_canonical_nan
     | (Infinity s, Finite t n f) \<Rightarrow> f32_inf (s \<noteq> t)
     | (Finite s m e, Infinity t) \<Rightarrow> f32_pack (s \<noteq> t) 0
     | (Finite s m e, Finite t n f) \<Rightarrow>
         if n = 0 then (if m = 0 then f32_canonical_nan else f32_inf (s \<noteq> t))
         else f32_round (s \<noteq> t) (m * 2 ^ 60 div n) (e - f - 60) (m * 2 ^ 60 mod n \<noteq> 0))"

fun isqrt :: "nat \<Rightarrow> nat" where
  "isqrt n = (if n = 0 then 0
     else let r = 2 * isqrt (n div 4) in if (r + 1) * (r + 1) \<le> n then r + 1 else r)"

declare isqrt.simps [simp del]

definition f32_sqrt :: "f32 \<Rightarrow> f32" where
  "f32_sqrt x = (case f32_unpack x of
       NaN \<Rightarrow> f32_canonical_nan
     | Infinity s \<Rightarrow> if s then f32_canonical_nan else x
     | Finite s m e \<Rightarrow>
         if m = 0 then x
         else if s then f32_canonical_nan
         else let (m', e') = (if odd e then (2 * m, e - 1) else (m, e));
                  n = m' * 2 ^ 80; r = isqrt n
              in f32_round False r ((e' - 80) div 2) (r * r \<noteq> n))"

definition f32_of_int :: "int \<Rightarrow> f32" where
  "f32_of_int i = f32_round (i < 0) (nat \<bar>i\<bar>) 0 False"

text \<open>
  \<open>int(math.Floor(float64(x)))\<close> and \<open>int(math.Trunc(float64(x)))\<close>; the conversion of a value
  that no \<open>int\<close> holds is the least \<open>int\<close>, as on amd64.
\<close>

definition int_of_f32 :: "(bool \<Rightarrow> nat \<Rightarrow> int \<Rightarrow> int) \<Rightarrow> f32 \<Rightarrow> int" where
  "int_of_f32 to_int x = (case f32_unpack x of
       Finite s m e \<Rightarrow>
         let i = to_int s m e in if - (2 ^ 63) \<le> i \<and> i < 2 ^ 63 then i else - (2 ^ 63)
     | _ \<Rightarrow> - (2 ^ 63))"

definition f32_floor :: "f32 \<Rightarrow> int" where
  "f32_floor = int_of_f32 (\<lambda>s m e.
     if 0 \<le> e then signed_mantissa s m * 2 ^ nat e else signed_mantissa s m div 2 ^ nat (- e))"

definition f32_trunc :: "f32 \<Rightarrow> int" where
  "f32_trunc = int_of_f32 (\<lambda>s m e.
     if 0 \<le> e then signed_mantissa s m * 2 ^ nat e
     else signed_mantissa s (m div 2 ^ nat (- e)))"

section \<open>Integer square roots\<close>

lemma isqrt_correct: "isqrt n * isqrt n \<le> n \<and> n < (isqrt n + 1) * (isqrt n + 1)"
proof (induction n rule: isqrt.induct)
  case (1 n)
  show ?case
  proof (cases "n = 0")
    case True
    then show ?thesis by (simp add: isqrt.simps)
  next
    case False
    define r where "r = isqrt (n div 4)"
    have r: "r * r \<le> n div 4" "n div 4 < (r + 1) * (r + 1)" using 1 [OF False] by (simp_all add: r_def)
    have "4 * (r * r) \<le> n" using r(1) by linarith
    moreover have "n < 4 * ((r + 1) * (r + 1))" using r(2) by linarith
    ultimately show ?thesis
      using False by (subst (1 2 3 4) isqrt.simps) (auto simp: Let_def algebra_simps r_def [symmetric])
  qed
qed

section \<open>Signs\<close>

definition sign_clear :: "f32 \<Rightarrow> bool" where
  "sign_clear x = (f32_nan x \<or> \<not> bit x 31)"

lemma sign_clear_not_negative: "sign_clear x \<Longrightarrow> \<not> f32_negative x"
proof -
  assume "sign_clear x"
  moreover have "f32_key 0 = 0" by (simp add: f32_key_def)
  moreover have "0 \<le> f32_key x" if "\<not> bit x 31" using that by (simp add: f32_key_def)
  ultimately show ?thesis by (auto simp: sign_clear_def f32_lt_def)
qed

lemma bit31_pack: "n < 2 ^ 31 \<Longrightarrow> \<not> bit (f32_pack False n) 31"
proof -
  assume "n < 2 ^ 31"
  then have "unat (of_nat n :: f32) = n" by (simp add: unsigned_of_nat take_bit_nat_eq_self)
  moreover have "bit (unat (of_nat n :: f32)) 31 = bit (of_nat n :: f32) 31"
    by (simp add: bit_unsigned_iff)
  ultimately show ?thesis
    using \<open>n < 2 ^ 31\<close> by (simp add: f32_pack_def bit_iff_odd [of n])
qed

lemma sign_clear_pack: "n < 2 ^ 31 \<Longrightarrow> sign_clear (f32_pack False n)"
  using bit31_pack by (simp add: sign_clear_def)

lemma sign_clear_zero [simp, intro]: "sign_clear 0"
  by (simp add: sign_clear_def)

lemma sign_clear_constants [simp, intro]:
  "sign_clear f32_canonical_nan" "sign_clear (f32_inf False)" "sign_clear (f32_pack False 0)"
proof -
  show "sign_clear f32_canonical_nan"
    by (simp add: sign_clear_def f32_canonical_nan_def f32_nan_def)
  show "sign_clear (f32_inf False)" "sign_clear (f32_pack False 0)"
    by (simp_all only: f32_inf_def, (rule sign_clear_pack, simp)+)
qed

lemma sign_clear_encode [intro]: "sign_clear (f32_encode False n)"
  by (auto simp: f32_encode_def intro!: sign_clear_pack)

lemma sign_clear_round [intro]: "sign_clear (f32_round False m e sticky)"
  by (simp add: f32_round_def Let_def sign_clear_encode)

lemma sign_clear_abs [intro]: "sign_clear (f32_abs x)"
proof -
  have "\<not> bit (0x7FFFFFFF :: f32) 31" by simp
  then show ?thesis unfolding sign_clear_def f32_abs_def bit_and_iff by blast
qed

lemma unpack_nan: "f32_nan x \<longleftrightarrow> f32_unpack x = NaN"
proof -
  define n where "n = unat x"
  have y: "unat (x AND 0x7FFFFFFF) = n mod 2 ^ 31"
  proof -
    have "(0x7FFFFFFF :: f32) = mask 31" by (simp add: mask_eq_exp_minus_1)
    then have eq: "x AND 0x7FFFFFFF = take_bit 31 x" by (simp add: take_bit_eq_mask)
    show ?thesis unfolding eq n_def unsigned_take_bit_eq by (simp add: take_bit_eq_mod)
  qed
  have e: "unat (take_bit 8 (drop_bit 23 x)) = n div 2 ^ 23 mod 2 ^ 8"
    using unsigned_less [where ?'a = nat, of x]
    unfolding n_def unsigned_take_bit_eq unsigned_drop_bit_eq
    by (simp add: take_bit_eq_mod drop_bit_eq_div)
  have m: "unat (take_bit 23 x) = n mod 2 ^ 23"
    unfolding n_def unsigned_take_bit_eq by (simp add: take_bit_eq_mod)
  have "n mod (2 ^ 23 * 2 ^ 8) = 2 ^ 23 * (n div 2 ^ 23 mod 2 ^ 8) + n mod 2 ^ 23"
    by (rule mod_mult2_eq)
  moreover have "n div 2 ^ 23 mod 2 ^ 8 < 2 ^ 8" "n mod 2 ^ 23 < 2 ^ 23" by simp_all
  ultimately have "0x7F800000 < n mod 2 ^ 31 \<longleftrightarrow> n div 2 ^ 23 mod 2 ^ 8 = 255 \<and> n mod 2 ^ 23 \<noteq> 0"
    by (simp del: mod_less_divisor) arith
  then show ?thesis
    unfolding f32_nan_def f32_unpack_def Let_def word_less_nat_alt y e m by simp
qed

lemma unpack_sign: "f32_unpack x = Finite s m e \<Longrightarrow> s = bit x 31"
  "f32_unpack x = Infinity s \<Longrightarrow> s = bit x 31"
  by (auto simp: f32_unpack_def Let_def split: if_splits)

lemma unpack_clear:
  assumes "sign_clear x"
  obtains "f32_unpack x = NaN" | "f32_unpack x = Infinity False"
  | m e where "f32_unpack x = Finite False m e"
  using assms unpack_nan [of x] unpack_sign [of x]
  by (cases "f32_unpack x") (auto simp: sign_clear_def)

lemma sign_clear_add [intro]:
  assumes "sign_clear x" "sign_clear y"
  shows "sign_clear (f32_add x y)"
proof -
  have pos: "\<not> int m * 2 ^ i + int n * 2 ^ j < 0" for m n i j :: nat
    by (simp add: not_less)
  show ?thesis
    using assms
    by (elim unpack_clear) (simp_all add: f32_add_def Let_def signed_mantissa_def pos sign_clear_round)
qed

lemma sign_clear_square [intro]: "sign_clear (f32_mul x x)"
  by (cases "f32_unpack x") (auto simp: f32_mul_def)

lemma sqrt_not_negative: "sign_clear x \<Longrightarrow> sign_clear (f32_sqrt x)"
  by (erule unpack_clear)
    (auto simp: f32_sqrt_def Let_def sign_clear_def [of x] dest: unpack_sign split: prod.splits)

end
