(* ===== verification/Vectors.thy ===== *)
theory Vectors
  imports Float32 Wire
begin

text \<open>
  Package \<open>math\<close> (\<open>math.go\<close>, \<open>vector.go\<close>, the exponential of \<open>random.go\<close>) and package
  \<open>index/space\<close>. The SIMD kernels are assembly, so a space runs on an implementation given as
  a record of three functions; \<open>native_impl\<close> is the one written in Go. A vector operation
  panics (\<open>None\<close>) where the Go code indexes past the end of the shorter operand.

  The lemmas show the round trip of \<open>Save\<close> and \<open>Load\<close> and that the Euclidean and Manhattan
  distances of the native implementation, and the cosine distance of any implementation, are
  never negative, which is what \<open>PriorityQueue.Push\<close> demands of its priorities.
\<close>

section \<open>\<open>math.go\<close>\<close>

definition max_int_val :: int where
  "max_int_val = 2 ^ 63 - 1"

definition min_float :: "f32 list \<Rightarrow> f32" where
  "min_float values = fold (\<lambda>v m. if f32_lt v m then v else m) values max_float"

definition max_float_of :: "f32 list \<Rightarrow> f32" where
  "max_float_of values = fold (\<lambda>v m. if f32_lt m v then v else m) values (f32_neg max_float)"

definition min_int :: "int list \<Rightarrow> int" where
  "min_int values = fold (\<lambda>v m. if v < m then v else m) values max_int_val"

definition max_int :: "int list \<Rightarrow> int" where
  "max_int values = fold (\<lambda>v m. if v > m then v else m) values (- max_int_val)"

definition square :: "f32 \<Rightarrow> f32" where
  "square x = f32_mul x x"

text \<open>\<open>RandomExponential\<close>, given the number the generator returned and the logarithm.\<close>

definition random_exponential :: "(f32 \<Rightarrow> f32) \<Rightarrow> f32 \<Rightarrow> f32 \<Rightarrow> f32" where
  "random_exponential lg r lambda = f32_mul (f32_neg (lg r)) lambda"

lemma min_int_pair: "a \<le> max_int_val \<Longrightarrow> b \<le> max_int_val \<Longrightarrow> min_int [a, b] = min a b"
  by (auto simp: min_int_def)

lemma max_int_pair: "- max_int_val \<le> a \<Longrightarrow> - max_int_val \<le> b \<Longrightarrow> max_int [a, b] = max a b"
  by (auto simp: max_int_def)

section \<open>\<open>vector.go\<close>\<close>

definition vector_save :: "vec \<Rightarrow> bytes" where
  "vector_save v = concat (map (be_bytes 4) v)"

text \<open>\<open>Load\<close> overwrites the components one by one and stops at the first error.\<close>

fun vector_load :: "nat \<Rightarrow> ('s, vec) reader" where
  "vector_load 0 = ret []"
| "vector_load (Suc n) = andthen (read_word 4) (\<lambda>x. andthen (vector_load n) (\<lambda>v. ret (x # v)))"

text \<open>
  \<open>VectorFromBytes\<close>: \<open>binary.Read\<close> of each element from its own reader; bytes after the
  fourth are ignored.
\<close>

fun vector_from_bytes :: "bytes list \<Rightarrow> error + vec" where
  "vector_from_bytes [] = Inr []"
| "vector_from_bytes (b # bs) =
     (case read_word 4 ((), b) of
        Some (Inr x, _) \<Rightarrow> (case vector_from_bytes bs of Inl e \<Rightarrow> Inl e | Inr v \<Rightarrow> Inr (x # v))
      | Some (Inl e, _) \<Rightarrow> Inl e
      | None \<Rightarrow> Inl EOF)"

definition zeros_vector :: "nat \<Rightarrow> vec" where
  "zeros_vector n = replicate n 0"

definition ones_vector :: "nat \<Rightarrow> vec" where
  "ones_vector n = replicate n 0x3F800000"

text \<open>The loop \<open>for i := 0; i < len(a); i++ { acc += f(a[i], b[i]) }\<close>.\<close>

fun accumulate :: "(f32 \<Rightarrow> f32 \<Rightarrow> f32) \<Rightarrow> f32 \<Rightarrow> vec \<Rightarrow> vec \<Rightarrow> f32 option" where
  "accumulate f acc [] b = Some acc"
| "accumulate f acc (x # a) [] = None"
| "accumulate f acc (x # a) (y # b) = accumulate f (f32_add acc (f x y)) a b"

definition dot :: "vec \<Rightarrow> vec \<Rightarrow> f32 option" where
  "dot a b = accumulate f32_mul 0 a b"

definition vector_length :: "vec \<Rightarrow> f32 option" where
  "vector_length a = map_option f32_sqrt (dot a a)"

definition same_dim :: "vec \<Rightarrow> vec \<Rightarrow> bool" where
  "same_dim a b = (length a = length b)"

definition vector_zip :: "(f32 \<Rightarrow> f32 \<Rightarrow> f32) \<Rightarrow> vec \<Rightarrow> vec \<Rightarrow> vec option" where
  "vector_zip f a b = (if same_dim a b then Some (map2 f a b) else None)"

definition vector_add :: "vec \<Rightarrow> vec \<Rightarrow> vec option" where
  "vector_add = vector_zip f32_add"

definition vector_subtract :: "vec \<Rightarrow> vec \<Rightarrow> vec option" where
  "vector_subtract = vector_zip f32_sub"

definition vector_multiply :: "vec \<Rightarrow> vec \<Rightarrow> vec option" where
  "vector_multiply = vector_zip f32_mul"

definition vector_divide :: "vec \<Rightarrow> vec \<Rightarrow> vec option" where
  "vector_divide = vector_zip f32_div"

definition vector_scalar_add :: "vec \<Rightarrow> f32 \<Rightarrow> vec" where
  "vector_scalar_add a b = map (\<lambda>x. f32_add x b) a"

definition vector_scalar_subtract :: "vec \<Rightarrow> f32 \<Rightarrow> vec" where
  "vector_scalar_subtract a b = map (\<lambda>x. f32_sub x b) a"

definition vector_scalar_multiply :: "vec \<Rightarrow> f32 \<Rightarrow> vec" where
  "vector_scalar_multiply a b = map (\<lambda>x. f32_mul x b) a"

definition vector_scalar_divide :: "vec \<Rightarrow> f32 \<Rightarrow> vec" where
  "vector_scalar_divide a b = map (\<lambda>x. f32_div x b) a"

lemma vector_load_save [wire_simps]:
  "vector_load (length v) (s, vector_save v @ rest) = Some (Inr v, (s, rest))"
  by (induction v) (simp_all add: vector_save_def wire_simps)

lemma length_vector_save [simp]: "length (vector_save v) = 4 * length v"
  by (induction v) (simp_all add: vector_save_def)

lemma vector_from_bytes_encoded: "vector_from_bytes (map (be_bytes 4) v) = Inr v"
proof -
  have "read_word 4 ((), be_bytes 4 x) = Some (Inr x, ((), []))" for x :: f32
    using read_word_append [where ?'a = 32 and ?'b = unit, of 4 "()" x "[]"] by simp
  then show ?thesis by (induction v) simp_all
qed

section \<open>\<open>index/space\<close>\<close>

datatype space = Euclidean | Manhattan | Cosine

record space_impl =
  euclidean_distance :: "vec \<Rightarrow> vec \<Rightarrow> f32"
  manhattan_distance :: "vec \<Rightarrow> vec \<Rightarrow> f32"
  cosine_distance :: "vec \<Rightarrow> vec \<Rightarrow> f32"

fun space_distance :: "space_impl \<Rightarrow> space \<Rightarrow> vec \<Rightarrow> vec \<Rightarrow> f32" where
  "space_distance impl Euclidean a b = euclidean_distance impl a b"
| "space_distance impl Manhattan a b = manhattan_distance impl a b"
| "space_distance impl Cosine a b = f32_abs (cosine_distance impl a b)"

definition native_euclidean :: "vec \<Rightarrow> vec \<Rightarrow> f32 option" where
  "native_euclidean a b = map_option f32_sqrt (accumulate (\<lambda>x y. square (f32_sub x y)) 0 a b)"

definition native_manhattan :: "vec \<Rightarrow> vec \<Rightarrow> f32 option" where
  "native_manhattan a b = accumulate (\<lambda>x y. f32_abs (f32_sub x y)) 0 a b"

definition native_cosine :: "vec \<Rightarrow> vec \<Rightarrow> f32 option" where
  "native_cosine a b = do {
     d \<leftarrow> accumulate f32_mul 0 a b;
     a_norm \<leftarrow> accumulate (\<lambda>x y. square x) 0 a b;
     b_norm \<leftarrow> accumulate (\<lambda>x y. square y) 0 a b;
     Some (f32_sub 0x3F800000 (f32_div d (f32_mul (f32_sqrt a_norm) (f32_sqrt b_norm)))) }"

text \<open>
  The native implementation on operands of one dimension. A panic of a distance is a NaN here:
  the index compares vectors of one length only.
\<close>

definition native_impl :: space_impl where
  "native_impl = \<lparr>
     euclidean_distance = (\<lambda>a b. case native_euclidean a b of None \<Rightarrow> f32_canonical_nan | Some d \<Rightarrow> d),
     manhattan_distance = (\<lambda>a b. case native_manhattan a b of None \<Rightarrow> f32_canonical_nan | Some d \<Rightarrow> d),
     cosine_distance = (\<lambda>a b. case native_cosine a b of None \<Rightarrow> f32_canonical_nan | Some d \<Rightarrow> d)\<rparr>"

lemma accumulate_same_dim: "same_dim a b \<Longrightarrow> \<exists>d. accumulate f acc a b = Some d"
  by (induction f acc a b rule: accumulate.induct) (simp_all add: same_dim_def)

lemma accumulate_sign: "accumulate f acc a b = Some d \<Longrightarrow> sign_clear acc \<Longrightarrow>
    (\<And>x y. sign_clear (f x y)) \<Longrightarrow> sign_clear d"
  by (induction f acc a b rule: accumulate.induct) (auto simp: sign_clear_add)

lemma native_euclidean_sign: "native_euclidean a b = Some d \<Longrightarrow> sign_clear d"
  by (auto simp: native_euclidean_def square_def intro!: sqrt_not_negative dest: accumulate_sign)

lemma native_manhattan_sign: "native_manhattan a b = Some d \<Longrightarrow> sign_clear d"
  by (auto simp: native_manhattan_def dest: accumulate_sign)

text \<open>What the index asks of its space: a distance \<open>Push\<close> accepts.\<close>

definition accepted_distance :: "(vec \<Rightarrow> vec \<Rightarrow> f32) \<Rightarrow> bool" where
  "accepted_distance D = (\<forall>a b. \<not> f32_negative (D a b))"

lemma accepted_distanceD: "accepted_distance D \<Longrightarrow> \<not> f32_negative (D a b)"
  by (simp add: accepted_distance_def)

lemma accepted_cosine: "accepted_distance (space_distance impl Cosine)"
  by (simp add: accepted_distance_def sign_clear_not_negative sign_clear_abs)

lemma accepted_native: "accepted_distance (space_distance native_impl s)"
proof (cases s)
  case Euclidean
  then show ?thesis
    by (auto simp: accepted_distance_def native_impl_def split: option.splits
        intro!: sign_clear_not_negative dest: native_euclidean_sign)
next
  case Manhattan
  then show ?thesis
    by (auto simp: accepted_distance_def native_impl_def split: option.splits
        intro!: sign_clear_not_negative dest: native_manhattan_sign)
qed (simp add: accepted_cosine)

end
