(* ===== verification/HnswVertex.thy ===== *)
theory HnswVertex
  imports Metadata Vectors
begin

text \<open>
  \<open>index/hnsw_vertex.go\<close>. Vertices are shared by pointer (edge sets are maps whose keys are
  pointers, a removed vertex lives on in the edges that lead to it), so they live in a store: a
  list of vertices, where pointer \<open>n + 1\<close> is the vertex at position \<open>n\<close> and \<open>0\<close> is nil. The
  operations that mutate a vertex map stores to stores; a nil dereference and an index past the
  last level are panics (\<open>None\<close>).

  The lemmas give the store two views, the edge sets (\<open>edges_of\<close>) and everything else
  (\<open>core\<close>), what each operation does to both, and the well-formedness \<open>graph_ok\<close> that every
  operation of the index keeps: an edge at level \<open>l\<close> leads to a vertex that has level \<open>l\<close>.
\<close>

section \<open>Vertices and their store\<close>

type_synonym ptr = nat
type_synonym edge_set = "(ptr \<times> f32) list"

record vertex =
  vid :: uuid
  vvector :: vec
  vmetadata :: metadata
  vlevel :: int
  vdeleted :: "32 word"
  vedges :: "edge_set list"

type_synonym store = "vertex list"

definition nil :: ptr where
  "nil = 0"

definition deref :: "store \<Rightarrow> ptr \<Rightarrow> vertex option" where
  "deref st p = (if p = nil \<or> length st < p then None else Some (st ! (p - 1)))"

definition put :: "store \<Rightarrow> ptr \<Rightarrow> vertex \<Rightarrow> store" where
  "put st p v = st[p - 1 := v]"

definition alloc :: "store \<Rightarrow> vertex \<Rightarrow> ptr \<times> store" where
  "alloc st v = (length st + 1, st @ [v])"

text \<open>\<open>setLevel\<close> replaces the edge sets and leaves the field \<open>level\<close> alone.\<close>

definition set_level :: "int \<Rightarrow> vertex \<Rightarrow> vertex option" where
  "set_level l v = (if l + 1 < 0 then None else Some (v\<lparr>vedges := replicate (nat (l + 1)) []\<rparr>))"

definition new_vertex :: "uuid \<Rightarrow> vec \<Rightarrow> metadata \<Rightarrow> int \<Rightarrow> vertex option" where
  "new_vertex i x m l =
     set_level l \<lparr>vid = i, vvector = x, vmetadata = m, vlevel = l, vdeleted = 0, vedges = []\<rparr>"

definition is_deleted :: "vertex \<Rightarrow> bool" where
  "is_deleted v = (vdeleted v = 1)"

definition set_deleted :: "store \<Rightarrow> ptr \<Rightarrow> store option" where
  "set_deleted st p = do { v \<leftarrow> deref st p; Some (put st p (v\<lparr>vdeleted := 1\<rparr>)) }"

definition edges_at :: "vertex \<Rightarrow> int \<Rightarrow> edge_set option" where
  "edges_at v l = (if 0 \<le> l \<and> l < int (length (vedges v)) then Some (vedges v ! nat l) else None)"

definition edges_of :: "store \<Rightarrow> ptr \<Rightarrow> int \<Rightarrow> edge_set option" where
  "edges_of st p l = do { v \<leftarrow> deref st p; edges_at v l }"

definition set_edges :: "ptr \<Rightarrow> int \<Rightarrow> edge_set \<Rightarrow> store \<Rightarrow> store option" where
  "set_edges p l es st = do {
     v \<leftarrow> deref st p;
     _ \<leftarrow> edges_at v l;
     Some (put st p (v\<lparr>vedges := (vedges v)[nat l := es]\<rparr>)) }"

definition add_edge :: "ptr \<Rightarrow> int \<Rightarrow> ptr \<Rightarrow> f32 \<Rightarrow> store \<Rightarrow> store option" where
  "add_edge p l q d st = do { es \<leftarrow> edges_of st p l; set_edges p l (AList.update q d es) st }"

definition remove_edge :: "ptr \<Rightarrow> int \<Rightarrow> ptr \<Rightarrow> store \<Rightarrow> store option" where
  "remove_edge p l q st = do { es \<leftarrow> edges_of st p l; set_edges p l (AList.delete q es) st }"

definition edges_count :: "store \<Rightarrow> ptr \<Rightarrow> int \<Rightarrow> int option" where
  "edges_count st p l = map_option (\<lambda>es. int (length es)) (edges_of st p l)"

definition vertex_bytes_size :: "vertex \<Rightarrow> 64 word" where
  "vertex_bytes_size v = 16 + 4 * of_nat (length (vvector v)) + metadata_bytes_size (vmetadata v)"

section \<open>Two views of a store\<close>

definition core :: "store \<Rightarrow> ptr \<Rightarrow> vertex option" where
  "core st p = map_option (vedges_update (\<lambda>_. [])) (deref st p)"

definition has_level :: "store \<Rightarrow> ptr \<Rightarrow> int \<Rightarrow> bool" where
  "has_level st p l = (edges_of st p l \<noteq> None)"

lemma deref_put [simp]: "deref st p \<noteq> None \<Longrightarrow>
    deref (put st p v) q = (if q = p then Some v else deref st q)"
  by (auto simp: deref_def put_def nil_def split: if_splits)

lemma deref_nil [simp]: "deref st nil = None" "deref st 0 = None"
  by (simp_all add: deref_def nil_def)

lemma deref_alloc: "deref (st @ [v]) q = (if q = Suc (length st) then Some v else deref st q)"
  by (auto simp: deref_def nil_def nth_append)

lemma deref_fresh [simp]: "deref st (Suc (length st)) = None"
  by (simp add: deref_def)

lemma deref_SomeD: "deref st p = Some v \<Longrightarrow> p \<in> {1..length st}"
  by (auto simp: deref_def nil_def split: if_splits)

lemma core_eqD: "core st = core st' \<Longrightarrow> deref st p = Some v \<Longrightarrow>
    \<exists>w. deref st' p = Some w \<and> vid w = vid v \<and> vvector w = vvector v \<and> vmetadata w = vmetadata v \<and>
        vlevel w = vlevel v \<and> vdeleted w = vdeleted v"
proof -
  assume "core st = core st'" and v: "deref st p = Some v"
  then have "map_option (vedges_update (\<lambda>_. [])) (deref st' p) = Some (vedges_update (\<lambda>_. []) v)"
    by (metis core_def option.map(2))
  then obtain w where "deref st' p = Some w" "vedges_update (\<lambda>_. []) w = vedges_update (\<lambda>_. []) v"
    by (cases "deref st' p") auto
  then show ?thesis by (intro exI [of _ w]) (cases v, cases w, simp)
qed

lemma core_eq_None: "core st = core st' \<Longrightarrow> deref st p = None \<longleftrightarrow> deref st' p = None"
  by (metis core_def option.map_disc_iff)

lemma set_edges_total: "has_level st p l \<Longrightarrow> \<exists>st'. set_edges p l es st = Some st'"
  by (auto simp: has_level_def edges_of_def set_edges_def bind_eq_None_conv)

lemma edges_of_SomeE:
  assumes "edges_of st p l = Some es"
  obtains v where "deref st p = Some v" "edges_at v l = Some es"
  using assms by (auto simp: edges_of_def bind_eq_Some_conv)

lemma set_edges_core: "set_edges p l es st = Some st' \<Longrightarrow> core st' = core st"
  by (auto simp: set_edges_def core_def bind_eq_Some_conv fun_eq_iff)

lemma set_edges_length: "set_edges p l es st = Some st' \<Longrightarrow> length st' = length st"
  by (auto simp: set_edges_def put_def bind_eq_Some_conv)

lemma edges_of_set_edges:
  assumes "set_edges p l es st = Some st'"
  shows "edges_of st' p' l' = (if p' = p \<and> l' = l then Some es else edges_of st p' l')"
proof -
  obtain v xs where v: "deref st p = Some v" "edges_at v l = Some xs"
    and st': "st' = put st p (v\<lparr>vedges := (vedges v)[nat l := es]\<rparr>)"
    using assms by (auto simp: set_edges_def bind_eq_Some_conv)
  then show ?thesis
    by (cases "p' = p") (auto simp: edges_of_def edges_at_def nth_list_update split: if_splits)
qed

lemma has_level_set_edges: "set_edges p l es st = Some st' \<Longrightarrow> has_level st' p' l' = has_level st p' l'"
proof -
  assume set: "set_edges p l es st = Some st'"
  then have "has_level st p l"
    by (auto simp: set_edges_def has_level_def edges_of_def bind_eq_Some_conv)
  then show ?thesis by (auto simp: has_level_def edges_of_set_edges [OF set])
qed

section \<open>Well-formed graphs\<close>

definition edges_ok :: "store \<Rightarrow> int \<Rightarrow> edge_set \<Rightarrow> bool" where
  "edges_ok st l es =
     (distinct (map fst es) \<and> (\<forall>(q, d) \<in> set es. \<not> f32_negative d \<and> has_level st q l))"

definition graph_ok :: "store \<Rightarrow> bool" where
  "graph_ok st =
     ((\<forall>p v. deref st p = Some v \<longrightarrow> int (length (vedges v)) = vlevel v + 1) \<and>
      (\<forall>p l es. edges_of st p l = Some es \<longrightarrow> edges_ok st l es))"

lemma graph_ok_edges: "graph_ok st \<Longrightarrow> edges_of st p l = Some es \<Longrightarrow> edges_ok st l es"
  by (simp add: graph_ok_def)

lemma has_level_iff: "graph_ok st \<Longrightarrow>
    has_level st p l \<longleftrightarrow> (\<exists>v. deref st p = Some v \<and> 0 \<le> l \<and> l \<le> vlevel v)"
  by (auto simp: graph_ok_def has_level_def edges_of_def edges_at_def bind_eq_None_conv
      split: if_splits)

lemma has_level_mono: "graph_ok st \<Longrightarrow> has_level st p l \<Longrightarrow> 0 \<le> k \<Longrightarrow> k \<le> l \<Longrightarrow> has_level st p k"
  by (auto simp: has_level_iff)

lemma has_levelE:
  assumes "has_level st p l"
  obtains v es where "deref st p = Some v" "edges_at v l = Some es" "edges_of st p l = Some es"
  using assms by (auto simp: has_level_def edges_of_def bind_eq_None_conv)

lemma edges_ok_update: "edges_ok st l es \<Longrightarrow> \<not> f32_negative d \<Longrightarrow> has_level st q l \<Longrightarrow>
    edges_ok st l (AList.update q d es)"
  by (auto simp: edges_ok_def set_AList_update)

lemma edges_ok_delete: "edges_ok st l es \<Longrightarrow> edges_ok st l (AList.delete q es)"
  by (auto simp: edges_ok_def set_AList_delete)

text \<open>
  \<open>frame st st'\<close>: a step that changed nothing but edge sets. It is the footprint of all the
  graph surgery of the index.
\<close>

definition frame :: "store \<Rightarrow> store \<Rightarrow> bool" where
  "frame st st' = (core st' = core st \<and> length st' = length st \<and> graph_ok st' \<and>
     (\<forall>p l. has_level st' p l = has_level st p l))"

lemma frame_refl [intro]: "graph_ok st \<Longrightarrow> frame st st"
  by (simp add: frame_def)

lemma frame_trans [trans]: "frame st st' \<Longrightarrow> frame st' st'' \<Longrightarrow> frame st st''"
  by (simp add: frame_def)

lemma frameD:
  assumes "frame st st'"
  shows "core st' = core st" "length st' = length st" "graph_ok st'"
    "has_level st' p l = has_level st p l"
  using assms by (simp_all add: frame_def)

lemma set_edges_frame:
  assumes "graph_ok st" "set_edges p l es st = Some st'" "edges_ok st l es"
  shows "frame st st'"
proof -
  have lvl: "has_level st' p' l' = has_level st p' l'" for p' l'
    using assms(2) by (rule has_level_set_edges)
  have ok: "edges_ok st' l' xs = edges_ok st l' xs" for l' xs
    by (simp add: edges_ok_def lvl)
  have "edges_ok st' l' xs" if "edges_of st' p' l' = Some xs" for p' l' xs
    using that assms edges_of_set_edges [OF assms(2)] graph_ok_edges [OF assms(1)]
    by (auto simp: ok split: if_splits)
  moreover have "int (length (vedges v)) = vlevel v + 1" if "deref st' p' = Some v" for p' v
  proof -
    obtain w where "deref st p = Some w" "st' = put st p (w\<lparr>vedges := (vedges w)[nat l := es]\<rparr>)"
      using assms(2) by (auto simp: set_edges_def bind_eq_Some_conv)
    then show ?thesis using assms(1) that by (auto simp: graph_ok_def split: if_splits)
  qed
  ultimately show ?thesis
    using set_edges_core [OF assms(2)] set_edges_length [OF assms(2)] lvl
    by (auto simp: frame_def graph_ok_def)
qed

lemma add_edge_total: "has_level st p l \<Longrightarrow> \<exists>st'. add_edge p l q d st = Some st'"
  using set_edges_total [of st p l] by (auto simp: add_edge_def has_level_def)

lemma remove_edge_total: "has_level st p l \<Longrightarrow> \<exists>st'. remove_edge p l q st = Some st'"
  using set_edges_total [of st p l] by (auto simp: remove_edge_def has_level_def)

lemma add_edge_frame:
  assumes "graph_ok st" "add_edge p l q d st = Some st'" "\<not> f32_negative d" "has_level st q l"
  shows "frame st st'"
proof -
  obtain es where "edges_of st p l = Some es" "set_edges p l (AList.update q d es) st = Some st'"
    using assms(2) by (auto simp: add_edge_def bind_eq_Some_conv)
  then show ?thesis
    using assms by (auto intro: set_edges_frame edges_ok_update dest: graph_ok_edges)
qed

lemma remove_edge_frame: "graph_ok st \<Longrightarrow> remove_edge p l q st = Some st' \<Longrightarrow> frame st st'"
  by (auto simp: remove_edge_def bind_eq_Some_conv
      intro: set_edges_frame edges_ok_delete dest: graph_ok_edges)

lemma new_vertex_total: "-1 \<le> l \<Longrightarrow> \<exists>v. new_vertex i x m l = Some v"
  by (simp add: new_vertex_def set_level_def)

lemma new_vertex_fields:
  assumes "new_vertex i x m l = Some v"
  shows "vid v = i" "vvector v = x" "vmetadata v = m" "vlevel v = l" "vdeleted v = 0"
    "-1 \<le> l" "vedges v = replicate (nat (l + 1)) []"
  using assms by (auto simp: new_vertex_def set_level_def split: if_splits)

lemma graph_ok_alloc:
  assumes "graph_ok st" "new_vertex i x m l = Some v"
  shows "graph_ok (st @ [v])"
proof -
  note fields = new_vertex_fields [OF assms(2)]
  have edges: "edges_of (st @ [v]) p l' =
      (if p = Suc (length st) then edges_at v l' else edges_of st p l')" for p l'
    by (simp add: edges_of_def deref_alloc)
  have old: "has_level (st @ [v]) p l'" if "has_level st p l'" for p l'
    using that by (auto simp: has_level_def edges, auto simp: edges_of_def)
  have "edges_ok (st @ [v]) l' es" if "edges_of (st @ [v]) p l' = Some es" for p l' es
    using that graph_ok_edges [OF assms(1), of p l' es] old
    by (auto simp: edges edges_ok_def edges_at_def fields split: if_splits)
  moreover have "int (length (vedges w)) = vlevel w + 1" if "deref (st @ [v]) p = Some w" for p w
    using that assms(1) fields by (auto simp: deref_alloc graph_ok_def split: if_splits)
  ultimately show ?thesis by (simp add: graph_ok_def)
qed

lemma set_deleted_total: "deref st p = Some v \<Longrightarrow> \<exists>st'. set_deleted st p = Some st'"
  by (simp add: set_deleted_def)

lemma set_deleted_edges: "set_deleted st p = Some st' \<Longrightarrow> edges_of st' p' l = edges_of st p' l"
  by (auto simp: set_deleted_def edges_of_def edges_at_def bind_eq_Some_conv)

lemma set_deleted_deref: "set_deleted st p = Some st' \<Longrightarrow>
    deref st' q = (if q = p then map_option (\<lambda>v. v\<lparr>vdeleted := 1\<rparr>) (deref st p) else deref st q)"
  by (auto simp: set_deleted_def bind_eq_Some_conv)

lemma set_deleted_length: "set_deleted st p = Some st' \<Longrightarrow> length st' = length st"
  by (auto simp: set_deleted_def put_def bind_eq_Some_conv)

lemma set_deleted_graph_ok:
  assumes "graph_ok st" "set_deleted st p = Some st'"
  shows "graph_ok st'"
proof -
  have "has_level st' q l = has_level st q l" for q l
    by (simp add: has_level_def set_deleted_edges [OF assms(2)])
  then have "edges_ok st' l es = edges_ok st l es" for l es by (simp add: edges_ok_def)
  then show ?thesis
    using assms(1) by (auto simp: graph_ok_def set_deleted_edges [OF assms(2)]
        set_deleted_deref [OF assms(2)] split: if_splits)
qed

end
