(* ===== verification/HnswConfig.thy ===== *)
theory HnswConfig
  imports Vectors
begin

text \<open>
  \<open>index/config.go\<close>: the parameters of an index, the functional options that set them, the
  defaults and the binary form. A Go \<open>int\<close> is an HOL integer, cut to 32 bits where the code
  does; the two booleans of the heuristic are not part of the binary form. The logarithm of
  \<open>newHnswConfig\<close> is a parameter.
\<close>

section \<open>The configuration and its options\<close>

record hnsw_config =
  cfg_search_algorithm :: int
  cfg_level_multiplier :: f32
  cfg_ef :: int
  cfg_ef_construction :: int
  cfg_m :: int
  cfg_m_max :: int
  cfg_m_max0 :: int
  cfg_extend_candidates :: bool
  cfg_keep_pruned :: bool

definition hnsw_search_simple :: int where
  "hnsw_search_simple = 0"

definition hnsw_search_heuristic :: int where
  "hnsw_search_heuristic = 1"

type_synonym hnsw_option = "hnsw_config \<Rightarrow> hnsw_config"

definition hnsw_level_multiplier :: "f32 \<Rightarrow> hnsw_option" where
  "hnsw_level_multiplier v c = c\<lparr>cfg_level_multiplier := v\<rparr>"

definition hnsw_ef :: "int \<Rightarrow> hnsw_option" where
  "hnsw_ef v c = c\<lparr>cfg_ef := v\<rparr>"

definition hnsw_ef_construction :: "int \<Rightarrow> hnsw_option" where
  "hnsw_ef_construction v c = c\<lparr>cfg_ef_construction := v\<rparr>"

definition hnsw_m :: "int \<Rightarrow> hnsw_option" where
  "hnsw_m v c = c\<lparr>cfg_m := v\<rparr>"

definition hnsw_m_max :: "int \<Rightarrow> hnsw_option" where
  "hnsw_m_max v c = c\<lparr>cfg_m_max := v\<rparr>"

definition hnsw_m_max0 :: "int \<Rightarrow> hnsw_option" where
  "hnsw_m_max0 v c = c\<lparr>cfg_m_max0 := v\<rparr>"

definition hnsw_search_algorithm :: "int \<Rightarrow> hnsw_option" where
  "hnsw_search_algorithm v c = c\<lparr>cfg_search_algorithm := v\<rparr>"

definition hnsw_heuristic_extend_candidates :: "bool \<Rightarrow> hnsw_option" where
  "hnsw_heuristic_extend_candidates v c = c\<lparr>cfg_extend_candidates := v\<rparr>"

definition hnsw_heuristic_keep_pruned :: "bool \<Rightarrow> hnsw_option" where
  "hnsw_heuristic_keep_pruned v c = c\<lparr>cfg_keep_pruned := v\<rparr>"

text \<open>The pattern of \<open>-1\<close> as a float32, the mark of a level multiplier that was not set.\<close>

definition f32_minus_one :: f32 where
  "f32_minus_one = 0xBF800000"

definition new_hnsw_config :: "(f32 \<Rightarrow> f32) \<Rightarrow> hnsw_option list \<Rightarrow> hnsw_config" where
  "new_hnsw_config lg options =
     (let c = fold (\<lambda>opt c. opt c) options \<lparr>
                cfg_search_algorithm = hnsw_search_simple,
                cfg_level_multiplier = f32_minus_one,
                cfg_ef = 20, cfg_ef_construction = 200, cfg_m = 16, cfg_m_max = -1, cfg_m_max0 = -1,
                cfg_extend_candidates = False, cfg_keep_pruned = True\<rparr>;
          c = (if cfg_level_multiplier c = f32_minus_one
               then c\<lparr>cfg_level_multiplier := f32_div 0x3F800000 (lg (f32_of_int (cfg_m c)))\<rparr> else c);
          c = (if cfg_m_max c = -1 then c\<lparr>cfg_m_max := cfg_m c\<rparr> else c)
      in (if cfg_m_max0 c = -1 then c\<lparr>cfg_m_max0 := 2 * cfg_m c\<rparr> else c))"

section \<open>The binary form\<close>

abbreviation write_int32 :: "int \<Rightarrow> bytes" where
  "write_int32 i \<equiv> be_bytes 4 (of_int i :: 32 word)"

definition config_save :: "hnsw_config \<Rightarrow> bytes" where
  "config_save c =
     be_bytes 4 (of_int (cfg_search_algorithm c) :: 32 word) @
     be_bytes 4 (cfg_level_multiplier c) @
     write_int32 (cfg_ef c) @ write_int32 (cfg_ef_construction c) @ write_int32 (cfg_m c) @
     write_int32 (cfg_m_max c) @ write_int32 (cfg_m_max0 c)"

text \<open>Each field is stored as soon as it is read: an error leaves the later fields as they were.\<close>

definition load_field :: "('a::len word \<Rightarrow> 's \<Rightarrow> 's) \<Rightarrow> ('s, unit) reader" where
  "load_field f = andthen (read_word 4) (\<lambda>x. modify (f x))"

definition config_load :: "(hnsw_config, unit) reader" where
  "config_load =
     andthen (load_field (\<lambda>x :: 32 word. cfg_search_algorithm_update (\<lambda>_. uint x))) (\<lambda>_.
     andthen (load_field (\<lambda>x :: 32 word. cfg_level_multiplier_update (\<lambda>_. x))) (\<lambda>_.
     andthen (load_field (\<lambda>x :: 32 word. cfg_ef_update (\<lambda>_. sint x))) (\<lambda>_.
     andthen (load_field (\<lambda>x :: 32 word. cfg_ef_construction_update (\<lambda>_. sint x))) (\<lambda>_.
     andthen (load_field (\<lambda>x :: 32 word. cfg_m_update (\<lambda>_. sint x))) (\<lambda>_.
     andthen (load_field (\<lambda>x :: 32 word. cfg_m_max_update (\<lambda>_. sint x))) (\<lambda>_.
     load_field (\<lambda>x :: 32 word. cfg_m_max0_update (\<lambda>_. sint x))))))))"

definition int32_fits :: "int \<Rightarrow> bool" where
  "int32_fits i = (- (2 ^ 31) \<le> i \<and> i < 2 ^ 31)"

definition config_fits :: "hnsw_config \<Rightarrow> bool" where
  "config_fits c =
     (0 \<le> cfg_search_algorithm c \<and> cfg_search_algorithm c < 2 ^ 32 \<and>
      int32_fits (cfg_ef c) \<and> int32_fits (cfg_ef_construction c) \<and> int32_fits (cfg_m c) \<and>
      int32_fits (cfg_m_max c) \<and> int32_fits (cfg_m_max0 c))"

lemma sint_of_int_fits: "int32_fits i \<Longrightarrow> sint (of_int i :: 32 word) = i"
  by (simp add: int32_fits_def signed_of_int signed_take_bit_int_eq_self)

lemma uint_of_int_fits: "0 \<le> i \<Longrightarrow> i < 2 ^ 32 \<Longrightarrow> uint (of_int i :: 32 word) = i"
  by (simp add: unsigned_of_int take_bit_int_eq_self)

lemma load_field_save [wire_simps]:
  "load_field f (s, be_bytes 4 (x :: 32 word) @ rest) = Some (Inr (), (f x s, rest))"
  by (simp add: load_field_def wire_simps)

lemma config_load_save [wire_simps]:
  assumes "config_fits c"
  shows "config_load (c0, config_save c @ rest) =
    Some (Inr (), (c\<lparr>cfg_extend_candidates := cfg_extend_candidates c0,
                    cfg_keep_pruned := cfg_keep_pruned c0\<rparr>, rest))"
  using assms
  by (simp add: config_load_def config_save_def wire_simps config_fits_def
      sint_of_int_fits uint_of_int_fits)

end
