(* ===== verification/GoHeap.thy ===== *)
theory GoHeap
  imports Prelude
begin

text \<open>
  Package \<open>container/heap\<close> of the Go standard library, on a slice with a \<open>Less\<close> method:
  \<open>up\<close>, \<open>down\<close>, \<open>Init\<close>, \<open>Push\<close> and \<open>Pop\<close>. The locale \<open>heap_order\<close> is what a
  \<open>Less\<close> method must promise (a strict weak order on the elements that are compared); under it
  the operations keep the heap property and \<open>Pop\<close> returns a least element. What does not
  depend on the order (the multiset of elements) is proved without it.
\<close>

section \<open>The operations\<close>

definition parent :: "nat \<Rightarrow> nat" where
  "parent k = (k - 1) div 2"

lemma parent_0 [simp]: "parent 0 = 0"
  by (simp add: parent_def)

lemma parent_less [simp, intro]: "0 < k \<Longrightarrow> parent k < k"
  by (auto simp: parent_def)

lemma parent_le [simp]: "parent k \<le> k"
  by (auto simp: parent_def)

lemma parent_bound [simp]: "k < n \<Longrightarrow> parent k < n"
  by (auto simp: parent_def)

lemma parent_half: "k < n \<Longrightarrow> 0 < k \<Longrightarrow> parent k < n div 2"
  unfolding parent_def by presburger

lemma not_less_parent [simp]: "\<not> k < parent k"
  by (auto simp: parent_def)

lemma parent_fix_iff [simp]: "parent k = k \<longleftrightarrow> k = 0"
  by (auto simp: parent_def)

lemma parent_child [simp]: "parent (Suc (2 * i)) = i" "parent (Suc (Suc (2 * i))) = i"
  by (simp_all add: parent_def)

lemma parent_eqD: "parent k = i \<Longrightarrow> 0 < k \<Longrightarrow> k = Suc (2 * i) \<or> k = Suc (Suc (2 * i))"
  unfolding parent_def by presburger

definition swap :: "'a list \<Rightarrow> nat \<Rightarrow> nat \<Rightarrow> 'a list" where
  "swap xs i j = xs[i := xs ! j, j := xs ! i]"

fun heap_up :: "('a \<Rightarrow> 'a \<Rightarrow> bool) \<Rightarrow> 'a list \<Rightarrow> nat \<Rightarrow> 'a list" where
  "heap_up lt xs j =
     (let i = parent j
      in if i = j \<or> \<not> lt (xs ! j) (xs ! i) then xs
         else heap_up lt (swap xs i j) i)"

function heap_down :: "('a \<Rightarrow> 'a \<Rightarrow> bool) \<Rightarrow> 'a list \<Rightarrow> nat \<Rightarrow> nat \<Rightarrow> 'a list" where
  "heap_down lt xs i n =
     (let j1 = 2 * i + 1; j2 = j1 + 1
      in if n \<le> j1 then xs
         else let j = (if j2 < n \<and> lt (xs ! j2) (xs ! j1) then j2 else j1)
              in if \<not> lt (xs ! j) (xs ! i) then xs
                 else heap_down lt (swap xs i j) j n)"
  by pat_completeness auto
termination
  by (relation "measure (\<lambda>(lt, xs, i, n). n - i)") (auto simp: Let_def split: if_splits)

declare heap_up.simps [simp del] heap_down.simps [simp del]

fun heap_init_from :: "('a \<Rightarrow> 'a \<Rightarrow> bool) \<Rightarrow> 'a list \<Rightarrow> nat \<Rightarrow> 'a list" where
  "heap_init_from lt xs 0 = xs"
| "heap_init_from lt xs (Suc i) = heap_init_from lt (heap_down lt xs i (length xs)) i"

definition heap_init :: "('a \<Rightarrow> 'a \<Rightarrow> bool) \<Rightarrow> 'a list \<Rightarrow> 'a list" where
  "heap_init lt xs = heap_init_from lt xs (length xs div 2)"

definition heap_push :: "('a \<Rightarrow> 'a \<Rightarrow> bool) \<Rightarrow> 'a list \<Rightarrow> 'a \<Rightarrow> 'a list" where
  "heap_push lt xs x = (let ys = xs @ [x] in heap_up lt ys (length ys - 1))"

definition heap_pop :: "('a \<Rightarrow> 'a \<Rightarrow> bool) \<Rightarrow> 'a list \<Rightarrow> 'a \<times> 'a list" where
  "heap_pop lt xs =
     (let n = length xs - 1; ys = heap_down lt (swap xs 0 n) 0 n
      in (ys ! n, take n ys))"

section \<open>What holds for every comparison\<close>

lemma length_swap [simp]: "length (swap xs i j) = length xs"
  by (simp add: swap_def)

lemma mset_swap_eq: "i < length xs \<Longrightarrow> j < length xs \<Longrightarrow> mset (swap xs i j) = mset xs"
  unfolding swap_def by (rule mset_swap)

lemma swap_nth_eq: "i < length xs \<Longrightarrow> j < length xs \<Longrightarrow> swap xs i j ! k =
    (if k = j then xs ! i else if k = i then xs ! j else xs ! k)"
  unfolding swap_def by (rule swap_nth)

lemma length_heap_up [simp]: "length (heap_up lt xs j) = length xs"
proof (induction lt xs j rule: heap_up.induct)
  case (1 lt xs j)
  then show ?case by (simp add: heap_up.simps [of lt xs j] Let_def)
qed

lemma length_heap_down [simp]: "length (heap_down lt xs i n) = length xs"
proof (induction lt xs i n rule: heap_down.induct)
  case (1 lt xs i n)
  then show ?case by (simp add: heap_down.simps [of lt xs i n] Let_def)
qed

lemma mset_heap_up: "j < length xs \<Longrightarrow> mset (heap_up lt xs j) = mset xs"
proof (induction lt xs j rule: heap_up.induct)
  case (1 lt xs j)
  then show ?case
    by (auto simp: heap_up.simps [of lt xs j] Let_def mset_swap_eq)
qed

lemma mset_heap_down: "i < length xs \<Longrightarrow> n \<le> length xs \<Longrightarrow> mset (heap_down lt xs i n) = mset xs"
proof (induction lt xs i n rule: heap_down.induct)
  case (1 lt xs i n)
  then show ?case
    by (simp add: heap_down.simps [of lt xs i n] Let_def mset_swap_eq)
qed

lemma heap_down_frame: "i < n \<Longrightarrow> n \<le> k \<Longrightarrow> n \<le> length xs \<Longrightarrow> heap_down lt xs i n ! k = xs ! k"
proof (induction lt xs i n rule: heap_down.induct)
  case (1 lt xs i n)
  then show ?case
    by (simp add: heap_down.simps [of lt xs i n] Let_def swap_nth_eq)
qed

lemma mset_heap_init_from: "i \<le> length xs \<Longrightarrow> mset (heap_init_from lt xs i) = mset xs"
  by (induction lt xs i rule: heap_init_from.induct) (simp_all add: mset_heap_down)

lemma mset_heap_init [simp]: "mset (heap_init lt xs) = mset xs"
  by (simp add: heap_init_def mset_heap_init_from)

lemma length_heap_init: "length (heap_init lt xs) = length xs"
  by (metis mset_heap_init size_mset)

lemma mset_heap_push [simp]: "mset (heap_push lt xs x) = add_mset x (mset xs)"
  by (simp add: heap_push_def mset_heap_up)

lemma heap_pop_fst:
  assumes "xs \<noteq> []"
  shows "fst (heap_pop lt xs) = xs ! 0"
proof (cases "length xs - 1 = 0")
  case True
  then obtain x where "xs = [x]" using assms by (cases xs) auto
  then show ?thesis
    by (simp add: heap_pop_def Let_def heap_down.simps [of lt "[x]" 0 0] swap_def)
next
  case False
  with assms show ?thesis
    by (simp add: heap_pop_def Let_def heap_down_frame swap_nth_eq)
qed

lemma mset_heap_pop:
  assumes "xs \<noteq> []" "heap_pop lt xs = (x, ys)"
  shows "mset xs = add_mset x (mset ys)"
proof -
  define n where "n = length xs - 1"
  have n: "length xs = Suc n" using assms(1) by (simp add: n_def)
  define zs where "zs = heap_down lt (swap xs 0 n) 0 n"
  have "mset zs = mset xs"
    using n by (simp add: zs_def mset_heap_down mset_swap_eq)
  moreover have "length zs = Suc n" using n by (simp add: zs_def)
  moreover have "x = zs ! n" "ys = take n zs"
    using assms(2) by (auto simp: heap_pop_def Let_def n_def zs_def)
  ultimately show ?thesis using mset_take_last [of zs n] by simp
qed

section \<open>The heap property under a strict weak order\<close>

definition heap_from :: "('a \<Rightarrow> 'a \<Rightarrow> bool) \<Rightarrow> 'a list \<Rightarrow> nat \<Rightarrow> nat \<Rightarrow> bool" where
  "heap_from lt xs b n = (\<forall>k < n. 0 < k \<longrightarrow> b \<le> parent k \<longrightarrow> \<not> lt (xs ! k) (xs ! parent k))"

definition is_heap :: "('a \<Rightarrow> 'a \<Rightarrow> bool) \<Rightarrow> 'a list \<Rightarrow> bool" where
  "is_heap lt xs = heap_from lt xs 0 (length xs)"

locale heap_order =
  fixes lt :: "'a \<Rightarrow> 'a \<Rightarrow> bool" and ok :: "'a \<Rightarrow> bool"
  assumes lt_asym: "lt x y \<Longrightarrow> \<not> lt y x"
    and lt_neg_trans: "ok x \<Longrightarrow> ok y \<Longrightarrow> ok z \<Longrightarrow> \<not> lt x y \<Longrightarrow> \<not> lt y z \<Longrightarrow> \<not> lt x z"
begin

lemma root_least:
  assumes "is_heap lt xs" "\<forall>x \<in> set xs. ok x" "k < length xs"
  shows "\<not> lt (xs ! k) (xs ! 0)"
  using assms(3)
proof (induction k rule: less_induct)
  case (less k)
  show ?case
  proof (cases "k = 0")
    case True
    then show ?thesis using lt_asym by blast
  next
    case False
    then have p: "parent k < k" "parent k < length xs" using less.prems by auto
    have "\<not> lt (xs ! k) (xs ! parent k)"
      using assms(1) False less.prems by (simp add: is_heap_def heap_from_def)
    moreover have "\<not> lt (xs ! parent k) (xs ! 0)" using less.IH p by simp
    moreover have "ok (xs ! k)" "ok (xs ! parent k)" "ok (xs ! 0)"
      using assms(2) p less.prems by (auto intro!: nth_mem)
    ultimately show ?thesis by (metis lt_neg_trans)
  qed
qed

text \<open>The heap property but for the edge above position \<open>j\<close>.\<close>

definition up_inv :: "'a list \<Rightarrow> nat \<Rightarrow> bool" where
  "up_inv xs j =
     ((\<forall>k < length xs. 0 < k \<longrightarrow> k \<noteq> j \<longrightarrow> \<not> lt (xs ! k) (xs ! parent k)) \<and>
      (\<forall>k < length xs. 0 < k \<longrightarrow> parent k = j \<longrightarrow> 0 < j \<longrightarrow> \<not> lt (xs ! k) (xs ! parent j)))"

lemma up_inv_swap:
  assumes inv: "up_inv xs j" and j: "0 < j" "j < length xs"
    and smaller: "lt (xs ! j) (xs ! parent j)" and ok: "\<forall>x \<in> set xs. ok x"
  shows "up_inv (swap xs (parent j) j) (parent j)"
proof -
  let ?i = "parent j"
  have ij: "?i < j" "?i < length xs" using j by auto
  have nth: "swap xs ?i j ! k = (if k = j then xs ! ?i else if k = ?i then xs ! j else xs ! k)" for k
    using ij j by (simp add: swap_nth_eq)
  have okn: "k < length xs \<Longrightarrow> ok (xs ! k)" for k using ok by simp
  have inv1: "k < length xs \<Longrightarrow> 0 < k \<Longrightarrow> k \<noteq> j \<Longrightarrow> \<not> lt (xs ! k) (xs ! parent k)" for k
    using inv by (simp add: up_inv_def)
  have inv2: "k < length xs \<Longrightarrow> 0 < k \<Longrightarrow> parent k = j \<Longrightarrow> \<not> lt (xs ! k) (xs ! ?i)" for k
    using inv j by (simp add: up_inv_def)
  have nlt: "\<not> lt (xs ! ?i) (xs ! j)" using smaller by (rule lt_asym)
  have sib: "\<not> lt (xs ! k) (xs ! j)" if "k < length xs" "0 < k" "k \<noteq> j" "parent k = ?i" for k
    using inv1 [of k] that nlt okn ij j by (metis lt_neg_trans)
  have top: "0 < ?i \<Longrightarrow> \<not> lt (xs ! ?i) (xs ! parent ?i)" using inv1 [of ?i] ij by simp
  have above: "\<not> lt (xs ! k) (xs ! parent ?i)"
    if "k < length xs" "0 < k" "parent k = ?i" "0 < ?i" "k \<noteq> j" for k
  proof (rule lt_neg_trans)
    show "ok (xs ! k)" "ok (xs ! ?i)" using okn that ij by auto
    show "ok (xs ! parent ?i)" by (rule okn) (use ij in auto)
    show "\<not> lt (xs ! k) (xs ! ?i)" using inv1 [of k] that by simp
    show "\<not> lt (xs ! ?i) (xs ! parent ?i)" using top that by simp
  qed
  show ?thesis
    unfolding up_inv_def length_swap
  proof (intro conjI allI impI)
    fix k assume k: "k < length xs" "0 < k" "k \<noteq> ?i"
    have pk: "parent k < k" using k by auto
    show "\<not> lt (swap xs ?i j ! k) (swap xs ?i j ! parent k)"
      using k nlt sib [of k] inv1 [of k] inv2 [of k] ij pk by (auto simp: nth)
  next
    fix k assume k: "k < length xs" "0 < k" "parent k = ?i" "0 < ?i"
    have "parent ?i \<noteq> ?i" "parent ?i \<noteq> j" using k ij(1) by (auto, metis leD parent_le)
    then show "\<not> lt (swap xs ?i j ! k) (swap xs ?i j ! parent ?i)"
      using k above [of k] top ij by (auto simp: nth)
  qed
qed

lemma heap_up_is_heap:
  "up_inv xs j \<Longrightarrow> j < length xs \<Longrightarrow> \<forall>x \<in> set xs. ok x \<Longrightarrow> is_heap lt (heap_up lt xs j)"
proof (induction j arbitrary: xs rule: less_induct)
  case (less j)
  show ?case
  proof (cases "parent j = j \<or> \<not> lt (xs ! j) (xs ! parent j)")
    case True
    then have "\<forall>k < length xs. 0 < k \<longrightarrow> \<not> lt (xs ! k) (xs ! parent k)"
      using less.prems(1) unfolding up_inv_def by fastforce
    with True show ?thesis
      by (auto simp: heap_up.simps [of lt xs j] is_heap_def heap_from_def Let_def)
  next
    case False
    then have j: "0 < j" by auto
    let ?i = "parent j"
    have i: "?i < j" using j by auto
    have "is_heap lt (heap_up lt (swap xs ?i j) ?i)"
    proof (rule less.IH [OF i])
      show "up_inv (swap xs ?i j) ?i" using up_inv_swap less.prems False j by blast
      show "?i < length (swap xs ?i j)" using i less.prems by simp
      have "set (swap xs ?i j) = set xs"
        using i less.prems by (metis mset_swap_eq less_trans set_mset_mset)
      then show "\<forall>x \<in> set (swap xs ?i j). ok x" using less.prems by simp
    qed
    with False show ?thesis by (simp add: heap_up.simps [of lt xs j] Let_def)
  qed
qed

lemma heap_push_is_heap:
  assumes "is_heap lt xs" "\<forall>x \<in> set xs. ok x" "ok x"
  shows "is_heap lt (heap_push lt xs x)"
proof -
  have "up_inv (xs @ [x]) (length xs)"
    unfolding up_inv_def
  proof (intro conjI allI impI)
    fix k assume "k < length (xs @ [x])" "0 < k" "k \<noteq> length xs"
    then have "k < length xs" "0 < k" "parent k < length xs" by auto
    then show "\<not> lt ((xs @ [x]) ! k) ((xs @ [x]) ! parent k)"
      using assms(1) by (simp add: is_heap_def heap_from_def nth_append)
  next
    fix k assume "k < length (xs @ [x])" "0 < k" "parent k = length xs"
    then show "\<not> lt ((xs @ [x]) ! k) ((xs @ [x]) ! parent (length xs))"
      using parent_less [of k] by simp
  qed
  then show ?thesis
    using assms by (auto simp: heap_push_def Let_def intro!: heap_up_is_heap)
qed

text \<open>The heap property below \<open>b\<close> but for the edges below position \<open>i\<close>.\<close>

definition down_inv :: "'a list \<Rightarrow> nat \<Rightarrow> nat \<Rightarrow> nat \<Rightarrow> bool" where
  "down_inv xs b i n =
     (b \<le> i \<and>
      (\<forall>k < n. 0 < k \<longrightarrow> b \<le> parent k \<longrightarrow> parent k \<noteq> i \<longrightarrow> \<not> lt (xs ! k) (xs ! parent k)) \<and>
      (\<forall>k < n. 0 < k \<longrightarrow> parent k = i \<longrightarrow> 0 < i \<longrightarrow> b \<le> parent i \<longrightarrow> \<not> lt (xs ! k) (xs ! parent i)))"

lemma down_inv_swap:
  assumes inv: "down_inv xs b i n" and n: "n \<le> length xs"
    and j: "j < n" "0 < j" "parent j = i" and smaller: "lt (xs ! j) (xs ! i)"
    and sib: "\<And>k. k < n \<Longrightarrow> 0 < k \<Longrightarrow> parent k = i \<Longrightarrow> k \<noteq> j \<Longrightarrow> \<not> lt (xs ! k) (xs ! j)"
  shows "down_inv (swap xs i j) b j n"
proof -
  have ij: "i < j" "i < length xs" "j < length xs" using j n by auto
  have nth: "swap xs i j ! k = (if k = j then xs ! i else if k = i then xs ! j else xs ! k)" for k
    using ij by (simp add: swap_nth_eq)
  have inv1: "k < n \<Longrightarrow> 0 < k \<Longrightarrow> b \<le> parent k \<Longrightarrow> parent k \<noteq> i \<Longrightarrow> \<not> lt (xs ! k) (xs ! parent k)" for k
    using inv by (simp add: down_inv_def)
  have inv2: "0 < i \<Longrightarrow> b \<le> parent i \<Longrightarrow> \<not> lt (xs ! j) (xs ! parent i)"
    using inv j by (simp add: down_inv_def)
  have nlt: "\<not> lt (xs ! i) (xs ! j)" using smaller by (rule lt_asym)
  show ?thesis
    unfolding down_inv_def
  proof (intro conjI allI impI)
    show "b \<le> j" using inv ij by (simp add: down_inv_def)
  next
    fix k assume k: "k < n" "0 < k" "b \<le> parent k" "parent k \<noteq> j"
    have pk: "parent k < k" using k by auto
    show "\<not> lt (swap xs i j ! k) (swap xs i j ! parent k)"
    proof (cases "parent k = i")
      case True
      then show ?thesis using k pk nlt sib [of k] ij by (auto simp: nth)
    next
      case False
      then show ?thesis using k pk inv1 [of k] inv2 j ij by (auto simp: nth)
    qed
  next
    fix k assume k: "k < n" "0 < k" "parent k = j" "0 < j" "b \<le> parent j"
    then have "b \<le> j" "j < k" using ij inv by (auto simp: down_inv_def)
    then show "\<not> lt (swap xs i j ! k) (swap xs i j ! parent j)"
      using k inv1 [of k] j ij by (auto simp: nth)
  qed
qed

lemma heap_down_heap_from:
  "down_inv xs b i n \<Longrightarrow> n \<le> length xs \<Longrightarrow> \<forall>x \<in> set xs. ok x \<Longrightarrow> heap_from lt (heap_down lt xs i n) b n"
proof (induction "n - i" arbitrary: xs i rule: less_induct)
  case less
  let ?j1 = "2 * i + 1" and ?j2 = "2 * i + 2"
  let ?j = "if ?j2 < n \<and> lt (xs ! ?j2) (xs ! ?j1) then ?j2 else ?j1"
  have child: "k = ?j1 \<or> k = ?j2" if "0 < k" "parent k = i" for k
    using parent_eqD [OF that(2,1)] by simp
  have sib: "\<not> lt (xs ! k) (xs ! ?j)" if "k < n" "0 < k" "parent k = i" "k \<noteq> ?j" for k
    using child [OF that(2,3)] that(1,4) by (auto split: if_splits dest: lt_asym)
  show ?case
  proof (cases "n \<le> ?j1 \<or> \<not> lt (xs ! ?j) (xs ! i)")
    case True
    then have eq: "heap_down lt xs i n = xs"
      by (auto simp: heap_down.simps [of lt xs i n] Let_def)
    have ch: "\<not> lt (xs ! k) (xs ! i)" if "k < n" "0 < k" "parent k = i" for k
    proof -
      have j: "?j < n" "\<not> lt (xs ! ?j) (xs ! i)"
        using True that child [OF that(2,3)] by (auto split: if_splits)
      show ?thesis
      proof (cases "k = ?j")
        case True
        then show ?thesis using j by simp
      next
        case False
        have "i < n" using that parent_bound [of k n] by simp
        then have "ok (xs ! k)" "ok (xs ! ?j)" "ok (xs ! i)"
          using that j(1) less.prems by (auto intro!: nth_mem)
        then show ?thesis using sib [OF that False] j(2) lt_neg_trans by blast
      qed
    qed
    show ?thesis
      unfolding eq heap_from_def
    proof (intro allI impI)
      fix k assume k: "k < n" "0 < k" "b \<le> parent k"
      then show "\<not> lt (xs ! k) (xs ! parent k)"
        using ch [of k] less.prems(1) unfolding down_inv_def by metis
    qed
  next
    case False
    then have j: "?j < n" "0 < ?j" "parent ?j = i" and smaller: "lt (xs ! ?j) (xs ! i)" by auto
    have "down_inv (swap xs i ?j) b ?j n"
      by (rule down_inv_swap [OF less.prems(1,2) j smaller sib])
    moreover have "i < n" using parent_bound [OF j(1)] unfolding j(3) .
    then have "set (swap xs i ?j) = set xs"
      using j(1) less.prems by (intro mset_eq_setD mset_swap_eq) auto
    ultimately have "heap_from lt (heap_down lt (swap xs i ?j) ?j n) b n"
      using less.hyps [of ?j "swap xs i ?j"] j less.prems by auto
    with False show ?thesis
      by (auto simp: heap_down.simps [of lt xs i n] Let_def split: if_splits)
  qed
qed

lemma heap_init_from_heap:
  "heap_from lt xs i (length xs) \<Longrightarrow> i \<le> length xs \<Longrightarrow> \<forall>x \<in> set xs. ok x \<Longrightarrow>
   is_heap lt (heap_init_from lt xs i)"
proof (induction i arbitrary: xs)
  case 0
  then show ?case by (simp add: is_heap_def)
next
  case (Suc i)
  have "parent i < i" if "0 < i" using that by auto
  then have "down_inv xs i i (length xs)"
    using Suc.prems(1) unfolding down_inv_def heap_from_def
    by (metis Suc_leI le_neq_implies_less leD order_refl)
  then have "heap_from lt (heap_down lt xs i (length xs)) i (length xs)"
    using Suc.prems by (intro heap_down_heap_from) auto
  moreover have "set (heap_down lt xs i (length xs)) = set xs"
    using Suc.prems by (intro mset_eq_setD mset_heap_down) auto
  ultimately show ?case using Suc.IH [of "heap_down lt xs i (length xs)"] Suc.prems by simp
qed

lemma heap_init_is_heap: "\<forall>x \<in> set xs. ok x \<Longrightarrow> is_heap lt (heap_init lt xs)"
  unfolding heap_init_def
  by (rule heap_init_from_heap) (auto simp: heap_from_def dest: parent_half)

lemma heap_pop_is_heap:
  assumes heap: "is_heap lt xs" and ok: "\<forall>x \<in> set xs. ok x" and ne: "xs \<noteq> []"
    and eq: "heap_pop lt xs = (x, ys)"
  shows "is_heap lt ys"
proof -
  define n where "n = length xs - 1"
  have n: "length xs = Suc n" using ne by (simp add: n_def)
  define zs where "zs = heap_down lt (swap xs 0 n) 0 n"
  have ys: "ys = take n zs" using eq by (auto simp: heap_pop_def Let_def n_def zs_def)
  have nth: "swap xs 0 n ! k = (if k = n then xs ! 0 else if k = 0 then xs ! n else xs ! k)" for k
    using n by (simp add: swap_nth_eq)
  have "down_inv (swap xs 0 n) 0 0 n"
    unfolding down_inv_def
  proof (intro conjI allI impI)
    fix k assume k: "k < n" "0 < k" "0 \<le> parent k" "parent k \<noteq> 0"
    then have "parent k < n" "parent k \<noteq> n" "k \<noteq> n" by (auto simp: less_imp_neq)
    then show "\<not> lt (swap xs 0 n ! k) (swap xs 0 n ! parent k)"
      using heap n k by (simp add: nth is_heap_def heap_from_def)
  qed simp_all
  moreover have "set (swap xs 0 n) = set xs"
    using n by (intro mset_eq_setD mset_swap_eq) auto
  ultimately have "heap_from lt zs 0 n"
    unfolding zs_def using ok n by (intro heap_down_heap_from) auto
  moreover have "length ys = n" using ys n by (simp add: zs_def)
  ultimately show ?thesis
    unfolding is_heap_def heap_from_def ys by auto
qed

lemma heap_pop_least:
  assumes "is_heap lt xs" "\<forall>x \<in> set xs. ok x" "xs \<noteq> []" "heap_pop lt xs = (x, ys)" "y \<in> set xs"
  shows "\<not> lt y x"
  using root_least assms heap_pop_fst [of xs lt] by (metis fst_conv in_set_conv_nth)

end

end
