(* ===== verification/PriorityQueue.thy ===== *)
theory PriorityQueue
  imports GoHeap
begin

text \<open>
  \<open>utils/priority_queue.go\<close>: the priority queue over \<open>container/heap\<close>, in its two kinds
  (a queue is a kind and the slice of its items). \<open>Push\<close> panics on a negative priority,
  \<open>Pop\<close> and \<open>Peek\<close> on an empty queue; a panic is \<open>None\<close>.

  \<open>Reverse\<close> converts the slice header and re-heapifies it in place, so the reversed queue and
  the original share one backing array: \<open>reverse\<close> returns both queues as they are afterwards.

  The locale \<open>popping\<close> is the contract a client of \<open>Pop\<close> relies on; it is interpreted on
  both kinds of queue.
\<close>

section \<open>Items and queues\<close>

record 'v item =
  priority :: f32
  val :: 'v

datatype kind = MinPQ | MaxPQ

record 'v pq =
  kind :: kind
  queue :: "'v item list"

definition new_item :: "f32 \<Rightarrow> 'v \<Rightarrow> 'v item" where
  "new_item p v = \<lparr>priority = p, val = v\<rparr>"

definition min_less :: "'v item \<Rightarrow> 'v item \<Rightarrow> bool" where
  "min_less a b = f32_lt (priority a) (priority b)"

definition max_less :: "'v item \<Rightarrow> 'v item \<Rightarrow> bool" where
  "max_less a b = f32_lt (priority b) (priority a)"

fun pq_less :: "kind \<Rightarrow> 'v item \<Rightarrow> 'v item \<Rightarrow> bool" where
  "pq_less MinPQ = min_less"
| "pq_less MaxPQ = max_less"

definition pq_len :: "'v pq \<Rightarrow> nat" where
  "pq_len q = length (queue q)"

definition push :: "'v item \<Rightarrow> 'v pq \<Rightarrow> 'v pq option" where
  "push x q = (if f32_negative (priority x) then None
     else Some (q\<lparr>queue := heap_push (pq_less (kind q)) (queue q) x\<rparr>))"

definition pop :: "'v pq \<Rightarrow> ('v item \<times> 'v pq) option" where
  "pop q = (if pq_len q = 0 then None
     else let (x, xs) = heap_pop (pq_less (kind q)) (queue q) in Some (x, q\<lparr>queue := xs\<rparr>))"

definition peek :: "'v pq \<Rightarrow> 'v item option" where
  "peek q = (if pq_len q = 0 then None else Some (queue q ! 0))"

definition to_slice :: "'v pq \<Rightarrow> 'v item list" where
  "to_slice q = queue q"

definition pq_values :: "'v pq \<Rightarrow> 'v list" where
  "pq_values q = map val (to_slice q)"

fun push_all :: "'v item list \<Rightarrow> 'v pq \<Rightarrow> 'v pq option" where
  "push_all [] q = Some q"
| "push_all (x # xs) q = do { q' \<leftarrow> push x q; push_all xs q' }"

definition initialize_priority_queue :: "kind \<Rightarrow> 'v item list \<Rightarrow> 'v item list \<Rightarrow> 'v pq option" where
  "initialize_priority_queue k arr items =
     push_all items \<lparr>kind = k, queue = heap_init (pq_less k) arr\<rparr>"

definition new_min_pq :: "'v item list \<Rightarrow> 'v pq option" where
  "new_min_pq items = initialize_priority_queue MinPQ [] items"

definition new_max_pq :: "'v item list \<Rightarrow> 'v pq option" where
  "new_max_pq items = initialize_priority_queue MaxPQ [] items"

fun other_kind :: "kind \<Rightarrow> kind" where
  "other_kind MinPQ = MaxPQ"
| "other_kind MaxPQ = MinPQ"

text \<open>\<open>Reverse\<close>: the new queue, and the receiver as the shared array now shows it.\<close>

definition reverse :: "'v pq \<Rightarrow> 'v pq \<times> 'v pq" where
  "reverse q =
     (let ys = heap_init (pq_less (other_kind (kind q))) (queue q)
      in (\<lparr>kind = other_kind (kind q), queue = ys\<rparr>, q\<lparr>queue := ys\<rparr>))"

text \<open>
  The loop \<open>for ... { item := q.Pop(); ... }\<close> with its number of rounds: the items in the
  order they leave the queue. \<open>ToIterator\<close> runs it until the queue is empty.
\<close>

fun pop_n :: "('q \<Rightarrow> ('i \<times> 'q) option) \<Rightarrow> nat \<Rightarrow> 'q \<Rightarrow> ('i list \<times> 'q) option" where
  "pop_n p 0 q = Some ([], q)"
| "pop_n p (Suc n) q = do { (x, q') \<leftarrow> p q; (xs, q'') \<leftarrow> pop_n p n q'; Some (x # xs, q'') }"

definition to_iterator :: "'v pq \<Rightarrow> 'v item list option" where
  "to_iterator q = map_option fst (pop_n pop (pq_len q) q)"

section \<open>The contract of \<open>Pop\<close> and its clients\<close>

locale popping =
  fixes p :: "'q \<Rightarrow> ('i \<times> 'q) option" and items :: "'q \<Rightarrow> 'i list"
    and invar :: "'q \<Rightarrow> bool" and lt :: "'i \<Rightarrow> 'i \<Rightarrow> bool"
  assumes pop_total: "items q \<noteq> [] \<Longrightarrow> \<exists>x q'. p q = Some (x, q')"
    and pop_mset: "p q = Some (x, q') \<Longrightarrow> mset (items q) = add_mset x (mset (items q'))"
    and pop_invar: "invar q \<Longrightarrow> p q = Some (x, q') \<Longrightarrow> invar q'"
    and pop_first: "invar q \<Longrightarrow> p q = Some (x, q') \<Longrightarrow> y \<in> set (items q) \<Longrightarrow> \<not> lt y x"
begin

lemma pop_length: "p q = Some (x, q') \<Longrightarrow> length (items q) = Suc (length (items q'))"
  using pop_mset by (rule mset_add_length)

lemma pop_n_total: "n \<le> length (items q) \<Longrightarrow> \<exists>xs q'. pop_n p n q = Some (xs, q')"
proof (induction n arbitrary: q)
  case (Suc n)
  then obtain x q' where "p q = Some (x, q')" using pop_total [of q] by fastforce
  moreover from this obtain xs q'' where "pop_n p n q' = Some (xs, q'')"
    using Suc pop_length by fastforce
  ultimately show ?case by simp
qed simp

lemma pop_n_mset: "pop_n p n q = Some (xs, q') \<Longrightarrow> mset (items q) = mset xs + mset (items q')"
  by (induction n arbitrary: q xs) (fastforce simp: Option.bind_eq_Some_conv dest: pop_mset)+

lemma pop_n_length: "pop_n p n q = Some (xs, q') \<Longrightarrow> length xs = n"
  by (induction n arbitrary: q xs) (auto simp: Option.bind_eq_Some_conv)

lemma pop_n_invar: "pop_n p n q = Some (xs, q') \<Longrightarrow> invar q \<Longrightarrow> invar q'"
  by (induction n arbitrary: q xs) (auto simp: Option.bind_eq_Some_conv dest: pop_invar)

lemma pop_n_set: "pop_n p n q = Some (xs, q') \<Longrightarrow> set xs \<union> set (items q') = set (items q)"
  by (drule pop_n_mset) (simp add: mset_union_set)

lemma pop_n_first: "pop_n p n q = Some (xs, q') \<Longrightarrow> invar q \<Longrightarrow>
    sorted_wrt (\<lambda>x y. \<not> lt y x) xs \<and> (\<forall>x \<in> set xs. \<forall>y \<in> set (items q'). \<not> lt y x)"
proof (induction n arbitrary: q xs)
  case (Suc n)
  then obtain x r ys where x: "p q = Some (x, r)" and ys: "pop_n p n r = Some (ys, q')"
    and xs: "xs = x # ys"
    by (auto simp: Option.bind_eq_Some_conv)
  have "set ys \<union> set (items q') \<subseteq> set (items q)"
    using pop_n_set [OF ys] mset_add_set [OF pop_mset [OF x]] by auto
  then have "\<forall>y \<in> set ys \<union> set (items q'). \<not> lt y x"
    using pop_first [OF Suc.prems(2) x] by blast
  moreover have "invar r" using Suc.prems(2) x by (rule pop_invar)
  ultimately show ?case using Suc.IH [OF ys] xs by auto
qed simp

end

section \<open>Both kinds of queue keep the contract\<close>

definition pq_ok :: "'v item \<Rightarrow> bool" where
  "pq_ok x = (\<not> f32_nan (priority x))"

definition pq_inv :: "'v pq \<Rightarrow> bool" where
  "pq_inv q = (is_heap (pq_less (kind q)) (queue q) \<and> (\<forall>x \<in> set (queue q). pq_ok x))"

interpretation min_heap: heap_order min_less pq_ok
  by unfold_locales (auto simp: min_less_def pq_ok_def dest: f32_lt_asym f32_not_lt_trans)

interpretation max_heap: heap_order max_less pq_ok
  by unfold_locales (auto simp: max_less_def pq_ok_def dest: f32_lt_asym f32_not_lt_trans)

lemma pq_less_heap_order: "heap_order (pq_less k) pq_ok"
  by (cases k) (simp_all add: min_heap.heap_order_axioms max_heap.heap_order_axioms)

lemma push_eq_None [simp]: "push x q = None \<longleftrightarrow> f32_negative (priority x)"
  by (simp add: push_def)

lemma push_total: "\<not> f32_negative (priority x) \<Longrightarrow> \<exists>q'. push x q = Some q'"
  by (simp add: push_def)

lemma push_mset: "push x q = Some q' \<Longrightarrow> mset (queue q') = add_mset x (mset (queue q))"
  by (auto simp: push_def split: if_splits)

lemmas push_set = mset_add_set [OF push_mset]
  and push_length = mset_add_length [OF push_mset]
  and push_distinct = mset_add_distinct [OF push_mset]

lemma push_kind: "push x q = Some q' \<Longrightarrow> kind q' = kind q"
  by (auto simp: push_def split: if_splits)

lemma push_inv:
  assumes "push x q = Some q'" "pq_inv q" "pq_ok x"
  shows "pq_inv q'"
proof -
  have "queue q' = heap_push (pq_less (kind q)) (queue q) x" "kind q' = kind q"
    using assms(1) by (auto simp: push_def split: if_splits)
  moreover have "is_heap (pq_less (kind q)) (heap_push (pq_less (kind q)) (queue q) x)"
    by (rule heap_order.heap_push_is_heap [OF pq_less_heap_order])
      (use assms(2,3) in \<open>simp_all add: pq_inv_def\<close>)
  ultimately show ?thesis
    using assms(2,3) push_set [OF assms(1)] by (simp add: pq_inv_def)
qed

lemma popE:
  assumes "pop q = Some (x, q')"
  obtains "queue q \<noteq> []" "heap_pop (pq_less (kind q)) (queue q) = (x, queue q')" "kind q' = kind q"
  using assms by (auto simp: pop_def pq_len_def split: if_splits prod.splits)

lemma pop_kind: "pop q = Some (x, q') \<Longrightarrow> kind q' = kind q"
  by (erule popE)

lemma pop_eq_None [simp]: "pop q = None \<longleftrightarrow> queue q = []"
  by (auto simp: pop_def pq_len_def split: prod.splits)

lemma pop_total: "queue q \<noteq> [] \<Longrightarrow> \<exists>x q'. pop q = Some (x, q')"
  by (cases "pop q") auto

lemma pop_mset: "pop q = Some (x, q') \<Longrightarrow> mset (queue q) = add_mset x (mset (queue q'))"
  by (erule popE) (rule mset_heap_pop)

lemmas pop_set = mset_add_set [OF pop_mset]
  and pop_length = mset_add_length [OF pop_mset]
  and pop_distinct = mset_add_distinct [OF pop_mset]

lemma pop_is_root: "pop q = Some (x, q') \<Longrightarrow> x = queue q ! 0"
  using heap_pop_fst [of "queue q" "pq_less (kind q)"] by (auto elim!: popE)

lemma pop_inv:
  assumes q: "pop q = Some (x, q')" "pq_inv q"
  shows "pq_inv q'"
proof -
  have h: "queue q \<noteq> []" "heap_pop (pq_less (kind q)) (queue q) = (x, queue q')" "kind q' = kind q"
    using q(1) by (auto elim: popE)
  have inv: "is_heap (pq_less (kind q)) (queue q)" "\<forall>y \<in> set (queue q). pq_ok y"
    using q(2) by (simp_all add: pq_inv_def)
  have "is_heap (pq_less (kind q)) (queue q')"
    by (rule heap_order.heap_pop_is_heap [OF pq_less_heap_order inv h(1,2)])
  then show ?thesis
    using inv(2) pop_set [OF q(1)] h(3) by (simp add: pq_inv_def)
qed

lemma pop_first:
  assumes "pop q = Some (x, q')" "pq_inv q" "y \<in> set (queue q)"
  shows "\<not> pq_less (kind q) y x"
  using assms(1)
proof (rule popE)
  assume "queue q \<noteq> []" "heap_pop (pq_less (kind q)) (queue q) = (x, queue q')"
  then show ?thesis
    using assms(2,3)
    by (intro heap_order.heap_pop_least [OF pq_less_heap_order, of _ "queue q" x "queue q'"])
      (simp_all add: pq_inv_def)
qed

lemma peek_eq_pop: "peek q = map_option fst (pop q)"
  by (cases "pop q") (auto simp: peek_def pq_len_def dest: pop_is_root elim: popE)

text \<open>The queues of one kind, as the model of the contract.\<close>

interpretation pq_pop: popping pop queue pq_inv "\<lambda>x y. False"
  by unfold_locales (auto intro: pop_total pop_mset pop_inv)

interpretation min_pop: popping pop queue "\<lambda>q. pq_inv q \<and> kind q = MinPQ" min_less
  by unfold_locales (auto intro: pop_total pop_mset pop_inv dest: pop_first pop_kind)

interpretation max_pop: popping pop queue "\<lambda>q. pq_inv q \<and> kind q = MaxPQ" max_less
  by unfold_locales (auto intro: pop_total pop_mset pop_inv dest: pop_first pop_kind)

section \<open>Building and draining a queue\<close>

lemma push_all_total: "\<forall>x \<in> set xs. \<not> f32_negative (priority x) \<Longrightarrow> \<exists>q'. push_all xs q = Some q'"
proof (induction xs arbitrary: q)
  case (Cons x xs)
  then obtain q1 where "push x q = Some q1" using push_total [of x q] by auto
  then show ?case using Cons by simp
qed simp

lemma push_all_spec: "push_all xs q = Some q' \<Longrightarrow>
    mset (queue q') = mset (queue q) + mset xs \<and> kind q' = kind q \<and>
    (pq_inv q \<longrightarrow> (\<forall>x \<in> set xs. pq_ok x) \<longrightarrow> pq_inv q')"
proof (induction xs arbitrary: q)
  case (Cons x xs)
  then obtain r where r: "push x q = Some r" "push_all xs r = Some q'"
    by (auto simp: bind_eq_Some_conv)
  then show ?case
    using Cons.IH [OF r(2)] push_mset [OF r(1)] push_kind [OF r(1)] push_inv [OF r(1)] by auto
qed simp

lemma pq_inv_empty [simp]: "pq_inv \<lparr>kind = k, queue = []\<rparr>"
  by (simp add: pq_inv_def is_heap_def heap_from_def)

lemma heap_init_Nil [simp]: "heap_init lt [] = []"
  by (simp add: heap_init_def)

lemma drain:
  assumes "pq_inv q"
  shows "\<exists>xs. to_iterator q = Some xs \<and> mset xs = mset (queue q) \<and>
    sorted_wrt (\<lambda>x y. \<not> pq_less (kind q) y x) xs"
proof -
  obtain xs q' where pops: "pop_n pop (pq_len q) q = Some (xs, q')"
    using pq_pop.pop_n_total [of "pq_len q" q] by (auto simp: pq_len_def)
  have m: "mset (queue q) = mset xs + mset (queue q')"
    using pops by (rule pq_pop.pop_n_mset)
  moreover have "length xs = length (queue q)"
    using pq_pop.pop_n_length [OF pops] by (simp add: pq_len_def)
  ultimately have "mset xs = mset (queue q)"
    by (metis add.right_neutral add_left_cancel size_eq_0_iff_empty size_mset size_union)
  moreover have "sorted_wrt (\<lambda>x y. \<not> pq_less (kind q) y x) xs"
  proof (cases "kind q")
    case MinPQ
    then show ?thesis using min_pop.pop_n_first [OF pops] assms by simp
  next
    case MaxPQ
    then show ?thesis using max_pop.pop_n_first [OF pops] assms by simp
  qed
  ultimately show ?thesis using pops by (simp add: to_iterator_def)
qed

lemma reverse_inv:
  assumes "\<forall>x \<in> set (queue q). pq_ok x"
  shows "pq_inv (fst (reverse q))" "mset (queue (fst (reverse q))) = mset (queue q)"
    "kind (fst (reverse q)) = other_kind (kind q)"
proof -
  show "pq_inv (fst (reverse q))"
    using heap_order.heap_init_is_heap [OF pq_less_heap_order, of "queue q"] assms
    by (simp add: reverse_def Let_def pq_inv_def mset_eq_setD [OF mset_heap_init])
qed (simp_all add: reverse_def Let_def mset_heap_init)

section \<open>Properties\<close>

text \<open>
  C24: a queue built from any items whose priorities are neither negative nor NaN drains to a
  sorted permutation of those items: ascending priorities from \<open>NewMinPriorityQueue\<close>,
  descending ones from \<open>NewMaxPriorityQueue\<close>.
\<close>

theorem priority_queue_sorts:
  assumes "\<forall>x \<in> set items. \<not> f32_negative (priority x) \<and> pq_ok x"
  shows "\<exists>q xs. initialize_priority_queue k [] items = Some q \<and> to_iterator q = Some xs \<and>
    mset xs = mset items \<and>
    sorted_wrt (\<lambda>x y. case k of MinPQ \<Rightarrow> \<not> f32_lt (priority y) (priority x)
                             | MaxPQ \<Rightarrow> \<not> f32_lt (priority x) (priority y)) xs"
proof -
  obtain q where q: "initialize_priority_queue k [] items = Some q"
    using push_all_total [of items] assms by (auto simp: initialize_priority_queue_def)
  then have "mset (queue q) = mset items" "kind q = k" "pq_inv q"
    using push_all_spec [of items "\<lparr>kind = k, queue = []\<rparr>" q] assms
    by (simp_all add: initialize_priority_queue_def)
  then show ?thesis
    using q drain [of q] by (cases k) (auto simp: min_less_def max_less_def)
qed

definition three_items :: "nat item list" where
  "three_items = [new_item 0x40400000 3, new_item 0x3F800000 1, new_item 0x40000000 2]"

definition two_item_queue :: "nat pq" where
  "two_item_queue = \<lparr>kind = MinPQ, queue = [new_item 0x3F800000 1, new_item 0x40000000 2]\<rparr>"

lemma two_items:
  "pq_inv two_item_queue \<and>
   (\<exists>x r y. pop (snd (reverse two_item_queue)) = Some (x, r) \<and> y \<in> set (queue r) \<and>
      pq_less (kind two_item_queue) y x)"
proof
  show "pq_inv two_item_queue"
    by (auto simp: pq_inv_def two_item_queue_def is_heap_def heap_from_def less_Suc_eq pq_ok_def
        new_item_def min_less_def parent_def)
  have "snd (reverse two_item_queue) =
      \<lparr>kind = MinPQ, queue = [new_item 0x40000000 2, new_item 0x3F800000 1]\<rparr>"
    by (simp add: reverse_def two_item_queue_def heap_init_def heap_down.simps [unfolded Let_def] Let_def swap_def
        max_less_def new_item_def)
  moreover have "pop \<lparr>kind = MinPQ, queue = [new_item 0x40000000 2, new_item 0x3F800000 (1 :: nat)]\<rparr> =
      Some (new_item 0x40000000 2, \<lparr>kind = MinPQ, queue = [new_item 0x3F800000 1]\<rparr>)"
    by (simp add: pop_def pq_len_def heap_pop_def [unfolded Let_def] swap_def
        heap_down.simps [unfolded Let_def])
  ultimately show "\<exists>x r y. pop (snd (reverse two_item_queue)) = Some (x, r) \<and> y \<in> set (queue r) \<and>
      pq_less (kind two_item_queue) y x"
    by (simp add: two_item_queue_def new_item_def min_less_def)
qed

lemma priority_queue_sorts_witness:
  "\<exists>q xs. initialize_priority_queue MinPQ [] three_items = Some q \<and> to_iterator q = Some xs \<and>
    mset xs = mset three_items \<and>
    sorted_wrt (\<lambda>x y. case MinPQ of MinPQ \<Rightarrow> \<not> f32_lt (priority y) (priority x)
                             | MaxPQ \<Rightarrow> \<not> f32_lt (priority x) (priority y)) xs"
  by (rule priority_queue_sorts) (simp add: three_items_def new_item_def pq_ok_def)

text \<open>
  \<open>Reverse\<close> returns a valid queue of the other kind with the same items, but it
  re-heapifies the array the receiver still uses: some valid queue is no longer a heap after
  its own \<open>Reverse\<close>, and its next \<open>Pop\<close> returns an item that is not first.
\<close>

theorem reverse_corrupts_receiver:
  "(\<forall>q. pq_inv q \<longrightarrow> pq_inv (fst (reverse q)) \<and> mset (queue (fst (reverse q))) = mset (queue q) \<and>
        kind (fst (reverse q)) = other_kind (kind q)) \<and>
   (\<exists>q :: nat pq. pq_inv q \<and>
      (\<exists>x r y. pop (snd (reverse q)) = Some (x, r) \<and> y \<in> set (queue r) \<and> pq_less (kind q) y x))"
proof
  show "\<forall>q. pq_inv q \<longrightarrow> pq_inv (fst (reverse q)) \<and> mset (queue (fst (reverse q))) = mset (queue q) \<and>
      kind (fst (reverse q)) = other_kind (kind q)"
    using reverse_inv unfolding pq_inv_def by blast
  show "\<exists>q :: nat pq. pq_inv q \<and>
      (\<exists>x r y. pop (snd (reverse q)) = Some (x, r) \<and> y \<in> set (queue r) \<and> pq_less (kind q) y x)"
    using two_items by blast
qed

lemma reverse_corrupts_receiver_witness:
  "pq_inv two_item_queue \<and> pq_inv (fst (reverse two_item_queue))"
  using reverse_corrupts_receiver two_items by blast

end
