(* ===== verification/HnswSearch.thy ===== *)
theory HnswSearch
  imports HnswVertex HnswConfig PriorityQueue
begin

text \<open>
  The searches of \<open>index/hnsw.go\<close> over a store of vertices: \<open>greedyClosestNeighbor\<close>,
  \<open>searchLevel\<close>, the two selections of neighbours and \<open>pruneNeighbors\<close>. The distance of the
  index's space is the argument \<open>D\<close>. Each \<open>range\<close> over an edge set visits it in the order the
  environment gives; \<open>None\<close> is a panic.

  Every loop terminates, which the \<open>termination\<close> proofs show: the greedy walk because the
  distance strictly decreases in a finite order, the best-first search because each round removes
  a candidate and a candidate is added only with a vertex that was not visited before.
\<close>

type_synonym distance = "vec \<Rightarrow> vec \<Rightarrow> f32"

section \<open>The greedy walk\<close>

text \<open>The body of the outer loop: the closest neighbour that is closer than \<open>md\<close>, or nil.\<close>

fun closest_scan :: "distance \<Rightarrow> store \<Rightarrow> vec \<Rightarrow> edge_set \<Rightarrow> f32 \<Rightarrow> ptr \<Rightarrow> (ptr \<times> f32) option" where
  "closest_scan D st q [] md c = Some (c, md)"
| "closest_scan D st q (e # es) md c = do {
     v \<leftarrow> deref st (fst e);
     if is_deleted v then closest_scan D st q es md c
     else let d = D q (vvector v)
          in if f32_lt d md then closest_scan D st q es d (fst e)
             else closest_scan D st q es md c }"

lemma closest_scan_decreases: "closest_scan D st q es md c = Some (c', md') \<Longrightarrow>
    c' = c \<and> md' = md \<or> f32_lt md' md"
  by (induction D st q es md c rule: closest_scan.induct)
    (fastforce simp: bind_eq_Some_conv Let_def split: if_splits dest: f32_lt_trans)+

function greedy_closest_neighbor ::
  "distance \<Rightarrow> store \<Rightarrow> env \<Rightarrow> vec \<Rightarrow> int \<Rightarrow> ptr \<Rightarrow> f32 \<Rightarrow> (ptr \<times> f32) option" where
  "greedy_closest_neighbor D st env q l ep md =
     (case edges_of st ep l of
        None \<Rightarrow> None
      | Some es \<Rightarrow>
         (case closest_scan D st q (visit env es) md nil of
            None \<Rightarrow> None
          | Some (c, md') \<Rightarrow>
              if c = nil then Some (ep, md')
              else greedy_closest_neighbor D st (sub env 0) q l c md'))"
  by pat_completeness auto

termination
proof (relation "measure (\<lambda>(D, st, env, q, l, ep, md). nat (f32_key md + 2 ^ 31))", goal_cases)
  case (2 D st env q l ep md es r c md')
  then have "f32_lt md' md" by (auto dest!: closest_scan_decreases)
  then have "f32_key md' < f32_key md" by (rule f32_lt_key)
  then show ?case using f32_key_lower [of md'] by simp
qed simp

declare greedy_closest_neighbor.simps [simp del]

text \<open>\<open>for l := entrypoint.level; l > stop; l-- { greedyClosestNeighbor(..., l) }\<close>\<close>

function descend ::
  "distance \<Rightarrow> store \<Rightarrow> env \<Rightarrow> vec \<Rightarrow> int \<Rightarrow> int \<Rightarrow> ptr \<Rightarrow> f32 \<Rightarrow> (ptr \<times> f32) option" where
  "descend D st env q stop l ep md =
     (if stop < l then
        (case greedy_closest_neighbor D st (sub env 0) q l ep md of
           None \<Rightarrow> None
         | Some (ep', md') \<Rightarrow> descend D st (sub env 1) q stop (l - 1) ep' md')
      else Some (ep, md))"
  by pat_completeness auto

termination by (relation "measure (\<lambda>(D, st, env, q, stop, l, ep, md). nat (l - stop))") auto

declare descend.simps [simp del]

section \<open>The best-first search of a level\<close>

record search_state =
  candidate_vertices :: "ptr pq"
  result_vertices :: "ptr pq"
  visited_vertices :: "ptr list"

text \<open>The inner loop of \<open>searchLevel\<close>, over the edges of one candidate.\<close>

fun search_edges ::
  "distance \<Rightarrow> store \<Rightarrow> vec \<Rightarrow> int \<Rightarrow> f32 \<Rightarrow> edge_set \<Rightarrow> search_state \<Rightarrow> search_state option" where
  "search_edges D st q ef lb [] s = Some s"
| "search_edges D st q ef lb (e # es) s = do {
     v \<leftarrow> deref st (fst e);
     if is_deleted v \<or> fst e \<in> set (visited_vertices s) then search_edges D st q ef lb es s
     else
       let s1 = s\<lparr>visited_vertices := fst e # visited_vertices s\<rparr>;
           d = D q (vvector v)
       in if f32_lt d lb \<or> int (pq_len (result_vertices s1)) < ef then do {
            cands \<leftarrow> push (new_item d (fst e)) (candidate_vertices s1);
            results \<leftarrow> push (new_item d (fst e)) (result_vertices s1);
            results' \<leftarrow> (if ef < int (pq_len results) then map_option snd (pop results)
                        else Some results);
            search_edges D st q ef lb es
              (s1\<lparr>candidate_vertices := cands, result_vertices := results'\<rparr>) }
          else search_edges D st q ef lb es s1 }"

definition unvisited :: "store \<Rightarrow> search_state \<Rightarrow> nat" where
  "unvisited st s = card ({1..length st} - set (visited_vertices s))"

definition search_measure :: "store \<Rightarrow> search_state \<Rightarrow> nat" where
  "search_measure st s = pq_len (candidate_vertices s) + unvisited st s"

lemma unvisited_insert: "deref st p = Some v \<Longrightarrow> p \<notin> set (visited_vertices s) \<Longrightarrow>
    unvisited st s = Suc (unvisited st (s\<lparr>visited_vertices := p # visited_vertices s\<rparr>))"
proof -
  assume p: "deref st p = Some v" "p \<notin> set (visited_vertices s)"
  let ?U = "{1..length st} - set (visited_vertices s)"
  have "?U - {p} = {1..length st} - set (p # visited_vertices s)" by auto
  moreover have "p \<in> ?U" using p deref_SomeD by auto
  ultimately show ?thesis
    using card.remove [of ?U p] by (simp add: unvisited_def del: set_simps)
qed

lemma search_edges_measure:
  "search_edges D st q ef lb es s = Some s' \<Longrightarrow> search_measure st s' \<le> search_measure st s"
proof (induction D st q ef lb es s rule: search_edges.induct)
  case (2 D st q ef lb e es s)
  then obtain v where v: "deref st (fst e) = Some v" by (auto simp: bind_eq_Some_conv)
  show ?case
  proof (cases "is_deleted v \<or> fst e \<in> set (visited_vertices s)")
    case True
    then have "search_edges D st q ef lb es s = Some s'" using "2.prems" v by simp
    then show ?thesis by (rule "2.IH"(1) [OF v True])
  next
    case False
    let ?s1 = "s\<lparr>visited_vertices := fst e # visited_vertices s\<rparr>" and ?d = "D q (vvector v)"
    have u: "unvisited st s = Suc (unvisited st ?s1)" using unvisited_insert v False by blast
    show ?thesis
    proof (cases "f32_lt ?d lb \<or> int (pq_len (result_vertices ?s1)) < ef")
      case True
      then obtain cands r results where cands: "push (new_item ?d (fst e)) (candidate_vertices s) = Some cands"
        and r: "push (new_item ?d (fst e)) (result_vertices s) = Some r"
        and results: "(if ef < int (pq_len r) then map_option snd (pop r) else Some r) = Some results"
        and rest: "search_edges D st q ef lb es
          (?s1\<lparr>candidate_vertices := cands, result_vertices := results\<rparr>) = Some s'"
        using "2.prems" v \<open>\<not> (is_deleted v \<or> _)\<close> by (auto simp: bind_eq_Some_conv Let_def)
      have le: "search_measure st s' \<le>
          search_measure st (?s1\<lparr>candidate_vertices := cands, result_vertices := results\<rparr>)"
        by (rule "2.IH"(2) [OF v \<open>\<not> (is_deleted v \<or> _)\<close> refl refl True _ _ results rest])
          (use cands r in simp_all)
      have "pq_len cands = Suc (pq_len (candidate_vertices s))"
        using push_length [OF cands] by (simp add: pq_len_def)
      with le u show ?thesis by (simp add: search_measure_def unvisited_def)
    next
      case False
      have rest: "search_edges D st q ef lb es ?s1 = Some s'"
        using "2.prems" v False \<open>\<not> (is_deleted v \<or> _)\<close> by (auto simp: Let_def)
      have "search_measure st s' \<le> search_measure st ?s1"
        by (rule "2.IH"(3) [OF v \<open>\<not> (is_deleted v \<or> _)\<close> refl refl False rest])
      with u show ?thesis by (simp add: search_measure_def)
    qed
  qed
qed simp

function search_loop ::
  "distance \<Rightarrow> store \<Rightarrow> env \<Rightarrow> vec \<Rightarrow> int \<Rightarrow> int \<Rightarrow> search_state \<Rightarrow> (ptr pq) option" where
  "search_loop D st env q ef l s =
     (if pq_len (candidate_vertices s) = 0 then Some (result_vertices s)
      else
        (case pop (candidate_vertices s) of
           None \<Rightarrow> None
         | Some (c, cands) \<Rightarrow>
             (case peek (result_vertices s) of
                None \<Rightarrow> None
              | Some worst \<Rightarrow>
                  if f32_lt (priority worst) (priority c) then Some (result_vertices s)
                  else
                    (case edges_of st (val c) l of
                       None \<Rightarrow> None
                     | Some es \<Rightarrow>
                         (case search_edges D st q ef (priority worst) (visit env es)
                                 (s\<lparr>candidate_vertices := cands\<rparr>) of
                            None \<Rightarrow> None
                          | Some s' \<Rightarrow> search_loop D st (sub env 0) q ef l s')))))"
  by pat_completeness auto

termination
proof (relation "measure (\<lambda>(D, st, env, q, ef, l, s). search_measure st s)", goal_cases)
  case (2 D st env q ef l s r c cands worst es s')
  then have "search_measure st s' \<le> search_measure st (s\<lparr>candidate_vertices := cands\<rparr>)"
    by (blast intro: search_edges_measure)
  moreover have "pq_len (candidate_vertices s) = Suc (pq_len cands)"
    using 2 by (auto simp: pq_len_def dest: pop_length)
  ultimately show ?case by (simp add: search_measure_def unvisited_def)
qed simp

declare search_loop.simps [simp del]

definition search_level ::
  "distance \<Rightarrow> store \<Rightarrow> env \<Rightarrow> vec \<Rightarrow> ptr \<Rightarrow> int \<Rightarrow> int \<Rightarrow> (ptr pq) option" where
  "search_level D st env q ep ef l = do {
     v \<leftarrow> deref st ep;
     let x = new_item (D q (vvector v)) ep;
     cands \<leftarrow> new_min_pq [x];
     results \<leftarrow> new_max_pq [x];
     search_loop D st env q ef l
       \<lparr>candidate_vertices = cands, result_vertices = results, visited_vertices = [ep]\<rparr> }"

section \<open>Selecting neighbours\<close>

function select_neighbors :: "int \<Rightarrow> 'v pq \<Rightarrow> 'v pq option" where
  "select_neighbors k q =
     (if k < int (pq_len q) then
        (case pop q of None \<Rightarrow> None | Some (x, q') \<Rightarrow> select_neighbors k q')
      else Some q)"
  by pat_completeness auto

termination
  by (relation "measure (\<lambda>(k, q). pq_len q)") (auto simp: pq_len_def dest!: pop_length)

declare select_neighbors.simps [simp del]

text \<open>
  \<open>selectNeighborsHeuristic\<close> reverses its queue, and the two queues then share one array. When
  candidates are extended, the code pops from the old queue and pushes to the new one in turn:
  \<open>shared\<close> is the array, \<open>own\<close> the new queue's own array once an \<open>append\<close> had to move it,
  and \<open>remaining\<close> the length of the old queue, a prefix of the shared array.
\<close>

record extension =
  shared :: "ptr item list"
  own :: "ptr item list option"
  remaining :: nat
  existing :: "ptr list"

definition ext_candidates :: "extension \<Rightarrow> ptr item list" where
  "ext_candidates x = (case own x of None \<Rightarrow> shared x | Some ys \<Rightarrow> ys)"

definition ext_push :: "nat \<Rightarrow> ptr item \<Rightarrow> extension \<Rightarrow> extension option" where
  "ext_push capacity i x =
     (if f32_negative (priority i) then None
      else Some (case own x of
          Some ys \<Rightarrow> x\<lparr>own := Some (heap_push min_less ys i)\<rparr>
        | None \<Rightarrow>
            if length (shared x) < capacity then x\<lparr>shared := heap_push min_less (shared x) i\<rparr>
            else x\<lparr>own := Some (heap_push min_less (shared x) i)\<rparr>))"

definition ext_pop :: "extension \<Rightarrow> ptr item \<times> extension" where
  "ext_pop x =
     (let n = remaining x - 1;
          arr = heap_down max_less (swap (shared x) 0 n) 0 n
      in (arr ! n, x\<lparr>shared := arr, remaining := n\<rparr>))"

fun extend_edges ::
  "distance \<Rightarrow> store \<Rightarrow> vec \<Rightarrow> nat \<Rightarrow> edge_set \<Rightarrow> extension \<Rightarrow> extension option" where
  "extend_edges D st q capacity [] x = Some x"
| "extend_edges D st q capacity (e # es) x = do {
     v \<leftarrow> deref st (fst e);
     if is_deleted v \<or> fst e \<in> set (existing x) then extend_edges D st q capacity es x
     else do {
       x' \<leftarrow> ext_push capacity (new_item (D q (vvector v)) (fst e))
              (x\<lparr>existing := fst e # existing x\<rparr>);
       extend_edges D st q capacity es x' } }"

fun extend_candidates ::
  "distance \<Rightarrow> store \<Rightarrow> env \<Rightarrow> vec \<Rightarrow> int \<Rightarrow> nat \<Rightarrow> nat \<Rightarrow> extension \<Rightarrow> extension option" where
  "extend_candidates D st env q l capacity 0 x = Some x"
| "extend_candidates D st env q l capacity (Suc n) x = do {
     let (i, x1) = ext_pop x;
     es \<leftarrow> edges_of st (val i) l;
     x2 \<leftarrow> extend_edges D st q capacity (visit env es) x1;
     extend_candidates D st (sub env 0) q l capacity n x2 }"

text \<open>The two loops that fill the result, the second one under \<open>keepPruned\<close>.\<close>

function take_closest :: "int \<Rightarrow> 'v pq \<Rightarrow> 'v pq \<Rightarrow> ('v pq \<times> 'v pq) option" where
  "take_closest k cands result =
     (if 0 < pq_len cands \<and> int (pq_len result) < k then
        (case pop cands of
           None \<Rightarrow> None
         | Some (x, cands') \<Rightarrow>
             (case push x result of None \<Rightarrow> None | Some result' \<Rightarrow> take_closest k cands' result'))
      else Some (cands, result))"
  by pat_completeness auto

termination
  by (relation "measure (\<lambda>(k, c, r). pq_len c)") (auto simp: pq_len_def dest!: pop_length)

declare take_closest.simps [simp del]

function keep_pruned :: "int \<Rightarrow> 'v pq \<Rightarrow> 'v pq \<Rightarrow> ('v pq \<times> 'v pq) option" where
  "keep_pruned k cands result =
     (if 0 < pq_len cands then
        (if k \<le> int (pq_len result) then Some (cands, result)
         else
           (case pop cands of
              None \<Rightarrow> None
            | Some (x, cands') \<Rightarrow>
                (case push x result of None \<Rightarrow> None | Some result' \<Rightarrow> keep_pruned k cands' result')))
      else Some (cands, result))"
  by pat_completeness auto

termination
  by (relation "measure (\<lambda>(k, c, r). pq_len c)") (auto simp: pq_len_def dest!: pop_length)

declare keep_pruned.simps [simp del]

definition select_neighbors_heuristic ::
  "distance \<Rightarrow> store \<Rightarrow> env \<Rightarrow> vec \<Rightarrow> ptr pq \<Rightarrow> int \<Rightarrow> int \<Rightarrow> bool \<Rightarrow> bool \<Rightarrow> (ptr pq) option" where
  "select_neighbors_heuristic D st env q neighbors k l extends keeps = do {
     let (candidates, neighbors') = reverse neighbors;
     let capacity = pq_len neighbors' + spare env [];
     let x = \<lparr>shared = queue candidates, own = None, remaining = pq_len neighbors',
              existing = pq_values neighbors'\<rparr>;
     x' \<leftarrow> (if extends then extend_candidates D st (sub env 0) q l capacity (pq_len neighbors') x
           else Some x);
     empty \<leftarrow> new_max_pq [];
     (cands, result) \<leftarrow> take_closest k (candidates\<lparr>queue := ext_candidates x'\<rparr>) empty;
     if keeps then map_option snd (keep_pruned k cands result) else Some result }"

text \<open>The switch on the search algorithm; another value leaves the queue as it is.\<close>

definition select ::
  "distance \<Rightarrow> store \<Rightarrow> env \<Rightarrow> hnsw_config \<Rightarrow> vec \<Rightarrow> ptr pq \<Rightarrow> int \<Rightarrow> int \<Rightarrow> (ptr pq) option" where
  "select D st env cfg q neighbors k l =
     (if cfg_search_algorithm cfg = hnsw_search_simple then select_neighbors k neighbors
      else if cfg_search_algorithm cfg = hnsw_search_heuristic then
        select_neighbors_heuristic D st env q neighbors k l
          (cfg_extend_candidates cfg) (cfg_keep_pruned cfg)
      else Some neighbors)"

section \<open>Pruning\<close>

fun push_live :: "store \<Rightarrow> edge_set \<Rightarrow> ptr pq \<Rightarrow> (ptr pq) option" where
  "push_live st [] q = Some q"
| "push_live st ((p, d) # es) q = do {
     v \<leftarrow> deref st p;
     if is_deleted v then push_live st es q
     else do { q' \<leftarrow> push (new_item d p) q; push_live st es q' } }"

definition edge_set_of :: "ptr item list \<Rightarrow> edge_set" where
  "edge_set_of items = fold (\<lambda>i m. AList.update (val i) (priority i) m) items []"

definition prune_neighbors ::
  "distance \<Rightarrow> env \<Rightarrow> hnsw_config \<Rightarrow> ptr \<Rightarrow> int \<Rightarrow> int \<Rightarrow> store \<Rightarrow> store option" where
  "prune_neighbors D env cfg p k l st = do {
     v \<leftarrow> deref st p;
     es \<leftarrow> edges_at v l;
     empty \<leftarrow> new_max_pq [];
     q \<leftarrow> push_live st (visit env es) empty;
     q' \<leftarrow> select D st (sub env 0) cfg (vvector v) q k l;
     set_edges p l (edge_set_of (to_slice q')) st }"

end
