(* ===== verification/Hnsw.thy ===== *)
theory Hnsw
  imports HnswSearch
begin

text \<open>
  \<open>index/hnsw.go\<close> and \<open>index/search_result.go\<close>: the index. Its state is the record \<open>hnsw\<close>,
  with the sixteen shards of the vertex map, the entrypoint and the store the pointers go to; an
  operation is a program over it (\<open>None\<close> is a panic, \<open>Inl\<close> an error return). The atomics and
  the shard mutexes are gone: the writers of an index are the committed entries of one raft log,
  applied one after the other, so a compare-and-swap meets the value that was loaded.
\<close>

section \<open>State\<close>

definition vertices_map_shard_count :: "64 word" where
  "vertices_map_shard_count = 16"

type_synonym shard = "(uuid \<times> ptr) list"

record hnsw =
  h_size :: "64 word"
  h_bytes_size :: "64 word"
  h_space :: space
  h_config :: hnsw_config
  h_len :: "64 word"
  h_vertices :: "shard list"
  h_entrypoint :: ptr
  h_store :: store

record search_result_item =
  sr_id :: uuid
  sr_metadata :: metadata
  sr_score :: f32

type_synonym search_result = "search_result_item list"

definition search_result_len :: "search_result \<Rightarrow> int" where
  "search_result_len r = int (length r)"

definition search_result_less :: "search_result_item \<Rightarrow> search_result_item \<Rightarrow> bool" where
  "search_result_less a b = f32_lt (sr_score a) (sr_score b)"

definition new_hnsw :: "(f32 \<Rightarrow> f32) \<Rightarrow> 64 word \<Rightarrow> space \<Rightarrow> hnsw_option list \<Rightarrow> hnsw" where
  "new_hnsw lg dim sp options = \<lparr>
     h_size = dim, h_bytes_size = 0, h_space = sp, h_config = new_hnsw_config lg options,
     h_len = 0, h_vertices = replicate (unat vertices_map_shard_count) [],
     h_entrypoint = nil, h_store = []\<rparr>"

definition hnsw_len :: "hnsw \<Rightarrow> int" where
  "hnsw_len h = sint (h_len h)"

text \<open>\<open>RandomLevel\<close>, given the number the generator returned and the logarithm.\<close>

definition random_level :: "(f32 \<Rightarrow> f32) \<Rightarrow> f32 \<Rightarrow> hnsw \<Rightarrow> int" where
  "random_level lg r h = f32_floor (random_exponential lg r (cfg_level_multiplier (h_config h)))"

section \<open>The vertex map\<close>

definition shard_idx :: "uuid \<Rightarrow> nat" where
  "shard_idx i = (case uuid_mod i vertices_map_shard_count of Some k \<Rightarrow> unat k | None \<Rightarrow> 0)"

definition find_vertex :: "hnsw \<Rightarrow> uuid \<Rightarrow> ptr option" where
  "find_vertex h i = map_of (h_vertices h ! shard_idx i) i"

definition store_vertex :: "vertex \<Rightarrow> (hnsw, ptr) prog" where
  "store_vertex v h =
     (if find_vertex h (vid v) \<noteq> None then Some (Inl ItemAlreadyExists, h)
      else let (p, st) = alloc (h_store h) v; s = shard_idx (vid v)
           in Some (Inr p, h\<lparr>
                h_store := st,
                h_vertices := (h_vertices h)[s := AList.update (vid v) p (h_vertices h ! s)],
                h_len := h_len h + 1,
                h_bytes_size := h_bytes_size h + vertex_bytes_size v\<rparr>))"

definition remove_vertex :: "uuid \<Rightarrow> (hnsw, ptr) prog" where
  "remove_vertex i h =
     (case find_vertex h i of
        None \<Rightarrow> Some (Inl ItemNotFound, h)
      | Some p \<Rightarrow> do {
          v \<leftarrow> deref (h_store h) p;
          let s = shard_idx i;
          st \<leftarrow> set_deleted (h_store h) p;
          Some (Inr p, h\<lparr>
            h_vertices := (h_vertices h)[s := AList.delete i (h_vertices h ! s)],
            h_len := h_len h + NOT 0,
            h_bytes_size := h_bytes_size h + NOT (vertex_bytes_size v - 1),
            h_store := st\<rparr>) })"

definition hnsw_get_vertex :: "uuid \<Rightarrow> (hnsw, ptr) prog" where
  "hnsw_get_vertex i h = (case find_vertex h i of
     Some p \<Rightarrow> Some (Inr p, h) | None \<Rightarrow> Some (Inl ItemNotFound, h))"

definition hnsw_get :: "uuid \<Rightarrow> (hnsw, vec) prog" where
  "hnsw_get i h = (case find_vertex h i of
     Some p \<Rightarrow> do { v \<leftarrow> deref (h_store h) p; Some (Inr (vvector v), h) }
   | None \<Rightarrow> Some (Inl ItemNotFound, h))"

section \<open>Insert\<close>

text \<open>
  The loop that links the selected neighbours: it returns the store and the entrypoint of the
  next level, the last neighbour it popped.
\<close>

function link_neighbors ::
  "distance \<Rightarrow> env \<Rightarrow> hnsw_config \<Rightarrow> ptr \<Rightarrow> int \<Rightarrow> int \<Rightarrow> ptr pq \<Rightarrow> ptr \<Rightarrow> store \<Rightarrow>
   (ptr \<times> store) option" where
  "link_neighbors D env cfg p l m_max q ep st =
     (if 0 < pq_len q then
        (case pop q of
           None \<Rightarrow> None
         | Some (i, q') \<Rightarrow> do {
             st1 \<leftarrow> add_edge p l (val i) (priority i) st;
             st2 \<leftarrow> add_edge (val i) l p (priority i) st1;
             n \<leftarrow> edges_count st2 (val i) l;
             st3 \<leftarrow> (if m_max < n then prune_neighbors D (sub env 0) cfg (val i) m_max l st2
                    else Some st2);
             link_neighbors D (sub env 1) cfg p l m_max q' (val i) st3 })
      else Some (ep, st))"
  by pat_completeness auto

termination
  by (relation "measure (\<lambda>(D, env, cfg, p, l, mm, q, ep, st). pq_len q)")
    (auto simp: pq_len_def dest!: pop_length)

declare link_neighbors.simps [simp del]

definition level_m_max :: "hnsw_config \<Rightarrow> int \<Rightarrow> int" where
  "level_m_max cfg l = (if l = 0 then cfg_m_max0 cfg else cfg_m_max cfg)"

function insert_levels ::
  "distance \<Rightarrow> env \<Rightarrow> hnsw_config \<Rightarrow> ptr \<Rightarrow> vec \<Rightarrow> int \<Rightarrow> ptr \<Rightarrow> store \<Rightarrow> store option" where
  "insert_levels D env cfg p x l ep st =
     (if 0 \<le> l then do {
        q \<leftarrow> search_level D st (sub env 0) x ep (cfg_ef_construction cfg) l;
        q' \<leftarrow> select D st (sub env 1) cfg x q (cfg_m cfg) l;
        (ep', st') \<leftarrow> link_neighbors D (sub env 2) cfg p l (level_m_max cfg l) q' ep st;
        insert_levels D (sub env 3) cfg p x (l - 1) ep' st' }
      else Some st)"
  by pat_completeness auto

termination
  by (relation "measure (\<lambda>(D, env, cfg, p, x, l, ep, st). nat (l + 1))") auto

declare insert_levels.simps [simp del]

text \<open>The part of \<open>Insert\<close> after the vertex is stored, with an entrypoint in place.\<close>

definition connect_vertex :: "distance \<Rightarrow> env \<Rightarrow> ptr \<Rightarrow> (hnsw, unit) prog" where
  "connect_vertex D env p h = do {
     v \<leftarrow> deref (h_store h) p;
     e \<leftarrow> deref (h_store h) (h_entrypoint h);
     (ep, _) \<leftarrow> descend D (h_store h) (sub env 0) (vvector v) (vlevel v) (vlevel e)
       (h_entrypoint h) (D (vvector v) (vvector e));
     e' \<leftarrow> deref (h_store h) ep;
     st \<leftarrow> insert_levels D (sub env 1) (h_config h) p (vvector v)
       (min_int [vlevel e', vlevel v]) ep (h_store h);
     let h' = h\<lparr>h_store := st\<rparr>;
     Some (Inr (), if vlevel e < vlevel v then h'\<lparr>h_entrypoint := p\<rparr> else h') }"

definition hnsw_insert ::
  "distance \<Rightarrow> env \<Rightarrow> uuid \<Rightarrow> vec \<Rightarrow> metadata \<Rightarrow> int \<Rightarrow> (hnsw, unit) prog" where
  "hnsw_insert D env i x m l h =
     (if h_entrypoint h = nil then do {
        v \<leftarrow> new_vertex i x m 0;
        andthen (store_vertex v) (\<lambda>p h. Some (Inr (), h\<lparr>h_entrypoint := p\<rparr>)) h }
      else do {
        v \<leftarrow> new_vertex i x m l;
        andthen (store_vertex v) (connect_vertex D env) h })"

section \<open>Remove\<close>

fun closest_edge :: "edge_set \<Rightarrow> f32 \<Rightarrow> ptr \<Rightarrow> ptr \<times> f32" where
  "closest_edge [] md c = (c, md)"
| "closest_edge ((q, d) # es) md c =
     (if f32_lt d md then closest_edge es d q else closest_edge es md c)"

text \<open>The search for the new entrypoint, from the top level down until a level has one.\<close>

function next_entrypoint :: "env \<Rightarrow> vertex \<Rightarrow> int \<Rightarrow> f32 \<Rightarrow> ptr option" where
  "next_entrypoint env v l md =
     (if 0 \<le> l then do {
        es \<leftarrow> edges_at v l;
        let (c, md') = closest_edge (visit env es) md nil;
        if c \<noteq> nil then Some c else next_entrypoint (sub env 0) v (l - 1) md' }
      else Some nil)"
  by pat_completeness auto

termination by (relation "measure (\<lambda>(env, v, l, md). nat (l + 1))") auto

declare next_entrypoint.simps [simp del]

fun unlink_neighbors ::
  "distance \<Rightarrow> env \<Rightarrow> hnsw_config \<Rightarrow> ptr \<Rightarrow> int \<Rightarrow> int \<Rightarrow> ptr list \<Rightarrow> store \<Rightarrow> store option" where
  "unlink_neighbors D env cfg p l m_max [] st = Some st"
| "unlink_neighbors D env cfg p l m_max (q # qs) st = do {
     st1 \<leftarrow> remove_edge q l p st;
     st2 \<leftarrow> prune_neighbors D (sub env 0) cfg q m_max l st1;
     unlink_neighbors D (sub env 1) cfg p l m_max qs st2 }"

function unlink_levels ::
  "distance \<Rightarrow> env \<Rightarrow> hnsw_config \<Rightarrow> ptr \<Rightarrow> int \<Rightarrow> store \<Rightarrow> store option" where
  "unlink_levels D env cfg p l st =
     (if 0 \<le> l then do {
        es \<leftarrow> edges_of st p l;
        st' \<leftarrow> unlink_neighbors D (sub env 0) cfg p l (level_m_max cfg l)
          (map fst (visit env es)) st;
        unlink_levels D (sub env 1) cfg p (l - 1) st' }
      else Some st)"
  by pat_completeness auto

termination by (relation "measure (\<lambda>(D, env, cfg, p, l, st). nat (l + 1))") auto

declare unlink_levels.simps [simp del]

text \<open>The part of \<open>Remove\<close> after the vertex left the map.\<close>

definition disconnect_vertex :: "distance \<Rightarrow> env \<Rightarrow> ptr \<Rightarrow> (hnsw, unit) prog" where
  "disconnect_vertex D env p h = do {
     v \<leftarrow> deref (h_store h) p;
     ep \<leftarrow> (if h_entrypoint h = p then next_entrypoint (sub env 0) v (vlevel v) max_float
           else Some (h_entrypoint h));
     st \<leftarrow> unlink_levels D (sub env 1) (h_config h) p (vlevel v) (h_store h);
     Some (Inr (), h\<lparr>h_entrypoint := ep, h_store := st\<rparr>) }"

definition hnsw_remove :: "distance \<Rightarrow> env \<Rightarrow> uuid \<Rightarrow> (hnsw, unit) prog" where
  "hnsw_remove D env i h = andthen (remove_vertex i) (disconnect_vertex D env) h"

section \<open>Search\<close>

fun collect :: "store \<Rightarrow> ptr item list \<Rightarrow> search_result option" where
  "collect st [] = Some []"
| "collect st (i # is) = do {
     v \<leftarrow> deref st (val i);
     rs \<leftarrow> collect st is;
     Some (rs @ [\<lparr>sr_id = vid v, sr_metadata = vmetadata v, sr_score = priority i\<rparr>]) }"

definition hnsw_search :: "distance \<Rightarrow> env \<Rightarrow> vec \<Rightarrow> 64 word \<Rightarrow> hnsw \<Rightarrow> search_result option" where
  "hnsw_search D env query k h =
     (if h_entrypoint h = nil then Some []
      else do {
        e \<leftarrow> deref (h_store h) (h_entrypoint h);
        (ep, _) \<leftarrow> descend D (h_store h) (sub env 0) query 0 (vlevel e) (h_entrypoint h)
          (D query (vvector e));
        neighbors \<leftarrow> search_level D (h_store h) (sub env 1) query ep
          (max_int [cfg_ef (h_config h), sint k]) 0;
        neighbors' \<leftarrow> select D (h_store h) (sub env 2) (h_config h) query neighbors (sint k) 0;
        let n = min_int [sint k, int (pq_len neighbors')];
        if n < 0 then None
        else do {
          (items, _) \<leftarrow> pop_n pop (nat n) neighbors';
          collect (h_store h) items } })"

end
