(* ===== verification/HnswSearchFacts.thy ===== *)
theory HnswSearchFacts
  imports HnswSearch
begin

text \<open>
  What the searches of \<open>HnswSearch\<close> return on a well-formed graph: none of them panics, and the
  vertices they return have the level that was searched. The walk ends in a vertex none of whose
  live neighbours is closer; the queues hold distinct vertices with their distances to the query;
  pruning changes nothing but one edge set.
\<close>

section \<open>The greedy walk\<close>

definition live :: "store \<Rightarrow> ptr \<Rightarrow> bool" where
  "live st p = (\<exists>v. deref st p = Some v \<and> \<not> is_deleted v)"

definition vec_of :: "store \<Rightarrow> ptr \<Rightarrow> vec" where
  "vec_of st p = (case deref st p of Some v \<Rightarrow> vvector v | None \<Rightarrow> [])"

lemma vec_of_simps [simp]: "deref st p = Some v \<Longrightarrow> vec_of st p = vvector v"
  by (simp add: vec_of_def)

lemma closest_scan_spec:
  "\<forall>e \<in> set es. deref st (fst e) \<noteq> None \<Longrightarrow>
   \<exists>c' md'. closest_scan D st q es md c = Some (c', md') \<and> \<not> f32_lt md md' \<and>
     (c' = c \<and> md' = md \<or>
      c' \<in> fst ` set es \<and> live st c' \<and> md' = D q (vec_of st c') \<and> f32_lt md' md) \<and>
     (\<forall>p \<in> fst ` set es. live st p \<longrightarrow> \<not> f32_lt (D q (vec_of st p)) md')"
proof (induction D st q es md c rule: closest_scan.induct)
  case (2 D st q e es md c)
  then obtain v where v: "deref st (fst e) = Some v" by auto
  consider "is_deleted v" | "\<not> is_deleted v" "f32_lt (D q (vvector v)) md"
    | "\<not> is_deleted v" "\<not> f32_lt (D q (vvector v)) md" by blast
  then show ?case
  proof cases
    case 1
    then show ?thesis using 2 v by (auto simp: live_def)
  next
    case 2: 2
    then obtain c' md' where r: "closest_scan D st q es (D q (vvector v)) (fst e) = Some (c', md')"
      "c' = fst e \<and> md' = D q (vvector v) \<or>
       c' \<in> fst ` set es \<and> live st c' \<and> md' = D q (vec_of st c') \<and> f32_lt md' (D q (vvector v))"
      "\<forall>p \<in> fst ` set es. live st p \<longrightarrow> \<not> f32_lt (D q (vec_of st p)) md'"
      using "2.IH"(2) [OF v 2(1) refl 2(2)] "2.prems" by auto
    have "f32_lt md' md" using r(2) 2(2) f32_lt_trans by blast
    moreover have "\<not> f32_lt (D q (vvector v)) md'" using r(2) f32_lt_asym by auto
    ultimately show ?thesis
      using r v 2 f32_lt_asym [of md' md] by (auto simp: live_def)
  next
    case 3
    then obtain c' md' where r: "closest_scan D st q es md c = Some (c', md')" "\<not> f32_lt md md'"
      "c' = c \<and> md' = md \<or>
       c' \<in> fst ` set es \<and> live st c' \<and> md' = D q (vec_of st c') \<and> f32_lt md' md"
      "\<forall>p \<in> fst ` set es. live st p \<longrightarrow> \<not> f32_lt (D q (vec_of st p)) md'"
      using "2.IH"(3) [OF v 3(1) refl 3(2)] "2.prems" by auto
    have "\<not> f32_lt (D q (vvector v)) md'" using r(3) 3(2) f32_lt_trans by blast
    then show ?thesis using r v 3 by auto
  qed
qed simp

lemma edges_ok_deref: "edges_ok st l es \<Longrightarrow> \<forall>e \<in> set es. deref st (fst e) \<noteq> None"
  by (auto simp: edges_ok_def elim!: has_levelE)

lemma edges_ok_level: "edges_ok st l es \<Longrightarrow> p \<in> fst ` set es \<Longrightarrow> has_level st p l"
  by (auto simp: edges_ok_def)

lemma edges_ok_visit: "fair env \<Longrightarrow> edges_ok st l (visit env es) = edges_ok st l es"
  by (simp add: edges_ok_def)

definition neighbours :: "store \<Rightarrow> ptr \<Rightarrow> int \<Rightarrow> ptr set" where
  "neighbours st p l = (case edges_of st p l of Some es \<Rightarrow> fst ` set es | None \<Rightarrow> {})"

lemma greedy_spec:
  "graph_ok st \<Longrightarrow> fair env \<Longrightarrow> has_level st ep l \<Longrightarrow> md = D q (vec_of st ep) \<Longrightarrow>
   \<exists>ep' md'. greedy_closest_neighbor D st env q l ep md = Some (ep', md') \<and>
     has_level st ep' l \<and> md' = D q (vec_of st ep') \<and> \<not> f32_lt md md' \<and> (ep' = ep \<or> live st ep') \<and>
     (\<forall>p \<in> neighbours st ep' l. live st p \<longrightarrow> \<not> f32_lt (D q (vec_of st p)) md')"
proof (induction D st env q l ep md rule: greedy_closest_neighbor.induct)
  case (1 D st env q l ep md)
  obtain es where es: "edges_of st ep l = Some es" using "1.prems"(3) by (auto elim: has_levelE)
  have ok: "edges_ok st l (visit env es)"
    using graph_ok_edges [OF "1.prems"(1) es] edges_ok_visit "1.prems"(2) by simp
  have set: "set (visit env es) = set es" using "1.prems"(2) by simp
  obtain c md' where scan: "closest_scan D st q (visit env es) md nil = Some (c, md')"
    and r: "\<not> f32_lt md md'"
      "c = nil \<and> md' = md \<or> c \<in> fst ` set es \<and> md' = D q (vec_of st c) \<and> f32_lt md' md \<and> live st c"
      "\<forall>p \<in> fst ` set es. live st p \<longrightarrow> \<not> f32_lt (D q (vec_of st p)) md'"
    using closest_scan_spec [OF edges_ok_deref [OF ok], of D q md nil] unfolding set by blast
  show ?case
  proof (cases "c = nil")
    case True
    moreover have "\<not> live st nil" by (simp add: live_def)
    ultimately have "md' = md" using r(2) by blast
    then show ?thesis
      using True es scan r "1.prems"
      by (auto simp: greedy_closest_neighbor.simps [of D st env] neighbours_def)
  next
    case False
    then have c: "c \<in> fst ` set es" "md' = D q (vec_of st c)" "f32_lt md' md" "live st c"
      using r(2) by auto
    have "has_level st c l" using edges_ok_level [OF ok] c(1) set by simp
    then obtain ep' m where rec: "greedy_closest_neighbor D st (sub env 0) q l c md' = Some (ep', m)"
      "has_level st ep' l" "m = D q (vec_of st ep')" "\<not> f32_lt md' m" "ep' = c \<or> live st ep'"
      "\<forall>p \<in> neighbours st ep' l. live st p \<longrightarrow> \<not> f32_lt (D q (vec_of st p)) m"
      using "1.IH" [OF es scan refl False] "1.prems" c(2) by auto
    moreover have "\<not> f32_lt md m"
      using c(3) rec(4) f32_lt_trans by blast
    ultimately show ?thesis
      using False es scan c(4) by (auto simp: greedy_closest_neighbor.simps [of D st env])
  qed
qed

lemma descend_spec:
  "graph_ok st \<Longrightarrow> fair env \<Longrightarrow> has_level st ep l \<Longrightarrow> md = D q (vec_of st ep) \<Longrightarrow> -1 \<le> stop \<Longrightarrow>
   \<exists>ep' md'. descend D st env q stop l ep md = Some (ep', md') \<and> has_level st ep' 0 \<and>
     (ep' = ep \<or> live st ep')"
proof (induction D st env q stop l ep md rule: descend.induct)
  case (1 D st env q stop l ep md)
  have l: "0 \<le> l" using "1.prems"(3) by (auto elim!: has_levelE simp: edges_at_def split: if_splits)
  show ?case
  proof (cases "stop < l")
    case True
    obtain e m where e: "greedy_closest_neighbor D st (sub env 0) q l ep md = Some (e, m)"
      "has_level st e l" "m = D q (vec_of st e)" "e = ep \<or> live st e"
      using greedy_spec [of st "sub env 0" ep l md D q] "1.prems" by auto
    show ?thesis
    proof (cases "l = 0")
      case True
      then have last: "descend D st (sub env 1) q stop (l - 1) e m = Some (e, m)"
        using "1.prems"(5) by (subst descend.simps) simp
      have "descend D st env q stop l ep md = Some (e, m)"
        using e(1) last \<open>stop < l\<close> by (subst descend.simps) simp
      then show ?thesis using e(2,4) True by simp
    next
      case False
      then have "has_level st e (l - 1)" using has_level_mono [OF "1.prems"(1) e(2)] l by simp
      then obtain ep' md' where "descend D st (sub env 1) q stop (l - 1) e m = Some (ep', md')"
        "has_level st ep' 0" "ep' = e \<or> live st ep'"
        using "1.IH" [OF True e(1) refl] "1.prems" e(3) by auto
      then show ?thesis
        using e True by (auto simp: descend.simps [of D st env])
    qed
  next
    case False
    then show ?thesis
      using "1.prems" l has_level_mono [OF "1.prems"(1,3)] by (auto simp: descend.simps [of D st env])
  qed
qed

section \<open>The best-first search\<close>

text \<open>The query's distance to every vertex of the store is a number.\<close>

definition regular :: "distance \<Rightarrow> store \<Rightarrow> vec \<Rightarrow> bool" where
  "regular D st q = (\<forall>p v. deref st p = Some v \<longrightarrow> \<not> f32_nan (D q (vvector v)))"

lemma regularD: "regular D st q \<Longrightarrow> has_level st p l \<Longrightarrow> \<not> f32_nan (D q (vec_of st p))"
  by (auto simp: regular_def elim!: has_levelE)

definition found :: "distance \<Rightarrow> store \<Rightarrow> vec \<Rightarrow> int \<Rightarrow> ptr \<Rightarrow> ptr item \<Rightarrow> bool" where
  "found D st q l ep x = (priority x = D q (vec_of st (val x)) \<and> has_level st (val x) l \<and>
     (live st (val x) \<or> val x = ep))"

definition search_inv :: "distance \<Rightarrow> store \<Rightarrow> vec \<Rightarrow> int \<Rightarrow> int \<Rightarrow> ptr \<Rightarrow> search_state \<Rightarrow> bool" where
  "search_inv D st q ef l ep s =
     (kind (candidate_vertices s) = MinPQ \<and> kind (result_vertices s) = MaxPQ \<and>
      (\<forall>x \<in> set (queue (candidate_vertices s)) \<union> set (queue (result_vertices s)). found D st q l ep x) \<and>
      distinct (map val (queue (result_vertices s))) \<and>
      val ` set (queue (result_vertices s)) \<subseteq> set (visited_vertices s) \<and>
      queue (result_vertices s) \<noteq> [] \<and> int (pq_len (result_vertices s)) \<le> max 1 ef \<and>
      (regular D st q \<longrightarrow> pq_inv (candidate_vertices s) \<and> pq_inv (result_vertices s)))"

lemma evict_spec:
  assumes "queue r \<noteq> []" "int (pq_len r) \<le> max 1 ef + 1" "1 < pq_len r"
  shows "\<exists>r'. (if ef < int (pq_len r) then map_option snd (pop r) else Some r) = Some r' \<and>
    kind r' = kind r \<and> set (queue r') \<subseteq> set (queue r) \<and> queue r' \<noteq> [] \<and>
    int (pq_len r') \<le> max 1 ef \<and> (distinct (map val (queue r)) \<longrightarrow> distinct (map val (queue r'))) \<and>
    (pq_inv r \<longrightarrow> pq_inv r')"
proof (cases "ef < int (pq_len r)")
  case True
  obtain x r' where x: "pop r = Some (x, r')" using pop_total assms(1) by blast
  have "Suc (pq_len r') = pq_len r" using pop_length [OF x] by (simp add: pq_len_def)
  moreover have "set (queue r') \<subseteq> set (queue r)" using pop_set [OF x] by auto
  moreover have "queue r' \<noteq> []" using calculation(1) assms(3) by (auto simp: pq_len_def)
  ultimately show ?thesis
    using True x assms pop_kind [OF x] pop_distinct [OF x] pop_inv [OF x] by auto
next
  case False
  then show ?thesis using assms by auto
qed

lemma search_inv_visit:
  "search_inv D st q ef l ep s \<Longrightarrow>
   search_inv D st q ef l ep (s\<lparr>visited_vertices := p # visited_vertices s\<rparr>)"
  by (auto simp: search_inv_def)

lemma search_inv_add:
  assumes inv: "search_inv D st q ef l ep s" and D: "accepted_distance D"
    and p: "live st p" "has_level st p l" "p \<notin> set (visited_vertices s)"
    and i: "i = new_item (D q (vec_of st p)) p"
  shows "\<exists>c r r'. push i (candidate_vertices s) = Some c \<and> push i (result_vertices s) = Some r \<and>
    (if ef < int (pq_len r) then map_option snd (pop r) else Some r) = Some r' \<and>
    search_inv D st q ef l ep
      (s\<lparr>visited_vertices := p # visited_vertices s, candidate_vertices := c, result_vertices := r'\<rparr>)"
proof -
  have i_ok: "\<not> f32_negative (priority i)" "found D st q l ep i" "regular D st q \<longrightarrow> pq_ok i"
    using D p regularD [of D st q p l]
    by (simp_all add: i new_item_def accepted_distance_def found_def pq_ok_def)
  obtain c where c: "push i (candidate_vertices s) = Some c" using push_total i_ok(1) by blast
  obtain r where r: "push i (result_vertices s) = Some r" using push_total i_ok(1) by blast
  have len: "pq_len r = Suc (pq_len (result_vertices s))" using push_length [OF r] by (simp add: pq_len_def)
  have pre: "queue r \<noteq> []" "int (pq_len r) \<le> max 1 ef + 1" "1 < pq_len r"
    using inv len push_length [OF r] by (auto simp: search_inv_def pq_len_def)
  obtain r' where r': "(if ef < int (pq_len r) then map_option snd (pop r) else Some r) = Some r'"
    "kind r' = kind r" "set (queue r') \<subseteq> set (queue r)" "queue r' \<noteq> []" "int (pq_len r') \<le> max 1 ef"
    "distinct (map val (queue r)) \<longrightarrow> distinct (map val (queue r'))" "pq_inv r \<longrightarrow> pq_inv r'"
    using evict_spec [OF pre] by blast
  have "val i \<notin> val ` set (queue (result_vertices s))"
    using inv p(3) by (auto simp: search_inv_def i new_item_def)
  then have "distinct (map val (queue r))"
    using inv unfolding push_distinct [OF r] search_inv_def by blast
  then have "distinct (map val (queue r'))" using r'(6) by blast
  moreover have "val ` set (queue r') \<subseteq> set (p # visited_vertices s)"
  proof -
    have "val ` set (queue r') \<subseteq> val ` insert i (set (queue (result_vertices s)))"
      using r'(3) unfolding push_set [OF r] by blast
    then show ?thesis using inv by (auto simp: search_inv_def i new_item_def)
  qed
  moreover have "\<forall>x \<in> set (queue c) \<union> set (queue r'). found D st q l ep x"
    using inv i_ok(2) r'(3) unfolding push_set [OF r] push_set [OF c] search_inv_def by blast
  moreover have "regular D st q \<longrightarrow> pq_inv c \<and> pq_inv r'"
    using inv i_ok(3) push_inv [OF c] push_inv [OF r] r'(7) by (simp add: search_inv_def)
  moreover have "kind c = MinPQ" "kind r' = MaxPQ"
    using inv push_kind [OF c] push_kind [OF r] r'(2) by (simp_all add: search_inv_def)
  ultimately have "search_inv D st q ef l ep
      (s\<lparr>visited_vertices := p # visited_vertices s, candidate_vertices := c, result_vertices := r'\<rparr>)"
    using r'(4,5) by (simp add: search_inv_def)
  then show ?thesis using c r r'(1) by blast
qed

lemma search_edges_spec:
  "search_inv D st q ef l ep s \<Longrightarrow> accepted_distance D \<Longrightarrow> \<forall>e \<in> set es. has_level st (fst e) l \<Longrightarrow>
   \<exists>s'. search_edges D st q ef lb es s = Some s' \<and> search_inv D st q ef l ep s'"
proof (induction es arbitrary: s)
  case (Cons e es)
  obtain v where v: "deref st (fst e) = Some v" using Cons.prems(3) by (auto elim: has_levelE)
  consider "is_deleted v \<or> fst e \<in> set (visited_vertices s)"
    | "\<not> (is_deleted v \<or> fst e \<in> set (visited_vertices s))"
      "f32_lt (D q (vvector v)) lb \<or> int (pq_len (result_vertices s)) < ef"
    | "\<not> (is_deleted v \<or> fst e \<in> set (visited_vertices s))"
      "\<not> (f32_lt (D q (vvector v)) lb \<or> int (pq_len (result_vertices s)) < ef)" by blast
  then show ?case
  proof cases
    case 1
    then show ?thesis using Cons v by simp
  next
    case 2
    then have "live st (fst e)" "has_level st (fst e) l" "fst e \<notin> set (visited_vertices s)"
      using v Cons.prems(3) by (auto simp: live_def)
    from search_inv_add [OF Cons.prems(1,2) this refl] obtain c r r' where
      "push (new_item (D q (vvector v)) (fst e)) (candidate_vertices s) = Some c"
      "push (new_item (D q (vvector v)) (fst e)) (result_vertices s) = Some r"
      "(if ef < int (pq_len r) then map_option snd (pop r) else Some r) = Some r'"
      "search_inv D st q ef l ep (s\<lparr>visited_vertices := fst e # visited_vertices s,
         candidate_vertices := c, result_vertices := r'\<rparr>)"
      using v by auto
    then show ?thesis using 2 Cons v by (simp add: Let_def)
  next
    case 3
    then show ?thesis using Cons v search_inv_visit [OF Cons.prems(1)] by (simp add: Let_def)
  qed
qed simp

lemma search_inv_popped:
  assumes "search_inv D st q ef l ep s" "pop (candidate_vertices s) = Some (c, cands)"
  shows "search_inv D st q ef l ep (s\<lparr>candidate_vertices := cands\<rparr>)" "found D st q l ep c"
  using assms pop_kind [OF assms(2)] pop_set [OF assms(2)] pop_inv [OF assms(2)]
  by (auto simp: search_inv_def)

definition result_ok :: "distance \<Rightarrow> store \<Rightarrow> vec \<Rightarrow> int \<Rightarrow> int \<Rightarrow> ptr \<Rightarrow> ptr pq \<Rightarrow> bool" where
  "result_ok D st q ef l ep r =
     (kind r = MaxPQ \<and> queue r \<noteq> [] \<and> int (pq_len r) \<le> max 1 ef \<and> distinct (map val (queue r)) \<and>
      (\<forall>x \<in> set (queue r). found D st q l ep x) \<and> (regular D st q \<longrightarrow> pq_inv r))"

lemma search_loop_spec:
  "search_inv D st q ef l ep s \<Longrightarrow> accepted_distance D \<Longrightarrow> graph_ok st \<Longrightarrow> fair env \<Longrightarrow>
   \<exists>r. search_loop D st env q ef l s = Some r \<and> result_ok D st q ef l ep r"
proof (induction D st env q ef l s rule: search_loop.induct)
  case (1 D st env q ef l s)
  have fin: "result_ok D st q ef l ep (result_vertices s)"
    using "1.prems"(1) by (auto simp: search_inv_def result_ok_def)
  show ?case
  proof (cases "pq_len (candidate_vertices s) = 0")
    case True
    then show ?thesis using fin by (simp add: search_loop.simps [of D st env])
  next
    case ne: False
    then obtain c cands where pop: "pop (candidate_vertices s) = Some (c, cands)"
      using pop_total by (fastforce simp: pq_len_def)
    obtain worst where peek: "peek (result_vertices s) = Some worst"
      using "1.prems"(1) by (simp add: search_inv_def peek_def pq_len_def)
    note popped = search_inv_popped [OF "1.prems"(1) pop]
    show ?thesis
    proof (cases "f32_lt (priority worst) (priority c)")
      case True
      then show ?thesis using fin ne pop peek by (simp add: search_loop.simps [of D st env])
    next
      case False
      obtain es where es: "edges_of st (val c) l = Some es"
        using popped(2) by (auto simp: found_def elim: has_levelE)
      have lev: "\<forall>e \<in> set (visit env es). has_level st (fst e) l"
        using graph_ok_edges [OF "1.prems"(3) es] "1.prems"(4) by (auto intro: edges_ok_level)
      obtain s' where s': "search_edges D st q ef (priority worst) (visit env es)
          (s\<lparr>candidate_vertices := cands\<rparr>) = Some s'" "search_inv D st q ef l ep s'"
        using search_edges_spec [OF popped(1) "1.prems"(2) lev] by blast
      obtain r where "search_loop D st (sub env 0) q ef l s' = Some r" "result_ok D st q ef l ep r"
        using "1.IH" [OF ne pop refl peek False es s'(1) s'(2)] "1.prems" by auto
      then show ?thesis
        using ne pop peek False es s'(1) by (simp add: search_loop.simps [of D st env])
    qed
  qed
qed

lemma initial_queue:
  assumes "\<not> f32_negative (priority x)"
  shows "\<exists>q. initialize_priority_queue k [] [x] = Some q \<and> kind q = k \<and> queue q = [x] \<and>
    (pq_ok x \<longrightarrow> pq_inv q)"
proof -
  obtain q where q: "push x \<lparr>kind = k, queue = []\<rparr> = Some q" using push_total assms by blast
  have "mset (queue q) = {#x#}" using push_mset [OF q] by simp
  then have "queue q = [x]" by (metis mset_eq_length mset_single_iff_right)
  then show ?thesis
    using q push_kind [OF q] push_inv [OF q] by (simp add: initialize_priority_queue_def)
qed

lemma search_level_spec:
  assumes "graph_ok st" "fair env" "accepted_distance D" "has_level st ep l"
  shows "\<exists>r. search_level D st env q ep ef l = Some r \<and> result_ok D st q ef l ep r"
proof -
  obtain v where v: "deref st ep = Some v" using assms(4) by (auto elim: has_levelE)
  let ?x = "new_item (D q (vvector v)) ep"
  have x: "\<not> f32_negative (priority ?x)" "regular D st q \<longrightarrow> pq_ok ?x" "found D st q l ep ?x"
    using assms v by (simp_all add: new_item_def accepted_distance_def regular_def pq_ok_def found_def)
  obtain c where c: "new_min_pq [?x] = Some c" "kind c = MinPQ" "queue c = [?x]" "pq_ok ?x \<longrightarrow> pq_inv c"
    using initial_queue [OF x(1), of MinPQ] by (auto simp: new_min_pq_def)
  obtain r where r: "new_max_pq [?x] = Some r" "kind r = MaxPQ" "queue r = [?x]" "pq_ok ?x \<longrightarrow> pq_inv r"
    using initial_queue [OF x(1), of MaxPQ] by (auto simp: new_max_pq_def)
  let ?s = "\<lparr>candidate_vertices = c, result_vertices = r, visited_vertices = [ep]\<rparr>"
  have "search_inv D st q ef l ep ?s"
    using c(2-4) r(2-4) x by (simp add: search_inv_def pq_len_def new_item_def)
  then obtain q' where "search_loop D st env q ef l ?s = Some q'" "result_ok D st q ef l ep q'"
    using search_loop_spec [of D st q ef l ep ?s env] assms by blast
  then show ?thesis using v c(1) r(1) by (simp add: search_level_def Let_def)
qed

end
