(* ===== verification/HnswSelectFacts.thy ===== *)
theory HnswSelectFacts
  imports HnswSearchFacts
begin

text \<open>
  The two selections of neighbours. Without extension of the candidates both return \<open>k\<close> of the
  closest items of the queue (\<open>closest\<close>), so the heuristic selects what the simple algorithm
  selects, up to ties, and the second loop of the heuristic never runs. With extension the
  aliasing of \<open>Reverse\<close> makes the order arbitrary, but the result still consists of distinct
  candidates and is no longer than \<open>k\<close>.
\<close>

section \<open>The simple selection\<close>

text \<open>\<open>r\<close> holds \<open>n\<close> items of \<open>q\<close> such that no item left out is closer.\<close>

definition closest :: "nat \<Rightarrow> 'v item list \<Rightarrow> 'v item list \<Rightarrow> bool" where
  "closest n q r = (length r = min n (length q) \<and>
     (\<exists>dropped. mset q = mset r + mset dropped \<and>
        (\<forall>x \<in> set r. \<forall>y \<in> set dropped. \<not> f32_lt (priority y) (priority x))))"

lemma select_neighbors_pop_n:
  "0 \<le> k \<Longrightarrow> select_neighbors k q = map_option snd (pop_n pop (pq_len q - nat k) q)"
proof (induction k q rule: select_neighbors.induct)
  case (1 k q)
  show ?case
  proof (cases "k < int (pq_len q)")
    case True
    then obtain x q' where x: "pop q = Some (x, q')"
      using pop_total [of q] "1.prems" by (fastforce simp: pq_len_def)
    have "pq_len q = Suc (pq_len q')" using pop_length [OF x] by (simp add: pq_len_def)
    then have "pq_len q - nat k = Suc (pq_len q' - nat k)" using True "1.prems" by linarith
    then show ?thesis
      using True x "1.IH" [OF True x refl] "1.prems"
      by (simp add: select_neighbors.simps [of k q])
        (cases "pop_n pop (pq_len q' - nat k) q'"; auto)
  next
    case False
    then have "pq_len q - nat k = 0" by linarith
    then show ?thesis using False by (simp add: select_neighbors.simps [of k q])
  qed
qed

lemma pop_n_kind: "pop_n pop n q = Some (xs, q') \<Longrightarrow> kind q' = kind q"
  by (induction n arbitrary: q xs) (auto simp: bind_eq_Some_conv dest: pop_kind)

lemma select_neighbors_spec:
  assumes "0 \<le> k"
  shows "\<exists>q'. select_neighbors k q = Some q' \<and> kind q' = kind q \<and>
    pq_len q' = min (nat k) (pq_len q) \<and> mset (queue q') \<subseteq># mset (queue q) \<and>
    (pq_inv q \<longrightarrow> pq_inv q') \<and>
    (pq_inv q \<longrightarrow> kind q = MaxPQ \<longrightarrow> closest (nat k) (queue q) (queue q'))"
proof -
  obtain xs q' where pops: "pop_n pop (pq_len q - nat k) q = Some (xs, q')"
    using pq_pop.pop_n_total [of "pq_len q - nat k" q] by (auto simp: pq_len_def)
  have m: "mset (queue q) = mset xs + mset (queue q')" using pops by (rule pq_pop.pop_n_mset)
  then have "length (queue q) = length xs + length (queue q')"
    by (metis size_mset size_union)
  then have len: "pq_len q' = min (nat k) (pq_len q)"
    using pq_pop.pop_n_length [OF pops] by (simp add: pq_len_def)
  have "\<forall>x \<in> set (queue q'). \<forall>y \<in> set xs. \<not> f32_lt (priority y) (priority x)"
    if "pq_inv q" "kind q = MaxPQ"
    using max_pop.pop_n_first [OF pops] that by (auto simp: max_less_def)
  then show ?thesis
    using pops assms m len pop_n_kind [OF pops] pq_pop.pop_n_invar [OF pops]
    by (auto simp: select_neighbors_pop_n closest_def pq_len_def union_commute)
qed

section \<open>The loops of the heuristic\<close>

lemma take_closest_eq:
  "take_closest k c r = do {
     (xs, c') \<leftarrow> pop_n pop (min (pq_len c) (nat (k - int (pq_len r)))) c;
     r' \<leftarrow> push_all xs r;
     Some (c', r') }"
proof (induction k c r rule: take_closest.induct)
  case (1 k c r)
  show ?case
  proof (cases "0 < pq_len c \<and> int (pq_len r) < k")
    case True
    then obtain x c' where x: "pop c = Some (x, c')"
      using pop_total [of c] by (fastforce simp: pq_len_def)
    have c': "pq_len c = Suc (pq_len c')" using pop_length [OF x] by (simp add: pq_len_def)
    show ?thesis
    proof (cases "push x r")
      case None
      define m where "m = min (pq_len c') (nat (k - int (pq_len r)) - 1)"
      have n: "min (pq_len c) (nat (k - int (pq_len r))) = Suc m"
        using True c' by (simp add: m_def)
      show ?thesis
        using True x None unfolding n
        by (cases "pop_n pop m c'") (auto simp: take_closest.simps [of k c r] simp del: push_eq_None)
    next
      case (Some r')
      have "pq_len r' = Suc (pq_len r)" using push_length [OF Some] by (simp add: pq_len_def)
      then have n: "min (pq_len c) (nat (k - int (pq_len r))) =
          Suc (min (pq_len c') (nat (k - int (pq_len r'))))"
        using True c' by linarith
      show ?thesis
        using True x Some "1.IH" [OF True x refl Some] unfolding n
        by (simp add: take_closest.simps [of k c r] split_beta Option.bind_assoc)
    qed
  next
    case False
    then have "min (pq_len c) (nat (k - int (pq_len r))) = 0" by linarith
    moreover have "take_closest k c r = Some (c, r)"
      using False by (subst take_closest.simps) (simp only: if_False)
    ultimately show ?thesis by simp
  qed
qed

lemma take_closest_spec:
  assumes "\<forall>x \<in> set (queue c). \<not> f32_negative (priority x)" "int (pq_len r) \<le> k"
  shows "\<exists>c' r'. take_closest k c r = Some (c', r') \<and> kind r' = kind r \<and>
    mset (queue c) + mset (queue r) = mset (queue c') + mset (queue r') \<and>
    pq_len r' = pq_len r + min (pq_len c) (nat k - pq_len r) \<and>
    (pq_inv r \<longrightarrow> (\<forall>x \<in> set (queue c). pq_ok x) \<longrightarrow> pq_inv r') \<and>
    (pq_inv c \<longrightarrow> kind c = MinPQ \<longrightarrow> (\<exists>xs. mset (queue r') = mset (queue r) + mset xs \<and>
       (\<forall>x \<in> set xs. \<forall>y \<in> set (queue c'). \<not> f32_lt (priority y) (priority x))))"
proof -
  let ?n = "min (pq_len c) (nat (k - int (pq_len r)))"
  obtain xs c' where pops: "pop_n pop ?n c = Some (xs, c')"
    using pq_pop.pop_n_total [of ?n c] by (auto simp: pq_len_def)
  have m: "mset (queue c) = mset xs + mset (queue c')" using pops by (rule pq_pop.pop_n_mset)
  then have sub: "set xs \<subseteq> set (queue c)" using mset_union_set by blast
  then obtain r' where r': "push_all xs r = Some r'"
    using push_all_total [of xs r] assms(1) by blast
  note spec = push_all_spec [OF r']
  have "length (queue r') = length (queue r) + length xs"
    using spec by (metis size_mset size_union)
  then have len: "pq_len r' = pq_len r + min (pq_len c) (nat k - pq_len r)"
    using pq_pop.pop_n_length [OF pops] assms(2) by (simp add: pq_len_def nat_diff_distrib)
  have "\<forall>x \<in> set xs. \<forall>y \<in> set (queue c'). \<not> f32_lt (priority y) (priority x)"
    if "pq_inv c" "kind c = MinPQ"
    using min_pop.pop_n_first [OF pops] that by (auto simp: min_less_def)
  then show ?thesis
    using pops r' m spec len sub by (auto simp: take_closest_eq ac_simps)
qed

lemma keep_pruned_idle: "k \<le> int (pq_len r) \<or> pq_len c = 0 \<Longrightarrow> keep_pruned k c r = Some (c, r)"
  by (auto simp: keep_pruned.simps [of k c r])

lemma take_closest_full:
  "take_closest k c r = Some (c', r') \<Longrightarrow> k \<le> int (pq_len r') \<or> pq_len c' = 0"
  by (induction k c r rule: take_closest.induct)
    (subst (asm) (2) take_closest.simps, auto split: if_splits option.splits)

lemma keep_pruned_after_take:
  "take_closest k c r = Some (c', r') \<Longrightarrow> keep_pruned k c' r' = Some (c', r')"
  by (rule keep_pruned_idle) (rule take_closest_full)

section \<open>The heuristic without extension\<close>

lemma new_max_pq_Nil [simp]: "new_max_pq [] = Some \<lparr>kind = MaxPQ, queue = []\<rparr>"
  by (simp add: new_max_pq_def initialize_priority_queue_def)

lemma heuristic_eq:
  "select_neighbors_heuristic D st env q neighbors k l extends keeps = do {
     let candidates = fst (reverse neighbors);
     x' \<leftarrow> (if extends
        then extend_candidates D st (sub env 0) q l (pq_len neighbors + spare env []) (pq_len neighbors)
          \<lparr>shared = queue candidates, own = None, remaining = pq_len neighbors,
           existing = map val (queue candidates)\<rparr>
        else Some \<lparr>shared = queue candidates, own = None, remaining = pq_len neighbors,
           existing = map val (queue candidates)\<rparr>);
     map_option snd (take_closest k (candidates\<lparr>queue := ext_candidates x'\<rparr>)
       \<lparr>kind = MaxPQ, queue = []\<rparr>) }"
proof -
  have keep: "(do { (c, r) \<leftarrow> take_closest k a b;
      if keeps then map_option snd (keep_pruned k c r) else Some r }) =
      map_option snd (take_closest k a b)" for a b :: "ptr pq"
    by (cases "take_closest k a b") (auto simp: keep_pruned_after_take)
  show ?thesis
    unfolding select_neighbors_heuristic_def Let_def reverse_def
    by (simp add: keep pq_len_def pq_values_def to_slice_def length_heap_init)
qed

lemma closest_mset: "mset q = mset q' \<Longrightarrow> closest n q r = closest n q' r"
  unfolding closest_def by (metis size_mset)

lemma heuristic_plain:
  assumes "\<forall>x \<in> set (queue q0). \<not> f32_negative (priority x)" "kind q0 = MaxPQ" "0 \<le> k"
  shows "\<exists>r. select_neighbors_heuristic D st env q q0 k l False keeps = Some r \<and> kind r = MaxPQ \<and>
    pq_len r = min (nat k) (pq_len q0) \<and> mset (queue r) \<subseteq># mset (queue q0) \<and>
    ((\<forall>x \<in> set (queue q0). pq_ok x) \<longrightarrow> pq_inv r \<and> closest (nat k) (queue q0) (queue r))"
proof -
  let ?c = "fst (reverse q0)" and ?e = "\<lparr>kind = MaxPQ, queue = []\<rparr> :: ptr pq"
  have c: "mset (queue ?c) = mset (queue q0)" "kind ?c = MinPQ" "pq_len ?c = pq_len q0"
    using assms(2) by (simp_all add: reverse_def Let_def pq_len_def length_heap_init)
  have set: "set (queue ?c) = set (queue q0)" using mset_eq_setD [OF c(1)] .
  have eq: "select_neighbors_heuristic D st env q q0 k l False keeps =
      map_option snd (take_closest k ?c ?e)"
    by (simp add: heuristic_eq Let_def ext_candidates_def)
  have pre: "\<forall>x \<in> set (queue ?c). \<not> f32_negative (priority x)" "int (pq_len ?e) \<le> k"
    using assms by (simp_all add: set pq_len_def)
  obtain c' r where r: "take_closest k ?c ?e = Some (c', r)" "kind r = MaxPQ"
    "mset (queue ?c) + mset (queue ?e) = mset (queue c') + mset (queue r)"
    "pq_len r = pq_len ?e + min (pq_len ?c) (nat k - pq_len ?e)"
    "pq_inv ?e \<longrightarrow> (\<forall>x \<in> set (queue ?c). pq_ok x) \<longrightarrow> pq_inv r"
    "pq_inv ?c \<longrightarrow> kind ?c = MinPQ \<longrightarrow> (\<exists>xs. mset (queue r) = mset (queue ?e) + mset xs \<and>
       (\<forall>x \<in> set xs. \<forall>y \<in> set (queue c'). \<not> f32_lt (priority y) (priority x)))"
    using take_closest_spec [OF pre] by auto
  have m: "mset (queue q0) = mset (queue r) + mset (queue c')"
    using r(3) c(1) by (simp add: union_commute)
  have len: "pq_len r = min (nat k) (pq_len q0)" using r(4) c(3) by (simp add: pq_len_def min.commute)
  have "pq_inv r \<and> closest (nat k) (queue q0) (queue r)" if ok: "\<forall>x \<in> set (queue q0). pq_ok x"
  proof -
    obtain xs where "mset (queue r) = mset xs"
      "\<forall>x \<in> set xs. \<forall>y \<in> set (queue c'). \<not> f32_lt (priority y) (priority x)"
      using r(6) reverse_inv(1) [OF ok] c(2) by auto
    then show ?thesis
      using r(5) ok m len mset_eq_setD [of "queue r" xs]
      by (auto simp: set closest_def pq_len_def)
  qed
  then show ?thesis using eq r(1,2) len m by auto
qed

section \<open>The heuristic with extension\<close>

definition fresh :: "distance \<Rightarrow> store \<Rightarrow> vec \<Rightarrow> int \<Rightarrow> ptr item \<Rightarrow> bool" where
  "fresh D st q l x = (priority x = D q (vec_of st (val x)) \<and> has_level st (val x) l \<and> live st (val x))"

definition ext_items :: "extension \<Rightarrow> ptr item set" where
  "ext_items x = set (shared x) \<union> set (ext_candidates x)"

definition ext_inv :: "(ptr item \<Rightarrow> bool) \<Rightarrow> nat \<Rightarrow> extension \<Rightarrow> bool" where
  "ext_inv P n x = (remaining x = n \<and> n \<le> length (shared x) \<and> (\<forall>i \<in> ext_items x. P i) \<and>
     distinct (map val (ext_candidates x)) \<and> val ` set (ext_candidates x) \<subseteq> set (existing x))"

lemma ext_pop_spec:
  assumes "ext_inv P (Suc n) x" "ext_pop x = (i, x')"
  shows "ext_inv P n x'" "P i"
proof -
  let ?arr = "heap_down max_less (swap (shared x) 0 n) 0 n"
  have len: "Suc n \<le> length (shared x)" "remaining x = Suc n" using assms(1) by (auto simp: ext_inv_def)
  have m: "mset ?arr = mset (shared x)" using len by (subst mset_heap_down) (auto intro!: mset_swap_eq)
  have eqs: "i = ?arr ! n" "x' = x\<lparr>shared := ?arr, remaining := n\<rparr>"
    using assms(2) len(2) by (auto simp: ext_pop_def Let_def)
  have items: "set ?arr = set (shared x)" "length ?arr = length (shared x)"
    using m mset_eq_setD mset_eq_length by blast+
  have "i \<in> set (shared x)" using eqs(1) items len(1) nth_mem [of n ?arr] by auto
  then show "P i" using assms(1) by (auto simp: ext_inv_def ext_items_def)
  have "mset (ext_candidates x') = mset (ext_candidates x)"
    using eqs(2) m by (simp add: ext_candidates_def split: option.split)
  then have "set (ext_candidates x') = set (ext_candidates x)"
    "distinct (map val (ext_candidates x')) = distinct (map val (ext_candidates x))"
    using mset_eq_setD distinct_mset_map_cong by blast+
  then show "ext_inv P n x'"
    using assms(1) eqs(2) items len by (simp add: ext_inv_def ext_items_def)
qed

lemma ext_push_spec:
  assumes inv: "ext_inv P n x" and i: "\<not> f32_negative (priority i)" "P i" "val i \<notin> set (existing x)"
  shows "\<exists>x'. ext_push capacity i (x\<lparr>existing := val i # existing x\<rparr>) = Some x' \<and> ext_inv P n x'"
proof -
  let ?c = "heap_push min_less (ext_candidates x) i"
  have c: "mset ?c = add_mset i (mset (ext_candidates x))" by (rule mset_heap_push)
  have new: "val i \<notin> val ` set (ext_candidates x)" using inv i(3) by (auto simp: ext_inv_def)
  have d: "distinct (map val ?c)"
    unfolding mset_add_distinct [OF c] using new inv by (simp add: ext_inv_def)
  have s: "set ?c = insert i (set (ext_candidates x))" by (rule mset_add_set [OF c])
  have "length ?c = Suc (length (ext_candidates x))" by (rule mset_add_length [OF c])
  then show ?thesis
    using inv i d s
    by (auto simp: ext_push_def ext_inv_def ext_items_def ext_candidates_def split: option.splits)
qed

lemma extend_edges_spec:
  "ext_inv P n x \<Longrightarrow> accepted_distance D \<Longrightarrow> \<forall>e \<in> set es. has_level st (fst e) l \<Longrightarrow>
   (\<And>i. fresh D st q l i \<Longrightarrow> P i) \<Longrightarrow>
   \<exists>x'. extend_edges D st q capacity es x = Some x' \<and> ext_inv P n x'"
proof (induction es arbitrary: x)
  case (Cons e es)
  obtain v where v: "deref st (fst e) = Some v" using Cons.prems(3) by (auto elim: has_levelE)
  show ?case
  proof (cases "is_deleted v \<or> fst e \<in> set (existing x)")
    case True
    then show ?thesis using Cons v by simp
  next
    case False
    let ?i = "new_item (D q (vvector v)) (fst e)"
    have "fresh D st q l ?i"
      using v False Cons.prems(3) by (simp add: fresh_def new_item_def live_def)
    then have "\<not> f32_negative (priority ?i)" "P ?i" "val ?i \<notin> set (existing x)"
      using Cons.prems False by (simp_all add: new_item_def accepted_distance_def)
    from ext_push_spec [OF Cons.prems(1) this] obtain x' where
      "ext_push capacity ?i (x\<lparr>existing := fst e # existing x\<rparr>) = Some x'" "ext_inv P n x'"
      by (auto simp: new_item_def)
    then show ?thesis using Cons.IH [of x'] Cons.prems v False by simp
  qed
qed simp

lemma extend_candidates_spec:
  "ext_inv P n x \<Longrightarrow> accepted_distance D \<Longrightarrow> graph_ok st \<Longrightarrow> fair env \<Longrightarrow>
   (\<And>i. P i \<Longrightarrow> has_level st (val i) l) \<Longrightarrow> (\<And>i. fresh D st q l i \<Longrightarrow> P i) \<Longrightarrow>
   \<exists>x'. extend_candidates D st env q l capacity n x = Some x' \<and> ext_inv P 0 x'"
proof (induction n arbitrary: x env)
  case (Suc n)
  obtain i x1 where pop: "ext_pop x = (i, x1)" by fastforce
  note popped = ext_pop_spec [OF Suc.prems(1) pop]
  obtain es where es: "edges_of st (val i) l = Some es"
    using Suc.prems(5) [OF popped(2)] by (auto elim: has_levelE)
  have "\<forall>e \<in> set (visit env es). has_level st (fst e) l"
    using graph_ok_edges [OF Suc.prems(3) es] Suc.prems(4) by (auto intro: edges_ok_level)
  then obtain x2 where x2: "extend_edges D st q capacity (visit env es) x1 = Some x2" "ext_inv P n x2"
    using extend_edges_spec [OF popped(1) Suc.prems(2) _ Suc.prems(6)] by blast
  obtain x' where "extend_candidates D st (sub env 0) q l capacity n x2 = Some x'" "ext_inv P 0 x'"
    using Suc.IH [OF x2(2) Suc.prems(2,3) _ Suc.prems(5,6)] Suc.prems(4) by blast
  then show ?case using pop es x2(1) by simp
qed simp

lemma mset_sub_set: "mset xs \<subseteq># mset ys \<Longrightarrow> set xs \<subseteq> set ys"
  by (metis set_mset_mono set_mset_mset)

lemma mset_sub_distinct: "mset xs \<subseteq># mset ys \<Longrightarrow> distinct (map f ys) \<Longrightarrow> distinct (map f xs)"
proof -
  assume sub: "mset xs \<subseteq># mset ys" and d: "distinct (map f ys)"
  obtain zs where "mset ys = mset (xs @ zs)"
    using sub by (metis ex_mset mset_append subset_mset.le_iff_add)
  then have "distinct (map f (xs @ zs))" using d distinct_mset_map_cong by blast
  then show ?thesis by simp
qed

lemma heuristic_spec:
  assumes "kind q0 = MaxPQ" "0 \<le> k" "accepted_distance D" "graph_ok st" "fair env"
    and P: "\<And>i. P i \<Longrightarrow> has_level st (val i) l \<and> \<not> f32_negative (priority i)"
      "\<And>i. fresh D st q l i \<Longrightarrow> P i"
    and q0: "\<forall>x \<in> set (queue q0). P x" "distinct (map val (queue q0))"
  shows "\<exists>r. select_neighbors_heuristic D st env q q0 k l extends keeps = Some r \<and> kind r = MaxPQ \<and>
    pq_len r \<le> nat k \<and> (\<forall>x \<in> set (queue r). P x) \<and> distinct (map val (queue r)) \<and>
    ((\<forall>i. P i \<longrightarrow> pq_ok i) \<longrightarrow> pq_inv r)"
proof -
  let ?c = "fst (reverse q0)" and ?e = "\<lparr>kind = MaxPQ, queue = []\<rparr> :: ptr pq"
  let ?x = "\<lparr>shared = queue ?c, own = None, remaining = pq_len q0, existing = map val (queue ?c)\<rparr>"
  have c: "mset (queue ?c) = mset (queue q0)"
    by (simp add: reverse_def Let_def)
  have "set (queue ?c) = set (queue q0)" "length (queue ?c) = length (queue q0)"
    "distinct (map val (queue ?c)) = distinct (map val (queue q0))"
    using c mset_eq_setD mset_eq_length distinct_mset_map_cong by blast+
  then have inv: "ext_inv P (pq_len q0) ?x"
    using q0 by (simp add: ext_inv_def ext_items_def ext_candidates_def pq_len_def)
  obtain x' n where x': "(if extends
      then extend_candidates D st (sub env 0) q l (pq_len q0 + spare env []) (pq_len q0) ?x
      else Some ?x) = Some x'" "ext_inv P n x'"
    using extend_candidates_spec [OF inv, of D st "sub env 0" l q "pq_len q0 + spare env []"]
      assms(3-5) P inv by (cases extends) auto
  let ?c' = "?c\<lparr>queue := ext_candidates x'\<rparr>"
  have items: "\<forall>x \<in> set (ext_candidates x'). P x" "distinct (map val (ext_candidates x'))"
    using x'(2) by (auto simp: ext_inv_def ext_items_def)
  have pre: "\<forall>x \<in> set (queue ?c'). \<not> f32_negative (priority x)" "int (pq_len ?e) \<le> k"
    using items(1) P(1) assms(2) by (simp_all add: pq_len_def)
  obtain c' r where r: "take_closest k ?c' ?e = Some (c', r)" "kind r = MaxPQ"
    "mset (queue ?c') + mset (queue ?e) = mset (queue c') + mset (queue r)"
    "pq_len r = pq_len ?e + min (pq_len ?c') (nat k - pq_len ?e)"
    "pq_inv ?e \<longrightarrow> (\<forall>x \<in> set (queue ?c'). pq_ok x) \<longrightarrow> pq_inv r"
    using take_closest_spec [OF pre] by auto
  have sub: "mset (queue r) \<subseteq># mset (ext_candidates x')" using r(3) by simp
  have "select_neighbors_heuristic D st env q q0 k l extends keeps = Some r"
    using x'(1) r(1) by (simp add: heuristic_eq Let_def)
  then show ?thesis
    using r(2,4,5) items mset_sub_set [OF sub] mset_sub_distinct [OF sub]
    by (auto simp: pq_len_def)
qed

end
