(* ===== verification/HnswGraph.thy ===== *)
theory HnswGraph
  imports Hnsw HnswSelectFacts
begin

text \<open>
  The graph surgery of \<open>Insert\<close> and \<open>Remove\<close> on a well-formed store: pruning, linking,
  unlinking. Each step succeeds, changes nothing but edge sets (\<open>frame\<close>) and keeps the graph
  well formed; after a prune the vertex has at most \<open>k\<close> edges at the level, all to live
  vertices.
\<close>

section \<open>Selection\<close>

definition config_ok :: "hnsw_config \<Rightarrow> bool" where
  "config_ok cfg = (0 \<le> cfg_m cfg \<and> 0 \<le> cfg_m_max cfg \<and> 0 \<le> cfg_m_max0 cfg)"

definition known_algorithm :: "hnsw_config \<Rightarrow> bool" where
  "known_algorithm cfg = (cfg_search_algorithm cfg \<in> {hnsw_search_simple, hnsw_search_heuristic})"

lemma level_m_max_nonneg: "config_ok cfg \<Longrightarrow> 0 \<le> level_m_max cfg l"
  by (simp add: config_ok_def level_m_max_def)

lemma select_spec:
  assumes "kind q0 = MaxPQ" "0 \<le> k" "accepted_distance D" "graph_ok st" "fair env"
    and P: "\<And>i. P i \<Longrightarrow> has_level st (val i) l \<and> \<not> f32_negative (priority i)"
      "\<And>i. fresh D st q l i \<Longrightarrow> P i"
    and q0: "\<forall>x \<in> set (queue q0). P x" "distinct (map val (queue q0))"
  shows "\<exists>r. select D st env cfg q q0 k l = Some r \<and> kind r = MaxPQ \<and>
    (\<forall>x \<in> set (queue r). P x) \<and> distinct (map val (queue r)) \<and>
    (known_algorithm cfg \<longrightarrow> pq_len r \<le> nat k) \<and>
    ((\<forall>i. P i \<longrightarrow> pq_ok i) \<longrightarrow> pq_inv q0 \<longrightarrow> pq_inv r)"
proof -
  consider (simple) "cfg_search_algorithm cfg = hnsw_search_simple"
    | (heuristic) "cfg_search_algorithm cfg = hnsw_search_heuristic"
      "cfg_search_algorithm cfg \<noteq> hnsw_search_simple"
    | (other) "\<not> known_algorithm cfg"
    by (auto simp: known_algorithm_def hnsw_search_simple_def hnsw_search_heuristic_def)
  then show ?thesis
  proof cases
    case simple
    obtain r where r: "select_neighbors k q0 = Some r" "kind r = kind q0" "pq_len r = min (nat k) (pq_len q0)"
      "mset (queue r) \<subseteq># mset (queue q0)" "pq_inv q0 \<longrightarrow> pq_inv r"
      using select_neighbors_spec [OF assms(2)] by blast
    then show ?thesis
      using simple q0 assms(1) mset_sub_set [OF r(4)] mset_sub_distinct [OF r(4)]
      by (auto simp: select_def)
  next
    case heuristic
    obtain r where "select_neighbors_heuristic D st env q q0 k l (cfg_extend_candidates cfg)
        (cfg_keep_pruned cfg) = Some r" "kind r = MaxPQ" "pq_len r \<le> nat k"
      "\<forall>x \<in> set (queue r). P x" "distinct (map val (queue r))" "(\<forall>i. P i \<longrightarrow> pq_ok i) \<longrightarrow> pq_inv r"
      using heuristic_spec [where P = P and q = q, OF assms] by blast
    then show ?thesis using heuristic by (auto simp: select_def)
  next
    case other
    then show ?thesis using assms(1) q0 by (auto simp: select_def known_algorithm_def)
  qed
qed

section \<open>Pruning\<close>

lemma push_live_spec:
  "\<forall>(p, d) \<in> set es. deref st p \<noteq> None \<and> \<not> f32_negative d \<Longrightarrow> distinct (map fst es) \<Longrightarrow>
   distinct (map val (queue q)) \<Longrightarrow> val ` set (queue q) \<inter> fst ` set es = {} \<Longrightarrow>
   \<exists>q'. push_live st es q = Some q' \<and> kind q' = kind q \<and> distinct (map val (queue q')) \<and>
     set (queue q') = set (queue q) \<union> {new_item d p |p d. (p, d) \<in> set es \<and> live st p}"
proof (induction es arbitrary: q)
  case (Cons e es)
  obtain p d where e: "e = (p, d)" by (cases e)
  obtain v where v: "deref st p = Some v" using Cons.prems(1) e by auto
  show ?case
  proof (cases "is_deleted v")
    case True
    then have dead: "\<not> live st p" using v by (simp add: live_def)
    obtain q' where q': "push_live st es q = Some q'" "kind q' = kind q" "distinct (map val (queue q'))"
      "set (queue q') = set (queue q) \<union> {new_item d p |p d. (p, d) \<in> set es \<and> live st p}"
      using Cons.IH [of q] Cons.prems by auto
    have "{new_item d p |p d. (p, d) \<in> set (e # es) \<and> live st p} =
        {new_item d p |p d. (p, d) \<in> set es \<and> live st p}"
      using dead e by auto
    then show ?thesis using e v True q' by simp
  next
    case False
    then have l: "live st p" using v by (simp add: live_def)
    obtain q1 where q1: "push (new_item d p) q = Some q1"
      using push_total [of "new_item d p" q] Cons.prems(1) e by (auto simp: new_item_def)
    have "distinct (map val (queue q1))"
      unfolding push_distinct [OF q1] using Cons.prems(3,4) e by (auto simp: new_item_def)
    moreover have "val ` set (queue q1) \<inter> fst ` set es = {}"
      unfolding push_set [OF q1] using Cons.prems(2,4) e by (auto simp: new_item_def)
    ultimately obtain q' where q': "push_live st es q1 = Some q'" "kind q' = kind q1"
      "distinct (map val (queue q'))"
      "set (queue q') = set (queue q1) \<union> {new_item d p |p d. (p, d) \<in> set es \<and> live st p}"
      using Cons.IH [of q1] Cons.prems by auto
    have "{new_item d p |p d. (p, d) \<in> set (e # es) \<and> live st p} =
        insert (new_item d p) {new_item d p |p d. (p, d) \<in> set es \<and> live st p}"
      using l e by auto
    then show ?thesis
      using e v False q' q1 push_kind [OF q1] push_set [OF q1] by auto
  qed
qed simp

lemma fold_edge_set: "distinct (map fst acc @ map val items) \<Longrightarrow>
    fold (\<lambda>i m. AList.update (val i) (priority i) m) items acc =
      acc @ map (\<lambda>i. (val i, priority i)) items"
proof (induction items arbitrary: acc)
  case (Cons i items)
  have "map_of acc (val i) = None" using Cons.prems by (simp add: map_of_eq_None_iff)
  then show ?case using Cons by (simp add: length_AList_update_fresh)
qed simp

lemma edge_set_of_eq: "distinct (map val items) \<Longrightarrow>
    edge_set_of items = map (\<lambda>i. (val i, priority i)) items"
  by (simp add: edge_set_of_def fold_edge_set)

lemma prune_spec:
  assumes "graph_ok st" "fair env" "accepted_distance D" "has_level st p l" "0 \<le> k"
  shows "\<exists>st'. prune_neighbors D env cfg p k l st = Some st' \<and> frame st st' \<and>
    (\<forall>p' l'. (p', l') \<noteq> (p, l) \<longrightarrow> edges_of st' p' l' = edges_of st p' l') \<and>
    (\<exists>es. edges_of st' p l = Some es \<and> (\<forall>q \<in> fst ` set es. live st q) \<and>
       (known_algorithm cfg \<longrightarrow> int (length es) \<le> k))"
proof -
  obtain v es where v: "deref st p = Some v" "edges_at v l = Some es" "edges_of st p l = Some es"
    using assms(4) by (rule has_levelE)
  have ok: "edges_ok st l (visit env es)"
    using graph_ok_edges [OF assms(1) v(3)] edges_ok_visit assms(2) by simp
  let ?e = "\<lparr>kind = MaxPQ, queue = []\<rparr> :: ptr pq"
  let ?P = "\<lambda>i. has_level st (val i) l \<and> live st (val i) \<and> \<not> f32_negative (priority i)"
  have pre: "\<forall>(p, d) \<in> set (visit env es). deref st p \<noteq> None \<and> \<not> f32_negative d"
    using ok by (auto simp: edges_ok_def elim!: has_levelE)
  obtain q where q: "push_live st (visit env es) ?e = Some q" "kind q = MaxPQ" "distinct (map val (queue q))"
    "set (queue q) = {new_item d p |p d. (p, d) \<in> set (visit env es) \<and> live st p}"
    using push_live_spec [OF pre, of ?e] ok by (auto simp: edges_ok_def)
  have P: "\<forall>x \<in> set (queue q). ?P x"
    using ok unfolding q(4) by (auto simp: edges_ok_def new_item_def)
  have freshP: "\<And>i. fresh D st (vvector v) l i \<Longrightarrow> ?P i"
    using assms(3) by (auto simp: fresh_def accepted_distance_def)
  have sel: "\<exists>r. select D st (sub env 0) cfg (vvector v) q k l = Some r \<and> kind r = MaxPQ \<and>
      (\<forall>x \<in> set (queue r). ?P x) \<and> distinct (map val (queue r)) \<and>
      (known_algorithm cfg \<longrightarrow> pq_len r \<le> nat k) \<and>
      ((\<forall>i. ?P i \<longrightarrow> pq_ok i) \<longrightarrow> pq_inv q \<longrightarrow> pq_inv r)"
    by (rule select_spec [OF q(2) assms(5,3,1) fair_sub [OF assms(2)] _ freshP P q(3)]) blast
  then obtain r where r: "select D st (sub env 0) cfg (vvector v) q k l = Some r"
    "\<forall>x \<in> set (queue r). ?P x" "distinct (map val (queue r))"
    "known_algorithm cfg \<longrightarrow> pq_len r \<le> nat k" by blast
  let ?es = "map (\<lambda>i. (val i, priority i)) (queue r)"
  have es: "edge_set_of (to_slice r) = ?es" using r(3) by (simp add: edge_set_of_eq to_slice_def)
  have "edges_ok st l ?es" using r(2,3) by (auto simp: edges_ok_def comp_def)
  moreover obtain st' where st': "set_edges p l ?es st = Some st'"
    using set_edges_total [OF assms(4)] by blast
  ultimately have "frame st st'" using set_edges_frame assms(1) by blast
  moreover have "prune_neighbors D env cfg p k l st = Some st'"
    using v q(1) r(1) st' es by (simp add: prune_neighbors_def)
  moreover have "known_algorithm cfg \<longrightarrow> int (length ?es) \<le> k"
    using r(4) assms(5) by (auto simp: pq_len_def)
  moreover have "\<forall>q \<in> fst ` set ?es. live st q" using r(2) by auto
  ultimately show ?thesis using edges_of_set_edges [OF st'] by auto
qed

section \<open>Linking\<close>

definition linkable :: "store \<Rightarrow> int \<Rightarrow> ptr pq \<Rightarrow> bool" where
  "linkable st l q = (\<forall>x \<in> set (queue q). has_level st (val x) l \<and> \<not> f32_negative (priority x))"

lemma linkable_frame: "frame st st' \<Longrightarrow> linkable st' l q = linkable st l q"
  by (simp add: linkable_def frame_def)

lemma link_spec:
  "graph_ok st \<Longrightarrow> fair env \<Longrightarrow> accepted_distance D \<Longrightarrow> has_level st p l \<Longrightarrow> has_level st ep l \<Longrightarrow>
   linkable st l q \<Longrightarrow> 0 \<le> mm \<Longrightarrow>
   \<exists>ep' st'. link_neighbors D env cfg p l mm q ep st = Some (ep', st') \<and> frame st st' \<and>
     has_level st ep' l"
proof (induction D env cfg p l mm q ep st rule: link_neighbors.induct)
  case (1 D env cfg p l mm q ep st)
  show ?case
  proof (cases "0 < pq_len q")
    case True
    then obtain i q' where i: "pop q = Some (i, q')" using pop_total by (fastforce simp: pq_len_def)
    have item: "has_level st (val i) l" "\<not> f32_negative (priority i)" "linkable st l q'"
      using "1.prems"(6) pop_set [OF i] by (auto simp: linkable_def)
    obtain st1 where st1: "add_edge p l (val i) (priority i) st = Some st1"
      using add_edge_total "1.prems"(4) by blast
    then have f1: "frame st st1" using add_edge_frame "1.prems"(1) item by blast
    have l1: "has_level st1 p l" "has_level st1 (val i) l" "graph_ok st1"
      using frameD [OF f1] "1.prems"(4) item by auto
    obtain st2 where st2: "add_edge (val i) l p (priority i) st1 = Some st2"
      using add_edge_total l1(2) by blast
    then have "frame st1 st2" using add_edge_frame l1 item by blast
    then have f2: "frame st st2" using f1 frame_trans by blast
    have l2: "has_level st2 (val i) l" "graph_ok st2" using frameD [OF f2] item by auto
    obtain n where n: "edges_count st2 (val i) l = Some n"
      using l2(1) by (auto simp: edges_count_def has_level_def)
    obtain st3 where st3: "(if mm < n then prune_neighbors D (sub env 0) cfg (val i) mm l st2
        else Some st2) = Some st3" "frame st2 st3"
      using prune_spec [OF l2(2) fair_sub [OF "1.prems"(2)] "1.prems"(3) l2(1) "1.prems"(7)]
        frame_refl [OF l2(2)] by (cases "mm < n") (auto, blast)
    have f3: "frame st st3" using f2 st3(2) frame_trans by blast
    have "linkable st3 l q'" using item(3) linkable_frame [OF f3] by simp
    then obtain ep' st' where "link_neighbors D (sub env 1) cfg p l mm q' (val i) st3 = Some (ep', st')"
      "frame st3 st'" "has_level st3 ep' l"
      using "1.IH" [OF True i refl st1 st2 n st3(1)] "1.prems" frameD [OF f3] item by auto
    then show ?thesis
      using True i st1 st2 n st3(1) frame_trans [OF f3] frameD [OF f3]
      by (auto simp: link_neighbors.simps [of D env cfg p l mm q])
  next
    case False
    then show ?thesis
      using "1.prems" frame_refl by (auto simp: link_neighbors.simps [of D env cfg p l mm q])
  qed
qed

lemma insert_levels_spec:
  "graph_ok st \<Longrightarrow> fair env \<Longrightarrow> accepted_distance D \<Longrightarrow> config_ok cfg \<Longrightarrow>
   (0 \<le> l \<Longrightarrow> has_level st p l \<and> has_level st ep l) \<Longrightarrow>
   \<exists>st'. insert_levels D env cfg p x l ep st = Some st' \<and> frame st st'"
proof (induction D env cfg p x l ep st rule: insert_levels.induct)
  case (1 D env cfg p x l ep st)
  show ?case
  proof (cases "0 \<le> l")
    case True
    then have lev: "has_level st p l" "has_level st ep l" using "1.prems"(5) by auto
    obtain q where q: "search_level D st (sub env 0) x ep (cfg_ef_construction cfg) l = Some q"
      "result_ok D st x (cfg_ef_construction cfg) l ep q"
      using search_level_spec [OF "1.prems"(1) fair_sub [OF "1.prems"(2)] "1.prems"(3) lev(2)] by blast
    let ?P = "\<lambda>i. has_level st (val i) l \<and> \<not> f32_negative (priority i)"
    have P: "\<forall>x \<in> set (queue q). ?P x"
      using q(2) "1.prems"(3) by (auto simp: result_ok_def found_def accepted_distance_def)
    have freshP: "\<And>i. fresh D st x l i \<Longrightarrow> ?P i"
      using "1.prems"(3) by (auto simp: fresh_def accepted_distance_def)
    have q': "kind q = MaxPQ" "distinct (map val (queue q))" "0 \<le> cfg_m cfg"
      using q(2) "1.prems"(4) by (auto simp: result_ok_def config_ok_def)
    have "\<exists>r. select D st (sub env 1) cfg x q (cfg_m cfg) l = Some r \<and> kind r = MaxPQ \<and>
        (\<forall>x \<in> set (queue r). ?P x) \<and> distinct (map val (queue r)) \<and>
        (known_algorithm cfg \<longrightarrow> pq_len r \<le> nat (cfg_m cfg)) \<and>
        ((\<forall>i. ?P i \<longrightarrow> pq_ok i) \<longrightarrow> pq_inv q \<longrightarrow> pq_inv r)"
      by (rule select_spec [OF q'(1,3) "1.prems"(3,1) fair_sub [OF "1.prems"(2)] _ freshP P q'(2)])
    then obtain r where r: "select D st (sub env 1) cfg x q (cfg_m cfg) l = Some r" "linkable st l r"
      by (auto simp: linkable_def)
    obtain ep' st1 where st1: "link_neighbors D (sub env 2) cfg p l (level_m_max cfg l) r ep st = Some (ep', st1)"
      "frame st st1" "has_level st ep' l"
      using link_spec [OF "1.prems"(1) fair_sub [OF "1.prems"(2)] "1.prems"(3) lev r(2)
          level_m_max_nonneg [OF "1.prems"(4)]] by blast
    have "0 \<le> l - 1 \<Longrightarrow> has_level st1 p (l - 1) \<and> has_level st1 ep' (l - 1)"
      using has_level_mono [OF "1.prems"(1)] lev(1) st1(3) frameD [OF st1(2)] by simp
    then obtain st2 where "insert_levels D (sub env 3) cfg p x (l - 1) ep' st1 = Some st2" "frame st1 st2"
      using "1.IH" [OF True q(1) r(1) st1(1) refl] "1.prems" frameD [OF st1(2)] by auto
    then show ?thesis
      using True q(1) r(1) st1 frame_trans [OF st1(2)]
      by (auto simp: insert_levels.simps [of D env cfg p x l])
  next
    case False
    then show ?thesis using "1.prems" frame_refl by (auto simp: insert_levels.simps [of D env cfg p x l])
  qed
qed

section \<open>Unlinking\<close>

lemma unlink_neighbors_spec:
  "graph_ok st \<Longrightarrow> fair env \<Longrightarrow> accepted_distance D \<Longrightarrow> 0 \<le> mm \<Longrightarrow> \<forall>q \<in> set qs. has_level st q l \<Longrightarrow>
   \<exists>st'. unlink_neighbors D env cfg p l mm qs st = Some st' \<and> frame st st'"
proof (induction qs arbitrary: st env)
  case (Cons q qs)
  obtain st1 where st1: "remove_edge q l p st = Some st1"
    using remove_edge_total Cons.prems(5) by fastforce
  have f1: "frame st st1" using remove_edge_frame Cons.prems(1) st1 by blast
  have l1: "has_level st1 q l" using frameD [OF f1] Cons.prems(5) by simp
  obtain st2 where st2: "prune_neighbors D (sub env 0) cfg q mm l st1 = Some st2" "frame st1 st2"
    using prune_spec [OF frameD(3) [OF f1] fair_sub [OF Cons.prems(2)] Cons.prems(3) l1 Cons.prems(4)]
    by blast
  have f2: "frame st st2" using f1 st2(2) frame_trans by blast
  obtain st3 where "unlink_neighbors D (sub env 1) cfg p l mm qs st2 = Some st3" "frame st2 st3"
    using Cons.IH [of st2 "sub env 1"] Cons.prems frameD [OF f2] by auto
  then show ?case using st1 st2(1) frame_trans [OF f2] by auto
qed auto

lemma unlink_levels_spec:
  "graph_ok st \<Longrightarrow> fair env \<Longrightarrow> accepted_distance D \<Longrightarrow> config_ok cfg \<Longrightarrow>
   (0 \<le> l \<Longrightarrow> has_level st p l) \<Longrightarrow>
   \<exists>st'. unlink_levels D env cfg p l st = Some st' \<and> frame st st'"
proof (induction D env cfg p l st rule: unlink_levels.induct)
  case (1 D env cfg p l st)
  show ?case
  proof (cases "0 \<le> l")
    case True
    then have lev: "has_level st p l" using "1.prems"(5) by auto
    then obtain es where es: "edges_of st p l = Some es" by (auto elim: has_levelE)
    have "\<forall>q \<in> set (map fst (visit env es)). has_level st q l"
      using graph_ok_edges [OF "1.prems"(1) es] "1.prems"(2) by (auto simp: edges_ok_def)
    then obtain st1 where st1: "unlink_neighbors D (sub env 0) cfg p l (level_m_max cfg l)
        (map fst (visit env es)) st = Some st1" "frame st st1"
      using unlink_neighbors_spec [OF "1.prems"(1) fair_sub [OF "1.prems"(2)] "1.prems"(3)
          level_m_max_nonneg [OF "1.prems"(4)]] by blast
    have "0 \<le> l - 1 \<Longrightarrow> has_level st1 p (l - 1)"
      using has_level_mono [OF "1.prems"(1) lev] frameD [OF st1(2)] by simp
    then obtain st2 where "unlink_levels D (sub env 1) cfg p (l - 1) st1 = Some st2" "frame st1 st2"
      using "1.IH" [OF True es st1(1)] "1.prems" frameD [OF st1(2)] by auto
    then show ?thesis
      using True es st1 frame_trans [OF st1(2)] by (auto simp: unlink_levels.simps [of D env cfg p l])
  next
    case False
    then show ?thesis using "1.prems" frame_refl by (auto simp: unlink_levels.simps [of D env cfg p l])
  qed
qed

lemma closest_edge_in: "closest_edge es md c = (c', md') \<Longrightarrow> c' = c \<or> c' \<in> fst ` set es"
proof (induction es md c rule: closest_edge.induct)
  case (2 q d es md c)
  then show ?case by (cases "f32_lt d md") auto
qed simp

lemma next_entrypoint_spec:
  assumes "graph_ok st" "deref st p = Some v"
  shows "fair env \<Longrightarrow> l \<le> vlevel v \<Longrightarrow>
    \<exists>c. next_entrypoint env v l md = Some c \<and> (c = nil \<or> has_level st c 0)"
  using assms(2)
proof (induction env v l md rule: next_entrypoint.induct)
  case (1 env v l md)
  show ?case
  proof (cases "0 \<le> l")
    case True
    then obtain es where es: "edges_at v l = Some es"
      using assms(1) "1.prems" by (simp add: edges_at_def graph_ok_def)
    then have "edges_of st p l = Some es" using "1.prems"(3) by (simp add: edges_of_def)
    then have ok: "edges_ok st l es" using graph_ok_edges assms(1) by blast
    obtain c m where c: "closest_edge (visit env es) md nil = (c, m)" by fastforce
    show ?thesis
    proof (cases "c = nil")
      case True
      then show ?thesis
        using "1.IH" [OF \<open>0 \<le> l\<close> es c [symmetric]] "1.prems" \<open>0 \<le> l\<close> es c
        by (simp add: next_entrypoint.simps [of env v l md])
    next
      case False
      then have "c \<in> fst ` set es" using closest_edge_in [OF c] "1.prems"(1) by simp
      then have "has_level st c 0"
        using edges_ok_level [OF ok] has_level_mono [OF assms(1)] \<open>0 \<le> l\<close> by blast
      then show ?thesis using False \<open>0 \<le> l\<close> es c by (simp add: next_entrypoint.simps [of env v l md])
    qed
  next
    case False
    then show ?thesis by (simp add: next_entrypoint.simps [of env v l md])
  qed
qed

end
