(* ===== verification/HnswMap.thy ===== *)
theory HnswMap
  imports HnswGraph
begin

text \<open>
  The index as a map: an index stands for a finite map from ids to vectors with metadata, and
  \<open>Insert\<close>, \<open>Get\<close>, \<open>Remove\<close> and \<open>Len\<close> refine insertion, lookup, deletion and size of that
  map, whatever the graph looks like. \<open>hnsw_ok\<close> is the representation invariant: the vertex map
  and the store agree, the two counters are exact and the graph is well formed. On a well-formed
  index no operation panics.
\<close>

section \<open>The representation invariant\<close>

definition entries :: "hnsw \<Rightarrow> shard" where
  "entries h = concat (h_vertices h)"

definition entry_ok :: "store \<Rightarrow> nat \<Rightarrow> uuid \<times> ptr \<Rightarrow> bool" where
  "entry_ok st s e = (shard_idx (fst e) = s \<and>
     (\<exists>v. deref st (snd e) = Some v \<and> vid v = fst e \<and> \<not> is_deleted v))"

definition vertex_size_at :: "store \<Rightarrow> ptr \<Rightarrow> 64 word" where
  "vertex_size_at st p = (case deref st p of Some v \<Rightarrow> vertex_bytes_size v | None \<Rightarrow> 0)"

definition map_ok :: "hnsw \<Rightarrow> bool" where
  "map_ok h =
     (length (h_vertices h) = 16 \<and>
      (\<forall>s < 16. distinct (map fst (h_vertices h ! s)) \<and>
         (\<forall>e \<in> set (h_vertices h ! s). entry_ok (h_store h) s e)) \<and>
      (\<forall>p v. deref (h_store h) p = Some v \<longrightarrow> \<not> is_deleted v \<longrightarrow> find_vertex h (vid v) = Some p))"

definition counters_ok :: "hnsw \<Rightarrow> bool" where
  "counters_ok h =
     (h_len h = of_nat (length (entries h)) \<and>
      h_bytes_size h = sum_list (map (\<lambda>e. vertex_size_at (h_store h) (snd e)) (entries h)))"

definition entrypoint_ok :: "hnsw \<Rightarrow> bool" where
  "entrypoint_ok h = (h_entrypoint h = nil \<or> has_level (h_store h) (h_entrypoint h) 0)"

definition hnsw_ok :: "hnsw \<Rightarrow> bool" where
  "hnsw_ok h = (graph_ok (h_store h) \<and> config_ok (h_config h) \<and> map_ok h \<and> counters_ok h \<and>
     entrypoint_ok h)"

definition lookup :: "hnsw \<Rightarrow> uuid \<Rightarrow> (vec \<times> metadata) option" where
  "lookup h i = do { p \<leftarrow> find_vertex h i; v \<leftarrow> deref (h_store h) p; Some (vvector v, vmetadata v) }"

lemma shard_idx_less [simp]: "shard_idx i < 16"
proof -
  obtain k where k: "uuid_mod i vertices_map_shard_count = Some k"
    using uuid_mod_total [of vertices_map_shard_count] by (auto simp: vertices_map_shard_count_def)
  then have "k < 16" using uuid_mod_bound [OF k] by (simp add: vertices_map_shard_count_def)
  then show ?thesis using k by (simp add: shard_idx_def word_less_nat_alt)
qed

lemma map_ok_entry: "map_ok h \<Longrightarrow> s < 16 \<Longrightarrow> e \<in> set (h_vertices h ! s) \<Longrightarrow> entry_ok (h_store h) s e"
  by (simp add: map_ok_def)

lemma map_ok_live: "map_ok h \<Longrightarrow> deref (h_store h) p = Some v \<Longrightarrow> \<not> is_deleted v \<Longrightarrow>
    find_vertex h (vid v) = Some p"
  by (simp add: map_ok_def)

lemma in_entries: "map_ok h \<Longrightarrow> e \<in> set (entries h) \<Longrightarrow> \<exists>s < 16. e \<in> set (h_vertices h ! s)"
  by (metis (no_types) entries_def in_set_conv_nth map_ok_def UN_E set_concat)

lemma find_vertex_ok:
  assumes "map_ok h" "find_vertex h i = Some p"
  obtains v where "deref (h_store h) p = Some v" "vid v = i" "\<not> is_deleted v"
    "(i, p) \<in> set (h_vertices h ! shard_idx i)"
proof -
  have "(i, p) \<in> set (h_vertices h ! shard_idx i)"
    using assms(2) by (simp add: find_vertex_def map_of_SomeD)
  with map_ok_entry [OF assms(1) shard_idx_less this] show ?thesis
    using that by (auto simp: entry_ok_def)
qed

lemma lookup_eq_None: "map_ok h \<Longrightarrow> lookup h i = None \<longleftrightarrow> find_vertex h i = None"
  by (cases "find_vertex h i") (auto simp: lookup_def elim: find_vertex_ok)

section \<open>Updating one shard\<close>

lemma mset_concat_update: "s < length xss \<Longrightarrow>
    mset (concat (xss[s := ys])) + mset (xss ! s) = mset (concat xss) + mset ys"
proof (induction xss arbitrary: s)
  case (Cons xs xss)
  then show ?case by (cases s) (auto simp: ac_simps)
qed simp

lemma mset_update_fresh: "map_of m k = None \<Longrightarrow> mset (AList.update k v m) = add_mset (k, v) (mset m)"
  by (simp add: length_AList_update_fresh)

lemma core_store_fields:
  assumes "core st' = core st"
  shows "entry_ok st' s e = entry_ok st s e" "vertex_size_at st' p = vertex_size_at st p"
    "live st' p = live st p" "vec_of st' p = vec_of st p"
proof -
  have *: "deref st' p = None \<and> deref st p = None \<or>
      (\<exists>v w. deref st p = Some v \<and> deref st' p = Some w \<and> vid w = vid v \<and> vvector w = vvector v \<and>
        vmetadata w = vmetadata v \<and> vlevel w = vlevel v \<and> vdeleted w = vdeleted v)" for p
    using core_eqD [OF assms [symmetric], of p] core_eq_None [OF assms, of p]
    by (cases "deref st p") auto
  show "entry_ok st' s e = entry_ok st s e"
    using * [of "snd e"] by (auto simp: entry_ok_def is_deleted_def)
  show "vertex_size_at st' p = vertex_size_at st p"
    using * [of p] by (auto simp: vertex_size_at_def vertex_bytes_size_def)
  show "live st' p = live st p" "vec_of st' p = vec_of st p"
    using * [of p] by (auto simp: live_def is_deleted_def vec_of_def)
qed

text \<open>A change of the graph alone keeps the map, the counters and the contents.\<close>

lemma frame_map_ok:
  assumes "map_ok h" "core st = core (h_store h)"
  shows "map_ok (h\<lparr>h_store := st, h_entrypoint := ep\<rparr>)"
proof -
  have "find_vertex h (vid v) = Some p" if v: "deref st p = Some v" "\<not> is_deleted v" for p v
  proof -
    obtain w where "deref (h_store h) p = Some w" "vid w = vid v" "\<not> is_deleted w"
      using core_eqD [OF assms(2) v(1)] v(2) by (auto simp: is_deleted_def)
    then show ?thesis using map_ok_live [OF assms(1)] by metis
  qed
  then show ?thesis
    using assms by (auto simp: map_ok_def find_vertex_def core_store_fields [OF assms(2)])
qed

lemma frame_counters_ok:
  assumes "counters_ok h" "core st = core (h_store h)"
  shows "counters_ok (h\<lparr>h_store := st, h_entrypoint := ep\<rparr>)"
  using assms(1) by (simp add: counters_ok_def entries_def core_store_fields [OF assms(2)])

lemma frame_lookup:
  assumes "core st = core (h_store h)"
  shows "lookup (h\<lparr>h_store := st, h_entrypoint := ep\<rparr>) i = lookup h i"
proof (cases "find_vertex h i")
  case None
  then show ?thesis by (simp add: lookup_def find_vertex_def)
next
  case (Some p)
  then show ?thesis
    using core_eqD [OF assms, of p] core_eq_None [OF assms, of p]
    by (cases "deref st p") (auto simp: lookup_def find_vertex_def)
qed

lemma frame_hnsw_ok:
  assumes "hnsw_ok h" "frame (h_store h) st" "ep = nil \<or> has_level st ep 0"
  shows "hnsw_ok (h\<lparr>h_store := st, h_entrypoint := ep\<rparr>)"
  using assms(1,3) frameD [OF assms(2)] frame_map_ok [of h st ep] frame_counters_ok [of h st ep]
  by (simp add: hnsw_ok_def entrypoint_ok_def)

section \<open>Storing and removing a vertex\<close>

lemma store_vertex_exists: "find_vertex h (vid v) \<noteq> None \<Longrightarrow>
    store_vertex v h = Some (Inl ItemAlreadyExists, h)"
  by (simp add: store_vertex_def)

lemma store_vertex_fresh:
  assumes "find_vertex h (vid v) = None"
  shows "store_vertex v h = Some (Inr (Suc (length (h_store h))), h\<lparr>
    h_store := h_store h @ [v],
    h_vertices := (h_vertices h)[shard_idx (vid v) :=
      AList.update (vid v) (Suc (length (h_store h))) (h_vertices h ! shard_idx (vid v))],
    h_len := h_len h + 1,
    h_bytes_size := h_bytes_size h + vertex_bytes_size v\<rparr>)"
  using assms by (simp add: store_vertex_def alloc_def Let_def)

lemma store_vertex_spec:
  assumes ok: "hnsw_ok h" and v: "new_vertex i x m l = Some v" and new: "find_vertex h i = None"
    and st: "store_vertex v h = Some (Inr p, h')"
  shows "hnsw_ok h'" "lookup h' = (lookup h)(i \<mapsto> (x, m))" "h_len h' = h_len h + 1"
    "deref (h_store h') p = Some v" "p \<noteq> nil" "h_entrypoint h' = h_entrypoint h"
    "h_config h' = h_config h" "\<And>q k. has_level (h_store h) q k \<Longrightarrow> has_level (h_store h') q k"
proof -
  note fields = new_vertex_fields [OF v]
  let ?p = "Suc (length (h_store h))" and ?s = "shard_idx i" and ?vs = "h_vertices h"
  have h': "p = ?p" "h' = h\<lparr>h_store := h_store h @ [v],
      h_vertices := ?vs[?s := AList.update i ?p (?vs ! ?s)], h_len := h_len h + 1,
      h_bytes_size := h_bytes_size h + vertex_bytes_size v\<rparr>"
    using st store_vertex_fresh [of h v] new fields(1) by auto
  have map: "map_ok h" and graph: "graph_ok (h_store h)" and len: "length ?vs = 16"
    using ok by (auto simp: hnsw_ok_def map_ok_def)
  have find: "find_vertex h' k = (if k = i then Some ?p else find_vertex h k)" for k
    using len by (auto simp: find_vertex_def h'(2) nth_list_update)
  have old: "deref (h_store h) q \<noteq> None \<Longrightarrow> q \<noteq> ?p" for q by auto
  have entry: "entry_ok (h_store h') s e" if "entry_ok (h_store h) s e" for s e
    using that old [of "snd e"] by (auto simp: entry_ok_def h'(2) deref_alloc)
  have new_entry: "entry_ok (h_store h') ?s (i, ?p)"
    using fields by (simp add: entry_ok_def h'(2) deref_alloc is_deleted_def)
  have "map_ok h'"
    unfolding map_ok_def
  proof (intro conjI allI impI ballI)
    show "length (h_vertices h') = 16" using len by (simp add: h'(2))
  next
    fix s :: nat assume s: "s < 16"
    have d: "distinct (map fst (?vs ! s))" using map s by (simp add: map_ok_def)
    then show "distinct (map fst (h_vertices h' ! s))"
      using len by (cases "s = ?s") (auto simp: h'(2) nth_list_update)
    fix e assume "e \<in> set (h_vertices h' ! s)"
    then have "e \<in> set (?vs ! s) \<or> s = ?s \<and> e = (i, ?p)"
      using len s d by (auto simp: h'(2) nth_list_update set_AList_update split: if_splits)
    moreover have "\<forall>e \<in> set (?vs ! s). entry_ok (h_store h) s e"
      using map s by (simp add: map_ok_def)
    ultimately show "entry_ok (h_store h') s e" using entry new_entry by blast
  next
    fix q w assume w: "deref (h_store h') q = Some w" "\<not> is_deleted w"
    show "find_vertex h' (vid w) = Some q"
    proof (cases "q = ?p")
      case True
      then show ?thesis using w fields(1) by (simp add: find) (auto simp: h'(2) deref_alloc fields)
    next
      case False
      then have "find_vertex h (vid w) = Some q"
        using w map by (auto simp: h'(2) deref_alloc map_ok_def)
      then show ?thesis using new by (auto simp: find)
    qed
  qed
  moreover have "counters_ok h'"
  proof -
    have "map_of (?vs ! ?s) i = None" using new by (simp add: find_vertex_def)
    then have "mset (entries h') + mset (?vs ! ?s) = mset (entries h) + add_mset (i, ?p) (mset (?vs ! ?s))"
      using mset_concat_update [of ?s ?vs] len by (simp add: entries_def h'(2) mset_update_fresh)
    then have m: "mset (entries h') = mset ((i, ?p) # entries h)" by simp
    have old_size: "vertex_size_at (h_store h') (snd e) = vertex_size_at (h_store h) (snd e)"
      if e: "e \<in> set (entries h)" for e
    proof -
      obtain s where "entry_ok (h_store h) s e"
        using in_entries [OF map e] map_ok_entry [OF map] by blast
      then have "deref (h_store h) (snd e) \<noteq> None" by (auto simp: entry_ok_def)
      then show ?thesis using old by (auto simp: vertex_size_at_def h'(2) deref_alloc)
    qed
    have "sum_list (map (\<lambda>e. vertex_size_at (h_store h') (snd e)) (entries h')) =
        vertex_bytes_size v + sum_list (map (\<lambda>e. vertex_size_at (h_store h) (snd e)) (entries h))"
      using sum_list_mset_cong [OF m, of "\<lambda>e. vertex_size_at (h_store h') (snd e)"] old_size
      by (simp add: vertex_size_at_def [of _ ?p] cong: map_cong) (simp add: h'(2) deref_alloc)
    moreover have "length (entries h') = Suc (length (entries h))"
      using m by (metis length_Cons mset_eq_length)
    ultimately show ?thesis using ok by (simp add: hnsw_ok_def counters_ok_def h'(2) add.commute)
  qed
  moreover have lev: "has_level (h_store h') q k" if "has_level (h_store h) q k" for q k
    using that old [of q] by (auto simp: has_level_def edges_of_def h'(2) deref_alloc bind_eq_None_conv)
  ultimately show "hnsw_ok h'"
    using ok graph_ok_alloc [OF graph v] by (auto simp: hnsw_ok_def entrypoint_ok_def h'(2))
  show "lookup h' = (lookup h)(i \<mapsto> (x, m))"
  proof
    fix k
    show "lookup h' k = ((lookup h)(i \<mapsto> (x, m))) k"
    proof (cases "k = i")
      case True
      then show ?thesis using fields by (simp add: lookup_def find) (simp add: h'(2) deref_alloc)
    next
      case False
      show ?thesis
      proof (cases "find_vertex h k")
        case None
        then show ?thesis using False by (simp add: lookup_def find)
      next
        case (Some q)
        obtain w where w: "deref (h_store h) q = Some w" using find_vertex_ok [OF map Some] .
        then have "deref (h_store h') q = Some w" using old [of q] by (simp add: h'(2) deref_alloc)
        then show ?thesis using False Some w by (simp add: lookup_def find)
      qed
    qed
  qed
  show "h_len h' = h_len h + 1" "deref (h_store h') p = Some v" "p \<noteq> nil"
    "h_entrypoint h' = h_entrypoint h" "h_config h' = h_config h"
    by (simp_all add: h' deref_alloc nil_def)
  show "\<And>q k. has_level (h_store h) q k \<Longrightarrow> has_level (h_store h') q k" by (rule lev)
qed

lemma remove_vertex_missing: "find_vertex h i = None \<Longrightarrow>
    remove_vertex i h = Some (Inl ItemNotFound, h)"
  by (simp add: remove_vertex_def)

lemma remove_vertex_spec:
  assumes ok: "hnsw_ok h" and p: "find_vertex h i = Some p"
  shows "\<exists>h' v. remove_vertex i h = Some (Inr p, h') \<and> hnsw_ok h' \<and> lookup h' = (lookup h)(i := None) \<and>
    h_len h' = h_len h - 1 \<and> h_entrypoint h' = h_entrypoint h \<and> h_config h' = h_config h \<and>
    deref (h_store h') p = Some v \<and> is_deleted v \<and>
    edges_of (h_store h') = edges_of (h_store h)"
proof -
  have map: "map_ok h" and graph: "graph_ok (h_store h)" and len: "length (h_vertices h) = 16"
    using ok by (auto simp: hnsw_ok_def map_ok_def)
  obtain v where v: "deref (h_store h) p = Some v" "vid v = i" "\<not> is_deleted v"
    "(i, p) \<in> set (h_vertices h ! shard_idx i)"
    using find_vertex_ok [OF map p] .
  obtain st where st: "set_deleted (h_store h) p = Some st" using set_deleted_total v(1) by blast
  let ?s = "shard_idx i" and ?vs = "h_vertices h"
  define h' where "h' = h\<lparr>h_vertices := ?vs[?s := AList.delete i (?vs ! ?s)], h_len := h_len h + NOT 0,
    h_bytes_size := h_bytes_size h + NOT (vertex_bytes_size v - 1), h_store := st\<rparr>"
  have run: "remove_vertex i h = Some (Inr p, h')"
    using p v(1) st by (simp add: remove_vertex_def h'_def Let_def)
  have find: "find_vertex h' k = (if k = i then None else find_vertex h k)" for k
    using len by (auto simp: find_vertex_def h'_def nth_list_update)
  note deref' = set_deleted_deref [OF st]
  have dist: "distinct (map fst (?vs ! s))" if "s < 16" for s using map that by (simp add: map_ok_def)
  have entry: "entry_ok st s e" if "entry_ok (h_store h) s e" "fst e \<noteq> i" for s e
    using that v(1,2) by (auto simp: entry_ok_def deref')
  have "map_ok h'"
    unfolding map_ok_def
  proof (intro conjI allI impI ballI)
    show "length (h_vertices h') = 16" using len by (simp add: h'_def)
  next
    fix s :: nat assume s: "s < 16"
    show "distinct (map fst (h_vertices h' ! s))"
      using len dist [OF s] by (cases "s = ?s") (auto simp: h'_def nth_list_update)
    fix e assume e: "e \<in> set (h_vertices h' ! s)"
    then have "e \<in> set (?vs ! s)" "s = ?s \<longrightarrow> fst e \<noteq> i"
      using len s dist [OF s]
      by (auto simp: h'_def nth_list_update set_AList_delete split: if_splits)
    moreover from this have old: "entry_ok (h_store h) s e" using map_ok_entry [OF map s] by blast
    ultimately have "fst e \<noteq> i" by (auto simp: entry_ok_def)
    then show "entry_ok (h_store h') s e" using entry [OF old] by (simp add: h'_def)
  next
    fix q w assume w: "deref (h_store h') q = Some w" "\<not> is_deleted w"
    then have q: "q \<noteq> p" "deref (h_store h) q = Some w"
      using v(1) by (auto simp: h'_def deref' is_deleted_def split: if_splits)
    then have "find_vertex h (vid w) = Some q" using map_ok_live [OF map] w(2) by blast
    then show "find_vertex h' (vid w) = Some q" using p q(1) by (auto simp: find)
  qed
  moreover have "counters_ok h'"
  proof -
    have "map_of (?vs ! ?s) i = Some p" using p by (simp add: find_vertex_def)
    then have "mset (?vs ! ?s) = add_mset (i, p) (mset (AList.delete i (?vs ! ?s)))"
      by (rule mset_AList_delete [OF dist [OF shard_idx_less]])
    then have m: "mset (entries h) = mset ((i, p) # entries h')"
      using mset_concat_update [of ?s ?vs "AList.delete i (?vs ! ?s)"] len
      by (simp add: entries_def h'_def)
    have size: "vertex_size_at st q = vertex_size_at (h_store h) q" for q
      using v(1) by (auto simp: vertex_size_at_def vertex_bytes_size_def deref')
    have size_p: "vertex_size_at (h_store h) p = vertex_bytes_size v"
      using v(1) by (simp add: vertex_size_at_def)
    have "sum_list (map (\<lambda>e. vertex_size_at (h_store h) (snd e)) (entries h)) =
        vertex_bytes_size v + sum_list (map (\<lambda>e. vertex_size_at st (snd e)) (entries h'))"
      using sum_list_mset_cong [OF m, of "\<lambda>e. vertex_size_at (h_store h) (snd e)"]
      by (simp add: size size_p)
    moreover have "length (entries h) = Suc (length (entries h'))"
      using m by (metis length_Cons mset_eq_length)
    moreover have "entries h' = concat (?vs[?s := AList.delete i (?vs ! ?s)])"
      by (simp add: entries_def h'_def)
    ultimately show ?thesis
      using ok by (simp add: hnsw_ok_def counters_ok_def h'_def not_eq_complement)
  qed
  moreover have edges: "edges_of st = edges_of (h_store h)"
    using set_deleted_edges [OF st] by (simp add: fun_eq_iff)
  ultimately have "hnsw_ok h'"
    using ok set_deleted_graph_ok [OF graph st]
    by (auto simp: hnsw_ok_def entrypoint_ok_def h'_def has_level_def)
  moreover have "lookup h' = (lookup h)(i := None)"
  proof
    fix k
    show "lookup h' k = ((lookup h)(i := None)) k"
    proof (cases "k = i \<or> find_vertex h k = None")
      case True
      then show ?thesis by (auto simp: lookup_def find)
    next
      case False
      then obtain q where q: "k \<noteq> i" "find_vertex h k = Some q" by auto
      then have "q \<noteq> p" using find_vertex_ok [OF map] v(1,2) by fastforce
      then show ?thesis using q by (simp add: lookup_def find) (simp add: h'_def deref')
    qed
  qed
  ultimately show ?thesis
    using run v(1) edges by (auto simp: h'_def deref' is_deleted_def)
qed

section \<open>The operations refine the map\<close>

lemma connect_spec:
  assumes ok: "hnsw_ok h" and p: "deref (h_store h) p = Some v" and ep: "h_entrypoint h \<noteq> nil"
    and l: "-1 \<le> vlevel v" and env: "fair env" and D: "accepted_distance D"
  shows "\<exists>h'. connect_vertex D env p h = Some (Inr (), h') \<and> hnsw_ok h' \<and> lookup h' = lookup h \<and>
    h_len h' = h_len h \<and> h_config h' = h_config h"
proof -
  have graph: "graph_ok (h_store h)" and cfg: "config_ok (h_config h)"
    and ep0: "has_level (h_store h) (h_entrypoint h) 0"
    using ok ep by (auto simp: hnsw_ok_def entrypoint_ok_def)
  obtain e where e: "deref (h_store h) (h_entrypoint h) = Some e" "0 \<le> vlevel e"
    using ep0 has_level_iff [OF graph] by auto
  have eplev: "has_level (h_store h) (h_entrypoint h) (vlevel e)"
    using e has_level_iff [OF graph] by auto
  have md: "D (vvector v) (vvector e) = D (vvector v) (vec_of (h_store h) (h_entrypoint h))"
    using e(1) by simp
  obtain ep' md where d: "descend D (h_store h) (sub env 0) (vvector v) (vlevel v) (vlevel e)
      (h_entrypoint h) (D (vvector v) (vvector e)) = Some (ep', md)" "has_level (h_store h) ep' 0"
    using descend_spec [where D = D and q = "vvector v", OF graph fair_sub [OF env] eplev md l] by blast
  obtain e' where e': "deref (h_store h) ep' = Some e'" "0 \<le> vlevel e'"
    using d(2) has_level_iff [OF graph] by auto
  let ?l = "min_int [vlevel e', vlevel v]"
  have "?l \<le> vlevel e'" "?l \<le> vlevel v" by (auto simp: min_int_def)
  then have "0 \<le> ?l \<Longrightarrow> has_level (h_store h) p ?l \<and> has_level (h_store h) ep' ?l"
    using p e' by (simp add: has_level_iff [OF graph])
  then obtain st where st: "insert_levels D (sub env 1) (h_config h) p (vvector v) ?l ep' (h_store h) = Some st"
    "frame (h_store h) st"
    using insert_levels_spec [OF graph fair_sub [OF env] D cfg] by blast
  define ep2 where "ep2 = (if vlevel e < vlevel v then p else h_entrypoint h)"
  have run: "connect_vertex D env p h = Some (Inr (), h\<lparr>h_store := st, h_entrypoint := ep2\<rparr>)"
    using p e d(1) e' st(1) by (simp add: connect_vertex_def Let_def ep2_def)
  have "ep2 = nil \<or> has_level st ep2 0"
    using ep0 p e(2) frameD(4) [OF st(2)] has_level_iff [OF graph] by (auto simp: ep2_def)
  then have "hnsw_ok (h\<lparr>h_store := st, h_entrypoint := ep2\<rparr>)"
    using frame_hnsw_ok [OF ok st(2)] by blast
  moreover have "lookup (h\<lparr>h_store := st, h_entrypoint := ep2\<rparr>) = lookup h"
    using frame_lookup [of st h ep2] frameD(1) [OF st(2)] by (simp add: fun_eq_iff)
  ultimately show ?thesis using run by simp
qed

lemma disconnect_spec:
  assumes ok: "hnsw_ok h" and p: "deref (h_store h) p = Some v"
    and env: "fair env" and D: "accepted_distance D"
  shows "\<exists>h'. disconnect_vertex D env p h = Some (Inr (), h') \<and> hnsw_ok h' \<and> lookup h' = lookup h \<and>
    h_len h' = h_len h \<and> h_config h' = h_config h"
proof -
  have graph: "graph_ok (h_store h)" and cfg: "config_ok (h_config h)" and ep: "entrypoint_ok h"
    using ok by (auto simp: hnsw_ok_def)
  obtain ep2 where ep2: "(if h_entrypoint h = p then next_entrypoint (sub env 0) v (vlevel v) max_float
      else Some (h_entrypoint h)) = Some ep2" "ep2 = nil \<or> has_level (h_store h) ep2 0"
    using next_entrypoint_spec [OF graph p fair_sub [OF env, of 0] order_refl, of max_float] ep
    by (cases "h_entrypoint h = p") (auto simp: entrypoint_ok_def)
  have "0 \<le> vlevel v \<Longrightarrow> has_level (h_store h) p (vlevel v)" using p has_level_iff [OF graph] by auto
  then obtain st where st: "unlink_levels D (sub env 1) (h_config h) p (vlevel v) (h_store h) = Some st"
    "frame (h_store h) st"
    using unlink_levels_spec [OF graph fair_sub [OF env] D cfg] by blast
  have run: "disconnect_vertex D env p h = Some (Inr (), h\<lparr>h_store := st, h_entrypoint := ep2\<rparr>)"
    using p ep2(1) st(1) by (simp add: disconnect_vertex_def)
  have "ep2 = nil \<or> has_level st ep2 0" using ep2(2) frameD(4) [OF st(2)] by auto
  then have "hnsw_ok (h\<lparr>h_store := st, h_entrypoint := ep2\<rparr>)"
    using frame_hnsw_ok [OF ok st(2)] by blast
  moreover have "lookup (h\<lparr>h_store := st, h_entrypoint := ep2\<rparr>) = lookup h"
    using frame_lookup [of st h ep2] frameD(1) [OF st(2)] by (simp add: fun_eq_iff)
  ultimately show ?thesis using run by simp
qed

lemma insert_ok:
  assumes ok: "hnsw_ok h" and env: "fair env" and D: "accepted_distance D" and l: "-1 \<le> l"
    and new: "lookup h i = None"
  shows "\<exists>h'. hnsw_insert D env i x m l h = Some (Inr (), h') \<and> hnsw_ok h' \<and>
    lookup h' = (lookup h)(i \<mapsto> (x, m)) \<and> h_len h' = h_len h + 1 \<and> h_config h' = h_config h"
proof -
  define l' where "l' = (if h_entrypoint h = nil then 0 else l)"
  have "-1 \<le> l'" using l by (simp add: l'_def)
  then obtain v where v: "new_vertex i x m l' = Some v" using new_vertex_total by blast
  have new': "find_vertex h i = None" using new lookup_eq_None ok by (simp add: hnsw_ok_def)
  then obtain p h1 where st: "store_vertex v h = Some (Inr p, h1)"
    using store_vertex_fresh [of h v] new_vertex_fields [OF v] by auto
  note s = store_vertex_spec [OF ok v new' st]
  show ?thesis
  proof (cases "h_entrypoint h = nil")
    case True
    have "hnsw_insert D env i x m l h = Some (Inr (), h1\<lparr>h_entrypoint := p\<rparr>)"
      using True v st by (simp add: hnsw_insert_def l'_def)
    moreover have graph: "graph_ok (h_store h1)" using s(1) by (simp add: hnsw_ok_def)
    then have "has_level (h_store h1) p 0"
      using s(4) True new_vertex_fields [OF v] by (simp add: has_level_iff l'_def)
    then have "hnsw_ok (h1\<lparr>h_entrypoint := p\<rparr>)"
      using frame_hnsw_ok [OF s(1) frame_refl [OF graph], of p] by simp
    moreover have "lookup (h1\<lparr>h_entrypoint := p\<rparr>) = lookup h1"
      using frame_lookup [of "h_store h1" h1 p] by (simp add: fun_eq_iff)
    ultimately show ?thesis using s(2,3,7) by simp
  next
    case False
    have "-1 \<le> vlevel v" using new_vertex_fields [OF v] by simp
    then obtain h2 where "connect_vertex D env p h1 = Some (Inr (), h2)" "hnsw_ok h2"
      "lookup h2 = lookup h1" "h_len h2 = h_len h1" "h_config h2 = h_config h1"
      using connect_spec [OF s(1,4) _ _ env D] False s(6) by auto
    moreover from this have "hnsw_insert D env i x m l h = Some (Inr (), h2)"
      using False v st by (simp add: hnsw_insert_def l'_def)
    ultimately show ?thesis using s(2,3,7) by simp
  qed
qed

lemma insert_exists:
  assumes "hnsw_ok h" "-1 \<le> l" "lookup h i \<noteq> None"
  shows "hnsw_insert D env i x m l h = Some (Inl ItemAlreadyExists, h)"
proof -
  have f: "find_vertex h i \<noteq> None" using assms lookup_eq_None by (auto simp: hnsw_ok_def)
  have "-1 \<le> (if h_entrypoint h = nil then 0 else l)" using assms(2) by simp
  then obtain v where v: "new_vertex i x m (if h_entrypoint h = nil then 0 else l) = Some v"
    using new_vertex_total by blast
  then show ?thesis
    using f store_vertex_exists [of h v] new_vertex_fields [OF v]
    by (auto simp: hnsw_insert_def split: if_splits)
qed

lemma remove_ok:
  assumes ok: "hnsw_ok h" and env: "fair env" and D: "accepted_distance D" and i: "lookup h i \<noteq> None"
  shows "\<exists>h'. hnsw_remove D env i h = Some (Inr (), h') \<and> hnsw_ok h' \<and>
    lookup h' = (lookup h)(i := None) \<and> h_len h' = h_len h - 1 \<and> h_config h' = h_config h"
proof -
  obtain p where p: "find_vertex h i = Some p"
    using i lookup_eq_None [of h i] ok by (auto simp: hnsw_ok_def)
  obtain h1 v where h1: "remove_vertex i h = Some (Inr p, h1)" "hnsw_ok h1"
    "lookup h1 = (lookup h)(i := None)" "h_len h1 = h_len h - 1" "h_config h1 = h_config h"
    "deref (h_store h1) p = Some v"
    using remove_vertex_spec [OF ok p] by blast
  obtain h2 where "disconnect_vertex D env p h1 = Some (Inr (), h2)" "hnsw_ok h2"
    "lookup h2 = lookup h1" "h_len h2 = h_len h1" "h_config h2 = h_config h1"
    using disconnect_spec [OF h1(2,6) env D] by blast
  then show ?thesis using h1 by (simp add: hnsw_remove_def)
qed

lemma remove_missing:
  assumes "hnsw_ok h" "lookup h i = None"
  shows "hnsw_remove D env i h = Some (Inl ItemNotFound, h)"
  using assms remove_vertex_missing lookup_eq_None [of h i] by (simp add: hnsw_remove_def hnsw_ok_def)

lemma get_lookup: "hnsw_ok h \<Longrightarrow> hnsw_get i h =
    Some (case lookup h i of Some (x, m) \<Rightarrow> Inr x | None \<Rightarrow> Inl ItemNotFound, h)"
proof -
  assume "hnsw_ok h"
  then have map: "map_ok h" by (simp add: hnsw_ok_def)
  show ?thesis
  proof (cases "find_vertex h i")
    case None
    then show ?thesis by (simp add: hnsw_get_def lookup_def)
  next
    case (Some p)
    obtain v where "deref (h_store h) p = Some v" using find_vertex_ok [OF map Some] .
    then show ?thesis using Some by (simp add: hnsw_get_def lookup_def)
  qed
qed

lemma new_hnsw_ok:
  assumes "config_ok (new_hnsw_config lg options)"
  shows "hnsw_ok (new_hnsw lg dim sp options)" "lookup (new_hnsw lg dim sp options) = Map.empty"
proof -
  have n: "unat vertices_map_shard_count = 16" by (simp add: vertices_map_shard_count_def)
  show "hnsw_ok (new_hnsw lg dim sp options)"
    using assms by (simp add: hnsw_ok_def new_hnsw_def graph_ok_def edges_of_def deref_def map_ok_def
        counters_ok_def entries_def entrypoint_ok_def n nil_def)
  show "lookup (new_hnsw lg dim sp options) = Map.empty"
    by (simp add: fun_eq_iff lookup_def find_vertex_def new_hnsw_def n)
qed

end
