(* ===== verification/HnswPersistence.thy ===== *)
theory HnswPersistence
  imports HnswMap
begin

text \<open>
  \<open>index/hnsw_persistence.go\<close>: \<open>Save\<close> to and \<open>Load\<close> from a \<open>bytes.Buffer\<close>. \<open>Save\<close>
  returns the bytes written and the error, if any; \<open>Load\<close> is a reader whose state is the index
  it overwrites. Ids are read into one buffer that is reused (\<open>uuidBuf\<close>), which matters because
  \<open>(*bytes.Buffer).Read\<close> may fill only a part of it.
\<close>

section \<open>Save\<close>

fun space_to_space_idx :: "space \<Rightarrow> 8 word" where
  "space_to_space_idx Euclidean = 1"
| "space_to_space_idx Manhattan = 2"
| "space_to_space_idx Cosine = 3"

definition space_idx_to_space :: "8 word \<Rightarrow> error + space" where
  "space_idx_to_space i =
     (if i = 1 then Inr Euclidean else if i = 2 then Inr Manhattan else if i = 3 then Inr Cosine
      else Inl InvalidSpaceType)"

definition save_vertex :: "env \<Rightarrow> vertex \<Rightarrow> bytes" where
  "save_vertex env v = vid v @ write_int32 (vlevel v) @ vector_save (vvector v) @
     metadata_save env (vmetadata v)"

fun save_vertices :: "env \<Rightarrow> store \<Rightarrow> ptr list \<Rightarrow> bytes option" where
  "save_vertices env st [] = Some []"
| "save_vertices env st (p # ps) = do {
     v \<leftarrow> deref st p;
     rest \<leftarrow> save_vertices (sub env 1) st ps;
     Some (save_vertex (sub env 0) v @ rest) }"

fun save_shards :: "env \<Rightarrow> store \<Rightarrow> shard list \<Rightarrow> bytes option" where
  "save_shards env st [] = Some []"
| "save_shards env st (s # ss) = do {
     b \<leftarrow> save_vertices (sub env 0) st (map snd (visit env s));
     rest \<leftarrow> save_shards (sub env 1) st ss;
     Some (be_bytes 4 (of_nat (length s) :: 32 word) @ b @ rest) }"

fun edges_count_live :: "store \<Rightarrow> edge_set \<Rightarrow> nat option" where
  "edges_count_live st [] = Some 0"
| "edges_count_live st ((q, d) # es) = do {
     v \<leftarrow> deref st q;
     n \<leftarrow> edges_count_live st es;
     Some (if vdeleted v = 0 then Suc n else n) }"

fun save_edge_list :: "store \<Rightarrow> edge_set \<Rightarrow> bytes option" where
  "save_edge_list st [] = Some []"
| "save_edge_list st ((q, d) # es) = do {
     v \<leftarrow> deref st q;
     rest \<leftarrow> save_edge_list st es;
     Some (if is_deleted v then rest else vid v @ be_bytes 4 d @ rest) }"

function save_vertex_edges :: "env \<Rightarrow> store \<Rightarrow> vertex \<Rightarrow> int \<Rightarrow> bytes option" where
  "save_vertex_edges env st v l =
     (if 0 \<le> l then do {
        es \<leftarrow> edges_at v l;
        n \<leftarrow> edges_count_live st (visit (sub env 0) es);
        b \<leftarrow> save_edge_list st (visit (sub env 1) es);
        rest \<leftarrow> save_vertex_edges (sub env 2) st v (l - 1);
        Some (be_bytes 4 (of_nat n :: 32 word) @ b @ rest) }
      else Some [])"
  by pat_completeness auto

termination by (relation "measure (\<lambda>(env, st, v, l). nat (l + 1))") auto

declare save_vertex_edges.simps [simp del]

fun save_edges :: "env \<Rightarrow> store \<Rightarrow> ptr list \<Rightarrow> bytes option" where
  "save_edges env st [] = Some []"
| "save_edges env st (p # ps) = do {
     v \<leftarrow> deref st p;
     b \<leftarrow> save_vertex_edges (sub env 0) st v (vlevel v);
     rest \<leftarrow> save_edges (sub env 1) st ps;
     Some (vid v @ b @ rest) }"

fun save_shards_edges :: "env \<Rightarrow> store \<Rightarrow> shard list \<Rightarrow> bytes option" where
  "save_shards_edges env st [] = Some []"
| "save_shards_edges env st (s # ss) = do {
     b \<leftarrow> save_edges (sub env 0) st (map snd (visit env s));
     rest \<leftarrow> save_shards_edges (sub env 1) st ss;
     Some (b @ rest) }"

definition save_header :: "hnsw \<Rightarrow> bytes" where
  "save_header h = config_save (h_config h) @ be_bytes 4 (ucast (h_size h) :: 32 word) @
     be_bytes 1 (space_to_space_idx (h_space h))"

definition hnsw_save :: "env \<Rightarrow> bool \<Rightarrow> hnsw \<Rightarrow> (error option \<times> bytes) option" where
  "hnsw_save env header h =
     (let hd = (if header then save_header h else [])
      in if hnsw_len h = 0 then Some (None, hd)
         else if h_entrypoint h = nil then Some (Some NoEntrypoint, hd)
         else do {
           e \<leftarrow> deref (h_store h) (h_entrypoint h);
           vs \<leftarrow> save_shards (sub env 0) (h_store h) (h_vertices h);
           es \<leftarrow> save_shards_edges (sub env 1) (h_store h) (h_vertices h);
           Some (None, hd @ vid e @ vs @ es) })"

section \<open>Load\<close>

definition read_uuid :: "bytes \<Rightarrow> (hnsw, uuid) reader" where
  "read_uuid buf = andthen (buf_read buf) (\<lambda>b.
     case uuid_from_bytes b of Inl e \<Rightarrow> fail e | Inr u \<Rightarrow> ret u)"

definition on_config :: "(hnsw_config, 'a) reader \<Rightarrow> (hnsw, 'a) reader" where
  "on_config m = (\<lambda>(h, bs). case m (h_config h, bs) of None \<Rightarrow> None
     | Some (r, (c, bs')) \<Rightarrow> Some (r, (h\<lparr>h_config := c\<rparr>, bs')))"

definition load_header :: "(hnsw, unit) reader" where
  "load_header =
     andthen (on_config config_load) (\<lambda>_.
     andthen (read_word 4) (\<lambda>dim :: 32 word.
     andthen (read_word 1) (\<lambda>idx :: 8 word.
       case space_idx_to_space idx of
         Inl e \<Rightarrow> fail e
       | Inr s \<Rightarrow> modify (\<lambda>h. h\<lparr>h_size := ucast dim, h_space := s\<rparr>))))"

definition add_loaded :: "nat \<Rightarrow> uuid \<Rightarrow> vec \<Rightarrow> metadata \<Rightarrow> int \<Rightarrow> (hnsw, unit) reader" where
  "add_loaded s u x m l = (\<lambda>(h, bs). do {
     v \<leftarrow> new_vertex u x m l;
     let (p, st) = alloc (h_store h) v;
     Some (Inr (), (h\<lparr>
       h_bytes_size := h_bytes_size h + vertex_bytes_size v,
       h_store := st,
       h_vertices := (h_vertices h)[s := AList.update u p (h_vertices h ! s)]\<rparr>, bs)) })"

fun load_vertices :: "nat \<Rightarrow> nat \<Rightarrow> bytes \<Rightarrow> (hnsw, bytes) reader" where
  "load_vertices s 0 buf = ret buf"
| "load_vertices s (Suc n) buf =
     andthen (read_uuid buf) (\<lambda>u.
     andthen (read_word 4) (\<lambda>level :: 32 word.
     andthen get_state (\<lambda>h.
     andthen (vector_load (unat (h_size h))) (\<lambda>x.
     andthen (metadata_load (Some [])) (\<lambda>m.
     andthen (add_loaded s u x m (sint level)) (\<lambda>_.
     load_vertices s n u))))))"

fun load_shards :: "nat list \<Rightarrow> bytes \<Rightarrow> (hnsw, bytes) reader" where
  "load_shards [] buf = ret buf"
| "load_shards (s # ss) buf =
     andthen (read_word 4) (\<lambda>n :: 32 word.
     andthen (modify (\<lambda>h. h\<lparr>h_len := h_len h + ucast n, h_vertices := (h_vertices h)[s := []]\<rparr>)) (\<lambda>_.
     andthen (load_vertices s (unat n) buf) (\<lambda>buf'.
     load_shards ss buf')))"

definition ptr_of :: "hnsw \<Rightarrow> uuid \<Rightarrow> ptr" where
  "ptr_of h u = (case find_vertex h u of None \<Rightarrow> nil | Some p \<Rightarrow> p)"

definition put_edge :: "ptr \<Rightarrow> int \<Rightarrow> uuid \<Rightarrow> f32 \<Rightarrow> (hnsw, unit) reader" where
  "put_edge p l u d = (\<lambda>(h, bs). do {
     st \<leftarrow> add_edge p l (ptr_of h u) d (h_store h);
     Some (Inr (), (h\<lparr>h_store := st\<rparr>, bs)) })"

fun load_edge_list :: "ptr \<Rightarrow> int \<Rightarrow> nat \<Rightarrow> bytes \<Rightarrow> (hnsw, bytes) reader" where
  "load_edge_list p l 0 buf = ret buf"
| "load_edge_list p l (Suc n) buf =
     andthen (read_uuid buf) (\<lambda>u.
     andthen (read_word 4) (\<lambda>d :: f32.
     andthen (put_edge p l u d) (\<lambda>_.
     load_edge_list p l n u)))"

function load_vertex_edges :: "ptr \<Rightarrow> int \<Rightarrow> bytes \<Rightarrow> (hnsw, bytes) reader" where
  "load_vertex_edges p l buf =
     (if 0 \<le> l then
        andthen (read_word 4) (\<lambda>n :: 32 word.
        andthen (load_edge_list p l (unat n) buf) (\<lambda>buf'.
        load_vertex_edges p (l - 1) buf'))
      else ret buf)"
  by pat_completeness auto

termination by (relation "measure (\<lambda>(p, l, buf). nat (l + 1))") auto

declare load_vertex_edges.simps [simp del]

fun load_edges :: "nat \<Rightarrow> nat \<Rightarrow> bytes \<Rightarrow> (hnsw, bytes) reader" where
  "load_edges s 0 buf = ret buf"
| "load_edges s (Suc n) buf =
     andthen (read_uuid buf) (\<lambda>u.
     andthen get_state (\<lambda>h.
     andthen (of_option (do { p \<leftarrow> map_of (h_vertices h ! s) u; v \<leftarrow> deref (h_store h) p; Some (p, v) }))
       (\<lambda>(p, v).
     andthen (load_vertex_edges p (vlevel v) u) (\<lambda>buf'.
     load_edges s n buf'))))"

fun load_shards_edges :: "nat list \<Rightarrow> bytes \<Rightarrow> (hnsw, bytes) reader" where
  "load_shards_edges [] buf = ret buf"
| "load_shards_edges (s # ss) buf =
     andthen get_state (\<lambda>h.
     andthen (load_edges s (length (h_vertices h ! s)) buf) (\<lambda>buf'.
     load_shards_edges ss buf'))"

definition load_body :: "(hnsw, unit) reader" where
  "load_body =
     andthen (read_uuid (replicate 16 0)) (\<lambda>entrypoint_id.
     andthen (modify (\<lambda>h. h\<lparr>h_len := 0\<rparr>)) (\<lambda>_.
     andthen (load_shards [0..<16] entrypoint_id) (\<lambda>buf.
     andthen (modify (\<lambda>h. h\<lparr>h_entrypoint := ptr_of h entrypoint_id\<rparr>)) (\<lambda>_.
     andthen (load_shards_edges [0..<16] buf) (\<lambda>_.
     ret ())))))"

definition hnsw_load :: "bool \<Rightarrow> (hnsw, unit) reader" where
  "hnsw_load header = (if header then andthen load_header (\<lambda>_. load_body) else load_body)"

end
