(* ===== verification/HnswExact.thy ===== *)
theory HnswExact
  imports HnswSelectFacts
begin

text \<open>
  When the result queue of \<open>searchLevel\<close> has room for every vertex that can be reached, the
  best-first search is exhaustive: the bound never cuts a branch and the result is exactly the
  set of reachable live vertices (and the entrypoint).
\<close>

inductive_set reachable_at :: "store \<Rightarrow> int \<Rightarrow> ptr \<Rightarrow> ptr set" for st l ep where
  start: "ep \<in> reachable_at st l ep"
| step: "p \<in> reachable_at st l ep \<Longrightarrow> q \<in> neighbours st p l \<Longrightarrow> live st q \<Longrightarrow> q \<in> reachable_at st l ep"

lemma reachable_valid: "q \<in> reachable_at st l ep \<Longrightarrow> q = ep \<or> live st q"
  by (induction rule: reachable_at.induct) auto

lemma finite_reachable [simp, intro]: "finite (reachable_at st l ep)"
proof (rule finite_subset)
  show "reachable_at st l ep \<subseteq> insert ep {1..length st}"
    using reachable_valid deref_SomeD by (fastforce simp: live_def)
qed simp

lemma reachable_closed:
  assumes "ep \<in> S" "\<forall>p \<in> S. \<forall>q \<in> neighbours st p l. live st q \<longrightarrow> q \<in> S"
  shows "reachable_at st l ep \<subseteq> S"
proof
  fix q assume "q \<in> reachable_at st l ep"
  then show "q \<in> S" by induction (use assms in auto)
qed

text \<open>No vertex was rejected or evicted so far.\<close>

definition exhaustive :: "ptr set \<Rightarrow> search_state \<Rightarrow> bool" where
  "exhaustive R s = (val ` set (queue (result_vertices s)) = set (visited_vertices s) \<and>
     val ` set (queue (candidate_vertices s)) \<subseteq> set (visited_vertices s) \<and>
     set (visited_vertices s) \<subseteq> R)"

lemma search_edges_exhaustive:
  "search_inv D st q ef l ep s \<Longrightarrow> exhaustive R s \<Longrightarrow> accepted_distance D \<Longrightarrow>
   finite R \<Longrightarrow> int (card R) \<le> ef \<Longrightarrow>
   \<forall>e \<in> set es. has_level st (fst e) l \<and> (live st (fst e) \<longrightarrow> fst e \<in> R) \<Longrightarrow>
   \<exists>s'. search_edges D st q ef lb es s = Some s' \<and> search_inv D st q ef l ep s' \<and> exhaustive R s' \<and>
     set (visited_vertices s') = set (visited_vertices s) \<union> {p \<in> fst ` set es. live st p} \<and>
     val ` set (queue (candidate_vertices s')) = val ` set (queue (candidate_vertices s)) \<union>
       (set (visited_vertices s') - set (visited_vertices s))"
proof (induction es arbitrary: s)
  case (Cons e es)
  obtain v where v: "deref st (fst e) = Some v" using Cons.prems(6) by (auto elim: has_levelE)
  show ?case
  proof (cases "is_deleted v \<or> fst e \<in> set (visited_vertices s)")
    case True
    then have "{p \<in> fst ` set (e # es). live st p} \<subseteq>
        set (visited_vertices s) \<union> {p \<in> fst ` set es. live st p}"
      using v by (auto simp: live_def)
    then show ?thesis using Cons.IH [OF Cons.prems(1-5)] Cons.prems(6) True v by auto
  next
    case False
    let ?p = "fst e" and ?V = "set (visited_vertices s)"
    have p: "live st ?p" "has_level st ?p l" "?p \<notin> ?V" "?p \<in> R"
      using False v Cons.prems(6) by (auto simp: live_def)
    have "distinct (map val (queue (result_vertices s)))"
      using Cons.prems(1) by (simp add: search_inv_def)
    then have "pq_len (result_vertices s) = card ?V"
      using Cons.prems(2) unfolding exhaustive_def pq_len_def
      by (metis distinct_card length_map set_map)
    moreover have "card (insert ?p ?V) \<le> card R"
      using Cons.prems(2,4) p(4) by (intro card_mono) (auto simp: exhaustive_def)
    moreover have "card (insert ?p ?V) = Suc (card ?V)" using p(3) by simp
    ultimately have room: "int (pq_len (result_vertices s)) + 1 \<le> ef" using Cons.prems(5) by linarith
    obtain c r r' where step: "push (new_item (D q (vec_of st ?p)) ?p) (candidate_vertices s) = Some c"
      "push (new_item (D q (vec_of st ?p)) ?p) (result_vertices s) = Some r"
      "(if ef < int (pq_len r) then map_option snd (pop r) else Some r) = Some r'"
      "search_inv D st q ef l ep (s\<lparr>visited_vertices := ?p # visited_vertices s,
         candidate_vertices := c, result_vertices := r'\<rparr>)"
      using search_inv_add [OF Cons.prems(1,3) p(1-3) refl] by blast
    have r': "r' = r" using step(3) room push_length [OF step(2)] by (auto simp: pq_len_def)
    let ?s = "s\<lparr>visited_vertices := ?p # visited_vertices s, candidate_vertices := c, result_vertices := r\<rparr>"
    have cv: "val ` set (queue c) = insert ?p (val ` set (queue (candidate_vertices s)))"
      "val ` set (queue r) = insert ?p (val ` set (queue (result_vertices s)))"
      by (simp_all add: push_set [OF step(1)] push_set [OF step(2)] new_item_def)
    have ex: "exhaustive R ?s" using Cons.prems(2) p(4) cv by (auto simp: exhaustive_def)
    obtain s' where s': "search_edges D st q ef lb es ?s = Some s'" "search_inv D st q ef l ep s'"
      "exhaustive R s'"
      "set (visited_vertices s') = insert ?p ?V \<union> {p \<in> fst ` set es. live st p}"
      "val ` set (queue (candidate_vertices s')) =
         insert ?p (val ` set (queue (candidate_vertices s))) \<union> (set (visited_vertices s') - insert ?p ?V)"
      using Cons.IH [OF step(4) [unfolded r'] ex Cons.prems(3-5)] Cons.prems(6) cv by auto
    have "search_edges D st q ef lb (e # es) s = Some s'"
      using v False step r' s'(1) room by (simp add: Let_def)
    moreover have "?p \<in> set (visited_vertices s')" using s'(4) by auto
    ultimately show ?thesis using s'(2-5) p(1,3) by auto
  qed
qed simp

lemma search_loop_exhaustive:
  "search_inv D st q ef l ep s \<Longrightarrow> exhaustive R s \<Longrightarrow> accepted_distance D \<Longrightarrow> regular D st q \<Longrightarrow>
   graph_ok st \<Longrightarrow> fair env \<Longrightarrow> R = reachable_at st l ep \<Longrightarrow> int (card R) \<le> ef \<Longrightarrow>
   ep \<in> set (visited_vertices s) \<Longrightarrow>
   (\<forall>p \<in> set (visited_vertices s) - val ` set (queue (candidate_vertices s)).
      \<forall>p' \<in> neighbours st p l. live st p' \<longrightarrow> p' \<in> set (visited_vertices s)) \<Longrightarrow>
   \<exists>r. search_loop D st env q ef l s = Some r \<and> result_ok D st q ef l ep r \<and>
     val ` set (queue r) = R"
proof (induction D st env q ef l s rule: search_loop.induct)
  case (1 D st env q ef l s)
  let ?V = "set (visited_vertices s)"
  have fin: "result_ok D st q ef l ep (result_vertices s)"
    using "1.prems"(1) by (auto simp: search_inv_def result_ok_def)
  show ?case
  proof (cases "pq_len (candidate_vertices s) = 0")
    case True
    then have "\<forall>p \<in> ?V. \<forall>p' \<in> neighbours st p l. live st p' \<longrightarrow> p' \<in> ?V"
      using "1.prems"(10) by (simp add: pq_len_def)
    then have "R \<subseteq> ?V" using reachable_closed "1.prems"(7,9) by blast
    then have "val ` set (queue (result_vertices s)) = R" using "1.prems"(2) by (auto simp: exhaustive_def)
    then show ?thesis using True fin by (simp add: search_loop.simps [of D st env])
  next
    case ne: False
    then obtain c cands where pop: "pop (candidate_vertices s) = Some (c, cands)"
      using pop_total by (fastforce simp: pq_len_def)
    obtain worst where peek: "peek (result_vertices s) = Some worst"
      using "1.prems"(1) by (simp add: search_inv_def peek_def pq_len_def)
    note popped = search_inv_popped [OF "1.prems"(1) pop]
    note cset = pop_set [OF pop]
    have cV: "val c \<in> ?V" using "1.prems"(2) cset by (auto simp: exhaustive_def)
    then have "val c \<in> val ` set (queue (result_vertices s))"
      using "1.prems"(2) by (simp add: exhaustive_def)
    then obtain x where x: "x \<in> set (queue (result_vertices s))" "val x = val c" by (metis imageE)
    have "found D st q l ep x" using "1.prems"(1) x(1) by (auto simp: search_inv_def)
    then have "priority x = priority c" using x(2) popped(2) by (simp add: found_def)
    moreover have "\<not> f32_lt (priority worst) (priority x)"
    proof -
      obtain r where w: "pop (result_vertices s) = Some (worst, r)"
        using peek by (auto simp: peek_eq_pop)
      have "pq_inv (result_vertices s)" "kind (result_vertices s) = MaxPQ"
        using "1.prems"(1,4) by (auto simp: search_inv_def)
      then show ?thesis using pop_first [OF w _ x(1)] by (simp add: max_less_def)
    qed
    ultimately have go: "\<not> f32_lt (priority worst) (priority c)" by simp
    obtain es where es: "edges_of st (val c) l = Some es"
      using popped(2) by (auto simp: found_def elim: has_levelE)
    have set: "set (visit env es) = set es" using "1.prems"(6) by simp
    have cR: "val c \<in> R" using cV "1.prems"(2) by (auto simp: exhaustive_def)
    have lev: "\<forall>e \<in> set (visit env es). has_level st (fst e) l \<and> (live st (fst e) \<longrightarrow> fst e \<in> R)"
    proof
      fix e assume "e \<in> set (visit env es)"
      then have "fst e \<in> neighbours st (val c) l" by (auto simp: neighbours_def es set)
      moreover have "has_level st (fst e) l"
        using graph_ok_edges [OF "1.prems"(5) es] \<open>e \<in> _\<close> set by (auto intro: edges_ok_level)
      ultimately show "has_level st (fst e) l \<and> (live st (fst e) \<longrightarrow> fst e \<in> R)"
        using cR "1.prems"(7) by (auto intro: reachable_at.step)
    qed
    let ?s = "s\<lparr>candidate_vertices := cands\<rparr>"
    have ex: "exhaustive R ?s" using "1.prems"(2) cset by (auto simp: exhaustive_def)
    have finR: "finite R" using "1.prems"(7) by simp
    obtain s' where s': "search_edges D st q ef (priority worst) (visit env es) ?s = Some s'"
      "search_inv D st q ef l ep s'" "exhaustive R s'"
      "set (visited_vertices s') = ?V \<union> {p \<in> fst ` set es. live st p}"
      "val ` set (queue (candidate_vertices s')) =
         val ` set (queue cands) \<union> (set (visited_vertices s') - ?V)"
      using search_edges_exhaustive [OF popped(1) ex "1.prems"(3) finR "1.prems"(8) lev,
          of "priority worst"] set by auto
    have "\<forall>p \<in> set (visited_vertices s') - val ` set (queue (candidate_vertices s')).
        \<forall>p' \<in> neighbours st p l. live st p' \<longrightarrow> p' \<in> set (visited_vertices s')"
    proof (intro ballI impI)
      fix p p' assume p: "p \<in> set (visited_vertices s') - val ` set (queue (candidate_vertices s'))"
        and p': "p' \<in> neighbours st p l" "live st p'"
      show "p' \<in> set (visited_vertices s')"
      proof (cases "p = val c")
        case True
        then show ?thesis using p' s'(4) by (auto simp: neighbours_def es)
      next
        case False
        then have "p \<in> ?V - val ` set (queue (candidate_vertices s))"
          using p s'(4,5) cset by auto
        then show ?thesis using "1.prems"(10) p' s'(4) by blast
      qed
    qed
    then obtain r where "search_loop D st (sub env 0) q ef l s' = Some r" "result_ok D st q ef l ep r"
      "val ` set (queue r) = R"
      using "1.IH" [OF ne pop refl peek go es s'(1,2,3) "1.prems"(3,4,5) _ "1.prems"(7,8)]
        "1.prems"(6,9) s'(4) by auto
    then show ?thesis
      using ne pop peek go es s'(1) by (simp add: search_loop.simps [of D st env])
  qed
qed

lemma search_level_exhaustive:
  assumes "graph_ok st" "fair env" "accepted_distance D" "regular D st q" "has_level st ep l"
    "int (card (reachable_at st l ep)) \<le> ef"
  shows "\<exists>r. search_level D st env q ep ef l = Some r \<and> result_ok D st q ef l ep r \<and>
    val ` set (queue r) = reachable_at st l ep"
proof -
  obtain v where v: "deref st ep = Some v" using assms(5) by (auto elim: has_levelE)
  let ?x = "new_item (D q (vvector v)) ep"
  have x: "\<not> f32_negative (priority ?x)" "pq_ok ?x" "found D st q l ep ?x"
    using assms v by (simp_all add: new_item_def accepted_distance_def regular_def pq_ok_def found_def)
  obtain c where c: "new_min_pq [?x] = Some c" "kind c = MinPQ" "queue c = [?x]" "pq_inv c"
    using initial_queue [OF x(1), of MinPQ] x(2) by (auto simp: new_min_pq_def)
  obtain r where r: "new_max_pq [?x] = Some r" "kind r = MaxPQ" "queue r = [?x]" "pq_inv r"
    using initial_queue [OF x(1), of MaxPQ] x(2) by (auto simp: new_max_pq_def)
  let ?s = "\<lparr>candidate_vertices = c, result_vertices = r, visited_vertices = [ep]\<rparr>"
  have inv: "search_inv D st q ef l ep ?s" "exhaustive (reachable_at st l ep) ?s"
    using c(2-4) r(2-4) x
    by (simp_all add: search_inv_def pq_len_def new_item_def exhaustive_def reachable_at.start)
  obtain q' where "search_loop D st env q ef l ?s = Some q'" "result_ok D st q ef l ep q'"
    "val ` set (queue q') = reachable_at st l ep"
    using search_loop_exhaustive [OF inv assms(3,4,1,2) refl assms(6)] c(3)
    by (auto simp: new_item_def)
  then show ?thesis using v c(1) r(1) by (simp add: search_level_def Let_def)
qed

end
