(* ===== verification/HnswResults.thy ===== *)
theory HnswResults
  imports HnswMap HnswExact
begin

text \<open>
  What \<open>Search\<close> returns: at most \<open>k\<close> stored items with their own metadata and their true
  distances, closest first and without repetition; and, when \<open>ef\<close> leaves room for every item
  and the bottom level is connected, exactly the \<open>k\<close> nearest items.
\<close>

definition result_of :: "store \<Rightarrow> ptr item \<Rightarrow> search_result_item" where
  "result_of st i = (let v = the (deref st (val i))
     in \<lparr>sr_id = vid v, sr_metadata = vmetadata v, sr_score = priority i\<rparr>)"

definition entrypoint_live :: "hnsw \<Rightarrow> bool" where
  "entrypoint_live h = (h_entrypoint h = nil \<or> live (h_store h) (h_entrypoint h))"

lemma collect_eq: "\<forall>i \<in> set items. deref st (val i) \<noteq> None \<Longrightarrow>
    collect st items = Some (rev (map (result_of st) items))"
  by (induction items) (auto simp: result_of_def Let_def)

lemma min_int_sint: "min_int [sint (k :: 64 word), b] = min (sint k) b"
proof -
  have "sint k \<le> max_int_val" using sint_lt [of k] by (simp add: max_int_val_def)
  then show ?thesis by (auto simp: min_int_def)
qed

lemma max_int_ge: "a \<le> max_int [a, b]" "b \<le> max_int [a, b]"
  by (auto simp: max_int_def)

text \<open>One run of \<open>Search\<close> on a well-formed index that has an entrypoint.\<close>

lemma search_run:
  assumes ok: "hnsw_ok h" and env: "fair env" and D: "accepted_distance D" "regular D (h_store h) q"
    and ep: "h_entrypoint h \<noteq> nil" and k: "0 \<le> sint k"
  obtains e r0 r items rest where
    "has_level (h_store h) e 0" "e = h_entrypoint h \<or> live (h_store h) e"
    "search_level D (h_store h) (sub env 1) q e (max_int [cfg_ef (h_config h), sint k]) 0 = Some r0"
    "result_ok D (h_store h) q (max_int [cfg_ef (h_config h), sint k]) 0 e r0"
    "select D (h_store h) (sub env 2) (h_config h) q r0 (sint k) 0 = Some r"
    "kind r = MaxPQ" "pq_inv r" "distinct (map val (queue r))"
    "\<forall>x \<in> set (queue r). found D (h_store h) q 0 e x"
    "pop_n pop (min (nat (sint k)) (pq_len r)) r = Some (items, rest)"
    "hnsw_search D env q k h = Some (rev (map (result_of (h_store h)) items))"
proof -
  let ?st = "h_store h" and ?ef = "max_int [cfg_ef (h_config h), sint k]"
  have graph: "graph_ok ?st" and ep0: "has_level ?st (h_entrypoint h) 0"
    using ok ep by (auto simp: hnsw_ok_def entrypoint_ok_def)
  obtain v where v: "deref ?st (h_entrypoint h) = Some v" "0 \<le> vlevel v"
    using ep0 has_level_iff [OF graph] by auto
  have lev: "has_level ?st (h_entrypoint h) (vlevel v)" using v has_level_iff [OF graph] by auto
  have md: "D q (vvector v) = D q (vec_of ?st (h_entrypoint h))" using v(1) by simp
  have zero: "- 1 \<le> (0 :: int)" by simp
  obtain e m where d: "descend D ?st (sub env 0) q 0 (vlevel v) (h_entrypoint h) (D q (vvector v)) = Some (e, m)"
    "has_level ?st e 0" "e = h_entrypoint h \<or> live ?st e"
    using descend_spec [where D = D and q = q, OF graph fair_sub [OF env] lev md zero] by blast
  obtain r0 where r0: "search_level D ?st (sub env 1) q e ?ef 0 = Some r0" "result_ok D ?st q ?ef 0 e r0"
    using search_level_spec [OF graph fair_sub [OF env] D(1) d(2)] by blast
  let ?P = "found D ?st q 0 e"
  have P: "\<And>i. ?P i \<Longrightarrow> has_level ?st (val i) 0 \<and> \<not> f32_negative (priority i)"
    using D(1) by (simp add: found_def accepted_distance_def)
  have fresh: "\<And>i. fresh D ?st q 0 i \<Longrightarrow> ?P i" by (simp add: fresh_def found_def)
  have q0: "kind r0 = MaxPQ" "distinct (map val (queue r0))" "\<forall>x \<in> set (queue r0). ?P x" "pq_inv r0"
    using r0(2) D(2) by (auto simp: result_ok_def)
  have okP: "\<forall>i. ?P i \<longrightarrow> pq_ok i" using regularD [OF D(2)] by (auto simp: found_def pq_ok_def)
  obtain r where r: "select D ?st (sub env 2) (h_config h) q r0 (sint k) 0 = Some r" "kind r = MaxPQ"
    "\<forall>x \<in> set (queue r). ?P x" "distinct (map val (queue r))" "pq_inv r"
    using select_spec [where P = ?P and cfg = "h_config h", OF q0(1) k D(1) graph fair_sub [OF env] P fresh q0(3,2)]
      okP q0(4) by blast
  let ?n = "min (nat (sint k)) (pq_len r)"
  obtain items rest where items: "pop_n pop ?n r = Some (items, rest)"
    using pq_pop.pop_n_total [of ?n r] by (auto simp: pq_len_def)
  have n: "nat (min_int [sint k, int (pq_len r)]) = ?n" "\<not> min_int [sint k, int (pq_len r)] < 0"
    using k by (auto simp: min_int_sint)
  have "set items \<subseteq> set (queue r)" using pq_pop.pop_n_set [OF items] by blast
  then have "\<forall>i \<in> set items. deref ?st (val i) \<noteq> None"
    using r(3) by (auto simp: found_def elim!: has_levelE)
  then have "hnsw_search D env q k h = Some (rev (map (result_of ?st) items))"
    using ep v(1) d(1) r0(1) r(1) items n by (simp add: hnsw_search_def Let_def collect_eq)
  then show thesis using that d(2,3) r0 r items by blast
qed

lemma found_result:
  assumes "map_ok h" "entrypoint_live h" "h_entrypoint h \<noteq> nil" "e = h_entrypoint h \<or> live (h_store h) e"
    "found D (h_store h) q 0 e x"
  shows "live (h_store h) (val x)" "sr_score (result_of (h_store h) x) = D q (vec_of (h_store h) (val x))"
    "find_vertex h (sr_id (result_of (h_store h) x)) = Some (val x)"
    "lookup h (sr_id (result_of (h_store h) x)) =
       Some (vec_of (h_store h) (val x), sr_metadata (result_of (h_store h) x))"
proof -
  show l: "live (h_store h) (val x)"
    using assms(2-5) by (auto simp: found_def entrypoint_live_def)
  then obtain v where v: "deref (h_store h) (val x) = Some v" "\<not> is_deleted v" by (auto simp: live_def)
  then have f: "find_vertex h (vid v) = Some (val x)" using map_ok_live assms(1) by blast
  show "sr_score (result_of (h_store h) x) = D q (vec_of (h_store h) (val x))"
    "find_vertex h (sr_id (result_of (h_store h) x)) = Some (val x)"
    "lookup h (sr_id (result_of (h_store h) x)) =
       Some (vec_of (h_store h) (val x), sr_metadata (result_of (h_store h) x))"
    using assms(5) v f by (simp_all add: result_of_def Let_def found_def lookup_def)
qed

definition ascending :: "search_result \<Rightarrow> bool" where
  "ascending rs = sorted_wrt (\<lambda>a b. \<not> search_result_less b a) rs"

lemma ascending_results:
  assumes "pop_n pop n r = Some (items, rest)" "pq_inv r" "kind r = MaxPQ"
  shows "ascending (rev (map (result_of st) items))"
proof -
  have "sorted_wrt (\<lambda>x y. \<not> max_less y x) items"
    using max_pop.pop_n_first [OF assms(1)] assms(2,3) by blast
  then have "sorted_wrt (\<lambda>x y. \<not> search_result_less (result_of st x) (result_of st y)) items"
    by (rule sorted_wrt_mono_rel [rotated])
      (simp add: max_less_def search_result_less_def result_of_def Let_def)
  then show ?thesis by (simp add: ascending_def sorted_wrt_rev sorted_wrt_map)
qed

lemma search_sound:
  assumes ok: "hnsw_ok h" and env: "fair env" and D: "accepted_distance D" "regular D (h_store h) q"
    and ep: "entrypoint_live h" and k: "0 \<le> sint k"
  shows "\<exists>rs. hnsw_search D env q k h = Some rs \<and> length rs \<le> nat (sint k) \<and> ascending rs \<and>
    distinct (map sr_id rs) \<and>
    (\<forall>r \<in> set rs. \<exists>x. lookup h (sr_id r) = Some (x, sr_metadata r) \<and> sr_score r = D q x)"
proof (cases "h_entrypoint h = nil")
  case True
  then show ?thesis by (simp add: hnsw_search_def ascending_def)
next
  case False
  let ?st = "h_store h"
  have map: "map_ok h" using ok by (simp add: hnsw_ok_def)
  obtain e r0 r items rest where run: "e = h_entrypoint h \<or> live ?st e" "kind r = MaxPQ" "pq_inv r"
    "distinct (map val (queue r))" "\<forall>x \<in> set (queue r). found D ?st q 0 e x"
    "pop_n pop (min (nat (sint k)) (pq_len r)) r = Some (items, rest)"
    "hnsw_search D env q k h = Some (rev (map (result_of ?st) items))"
    using search_run [OF ok env D False k] by metis
  have items: "\<forall>x \<in> set items. found D ?st q 0 e x"
    using run(5) pq_pop.pop_n_set [OF run(6)] by blast
  note res = found_result [where D = D and q = q, OF map ep False run(1)]
  have "length (rev (map (result_of ?st) items)) \<le> nat (sint k)"
    using pq_pop.pop_n_length [OF run(6)] by simp
  moreover have "distinct (map sr_id (rev (map (result_of ?st) items)))"
  proof -
    have "mset items \<subseteq># mset (queue r)" using pq_pop.pop_n_mset [OF run(6)] by simp
    then have d: "distinct (map val items)" using mset_sub_distinct run(4) by blast
    have "map (the \<circ> find_vertex h) (map (sr_id \<circ> result_of ?st) items) = map val items"
      using items res(3) by auto
    then have "distinct (map (sr_id \<circ> result_of ?st) items)" using d distinct_map by metis
    then show ?thesis by (simp add: rev_map [symmetric])
  qed
  moreover have "\<forall>r \<in> set (rev (map (result_of ?st) items)).
      \<exists>x. lookup h (sr_id r) = Some (x, sr_metadata r) \<and> sr_score r = D q x"
    using items res(2,4) by auto
  ultimately show ?thesis using run(7) ascending_results [OF run(6,3,2)] by blast
qed

section \<open>Exact search\<close>

definition plain_algorithm :: "hnsw_config \<Rightarrow> bool" where
  "plain_algorithm cfg = (cfg_search_algorithm cfg = hnsw_search_simple \<or>
     cfg_search_algorithm cfg = hnsw_search_heuristic \<and> \<not> cfg_extend_candidates cfg)"

lemma select_closest:
  assumes "plain_algorithm cfg" "0 \<le> k" "kind q0 = MaxPQ" "pq_inv q0"
    "\<forall>x \<in> set (queue q0). \<not> f32_negative (priority x)"
    "select D st env cfg q q0 k l = Some r"
  shows "closest (nat k) (queue q0) (queue r)"
proof -
  have ok: "\<forall>x \<in> set (queue q0). pq_ok x" using assms(4) by (simp add: pq_inv_def)
  show ?thesis
    using assms select_neighbors_spec [OF assms(2), of q0] ok
      heuristic_plain [OF assms(5,3,2), of D st env q l "cfg_keep_pruned cfg"]
    by (auto simp: plain_algorithm_def select_def hnsw_search_simple_def hnsw_search_heuristic_def
        split: if_splits)
qed

definition connected :: "hnsw \<Rightarrow> bool" where
  "connected h = (\<forall>p q. live (h_store h) p \<longrightarrow> live (h_store h) q \<longrightarrow>
     q \<in> reachable_at (h_store h) 0 p)"

lemma lookup_SomeE:
  assumes "map_ok h" "lookup h i = Some (x, m)"
  obtains p v where "find_vertex h i = Some p" "deref (h_store h) p = Some v" "vid v = i"
    "\<not> is_deleted v" "vvector v = x" "vmetadata v = m"
proof -
  obtain p w where p: "find_vertex h i = Some p" "deref (h_store h) p = Some w"
    "x = vvector w" "m = vmetadata w"
    using assms(2) by (auto simp: lookup_def bind_eq_Some_conv)
  obtain v where "deref (h_store h) p = Some v" "vid v = i" "\<not> is_deleted v"
    using find_vertex_ok [OF assms(1) p(1)] .
  with p that show thesis by simp
qed

lemma find_vertex_inj: "map_ok h \<Longrightarrow> find_vertex h i = Some p \<Longrightarrow> find_vertex h j = Some p \<Longrightarrow> i = j"
  by (metis find_vertex_ok option.inject)

lemma live_entries:
  assumes "map_ok h"
  shows "{p. live (h_store h) p} = (\<lambda>i. the (find_vertex h i)) ` dom (lookup h)"
    "inj_on (\<lambda>i. the (find_vertex h i)) (dom (lookup h))"
proof -
  have dom: "dom (lookup h) = dom (find_vertex h)"
    using lookup_eq_None [OF assms] by (auto simp: dom_def)
  show "{p. live (h_store h) p} = (\<lambda>i. the (find_vertex h i)) ` dom (lookup h)"
  proof
    show "{p. live (h_store h) p} \<subseteq> (\<lambda>i. the (find_vertex h i)) ` dom (lookup h)"
      using map_ok_live [OF assms] unfolding dom by (force simp: live_def)
    show "(\<lambda>i. the (find_vertex h i)) ` dom (lookup h) \<subseteq> {p. live (h_store h) p}"
      using find_vertex_ok [OF assms] unfolding dom by (fastforce simp: live_def)
  qed
  show "inj_on (\<lambda>i. the (find_vertex h i)) (dom (lookup h))"
    unfolding dom inj_on_def using find_vertex_inj [OF assms] by auto
qed

lemma search_exact:
  assumes ok: "hnsw_ok h" and env: "fair env" and D: "accepted_distance D" "regular D (h_store h) q"
    and ep: "entrypoint_live h" "h_entrypoint h \<noteq> nil" and k: "0 \<le> sint k"
    and alg: "plain_algorithm (h_config h)" and conn: "connected h"
    and room: "int (card (dom (lookup h))) \<le> cfg_ef (h_config h)"
  shows "\<exists>rs. hnsw_search D env q k h = Some rs \<and>
    length rs = min (nat (sint k)) (card (dom (lookup h))) \<and>
    (\<forall>r \<in> set rs. \<forall>i x m. lookup h i = Some (x, m) \<longrightarrow> i \<notin> sr_id ` set rs \<longrightarrow>
       \<not> f32_lt (D q x) (sr_score r))"
proof -
  let ?st = "h_store h" and ?ef = "max_int [cfg_ef (h_config h), sint k]"
  have map: "map_ok h" and graph: "graph_ok ?st" using ok by (auto simp: hnsw_ok_def)
  obtain e r0 r items rest where run: "has_level ?st e 0" "e = h_entrypoint h \<or> live ?st e"
    "search_level D ?st (sub env 1) q e ?ef 0 = Some r0" "result_ok D ?st q ?ef 0 e r0"
    "select D ?st (sub env 2) (h_config h) q r0 (sint k) 0 = Some r"
    "kind r = MaxPQ" "pq_inv r" "distinct (map val (queue r))"
    "\<forall>x \<in> set (queue r). found D ?st q 0 e x"
    "pop_n pop (min (nat (sint k)) (pq_len r)) r = Some (items, rest)"
    "hnsw_search D env q k h = Some (rev (map (result_of ?st) items))"
    using search_run [OF ok env D ep(2) k] by metis
  have e: "live ?st e" using run(2) ep by (auto simp: entrypoint_live_def)
  define L where "L = {p. live ?st p}"
  have R: "reachable_at ?st 0 e = L"
    using reachable_valid [of _ ?st 0 e] e conn by (auto simp: connected_def L_def)
  have cardL: "card L = card (dom (lookup h))"
    unfolding L_def live_entries(1) [OF map] by (rule card_image [OF live_entries(2) [OF map]])
  have "int (card (reachable_at ?st 0 e)) \<le> ?ef"
    using room max_int_ge(1) [of "cfg_ef (h_config h)" "sint k"] by (simp add: R cardL)
  from search_level_exhaustive [OF graph fair_sub [OF env, of 1] D run(1) this]
  have vals: "val ` set (queue r0) = L" using run(3) R by simp
  have r0: "distinct (map val (queue r0))" "kind r0 = MaxPQ" "pq_inv r0"
    "\<forall>x \<in> set (queue r0). found D ?st q 0 e x"
    using run(4) D(2) by (auto simp: result_ok_def)
  have len0: "length (queue r0) = card L"
    using r0(1) vals by (metis distinct_card length_map set_map)
  have nonneg: "\<forall>x \<in> set (queue r0). \<not> f32_negative (priority x)"
    using r0(4) D(1) by (simp add: found_def accepted_distance_def)
  have cl: "closest (nat (sint k)) (queue r0) (queue r)"
    by (rule select_closest [OF alg k r0(2,3) nonneg run(5)])
  then have len: "length (queue r) = min (nat (sint k)) (card L)" by (simp add: closest_def len0)
  then have "min (nat (sint k)) (pq_len r) = length (queue r)" by (simp add: pq_len_def)
  then have li: "length items = length (queue r)" using pq_pop.pop_n_length [OF run(10)] by simp
  have "mset (queue r) = mset items + mset (queue rest)" using pq_pop.pop_n_mset [OF run(10)] .
  then have "mset (queue r) = mset items"
    using li by (metis add_cancel_left_right size_eq_0_iff_empty size_mset size_union)
  then have si: "set items = set (queue r)" by (metis mset_eq_setD)
  note res = found_result [OF map ep run(2)]
  have far: "\<not> f32_lt (D q x) (sr_score (result_of ?st i))"
    if i: "i \<in> set items" and u: "lookup h u = Some (x, m)" "u \<notin> (\<lambda>i. sr_id (result_of ?st i)) ` set items"
    for i u x m
  proof -
    obtain p v where p: "find_vertex h u = Some p" "deref ?st p = Some v" "vid v = u" "\<not> is_deleted v"
      "x = vvector v"
      using lookup_SomeE [OF map u(1)] by metis
    have "p \<in> L" using p by (auto simp: L_def live_def)
    then obtain y where y: "y \<in> set (queue r0)" "val y = p" using vals by (metis imageE)
    obtain dropped where dr: "mset (queue r0) = mset (queue r) + mset dropped"
      "\<forall>a \<in> set (queue r). \<forall>b \<in> set dropped. \<not> f32_lt (priority b) (priority a)"
      using cl by (auto simp: closest_def)
    have "y \<notin> set (queue r)"
    proof
      assume "y \<in> set (queue r)"
      then have "u = sr_id (result_of ?st y)" using y(2) p by (simp add: result_of_def Let_def)
      then show False using u(2) \<open>y \<in> set (queue r)\<close> si by blast
    qed
    then have "y \<in> set dropped" using y(1) mset_union_set [OF dr(1)] by blast
    then have "\<not> f32_lt (priority y) (priority i)" using dr(2) i si by blast
    moreover have "priority y = D q x" using r0(4) y p(2,5) by (auto simp: found_def)
    ultimately show ?thesis by (simp add: result_of_def Let_def)
  qed
  have "length (rev (map (result_of ?st) items)) = min (nat (sint k)) (card (dom (lookup h)))"
    using li len cardL by simp
  moreover have "\<forall>r \<in> set (rev (map (result_of ?st) items)). \<forall>u x m. lookup h u = Some (x, m) \<longrightarrow>
      u \<notin> sr_id ` set (rev (map (result_of ?st) items)) \<longrightarrow> \<not> f32_lt (D q x) (sr_score r)"
  proof (intro ballI allI impI)
    fix r u x m
    assume "r \<in> set (rev (map (result_of ?st) items))"
      and u: "lookup h u = Some (x, m)" "u \<notin> sr_id ` set (rev (map (result_of ?st) items))"
    then obtain i where i: "i \<in> set items" "r = result_of ?st i" by auto
    have "u \<notin> (\<lambda>i. sr_id (result_of ?st i)) ` set items" using u(2) by (auto simp: image_image)
    then show "\<not> f32_lt (D q x) (sr_score r)" using far [OF i(1) u(1)] i(2) by simp
  qed
  ultimately show ?thesis using run(11) by blast
qed

end
