(* ===== verification/HnswRoundTrip.thy ===== *)
theory HnswRoundTrip
  imports HnswPersistence HnswResults
begin

text \<open>
  The round trip of \<open>Save\<close> and \<open>Load\<close>: what \<open>Load\<close> builds from the bytes of \<open>Save\<close> has the
  same ids, vectors, levels and metadata (up to the order in which a map was visited), the same
  edges between live vertices, the same entrypoint and the same counters.
\<close>

section \<open>Vertices\<close>

definition copy_of :: "vertex \<Rightarrow> vertex \<Rightarrow> bool" where
  "copy_of v w = (vid w = vid v \<and> vvector w = vvector v \<and> vlevel w = vlevel v \<and> vdeleted w = 0 \<and>
     metadata_lookup (vmetadata w) = metadata_lookup (vmetadata v) \<and>
     distinct (map fst (metadata_entries (vmetadata w))) \<and>
     vertex_bytes_size w = vertex_bytes_size v \<and> vedges w = replicate (nat (vlevel v + 1)) [])"

definition saveable :: "nat \<Rightarrow> vertex \<Rightarrow> bool" where
  "saveable n v = (uuid_wf (vid v) \<and> int32_fits (vlevel v) \<and> -1 \<le> vlevel v \<and>
     length (vvector v) = n \<and> metadata_fits (vmetadata v))"

lemma read_uuid_append: "uuid_wf u \<Longrightarrow> length buf = 16 \<Longrightarrow>
    read_uuid buf (h, u @ rest) = Some (Inr u, (h, rest))"
  by (simp add: read_uuid_def buf_read_append uuid_wf_def uuid_from_bytes_def)

text \<open>\<open>grown h h'\<close>: vertices were added to the store, and nothing was taken away.\<close>

definition grown :: "hnsw \<Rightarrow> hnsw \<Rightarrow> bool" where
  "grown h h' = ((\<forall>p w. deref (h_store h) p = Some w \<longrightarrow> deref (h_store h') p = Some w) \<and>
     h_size h' = h_size h \<and> h_space h' = h_space h \<and> h_config h' = h_config h \<and>
     length (h_vertices h') = length (h_vertices h))"

lemma grown_trans: "grown h h' \<Longrightarrow> grown h' h'' \<Longrightarrow> grown h h''"
  by (simp add: grown_def)

definition copied_entry :: "hnsw \<Rightarrow> vertex \<Rightarrow> uuid \<times> ptr \<Rightarrow> bool" where
  "copied_entry h v e = (fst e = vid v \<and> (\<exists>w. deref (h_store h) (snd e) = Some w \<and> copy_of v w))"

lemma copied_entry_grown: "copied_entry h v e \<Longrightarrow> grown h h' \<Longrightarrow> copied_entry h' v e"
  by (auto simp: copied_entry_def grown_def)

lemma load_one_vertex:
  assumes v: "saveable (unat (h_size h)) v" and env: "fair env" and buf: "length buf = 16"
    and new: "map_of (h_vertices h ! s) (vid v) = None" and s: "s < length (h_vertices h)"
  shows "\<exists>h' p. load_vertices s (Suc n) buf (h, save_vertex env v @ rest) =
      load_vertices s n (vid v) (h', rest) \<and> grown h h' \<and>
    h_vertices h' = (h_vertices h)[s := h_vertices h ! s @ [(vid v, p)]] \<and>
    copied_entry h' v (vid v, p) \<and> h_len h' = h_len h \<and> length (h_store h') = Suc (length (h_store h)) \<and>
    h_bytes_size h' = h_bytes_size h + vertex_bytes_size v"
proof -
  have fits: "uuid_wf (vid v)" "int32_fits (vlevel v)" "-1 \<le> vlevel v"
    "length (vvector v) = unat (h_size h)" "metadata_fits (vmetadata v)"
    using v by (simp_all add: saveable_def)
  let ?m = "Some (visit env (metadata_entries (vmetadata v)))"
  obtain w where w: "new_vertex (vid v) (vvector v) ?m (vlevel v) = Some w"
    using new_vertex_total fits(3) by blast
  note wf = new_vertex_fields [OF w]
  have size: "vertex_bytes_size w = vertex_bytes_size v"
    by (simp add: vertex_bytes_size_def wf metadata_size_visit [OF env])
  let ?p = "Suc (length (h_store h))"
  let ?h' = "h\<lparr>h_bytes_size := h_bytes_size h + vertex_bytes_size v, h_store := h_store h @ [w],
     h_vertices := (h_vertices h)[s := AList.update (vid v) ?p (h_vertices h ! s)]\<rparr>"
  have add: "add_loaded s (vid v) (vvector v) ?m (vlevel v) (h, rest) = Some (Inr (), (?h', rest))"
    using w size by (simp add: add_loaded_def alloc_def)
  have "load_vertices s (Suc n) buf (h, save_vertex env v @ rest) = load_vertices s n (vid v) (?h', rest)"
    using read_uuid_append [OF fits(1) buf] vector_load_save [of "vvector v" h]
      metadata_load_save [OF fits(5) env, of h rest] add fits(4)
    by (simp add: save_vertex_def wire_simps sint_of_int_fits [OF fits(2)])
  moreover have "AList.update (vid v) ?p (h_vertices h ! s) = h_vertices h ! s @ [(vid v, ?p)]"
    by (rule length_AList_update_fresh [OF new])
  moreover have "grown h ?h'"
    by (auto simp: grown_def deref_alloc dest: deref_SomeD)
  moreover have "copied_entry ?h' v (vid v, ?p)"
    using wf size metadata_lookup_visit [OF fits(5) env] fits(5) env
    by (simp add: copied_entry_def copy_of_def deref_alloc metadata_fits_def)
  ultimately show ?thesis by (intro exI [of _ ?h'] exI [of _ ?p]) simp
qed

lemma save_vertices_total: "map (deref st) ps = map Some vs \<Longrightarrow> \<exists>bs. save_vertices env st ps = Some bs"
proof (induction ps arbitrary: vs env)
  case (Cons p ps)
  then obtain v vs' where "deref st p = Some v" "map (deref st) ps = map Some vs'" by (cases vs) auto
  then show ?case using Cons.IH [of vs' "sub env 1"] by auto
qed simp

lemma load_vertices_save:
  "fair env \<Longrightarrow> length buf = 16 \<Longrightarrow> s < length (h_vertices h) \<Longrightarrow> map (deref st) ps = map Some vs \<Longrightarrow>
   \<forall>v \<in> set vs. saveable (unat (h_size h)) v \<Longrightarrow>
   distinct (map fst (h_vertices h ! s) @ map vid vs) \<Longrightarrow>
   \<exists>bs h' buf' es. save_vertices env st ps = Some bs \<and>
     load_vertices s (length ps) buf (h, bs @ rest) = Some (Inr buf', (h', rest)) \<and> length buf' = 16 \<and>
     grown h h' \<and> h_vertices h' = (h_vertices h)[s := h_vertices h ! s @ es] \<and>
     list_all2 (copied_entry h') vs es \<and> h_len h' = h_len h \<and>
     length (h_store h') = length (h_store h) + length ps \<and>
     h_bytes_size h' = h_bytes_size h + sum_list (map vertex_bytes_size vs)"
proof (induction ps arbitrary: vs env buf h)
  case Nil
  then show ?case by (auto simp: grown_def)
next
  case (Cons p ps)
  then obtain v vs' where vs: "vs = v # vs'" "deref st p = Some v" "map (deref st) ps = map Some vs'"
    by (cases vs) auto
  have new: "map_of (h_vertices h ! s) (vid v) = None"
    using Cons.prems(6) vs(1) by (simp add: map_of_eq_None_iff)
  have v: "saveable (unat (h_size h)) v" using Cons.prems(5) vs(1) by simp
  obtain bs where bs: "save_vertices (sub env 1) st ps = Some bs" using save_vertices_total vs(3) by blast
  obtain h1 p1 where h1: "load_vertices s (Suc (length ps)) buf (h, save_vertex (sub env 0) v @ bs @ rest) =
      load_vertices s (length ps) (vid v) (h1, bs @ rest)" "grown h h1"
    "h_vertices h1 = (h_vertices h)[s := h_vertices h ! s @ [(vid v, p1)]]"
    "copied_entry h1 v (vid v, p1)" "h_len h1 = h_len h" "length (h_store h1) = Suc (length (h_store h))"
    "h_bytes_size h1 = h_bytes_size h + vertex_bytes_size v"
    using load_one_vertex [OF v fair_sub [OF Cons.prems(1)] Cons.prems(2) new Cons.prems(3)] by blast
  have s1: "h_vertices h1 ! s = h_vertices h ! s @ [(vid v, p1)]" "s < length (h_vertices h1)"
    using h1(3) Cons.prems(3) by simp_all
  have len: "length (vid v) = 16" using v by (simp add: saveable_def uuid_wf_def)
  obtain h' buf' es where h': "load_vertices s (length ps) (vid v) (h1, bs @ rest) = Some (Inr buf', (h', rest))"
    "length buf' = 16" "grown h1 h'" "h_vertices h' = (h_vertices h1)[s := h_vertices h1 ! s @ es]"
    "list_all2 (copied_entry h') vs' es" "h_len h' = h_len h1"
    "length (h_store h') = length (h_store h1) + length ps"
    "h_bytes_size h' = h_bytes_size h1 + sum_list (map vertex_bytes_size vs')"
    using Cons.IH [OF fair_sub [OF Cons.prems(1), of 1] len s1(2) vs(3)] Cons.prems(5,6) vs(1) bs h1(2) s1(1)
    by (auto simp: grown_def)
  have "save_vertices env st (p # ps) = Some (save_vertex (sub env 0) v @ bs)"
    using vs(2) bs by simp
  moreover have "load_vertices s (length (p # ps)) buf (h, (save_vertex (sub env 0) v @ bs) @ rest) =
      Some (Inr buf', (h', rest))"
    using h1(1) h'(1) by (simp del: load_vertices.simps)
  moreover have "h_vertices h' = (h_vertices h)[s := h_vertices h ! s @ (vid v, p1) # es]"
    using h'(4) h1(3) s1(1) by simp
  moreover have "list_all2 (copied_entry h') vs ((vid v, p1) # es)"
    using copied_entry_grown [OF h1(4) h'(3)] h'(5) vs(1) by simp
  ultimately show ?case
    using h'(2,6-8) h1(5-7) grown_trans [OF h1(2) h'(3)] vs(1)
    by (intro exI [of _ "save_vertex (sub env 0) v @ bs"] exI [of _ h'] exI [of _ buf']
        exI [of _ "(vid v, p1) # es"]) (simp add: ac_simps del: load_vertices.simps save_vertices.simps)
qed

section \<open>Shards\<close>

definition source_shard :: "nat \<Rightarrow> store \<Rightarrow> shard \<Rightarrow> bool" where
  "source_shard n st x = (length x < 2 ^ 32 \<and> distinct (map fst x) \<and>
     (\<forall>(i, p) \<in> set x. \<exists>v. deref st p = Some v \<and> vid v = i \<and> saveable n v))"

definition copied_shard :: "store \<Rightarrow> shard \<Rightarrow> hnsw \<Rightarrow> nat \<Rightarrow> bool" where
  "copied_shard st x h s = (distinct (map fst (h_vertices h ! s)) \<and>
     length (h_vertices h ! s) = length x \<and>
     (\<forall>(i, p) \<in> set x. \<exists>v p'. deref st p = Some v \<and> (i, p') \<in> set (h_vertices h ! s) \<and>
        copied_entry h v (i, p')))"

lemma copied_shard_grown: "copied_shard st x h s \<Longrightarrow> grown h h' \<Longrightarrow>
    h_vertices h' ! s = h_vertices h ! s \<Longrightarrow> copied_shard st x h' s"
  using copied_entry_grown unfolding copied_shard_def by fastforce

lemma copied_entries:
  assumes "list_all2 (copied_entry h) vs es"
  shows "map fst es = map vid vs" "\<forall>v \<in> set vs. \<exists>p. (vid v, p) \<in> set es \<and> copied_entry h v (vid v, p)"
proof -
  show "map fst es = map vid vs"
    using assms by (induction rule: list_all2_induct) (auto simp: copied_entry_def)
  show "\<forall>v \<in> set vs. \<exists>p. (vid v, p) \<in> set es \<and> copied_entry h v (vid v, p)"
  proof
    fix v assume "v \<in> set vs"
    then obtain e where e: "e \<in> set es" "copied_entry h v e"
      using assms by (metis in_set_conv_nth list_all2_conv_all_nth)
    then have "e = (vid v, snd e)" by (simp add: copied_entry_def prod_eq_iff)
    with e show "\<exists>p. (vid v, p) \<in> set es \<and> copied_entry h v (vid v, p)" by metis
  qed
qed

lemma source_vertices:
  assumes "source_shard n st x" "mset y = mset x"
  obtains vs where "map (deref st) (map snd y) = map Some vs" "map vid vs = map fst y"
    "\<forall>v \<in> set vs. saveable n v" "distinct (map vid vs)"
    "sum_list (map vertex_bytes_size vs) = sum_list (map (\<lambda>e. vertex_size_at st (snd e)) x)"
proof -
  let ?f = "\<lambda>e. the (deref st (snd e))"
  have set: "set y = set x" using assms(2) by (rule mset_eq_setD)
  have e: "deref st (snd e) = Some (?f e) \<and> vid (?f e) = fst e \<and> saveable n (?f e)" if "e \<in> set y" for e
  proof -
    have "(fst e, snd e) \<in> set x" using that set by simp
    then obtain v where "deref st (snd e) = Some v" "vid v = fst e" "saveable n v"
      using assms(1) unfolding source_shard_def by blast
    then show ?thesis by simp
  qed
  have "map (deref st) (map snd y) = map Some (map ?f y)" "map vid (map ?f y) = map fst y"
    "\<forall>v \<in> set (map ?f y). saveable n v"
    using e by auto
  moreover have "distinct (map fst y)"
    unfolding distinct_mset_map_cong [OF assms(2)] using assms(1) by (simp add: source_shard_def)
  moreover have "sum_list (map vertex_bytes_size (map ?f y)) =
      sum_list (map (\<lambda>e. vertex_size_at st (snd e)) y)"
  proof -
    have "vertex_bytes_size (?f e) = vertex_size_at st (snd e)" if "e \<in> set y" for e
      using e [OF that] by (metis option.simps(5) vertex_size_at_def)
    then have "map vertex_bytes_size (map ?f y) = map (\<lambda>e. vertex_size_at st (snd e)) y" by simp
    then show ?thesis by (simp only:)
  qed
  ultimately show thesis
    using that [of "map ?f y"] sum_list_mset_cong [OF assms(2)] by metis
qed

lemma load_shard_save:
  assumes env: "fair env" and buf: "length buf = 16" and s: "s < length (h_vertices h)"
    and x: "source_shard (unat (h_size h)) st x" and y: "mset y = mset x"
    and bs: "save_vertices env st (map snd y) = Some bs"
  shows "\<exists>h' buf'. load_vertices s (length x) buf (h\<lparr>h_vertices := (h_vertices h)[s := []]\<rparr>, bs @ rest) =
       Some (Inr buf', (h', rest)) \<and> length buf' = 16 \<and> grown h h' \<and> copied_shard st x h' s \<and>
     (\<forall>s'. s' \<noteq> s \<longrightarrow> h_vertices h' ! s' = h_vertices h ! s') \<and> h_len h' = h_len h \<and>
     length (h_store h') = length (h_store h) + length x \<and>
     h_bytes_size h' = h_bytes_size h + sum_list (map (\<lambda>e. vertex_size_at st (snd e)) x)"
proof -
  obtain vs where vs: "map (deref st) (map snd y) = map Some vs" "map vid vs = map fst y"
    "\<forall>v \<in> set vs. saveable (unat (h_size h)) v" "distinct (map vid vs)"
    "sum_list (map vertex_bytes_size vs) = sum_list (map (\<lambda>e. vertex_size_at st (snd e)) x)"
    using source_vertices [OF x y] .
  let ?h = "h\<lparr>h_vertices := (h_vertices h)[s := []]\<rparr>"
  have len: "length (map snd y) = length x" using y mset_eq_length by auto
  obtain h' buf' es where h': "load_vertices s (length x) buf (?h, bs @ rest) = Some (Inr buf', (h', rest))"
    "length buf' = 16" "grown ?h h'" "h_vertices h' = (h_vertices ?h)[s := h_vertices ?h ! s @ es]"
    "list_all2 (copied_entry h') vs es" "h_len h' = h_len h" "length (h_store h') = length (h_store h) + length x"
    "h_bytes_size h' = h_bytes_size h + sum_list (map vertex_bytes_size vs)"
    using load_vertices_save [OF env buf, of s ?h st "map snd y" vs rest] s vs bs len by auto
  have es: "h_vertices h' ! s = es" using h'(4) s by simp
  have "copied_shard st x h' s"
    unfolding copied_shard_def es
  proof (intro conjI)
    show "distinct (map fst es)" using copied_entries(1) [OF h'(5)] vs(4) by simp
    show "length es = length x"
      using copied_entries(1) [OF h'(5)] vs(2) len by (metis length_map)
    show "\<forall>(i, p) \<in> set x. \<exists>v p'. deref st p = Some v \<and> (i, p') \<in> set es \<and> copied_entry h' v (i, p')"
    proof (clarify)
      fix i p assume ip: "(i, p) \<in> set x"
      then obtain v where v: "deref st p = Some v" "vid v = i" using x by (auto simp: source_shard_def)
      have "(i, p) \<in> set y" using ip mset_eq_setD [OF y] by simp
      then have "Some v \<in> set (map (deref st) (map snd y))" using v(1) by force
      then have "v \<in> set vs" unfolding vs(1) by auto
      then show "\<exists>v p'. deref st p = Some v \<and> (i, p') \<in> set es \<and> copied_entry h' v (i, p')"
        using copied_entries(2) [OF h'(5)] v by blast
    qed
  qed
  moreover have "grown h h'" using h'(3) by (simp add: grown_def)
  ultimately show ?thesis using h' vs(5) by (intro exI [of _ h'] exI [of _ buf']) simp
qed

lemma save_shards_total:
  "\<forall>x \<in> set xs. source_shard n st x \<Longrightarrow> fair env \<Longrightarrow> \<exists>bs. save_shards env st xs = Some bs"
proof (induction xs arbitrary: env)
  case (Cons x xs)
  obtain vs where "map (deref st) (map snd (visit env x)) = map Some vs"
    using source_vertices [of n st x "visit env x"] Cons.prems by (metis list.set_intros(1) mset_visit)
  then obtain b where "save_vertices (sub env 0) st (map snd (visit env x)) = Some b"
    using save_vertices_total by blast
  moreover obtain bs where "save_shards (sub env 1) st xs = Some bs"
    using Cons.IH [of "sub env 1"] Cons.prems by auto
  ultimately show ?case by simp
qed simp

lemma load_shards_save:
  "\<forall>x \<in> set xs. source_shard (unat (h_size h)) st x \<Longrightarrow> fair env \<Longrightarrow> length buf = 16 \<Longrightarrow>
   length (h_vertices h) = k + length xs \<Longrightarrow> save_shards env st xs = Some bs \<Longrightarrow>
   \<exists>h' buf'. load_shards [k..<k + length xs] buf (h, bs @ rest) = Some (Inr buf', (h', rest)) \<and>
     length buf' = 16 \<and> grown h h' \<and> (\<forall>j < length xs. copied_shard st (xs ! j) h' (k + j)) \<and>
     (\<forall>s < k. h_vertices h' ! s = h_vertices h ! s) \<and>
     h_len h' = h_len h + of_nat (length (concat xs)) \<and>
     length (h_store h') = length (h_store h) + length (concat xs) \<and>
     h_bytes_size h' = h_bytes_size h + sum_list (map (\<lambda>e. vertex_size_at st (snd e)) (concat xs))"
proof (induction xs arbitrary: env buf h k bs)
  case Nil
  then show ?case by (auto simp: grown_def)
next
  case (Cons x xs)
  have x: "source_shard (unat (h_size h)) st x" using Cons.prems(1) by simp
  obtain b bs' where b: "save_vertices (sub env 0) st (map snd (visit env x)) = Some b"
    "save_shards (sub env 1) st xs = Some bs'"
    "bs = be_bytes 4 (of_nat (length x) :: 32 word) @ b @ bs'"
    using Cons.prems(5) by (auto simp: bind_eq_Some_conv)
  let ?h0 = "h\<lparr>h_len := h_len h + of_nat (length x)\<rparr>"
  have k: "k < length (h_vertices ?h0)" using Cons.prems(4) by simp
  have src: "source_shard (unat (h_size ?h0)) st x" using x by simp
  have m: "mset (visit env x) = mset x" using Cons.prems(2) by simp
  obtain h1 buf1 where h1: "load_vertices k (length x) buf (?h0\<lparr>h_vertices := (h_vertices ?h0)[k := []]\<rparr>, b @ bs' @ rest) =
      Some (Inr buf1, (h1, bs' @ rest))" "length buf1 = 16" "grown ?h0 h1" "copied_shard st x h1 k"
    "\<forall>s'. s' \<noteq> k \<longrightarrow> h_vertices h1 ! s' = h_vertices h ! s'" "h_len h1 = h_len h + of_nat (length x)"
    "length (h_store h1) = length (h_store h) + length x"
    "h_bytes_size h1 = h_bytes_size h + sum_list (map (\<lambda>e. vertex_size_at st (snd e)) x)"
    using load_shard_save [OF fair_sub [OF Cons.prems(2)] Cons.prems(3) k src m b(1), of "bs' @ rest"] by auto
  have g1: "grown h h1" using h1(3) by (simp add: grown_def)
  then have sz: "h_size h1 = h_size h" "length (h_vertices h1) = Suc k + length xs"
    using Cons.prems(4) by (auto simp: grown_def)
  obtain h' buf' where h': "load_shards [Suc k..<Suc k + length xs] buf1 (h1, bs' @ rest) = Some (Inr buf', (h', rest))"
    "length buf' = 16" "grown h1 h'" "\<forall>j < length xs. copied_shard st (xs ! j) h' (Suc k + j)"
    "\<forall>s < Suc k. h_vertices h' ! s = h_vertices h1 ! s"
    "h_len h' = h_len h1 + of_nat (length (concat xs))"
    "length (h_store h') = length (h_store h1) + length (concat xs)"
    "h_bytes_size h' = h_bytes_size h1 + sum_list (map (\<lambda>e. vertex_size_at st (snd e)) (concat xs))"
    using Cons.IH [of h1 "sub env 1" buf1 "Suc k" bs'] Cons.prems(1,2) h1(2) sz b(2) by auto
  have fits: "length x < 2 ^ 32" using x by (simp add: source_shard_def)
  then have n: "unat (of_nat (length x) :: 32 word) = length x" by (simp add: unat_of_nat_fits)
  then have n': "ucast (of_nat (length x) :: 32 word) = (of_nat (length x) :: 64 word)"
    by (metis of_nat_unat)
  have upt: "[k..<k + length (x # xs)] = k # [Suc k..<Suc k + length xs]" by (simp add: upt_rec)
  have "load_shards [k..<k + length (x # xs)] buf (h, bs @ rest) = Some (Inr buf', (h', rest))"
    unfolding upt b(3) using h1(1) h'(1) n n' by (simp add: wire_simps)
  moreover have "\<forall>j < length (x # xs). copied_shard st ((x # xs) ! j) h' (k + j)"
  proof (intro allI impI)
    fix j assume "j < length (x # xs)"
    then show "copied_shard st ((x # xs) ! j) h' (k + j)"
      using h'(4) copied_shard_grown [OF h1(4) h'(3)] h'(5) by (cases j) auto
  qed
  moreover have "\<forall>s < k. h_vertices h' ! s = h_vertices h ! s" using h1(5) h'(5) by simp
  ultimately show ?case
    using h'(2,6-8) h1(6-8) grown_trans [OF g1 h'(3)]
    by (intro exI [of _ h'] exI [of _ buf']) (simp add: ac_simps)
qed

section \<open>Edges\<close>

text \<open>The edges to live vertices, by the id of their target: what \<open>Save\<close> writes of an edge set.\<close>

fun id_edges :: "store \<Rightarrow> edge_set \<Rightarrow> (uuid \<times> f32) list option" where
  "id_edges st [] = Some []"
| "id_edges st ((q, d) # es) = do {
     v \<leftarrow> deref st q;
     rest \<leftarrow> id_edges st es;
     Some (if is_deleted v then rest else (vid v, d) # rest) }"

definition edge_bytes :: "(uuid \<times> f32) list \<Rightarrow> bytes" where
  "edge_bytes xs = concat (map (\<lambda>(u, d). u @ be_bytes 4 d) xs)"

lemma save_edge_list_eq: "save_edge_list st es = map_option edge_bytes (id_edges st es)"
proof (induction es)
  case (Cons e es)
  obtain q d where e: "e = (q, d)" by (cases e)
  show ?case
    using Cons by (cases "deref st q"; cases "id_edges st es") (simp_all add: e edge_bytes_def)
qed (simp add: edge_bytes_def)

definition flags_ok :: "store \<Rightarrow> bool" where
  "flags_ok st = (\<forall>p v. deref st p = Some v \<longrightarrow> vdeleted v = 0 \<or> vdeleted v = 1)"

lemma edges_count_live_eq: "flags_ok st \<Longrightarrow>
    edges_count_live st es = map_option length (id_edges st es)"
proof (induction es)
  case (Cons e es)
  obtain q d where e: "e = (q, d)" by (cases e)
  show ?case
  proof (cases "deref st q")
    case (Some v)
    then have "vdeleted v = 0 \<longleftrightarrow> \<not> is_deleted v"
      using Cons.prems by (auto simp: flags_ok_def is_deleted_def)
    then show ?thesis using Cons Some by (cases "id_edges st es") (auto simp: e)
  qed (simp add: e)
qed simp

lemma id_edges_set: "id_edges st es = Some xs \<Longrightarrow>
    set xs = {(vid v, d) |q d v. (q, d) \<in> set es \<and> deref st q = Some v \<and> \<not> is_deleted v}"
proof (induction es arbitrary: xs)
  case (Cons e es)
  obtain q d where e: "e = (q, d)" by (cases e)
  obtain v ys where "deref st q = Some v" "id_edges st es = Some ys"
    "xs = (if is_deleted v then ys else (vid v, d) # ys)"
    using Cons.prems e by (auto simp: bind_eq_Some_conv)
  then show ?case using Cons.IH [of ys] e by auto
qed simp

lemma id_edges_total: "\<forall>e \<in> set es. deref st (fst e) \<noteq> None \<Longrightarrow> \<exists>xs. id_edges st es = Some xs"
  by (induction es) auto

lemma id_edges_length: "id_edges st es = Some xs \<Longrightarrow> length xs \<le> length es"
proof (induction es arbitrary: xs)
  case (Cons e es)
  obtain q d where e: "e = (q, d)" by (cases e)
  then show ?case using Cons by (fastforce simp: bind_eq_Some_conv split: if_splits)
qed simp

lemma id_edges_distinct:
  "id_edges st es = Some xs \<Longrightarrow> distinct (map fst es) \<Longrightarrow>
   (\<And>p q v w. deref st p = Some v \<Longrightarrow> deref st q = Some w \<Longrightarrow> \<not> is_deleted v \<Longrightarrow> \<not> is_deleted w \<Longrightarrow>
      vid v = vid w \<Longrightarrow> p = q) \<Longrightarrow> distinct (map fst xs)"
proof (induction es arbitrary: xs)
  case (Cons e es)
  obtain q d where e: "e = (q, d)" by (cases e)
  obtain v ys where v: "deref st q = Some v" and ys: "id_edges st es = Some ys"
    "xs = (if is_deleted v then ys else (vid v, d) # ys)"
    using Cons.prems(1) e by (auto simp: bind_eq_Some_conv)
  have IH: "distinct (map fst ys)" using Cons.IH [OF ys(1) _ Cons.prems(3)] Cons.prems(2) by auto
  have "vid v \<notin> fst ` set ys" if "\<not> is_deleted v"
  proof
    assume "vid v \<in> fst ` set ys"
    then obtain q' d' w where "(q', d') \<in> set es" "deref st q' = Some w" "\<not> is_deleted w" "vid w = vid v"
      unfolding id_edges_set [OF ys(1)] by auto
    moreover from this have "q' = q" using Cons.prems(3) v that by blast
    ultimately show False using Cons.prems(2) e by force
  qed
  then show ?case using IH ys(2) by simp
qed simp

lemma id_edges_visit:
  assumes "fair env" "fair env'" "id_edges st (visit env es) = Some xs" "id_edges st (visit env' es) = Some ys"
  shows "set xs = set ys"
  unfolding id_edges_set [OF assms(3)] id_edges_set [OF assms(4)] using assms(1,2) by simp

definition id_edge_set :: "store \<Rightarrow> edge_set \<Rightarrow> (uuid \<times> f32) set" where
  "id_edge_set st es = {(vid v, d) |q d v. (q, d) \<in> set es \<and> deref st q = Some v \<and> \<not> is_deleted v}"

lemma ptr_of_store [simp]: "ptr_of (h\<lparr>h_store := st\<rparr>) u = ptr_of h u"
    "ptr_of (h\<lparr>h_entrypoint := p\<rparr>) u = ptr_of h u"
  by (simp_all add: ptr_of_def find_vertex_def)

definition by_ptr :: "hnsw \<Rightarrow> (uuid \<times> f32) list \<Rightarrow> edge_set" where
  "by_ptr h xs = map (\<lambda>(u, d). (ptr_of h u, d)) xs"

lemma by_ptr_fst: "map fst (by_ptr h xs) = map (\<lambda>x. ptr_of h (fst x)) xs"
  by (auto simp: by_ptr_def)

lemma load_edge_list_save:
  "\<forall>x \<in> set xs. uuid_wf (fst x) \<Longrightarrow> length buf = 16 \<Longrightarrow> edges_of st p l = Some acc \<Longrightarrow>
   distinct (map fst acc @ map (\<lambda>x. ptr_of h (fst x)) xs) \<Longrightarrow>
   \<exists>st' buf'. load_edge_list p l (length xs) buf (h\<lparr>h_store := st\<rparr>, edge_bytes xs @ rest) =
       Some (Inr buf', (h\<lparr>h_store := st'\<rparr>, rest)) \<and> length buf' = 16 \<and> core st' = core st \<and>
     (\<forall>p' l'. edges_of st' p' l' =
        (if p' = p \<and> l' = l then Some (acc @ by_ptr h xs) else edges_of st p' l'))"
proof (induction xs arbitrary: buf st acc)
  case Nil
  then show ?case by (intro exI [of _ st] exI [of _ buf]) (auto simp: edge_bytes_def by_ptr_def)
next
  case (Cons x xs)
  obtain u d where x: "x = (u, d)" by (cases x)
  let ?q = "ptr_of h u"
  have u: "uuid_wf u" "length u = 16" using Cons.prems(1) x by (auto simp: uuid_wf_def)
  have new: "map_of acc ?q = None" using Cons.prems(4) x by (simp add: map_of_eq_None_iff)
  then have acc: "AList.update ?q d acc = acc @ [(?q, d)]" by (rule length_AList_update_fresh)
  have "has_level st p l" using Cons.prems(3) by (simp add: has_level_def)
  then obtain st1 where st1: "set_edges p l (acc @ [(?q, d)]) st = Some st1"
    using set_edges_total by blast
  then have add: "add_edge p l ?q d st = Some st1" using Cons.prems(3) acc by (simp add: add_edge_def)
  have e1: "edges_of st1 p l = Some (acc @ [(?q, d)])" by (simp add: edges_of_set_edges [OF st1])
  have dist: "distinct (map fst (acc @ [(?q, d)]) @ map (\<lambda>x. ptr_of h (fst x)) xs)"
    using Cons.prems(4) x by auto
  obtain st' buf' where st': "load_edge_list p l (length xs) u (h\<lparr>h_store := st1\<rparr>, edge_bytes xs @ rest) =
      Some (Inr buf', (h\<lparr>h_store := st'\<rparr>, rest))" "length buf' = 16" "core st' = core st1"
    "\<forall>p' l'. edges_of st' p' l' =
       (if p' = p \<and> l' = l then Some ((acc @ [(?q, d)]) @ by_ptr h xs) else edges_of st1 p' l')"
    using Cons.IH [OF _ u(2) e1 dist] Cons.prems(1) by auto
  have bytes: "edge_bytes (x # xs) = u @ be_bytes 4 d @ edge_bytes xs" by (simp add: edge_bytes_def x)
  have "put_edge p l u d (h\<lparr>h_store := st\<rparr>, bs) = Some (Inr (), (h\<lparr>h_store := st1\<rparr>, bs))" for bs
    using add by (simp add: put_edge_def)
  then have "load_edge_list p l (length (x # xs)) buf (h\<lparr>h_store := st\<rparr>, edge_bytes (x # xs) @ rest) =
      Some (Inr buf', (h\<lparr>h_store := st'\<rparr>, rest))"
    unfolding bytes using st'(1) by (simp add: read_uuid_append [OF u(1) Cons.prems(2)] wire_simps)
  moreover have "core st' = core st" using st'(3) set_edges_core [OF st1] by simp
  moreover have "\<forall>p' l'. edges_of st' p' l' =
      (if p' = p \<and> l' = l then Some (acc @ by_ptr h (x # xs)) else edges_of st p' l')"
    using st'(4) edges_of_set_edges [OF st1] by (simp add: by_ptr_def x)
  ultimately show ?case using st'(2) by blast
qed

definition level_ok :: "hnsw \<Rightarrow> store \<Rightarrow> edge_set \<Rightarrow> bool" where
  "level_ok h src es = (length es < 2 ^ 32 \<and> (\<forall>env. fair env \<longrightarrow>
     (\<exists>xs. id_edges src (visit env es) = Some xs \<and> (\<forall>x \<in> set xs. uuid_wf (fst x)) \<and>
        distinct (map (\<lambda>x. ptr_of h (fst x)) xs))))"

lemma level_okE:
  assumes "level_ok h src es" "fair env"
  obtains xs where "id_edges src (visit env es) = Some xs" "\<forall>x \<in> set xs. uuid_wf (fst x)"
    "distinct (map (\<lambda>x. ptr_of h (fst x)) xs)" "set xs = id_edge_set src es" "length xs < 2 ^ 32"
proof -
  obtain xs where xs: "id_edges src (visit env es) = Some xs" "\<forall>x \<in> set xs. uuid_wf (fst x)"
    "distinct (map (\<lambda>x. ptr_of h (fst x)) xs)"
    using assms by (auto simp: level_ok_def)
  moreover have "set xs = id_edge_set src es"
    using id_edges_set [OF xs(1)] assms(2) by (simp add: id_edge_set_def)
  moreover have "length xs < 2 ^ 32"
    using id_edges_length [OF xs(1)] assms by (simp add: level_ok_def)
  ultimately show thesis using that by blast
qed

lemma id_edges_length_visit:
  assumes "fair env" "fair env'" "id_edges st (visit env es) = Some xs" "id_edges st (visit env' es) = Some ys"
  shows "length xs = length ys"
proof -
  have len: "length zs = length (filter (\<lambda>e. \<not> is_deleted (the (deref st (fst e)))) fs)"
    if "id_edges st fs = Some zs" for fs zs
    using that
  proof (induction fs arbitrary: zs)
    case (Cons f fs)
    then show ?case by (cases f) (auto simp: bind_eq_Some_conv split: if_splits)
  qed simp
  have "mset (visit env es) = mset (visit env' es)" using assms(1,2) by simp
  then have "mset (filter P (visit env es)) = mset (filter P (visit env' es))" for P
    by (simp add: mset_filter)
  then show ?thesis using len [OF assms(3)] len [OF assms(4)] mset_eq_length by metis
qed

definition edges_match :: "hnsw \<Rightarrow> store \<Rightarrow> vertex \<Rightarrow> store \<Rightarrow> ptr \<Rightarrow> int \<Rightarrow> bool" where
  "edges_match h src v st p l = (\<exists>es xs. edges_at v l = Some es \<and> set xs = id_edge_set src es \<and>
     distinct (map fst (by_ptr h xs)) \<and> edges_of st p l = Some (by_ptr h xs))"

lemma load_vertex_edges_save:
  "fair env \<Longrightarrow> length buf = 16 \<Longrightarrow> flags_ok src \<Longrightarrow> l < int (length (vedges v)) \<Longrightarrow>
   (\<forall>l' es. edges_at v l' = Some es \<longrightarrow> level_ok h src es) \<Longrightarrow>
   (\<forall>l'. 0 \<le> l' \<longrightarrow> l' \<le> l \<longrightarrow> edges_of st p l' = Some []) \<Longrightarrow>
   \<exists>bs. save_vertex_edges env src v l = Some bs \<and> (\<forall>rest. \<exists>st' buf'.
     load_vertex_edges p l buf (h\<lparr>h_store := st\<rparr>, bs @ rest) = Some (Inr buf', (h\<lparr>h_store := st'\<rparr>, rest)) \<and>
     length buf' = 16 \<and> core st' = core st \<and>
     (\<forall>l'. 0 \<le> l' \<longrightarrow> l' \<le> l \<longrightarrow> edges_match h src v st' p l') \<and>
     (\<forall>p' l'. p' \<noteq> p \<or> l < l' \<longrightarrow> edges_of st' p' l' = edges_of st p' l'))"
proof (induction env src v l arbitrary: buf st rule: save_vertex_edges.induct)
  case (1 env src v l)
  show ?case
  proof (cases "0 \<le> l")
    case True
    then obtain es where es: "edges_at v l = Some es" using "1.prems"(4) by (simp add: edges_at_def)
    then have lok: "level_ok h src es" using "1.prems"(5) by blast
    have envs: "fair (sub env 0)" "fair (sub env 1)" "fair (sub env 2)" using "1.prems"(1) by simp_all
    obtain xs0 where xs0: "id_edges src (visit (sub env 0) es) = Some xs0"
      using level_okE [OF lok envs(1)] by metis
    obtain xs where xs: "id_edges src (visit (sub env 1) es) = Some xs" "\<forall>x \<in> set xs. uuid_wf (fst x)"
      "distinct (map (\<lambda>x. ptr_of h (fst x)) xs)" "set xs = id_edge_set src es" "length xs < 2 ^ 32"
      using level_okE [OF lok envs(2)] by metis
    have count: "edges_count_live src (visit (sub env 0) es) = Some (length xs)"
      using edges_count_live_eq [OF "1.prems"(3)] xs0 id_edges_length_visit [OF envs(1,2) xs0 xs(1)]
      by simp
    have bytes: "save_edge_list src (visit (sub env 1) es) = Some (edge_bytes xs)"
      using xs(1) by (simp add: save_edge_list_eq)
    have n: "unat (of_nat (length xs) :: 32 word) = length xs" using xs(5) by (simp add: unat_of_nat_fits)
    note IH = "1.IH" [OF True es count bytes envs(3) _ "1.prems"(3) _ "1.prems"(5)]
    obtain bs where bs: "save_vertex_edges (sub env 2) src v (l - 1) = Some bs"
      using IH [OF "1.prems"(2), of st] "1.prems"(4,6) by auto
    let ?bs = "be_bytes 4 (of_nat (length xs) :: 32 word) @ edge_bytes xs @ bs"
    have "save_vertex_edges env src v l = Some ?bs"
      using True es count bytes bs by (simp add: save_vertex_edges.simps [of env src v l])
    moreover have "\<exists>st' buf'.
       load_vertex_edges p l buf (h\<lparr>h_store := st\<rparr>, ?bs @ rest) = Some (Inr buf', (h\<lparr>h_store := st'\<rparr>, rest)) \<and>
       length buf' = 16 \<and> core st' = core st \<and>
       (\<forall>l'. 0 \<le> l' \<longrightarrow> l' \<le> l \<longrightarrow> edges_match h src v st' p l') \<and>
       (\<forall>p' l'. p' \<noteq> p \<or> l < l' \<longrightarrow> edges_of st' p' l' = edges_of st p' l')" for rest
    proof -
      have e0: "edges_of st p l = Some []" using "1.prems"(6) True by simp
      obtain st1 buf1 where st1: "load_edge_list p l (length xs) buf (h\<lparr>h_store := st\<rparr>, edge_bytes xs @ bs @ rest) =
          Some (Inr buf1, (h\<lparr>h_store := st1\<rparr>, bs @ rest))" "length buf1 = 16" "core st1 = core st"
        "\<forall>p' l'. edges_of st1 p' l' = (if p' = p \<and> l' = l then Some (by_ptr h xs) else edges_of st p' l')"
        using load_edge_list_save [OF xs(2) "1.prems"(2) e0, of h "bs @ rest"] xs(3) by auto
      have pre: "l - 1 < int (length (vedges v))"
        "\<forall>l'. 0 \<le> l' \<longrightarrow> l' \<le> l - 1 \<longrightarrow> edges_of st1 p l' = Some []"
        using "1.prems"(4,6) st1(4) by auto
      obtain bs2 where bs2: "save_vertex_edges (sub env 2) src v (l - 1) = Some bs2" "\<exists>st2 buf2.
          load_vertex_edges p (l - 1) buf1 (h\<lparr>h_store := st1\<rparr>, bs2 @ rest) =
            Some (Inr buf2, (h\<lparr>h_store := st2\<rparr>, rest)) \<and> length buf2 = 16 \<and> core st2 = core st1 \<and>
          (\<forall>l'. 0 \<le> l' \<longrightarrow> l' \<le> l - 1 \<longrightarrow> edges_match h src v st2 p l') \<and>
          (\<forall>p' l'. p' \<noteq> p \<or> l - 1 < l' \<longrightarrow> edges_of st2 p' l' = edges_of st1 p' l')"
        using IH [OF st1(2) pre] by blast
      have "bs2 = bs" using bs bs2(1) by simp
      with bs2(2) obtain st2 buf2 where st2: "load_vertex_edges p (l - 1) buf1 (h\<lparr>h_store := st1\<rparr>, bs @ rest) =
          Some (Inr buf2, (h\<lparr>h_store := st2\<rparr>, rest))" "length buf2 = 16" "core st2 = core st1"
        "\<forall>l'. 0 \<le> l' \<longrightarrow> l' \<le> l - 1 \<longrightarrow> edges_match h src v st2 p l'"
        "\<forall>p' l'. p' \<noteq> p \<or> l - 1 < l' \<longrightarrow> edges_of st2 p' l' = edges_of st1 p' l'"
        by blast
      have "edges_match h src v st2 p l"
        using es xs(3,4) st1(4) st2(5) by (auto simp: edges_match_def by_ptr_fst)
      then have "\<forall>l'. 0 \<le> l' \<longrightarrow> l' \<le> l \<longrightarrow> edges_match h src v st2 p l'"
        using st2(4) by (metis order_antisym_conv linorder_not_le zle_diff1_eq)
      moreover have "load_vertex_edges p l buf (h\<lparr>h_store := st\<rparr>, ?bs @ rest) =
          Some (Inr buf2, (h\<lparr>h_store := st2\<rparr>, rest))"
        using True st1(1) st2(1) n by (simp add: load_vertex_edges.simps [of p l buf] wire_simps)
      ultimately show ?thesis using st1(3,4) st2(2,3,5) by (intro exI [of _ st2] exI [of _ buf2]) auto
    qed
    ultimately show ?thesis by blast
  next
    case False
    then show ?thesis
      using "1.prems"(2) by (auto simp: save_vertex_edges.simps [of env src v l] load_vertex_edges.simps [of p l])
  qed
qed

text \<open>An entry whose copy waits for its edges, and one whose copy has them.\<close>

definition ready :: "hnsw \<Rightarrow> store \<Rightarrow> store \<Rightarrow> uuid \<times> ptr \<Rightarrow> bool" where
  "ready h src st e = (\<exists>v w. deref src (snd e) = Some v \<and> vid v = fst e \<and> uuid_wf (fst e) \<and>
     find_vertex h (fst e) \<noteq> None \<and> deref st (ptr_of h (fst e)) = Some w \<and> vid w = fst e \<and>
     vlevel w = vlevel v \<and> int (length (vedges v)) = vlevel v + 1 \<and>
     (\<forall>l. 0 \<le> l \<longrightarrow> l \<le> vlevel v \<longrightarrow> edges_of st (ptr_of h (fst e)) l = Some []) \<and>
     (\<forall>l es. edges_at v l = Some es \<longrightarrow> level_ok h src es))"

definition finished :: "hnsw \<Rightarrow> store \<Rightarrow> store \<Rightarrow> uuid \<times> ptr \<Rightarrow> bool" where
  "finished h src st e = (\<exists>v. deref src (snd e) = Some v \<and>
     (\<forall>l. 0 \<le> l \<longrightarrow> l \<le> vlevel v \<longrightarrow> edges_match h src v st (ptr_of h (fst e)) l))"

text \<open>A step that changed only edge sets of the vertices in \<open>P\<close>.\<close>

definition only_edges :: "ptr set \<Rightarrow> store \<Rightarrow> store \<Rightarrow> bool" where
  "only_edges P st st' = (core st' = core st \<and> (\<forall>p l. has_level st' p l = has_level st p l) \<and>
     (\<forall>p l. p \<notin> P \<longrightarrow> edges_of st' p l = edges_of st p l))"

lemma only_edges_trans: "only_edges P st st' \<Longrightarrow> only_edges Q st' st'' \<Longrightarrow> only_edges (P \<union> Q) st st''"
  by (simp add: only_edges_def)

lemma ready_kept:
  assumes "ready h src st e" "only_edges P st st'" "ptr_of h (fst e) \<notin> P"
  shows "ready h src st' e"
proof -
  obtain v w where v: "deref src (snd e) = Some v" "vid v = fst e" "uuid_wf (fst e)"
    "find_vertex h (fst e) \<noteq> None" "deref st (ptr_of h (fst e)) = Some w" "vid w = fst e"
    "vlevel w = vlevel v" "int (length (vedges v)) = vlevel v + 1"
    "\<forall>l. 0 \<le> l \<longrightarrow> l \<le> vlevel v \<longrightarrow> edges_of st (ptr_of h (fst e)) l = Some []"
    "\<forall>l es. edges_at v l = Some es \<longrightarrow> level_ok h src es"
    using assms(1) by (auto simp: ready_def)
  have core: "core st = core st'" "\<And>l. edges_of st' (ptr_of h (fst e)) l = edges_of st (ptr_of h (fst e)) l"
    using assms(2,3) by (simp_all add: only_edges_def)
  obtain w' where "deref st' (ptr_of h (fst e)) = Some w'" "vid w' = fst e" "vlevel w' = vlevel v"
    using core_eqD [OF core(1) v(5)] v(6,7) by auto
  then show ?thesis
    unfolding ready_def core(2) using v by (intro exI [of _ v] exI [of _ w']) simp
qed

lemma finished_kept: "finished h src st e \<Longrightarrow> only_edges P st st' \<Longrightarrow> ptr_of h (fst e) \<notin> P \<Longrightarrow>
    finished h src st' e"
  unfolding finished_def only_edges_def edges_match_def by metis

lemma ready_inj: "ready h src st e \<Longrightarrow> ready h src st e' \<Longrightarrow> ptr_of h (fst e) = ptr_of h (fst e') \<Longrightarrow>
    fst e = fst e'"
  unfolding ready_def by (metis option.inject)

lemma load_edges_save:
  "fair env \<Longrightarrow> length buf = 16 \<Longrightarrow> flags_ok src \<Longrightarrow> distinct (map fst ys) \<Longrightarrow>
   \<forall>e \<in> set ys. ready h src st e \<and> shard_idx (fst e) = s \<Longrightarrow>
   \<exists>bs. save_edges env src (map snd ys) = Some bs \<and> (\<forall>rest. \<exists>st' buf'.
     load_edges s (length ys) buf (h\<lparr>h_store := st\<rparr>, bs @ rest) = Some (Inr buf', (h\<lparr>h_store := st'\<rparr>, rest)) \<and>
     length buf' = 16 \<and> only_edges (ptr_of h ` fst ` set ys) st st' \<and> (\<forall>e \<in> set ys. finished h src st' e))"
proof (induction ys arbitrary: env buf st)
  case Nil
  have "\<exists>st' buf'. load_edges s 0 buf (h\<lparr>h_store := st\<rparr>, rest) = Some (Inr buf', (h\<lparr>h_store := st'\<rparr>, rest)) \<and>
      length buf' = 16 \<and> only_edges {} st st'" for rest
    using Nil(2) by (intro exI [of _ st] exI [of _ buf]) (simp add: only_edges_def)
  then show ?case by simp
next
  case (Cons y ys)
  obtain i p where y: "y = (i, p)" by (cases y)
  let ?p = "ptr_of h i"
  obtain v w where v: "deref src p = Some v" "vid v = i" "uuid_wf i" "find_vertex h i \<noteq> None"
    "deref st ?p = Some w" "vid w = i" "vlevel w = vlevel v" "int (length (vedges v)) = vlevel v + 1"
    "\<forall>l. 0 \<le> l \<longrightarrow> l \<le> vlevel v \<longrightarrow> edges_of st ?p l = Some []"
    "\<forall>l es. edges_at v l = Some es \<longrightarrow> level_ok h src es"
    using Cons.prems(5) y unfolding ready_def by auto
  have i: "length i = 16" "map_of (h_vertices h ! s) i = Some ?p"
    using v(3,4) Cons.prems(5) y by (auto simp: uuid_wf_def find_vertex_def ptr_of_def)
  have lv: "vlevel v < int (length (vedges v))" using v(8) by simp
  obtain b where b: "save_vertex_edges (sub env 0) src v (vlevel v) = Some b" "\<forall>rest. \<exists>st' buf'.
     load_vertex_edges ?p (vlevel v) i (h\<lparr>h_store := st\<rparr>, b @ rest) = Some (Inr buf', (h\<lparr>h_store := st'\<rparr>, rest)) \<and>
     length buf' = 16 \<and> core st' = core st \<and>
     (\<forall>l'. 0 \<le> l' \<longrightarrow> l' \<le> vlevel v \<longrightarrow> edges_match h src v st' ?p l') \<and>
     (\<forall>p' l'. p' \<noteq> ?p \<or> vlevel v < l' \<longrightarrow> edges_of st' p' l' = edges_of st p' l')"
    using load_vertex_edges_save [OF fair_sub [OF Cons.prems(1)] i(1) Cons.prems(3) lv v(10,9)] by blast
  have others: "ptr_of h (fst e) \<notin> {?p}" if "e \<in> set ys" for e
  proof
    assume "ptr_of h (fst e) \<in> {?p}"
    then have "ptr_of h (fst e) = ptr_of h (fst y)" by (simp add: y)
    then have "fst e = fst y" using ready_inj Cons.prems(5) that by (metis list.set_intros)
    then have "fst y \<in> fst ` set ys" using that by (metis imageI)
    then show False using Cons.prems(4) by simp
  qed
  have ready': "\<forall>e \<in> set ys. ready h src st' e \<and> shard_idx (fst e) = s" if "only_edges {?p} st st'" for st'
    using ready_kept [OF _ that] others Cons.prems(5) by auto
  have dist: "distinct (map fst ys)" using Cons.prems(4) by simp
  note IH = Cons.IH [OF fair_sub [OF Cons.prems(1), of 1] _ Cons.prems(3) dist ready']
  have "only_edges {?p} st st" by (simp add: only_edges_def)
  then obtain bs where bs: "save_edges (sub env 1) src (map snd ys) = Some bs"
    using IH [OF i(1)] by blast
  have "save_edges env src (map snd (y # ys)) = Some (i @ b @ bs)" using y v(1,2) b(1) bs by simp
  moreover have "\<exists>st' buf'. load_edges s (length (y # ys)) buf (h\<lparr>h_store := st\<rparr>, (i @ b @ bs) @ rest) =
       Some (Inr buf', (h\<lparr>h_store := st'\<rparr>, rest)) \<and> length buf' = 16 \<and>
     only_edges (ptr_of h ` fst ` set (y # ys)) st st' \<and> (\<forall>e \<in> set (y # ys). finished h src st' e)" for rest
  proof -
    obtain st1 buf1 where st1: "load_vertex_edges ?p (vlevel v) i (h\<lparr>h_store := st\<rparr>, b @ bs @ rest) =
        Some (Inr buf1, (h\<lparr>h_store := st1\<rparr>, bs @ rest))" "length buf1 = 16" "core st1 = core st"
      "\<forall>l'. 0 \<le> l' \<longrightarrow> l' \<le> vlevel v \<longrightarrow> edges_match h src v st1 ?p l'"
      "\<forall>p' l'. p' \<noteq> ?p \<or> vlevel v < l' \<longrightarrow> edges_of st1 p' l' = edges_of st p' l'"
      using b(2) [rule_format, of "bs @ rest"] by blast
    have "has_level st1 ?p l = has_level st ?p l" for l
    proof (cases "0 \<le> l \<and> l \<le> vlevel v")
      case True
      then show ?thesis using st1(4) v(9) by (auto simp: has_level_def edges_match_def)
    next
      case False
      then have "l < 0 \<or> edges_of st1 ?p l = edges_of st ?p l" using st1(5) by auto
      moreover have "edges_of st' ?p l = None" if "l < 0" for st'
        using that by (cases "deref st' ?p") (auto simp: edges_of_def edges_at_def)
      ultimately show ?thesis unfolding has_level_def by metis
    qed
    moreover have "has_level st1 p l = has_level st p l" if "p \<noteq> ?p" for p l
      using st1(5) that by (simp add: has_level_def)
    ultimately have "has_level st1 p l = has_level st p l" for p l by metis
    then have o1: "only_edges {?p} st st1" using st1(3,5) by (simp add: only_edges_def)
    obtain bs2 st2 buf2 where st2: "save_edges (sub env 1) src (map snd ys) = Some bs2"
      "load_edges s (length ys) buf1 (h\<lparr>h_store := st1\<rparr>, bs2 @ rest) = Some (Inr buf2, (h\<lparr>h_store := st2\<rparr>, rest))"
      "length buf2 = 16" "only_edges (ptr_of h ` fst ` set ys) st1 st2" "\<forall>e \<in> set ys. finished h src st2 e"
      using IH [OF st1(2) o1] by blast
    have "bs2 = bs" using st2(1) bs by simp
    have "finished h src st1 y" using y v(1) st1(4) by (simp add: finished_def)
    then have "finished h src st2 y"
      using finished_kept [OF _ st2(4)] others y by force
    moreover have "load_edges s (length (y # ys)) buf (h\<lparr>h_store := st\<rparr>, (i @ b @ bs) @ rest) =
        Some (Inr buf2, (h\<lparr>h_store := st2\<rparr>, rest))"
      using read_uuid_append [OF v(3) Cons.prems(2)] i(2) v(5,7) st1(1) st2(2) \<open>bs2 = bs\<close> by simp
    moreover have "only_edges (ptr_of h ` fst ` set (y # ys)) st st2"
      using only_edges_trans [OF o1 st2(4)] y by simp
    ultimately show ?thesis using st2(3,5) by (intro exI [of _ st2] exI [of _ buf2]) simp
  qed
  ultimately show ?case by blast
qed

lemma load_shards_edges_save:
  "fair env \<Longrightarrow> length buf = 16 \<Longrightarrow> flags_ok src \<Longrightarrow> distinct (map fst (concat xs)) \<Longrightarrow>
   \<forall>j < length xs. length (h_vertices h ! (k + j)) = length (xs ! j) \<and>
     (\<forall>e \<in> set (xs ! j). ready h src st e \<and> shard_idx (fst e) = k + j) \<Longrightarrow>
   \<exists>bs. save_shards_edges env src xs = Some bs \<and> (\<forall>rest. \<exists>st' buf'.
     load_shards_edges [k..<k + length xs] buf (h\<lparr>h_store := st\<rparr>, bs @ rest) =
       Some (Inr buf', (h\<lparr>h_store := st'\<rparr>, rest)) \<and> length buf' = 16 \<and>
     only_edges (ptr_of h ` fst ` set (concat xs)) st st' \<and>
     (\<forall>e \<in> set (concat xs). finished h src st' e))"
proof (induction xs arbitrary: env buf st k)
  case Nil
  have "\<exists>st' buf'. load_shards_edges [] buf (h\<lparr>h_store := st\<rparr>, rest) = Some (Inr buf', (h\<lparr>h_store := st'\<rparr>, rest)) \<and>
      length buf' = 16 \<and> only_edges {} st st'" for rest
    using Nil(2) by (intro exI [of _ st] exI [of _ buf]) (simp add: only_edges_def)
  then show ?case by simp
next
  case (Cons x xs)
  let ?y = "visit env x" and ?P = "ptr_of h ` fst ` set x" and ?Q = "ptr_of h ` fst ` set (concat xs)"
  have sety: "set ?y = set x" and leny: "length ?y = length x" using Cons.prems(1) by simp_all
  have x: "length (h_vertices h ! k) = length x" "\<forall>e \<in> set ?y. ready h src st e \<and> shard_idx (fst e) = k"
    using Cons.prems(5) [rule_format, of 0] by (auto simp: sety)
  have disty: "distinct (map fst ?y)" using Cons.prems(1,4) by simp
  obtain b where b: "save_edges (sub env 0) src (map snd ?y) = Some b" "\<forall>rest. \<exists>st' buf'.
     load_edges k (length ?y) buf (h\<lparr>h_store := st\<rparr>, b @ rest) = Some (Inr buf', (h\<lparr>h_store := st'\<rparr>, rest)) \<and>
     length buf' = 16 \<and> only_edges ?P st st' \<and> (\<forall>e \<in> set x. finished h src st' e)"
    using load_edges_save [OF fair_sub [OF Cons.prems(1)] Cons.prems(2,3) disty x(2), unfolded sety] by blast
  have apart: "ptr_of h (fst e) \<noteq> ptr_of h (fst e')" if e: "e \<in> set x" "e' \<in> set (concat xs)" for e e'
  proof
    assume eq: "ptr_of h (fst e) = ptr_of h (fst e')"
    obtain j where "j < length xs" "e' \<in> set (xs ! j)" using e(2) by (auto simp: in_set_conv_nth [of _ xs])
    then have "ready h src st e'" using Cons.prems(5) [rule_format, of "Suc j"] by auto
    moreover have "ready h src st e" using x(2) e(1) sety by blast
    ultimately have "fst e = fst e'" using ready_inj eq by blast
    then show False using Cons.prems(4) e by auto
  qed
  have dist: "distinct (map fst (concat xs))" using Cons.prems(4) by simp
  have later: "\<forall>j < length xs. length (h_vertices h ! (Suc k + j)) = length (xs ! j) \<and>
      (\<forall>e \<in> set (xs ! j). ready h src st' e \<and> shard_idx (fst e) = Suc k + j)"
    if st': "only_edges ?P st st'" for st'
  proof (intro allI impI)
    fix j assume j: "j < length xs"
    have "ptr_of h (fst e) \<notin> ?P" if "e \<in> set (xs ! j)" for e
      using apart that j by fastforce
    then show "length (h_vertices h ! (Suc k + j)) = length (xs ! j) \<and>
        (\<forall>e \<in> set (xs ! j). ready h src st' e \<and> shard_idx (fst e) = Suc k + j)"
      using Cons.prems(5) [rule_format, of "Suc j"] j ready_kept [OF _ st'] by simp
  qed
  note IH = Cons.IH [OF fair_sub [OF Cons.prems(1), of 1] _ Cons.prems(3) dist later]
  have "only_edges ?P st st" by (simp add: only_edges_def)
  then obtain bs where bs: "save_shards_edges (sub env 1) src xs = Some bs"
    using IH [OF Cons.prems(2)] by blast
  have upt: "[k..<k + length (x # xs)] = k # [Suc k..<Suc k + length xs]" by (simp add: upt_rec)
  have "save_shards_edges env src (x # xs) = Some (b @ bs)" using b(1) bs by simp
  moreover have "\<exists>st' buf'. load_shards_edges [k..<k + length (x # xs)] buf (h\<lparr>h_store := st\<rparr>, (b @ bs) @ rest) =
       Some (Inr buf', (h\<lparr>h_store := st'\<rparr>, rest)) \<and> length buf' = 16 \<and>
     only_edges (ptr_of h ` fst ` set (concat (x # xs))) st st' \<and>
     (\<forall>e \<in> set (concat (x # xs)). finished h src st' e)" for rest
  proof -
    obtain st1 buf1 where st1: "load_edges k (length ?y) buf (h\<lparr>h_store := st\<rparr>, b @ bs @ rest) =
        Some (Inr buf1, (h\<lparr>h_store := st1\<rparr>, bs @ rest))" "length buf1 = 16" "only_edges ?P st st1"
      "\<forall>e \<in> set x. finished h src st1 e"
      using b(2) [rule_format, of "bs @ rest"] by blast
    obtain bs2 st2 buf2 where st2: "save_shards_edges (sub env 1) src xs = Some bs2"
      "load_shards_edges [Suc k..<Suc k + length xs] buf1 (h\<lparr>h_store := st1\<rparr>, bs2 @ rest) =
        Some (Inr buf2, (h\<lparr>h_store := st2\<rparr>, rest))" "length buf2 = 16" "only_edges ?Q st1 st2"
      "\<forall>e \<in> set (concat xs). finished h src st2 e"
      using IH [OF st1(2,3)] by blast
    have "bs2 = bs" using st2(1) bs by simp
    have "finished h src st2 e" if "e \<in> set x" for e
      using finished_kept [OF _ st2(4)] st1(4) apart [OF that] that by fastforce
    moreover have "only_edges (ptr_of h ` fst ` set (concat (x # xs))) st st2"
      using only_edges_trans [OF st1(3) st2(4)] by (simp add: image_Un)
    moreover have "load_shards_edges [k..<k + length (x # xs)] buf (h\<lparr>h_store := st\<rparr>, (b @ bs) @ rest) =
        Some (Inr buf2, (h\<lparr>h_store := st2\<rparr>, rest))"
      unfolding upt using x(1) leny st1(1) st2(2) \<open>bs2 = bs\<close> by simp
    ultimately show ?thesis using st2(3,5) by (intro exI [of _ st2] exI [of _ buf2]) auto
  qed
  ultimately show ?case by blast
qed

section \<open>The whole index\<close>

definition saveable_index :: "hnsw \<Rightarrow> bool" where
  "saveable_index h =
     (hnsw_ok h \<and> entrypoint_live h \<and> h_entrypoint h \<noteq> nil \<and> flags_ok (h_store h) \<and>
      config_fits (h_config h) \<and> unat (h_size h) < 2 ^ 32 \<and> length (entries h) < 2 ^ 32 \<and>
      (\<forall>p v. deref (h_store h) p = Some v \<longrightarrow> \<not> is_deleted v \<longrightarrow> saveable (unat (h_size h)) v) \<and>
      (\<forall>p l es. edges_of (h_store h) p l = Some es \<longrightarrow> length es < 2 ^ 32))"

text \<open>The edges of an item at a level, by the ids of the live items they lead to.\<close>

definition edge_ids :: "hnsw \<Rightarrow> uuid \<Rightarrow> int \<Rightarrow> (uuid \<times> f32) set option" where
  "edge_ids h i l = do {
     p \<leftarrow> find_vertex h i;
     es \<leftarrow> edges_of (h_store h) p l;
     Some (id_edge_set (h_store h) es) }"

definition entrypoint_id :: "hnsw \<Rightarrow> uuid option" where
  "entrypoint_id h = map_option vid (deref (h_store h) (h_entrypoint h))"

definition same_item :: "vec \<times> metadata \<Rightarrow> vec \<times> metadata \<Rightarrow> bool" where
  "same_item a b = (fst a = fst b \<and> metadata_lookup (snd a) = metadata_lookup (snd b))"

definition same_index :: "hnsw \<Rightarrow> hnsw \<Rightarrow> bool" where
  "same_index h h' =
     (h_len h' = h_len h \<and> (\<forall>i. rel_option same_item (lookup h i) (lookup h' i)) \<and>
      (\<forall>i l E. edge_ids h i l = Some E \<longrightarrow> edge_ids h' i l = Some E) \<and>
      entrypoint_id h' = entrypoint_id h)"

lemma length_le_concat: "x \<in> set xs \<Longrightarrow> length x \<le> length (concat xs)"
  by (induction xs) auto

lemma saveable_shards:
  assumes "saveable_index h"
  shows "\<forall>x \<in> set (h_vertices h). source_shard (unat (h_size h)) (h_store h) x"
proof
  fix x assume x: "x \<in> set (h_vertices h)"
  have map: "map_ok h" using assms by (simp add: saveable_index_def hnsw_ok_def)
  obtain s where s: "s < 16" "x = h_vertices h ! s"
    using x map by (auto simp: map_ok_def in_set_conv_nth)
  have "length x < 2 ^ 32" using length_le_concat [OF x] assms by (simp add: saveable_index_def entries_def)
  moreover have "distinct (map fst x)" using map s by (simp add: map_ok_def)
  moreover have "\<exists>v. deref (h_store h) p = Some v \<and> vid v = i \<and> saveable (unat (h_size h)) v"
    if "(i, p) \<in> set x" for i p
    using map_ok_entry [OF map s(1)] that s(2) assms by (fastforce simp: entry_ok_def saveable_index_def)
  ultimately show "source_shard (unat (h_size h)) (h_store h) x" by (auto simp: source_shard_def)
qed

lemma copied_keys:
  assumes map: "map_ok h" and s: "s < 16" and c: "copied_shard (h_store h) (h_vertices h ! s) hC s"
  shows "fst ` set (h_vertices h ! s) = fst ` set (h_vertices hC ! s)"
proof (rule card_subset_eq)
  show "finite (fst ` set (h_vertices hC ! s))" by simp
  show "fst ` set (h_vertices h ! s) \<subseteq> fst ` set (h_vertices hC ! s)"
  proof
    fix u assume "u \<in> fst ` set (h_vertices h ! s)"
    then obtain q where "(u, q) \<in> set (h_vertices h ! s)" by auto
    then obtain q' where "(u, q') \<in> set (h_vertices hC ! s)"
      using c unfolding copied_shard_def by blast
    then show "u \<in> fst ` set (h_vertices hC ! s)" by (rule image_eqI [rotated]) simp
  qed
  have "distinct (map fst (h_vertices h ! s))" using map s by (simp add: map_ok_def)
  then have "card (fst ` set (h_vertices h ! s)) = length (h_vertices h ! s)"
    using distinct_card [of "map fst (h_vertices h ! s)"] by simp
  moreover have "distinct (map fst (h_vertices hC ! s))" using c by (simp add: copied_shard_def)
  then have "card (fst ` set (h_vertices hC ! s)) = length (h_vertices hC ! s)"
    using distinct_card [of "map fst (h_vertices hC ! s)"] by simp
  ultimately show "card (fst ` set (h_vertices h ! s)) = card (fst ` set (h_vertices hC ! s))"
    using c by (simp add: copied_shard_def)
qed

lemma copied_find:
  assumes map: "map_ok h" and hC: "length (h_vertices hC) = 16"
    and copied: "\<forall>j < 16. copied_shard (h_store h) (h_vertices h ! j) hC j"
  shows "find_vertex h i = Some p \<Longrightarrow> \<exists>v p'. deref (h_store h) p = Some v \<and> vid v = i \<and>
      \<not> is_deleted v \<and> find_vertex hC i = Some p' \<and> copied_entry hC v (i, p')"
    and "find_vertex hC i = Some p' \<Longrightarrow> find_vertex h i \<noteq> None"
proof -
  let ?s = "shard_idx i"
  have c: "copied_shard (h_store h) (h_vertices h ! ?s) hC ?s" using copied by simp
  { assume p: "find_vertex h i = Some p"
    obtain v where v: "deref (h_store h) p = Some v" "vid v = i" "\<not> is_deleted v"
      "(i, p) \<in> set (h_vertices h ! ?s)" using find_vertex_ok [OF map p] .
    then obtain p' where "(i, p') \<in> set (h_vertices hC ! ?s)" "copied_entry hC v (i, p')"
      using c by (fastforce simp: copied_shard_def)
    moreover from this have "find_vertex hC i = Some p'"
      using c by (simp add: find_vertex_def copied_shard_def map_of_eq_Some_iff)
    ultimately show "\<exists>v p'. deref (h_store h) p = Some v \<and> vid v = i \<and> \<not> is_deleted v \<and>
        find_vertex hC i = Some p' \<and> copied_entry hC v (i, p')" using v by blast }
  assume "find_vertex hC i = Some p'"
  then have "i \<in> fst ` set (h_vertices hC ! ?s)"
    by (force simp: find_vertex_def dest: map_of_SomeD)
  then have "i \<in> fst ` set (h_vertices h ! ?s)"
    using copied_keys [OF map shard_idx_less c] by simp
  then show "find_vertex h i \<noteq> None" by (auto simp: find_vertex_def map_of_eq_None_iff)
qed

lemma ptr_of_copied:
  assumes "map_ok h" "length (h_vertices hC) = 16" "find_vertex h i = Some p"
    "\<forall>j < 16. copied_shard (h_store h) (h_vertices h ! j) hC j"
  obtains v w where "deref (h_store h) p = Some v" "vid v = i" "\<not> is_deleted v"
    "find_vertex hC i = Some (ptr_of hC i)" "deref (h_store hC) (ptr_of hC i) = Some w" "copy_of v w"
  using copied_find(1) [OF assms(1,2,4,3)] that by (auto simp: copied_entry_def ptr_of_def)

lemma copied_level:
  assumes h: "saveable_index h" and hC: "length (h_vertices hC) = 16"
    and copied: "\<forall>j < 16. copied_shard (h_store h) (h_vertices h ! j) hC j"
    and es: "edges_of (h_store h) p l = Some es"
  shows "level_ok hC (h_store h) es"
  unfolding level_ok_def
proof (intro conjI allI impI)
  have map: "map_ok h" and graph: "graph_ok (h_store h)" using h by (simp_all add: saveable_index_def hnsw_ok_def)
  have eok: "edges_ok (h_store h) l es" using graph_ok_edges [OF graph es] .
  show "length es < 2 ^ 32" using h es by (auto simp: saveable_index_def)
  fix env assume env: "fair env"
  have "deref (h_store h) (fst e) \<noteq> None" if "e \<in> set es" for e
    using eok that by (auto simp: edges_ok_def has_level_def edges_of_def bind_eq_None_conv)
  then obtain xs where xs: "id_edges (h_store h) (visit env es) = Some xs"
    using id_edges_total [of "visit env es" "h_store h"] env by fastforce
  have live: "\<exists>q v. deref (h_store h) q = Some v \<and> \<not> is_deleted v \<and> vid v = fst x" if "x \<in> set xs" for x
    using that unfolding id_edges_set [OF xs] by fastforce
  have wf: "uuid_wf (fst x)" if "x \<in> set xs" for x
    using live [OF that] h unfolding saveable_index_def saveable_def by metis
  have img: "\<exists>w. deref (h_store hC) (ptr_of hC (fst x)) = Some w \<and> vid w = fst x" if x: "x \<in> set xs" for x
  proof -
    obtain q v where "deref (h_store h) q = Some v" "\<not> is_deleted v" "vid v = fst x" using live [OF x] by blast
    then have "find_vertex h (fst x) = Some q" using map_ok_live [OF map] by metis
    then obtain v' w where "vid v' = fst x" "deref (h_store hC) (ptr_of hC (fst x)) = Some w" "copy_of v' w"
      by (rule ptr_of_copied [OF map hC _ copied])
    then show ?thesis by (simp add: copy_of_def)
  qed
  have "distinct (map fst xs)"
  proof (rule id_edges_distinct [OF xs])
    show "distinct (map fst (visit env es))"
      using eok env mset_eq_imp_distinct_iff [of "map fst (visit env es)" "map fst es"]
      by (simp add: edges_ok_def)
    show "p = q" if "deref (h_store h) p = Some v" "deref (h_store h) q = Some w"
      "\<not> is_deleted v" "\<not> is_deleted w" "vid v = vid w" for p q v w
      using map_ok_live [OF map that(1,3)] map_ok_live [OF map that(2,4)] that(5) by simp
  qed
  moreover have "inj_on (\<lambda>x. ptr_of hC (fst x)) (set xs) \<or> \<not> distinct (map fst xs)"
  proof (cases "distinct (map fst xs)")
    case True
    have "x = y" if "x \<in> set xs" "y \<in> set xs" "ptr_of hC (fst x) = ptr_of hC (fst y)" for x y
    proof -
      have "fst x = fst y" using img [OF that(1)] img [OF that(2)] that(3) by auto
      then show ?thesis using True that(1,2) by (metis distinct_map inj_on_def)
    qed
    then show ?thesis by (auto simp: inj_on_def)
  qed simp
  ultimately have "distinct (map (\<lambda>x. ptr_of hC (fst x)) xs)"
    by (auto simp: distinct_map)
  then show "\<exists>xs. id_edges (h_store h) (visit env es) = Some xs \<and> (\<forall>x \<in> set xs. uuid_wf (fst x)) \<and>
      distinct (map (\<lambda>x. ptr_of hC (fst x)) xs)" using xs wf by blast
qed

lemma copied_ready:
  assumes h: "saveable_index h" and hC: "length (h_vertices hC) = 16"
    and copied: "\<forall>j < 16. copied_shard (h_store h) (h_vertices h ! j) hC j"
    and e: "j < 16" "e \<in> set (h_vertices h ! j)"
  shows "ready hC (h_store h) (h_store hC) e \<and> shard_idx (fst e) = j"
proof -
  have map: "map_ok h" and graph: "graph_ok (h_store h)" using h by (simp_all add: saveable_index_def hnsw_ok_def)
  obtain v where v: "deref (h_store h) (snd e) = Some v" "vid v = fst e" "\<not> is_deleted v" "shard_idx (fst e) = j"
    using map_ok_entry [OF map e] by (auto simp: entry_ok_def)
  have "find_vertex h (fst e) = Some (snd e)" using map_ok_live [OF map v(1,3)] v(2) by simp
  then obtain v' w where w: "deref (h_store h) (snd e) = Some v'"
    "find_vertex hC (fst e) = Some (ptr_of hC (fst e))"
    "deref (h_store hC) (ptr_of hC (fst e)) = Some w" "copy_of v' w"
    by (rule ptr_of_copied [OF map hC _ copied])
  have [simp]: "v' = v" using w(1) v(1) by simp
  have "level_ok hC (h_store h) es" if "edges_at v l = Some es" for l es
    using copied_level [OF h hC copied, of "snd e" l es] that v(1) by (simp add: edges_of_def)
  moreover have "uuid_wf (vid v)" using h v(1,3) by (simp add: saveable_index_def saveable_def)
  then have "uuid_wf (fst e)" using v(2) by simp
  moreover have "int (length (vedges v)) = vlevel v + 1" using graph v(1) by (simp add: graph_ok_def)
  moreover have "edges_of (h_store hC) (ptr_of hC (fst e)) l = Some []" if "0 \<le> l" "l \<le> vlevel v" for l
    using w(3,4) that by (simp add: edges_of_def edges_at_def copy_of_def)
  ultimately show ?thesis using v w by (simp add: ready_def copy_of_def)
qed

lemma distinct_shards:
  "\<forall>j < length xs. distinct (map fst (xs ! j)) \<and> (\<forall>e \<in> set (xs ! j). f (fst e) = k + j) \<Longrightarrow>
   distinct (map fst (concat xs))"
proof (induction xs arbitrary: k)
  case (Cons x xs)
  have tl: "distinct (map fst (xs ! j)) \<and> (\<forall>e \<in> set (xs ! j). f (fst e) = Suc k + j)" if "j < length xs" for j
    using Cons.prems [rule_format, of "Suc j"] that by simp
  then have "distinct (map fst (concat xs))" using Cons.IH [of "Suc k"] by blast
  moreover have "f (fst e) \<noteq> f (fst e')" if e: "e \<in> set x" and e': "e' \<in> set (concat xs)" for e e'
  proof -
    obtain x' where "x' \<in> set xs" "e' \<in> set x'" using e' by auto
    then obtain j where "j < length xs" "e' \<in> set (xs ! j)" by (metis in_set_conv_nth)
    then have "f (fst e') = Suc k + j" using tl by blast
    moreover have "f (fst e) = k" using Cons.prems [rule_format, of 0] e by simp
    ultimately show ?thesis by simp
  qed
  then have "fst ` set x \<inter> fst ` set (concat xs) = {}" by fastforce
  ultimately show ?case using Cons.prems [rule_format, of 0] by simp
qed simp

lemma entries_distinct: "map_ok h \<Longrightarrow> distinct (map fst (entries h))"
  unfolding entries_def by (rule distinct_shards [of _ shard_idx 0]) (auto simp: map_ok_def entry_ok_def)

lemma saved_shards:
  assumes h: "saveable_index h" and env: "fair env" and hA: "h_size hA = h_size h" "length (h_vertices hA) = 16"
    and buf: "length buf = 16"
  obtains bs hC buf' where "save_shards env (h_store h) (h_vertices h) = Some bs"
    "load_shards [0..<16] buf (hA, bs @ rest) = Some (Inr buf', (hC, rest))" "length buf' = 16"
    "length (h_vertices hC) = 16" "\<forall>j < 16. copied_shard (h_store h) (h_vertices h ! j) hC j"
    "h_len hC = h_len hA + h_len h" "h_bytes_size hC = h_bytes_size hA + h_bytes_size h"
    "length (h_store hC) = length (h_store hA) + length (entries h)" "grown hA hC"
proof -
  have len: "length (h_vertices h) = 16" and counters: "counters_ok h"
    using h by (simp_all add: saveable_index_def hnsw_ok_def map_ok_def)
  have shards: "\<forall>x \<in> set (h_vertices h). source_shard (unat (h_size hA)) (h_store h) x"
    using saveable_shards [OF h] hA(1) by simp
  obtain bs where bs: "save_shards env (h_store h) (h_vertices h) = Some bs"
    using save_shards_total [OF shards env] by blast
  have "\<exists>h' buf'. load_shards [0..<0 + length (h_vertices h)] buf (hA, bs @ rest) = Some (Inr buf', (h', rest)) \<and>
      length buf' = 16 \<and> grown hA h' \<and>
      (\<forall>j < length (h_vertices h). copied_shard (h_store h) (h_vertices h ! j) h' (0 + j)) \<and>
      (\<forall>s < 0. h_vertices h' ! s = h_vertices hA ! s) \<and>
      h_len h' = h_len hA + of_nat (length (concat (h_vertices h))) \<and>
      length (h_store h') = length (h_store hA) + length (concat (h_vertices h)) \<and>
      h_bytes_size h' = h_bytes_size hA +
        sum_list (map (\<lambda>e. vertex_size_at (h_store h) (snd e)) (concat (h_vertices h)))"
    by (rule load_shards_save [OF shards env buf _ bs]) (simp add: hA(2) len)
  then show thesis
    using that [OF bs] len hA(2) counters by (auto simp: grown_def counters_ok_def entries_def)
qed

lemma saved_edges:
  assumes h: "saveable_index h" and env: "fair env" and buf: "length buf = 16"
    and hC: "length (h_vertices hC) = 16" "\<forall>j < 16. copied_shard (h_store h) (h_vertices h ! j) hC j"
  obtains bs st' buf' where "save_shards_edges env (h_store h) (h_vertices h) = Some bs"
    "load_shards_edges [0..<16] buf (hC, bs @ rest) = Some (Inr buf', (hC\<lparr>h_store := st'\<rparr>, rest))"
    "core st' = core (h_store hC)" "\<forall>e \<in> set (entries h). finished hC (h_store h) st' e"
    "\<forall>p l. has_level st' p l = has_level (h_store hC) p l"
proof -
  have len: "length (h_vertices h) = 16" and map: "map_ok h" and flags: "flags_ok (h_store h)"
    using h by (simp_all add: saveable_index_def hnsw_ok_def map_ok_def)
  have dist: "distinct (map fst (concat (h_vertices h)))"
    using entries_distinct [OF map] by (simp add: entries_def)
  have "\<forall>j < length (h_vertices h). length (h_vertices hC ! (0 + j)) = length (h_vertices h ! j) \<and>
      (\<forall>e \<in> set (h_vertices h ! j). ready hC (h_store h) (h_store hC) e \<and> shard_idx (fst e) = 0 + j)"
    using copied_ready [OF h hC] hC(2) len by (auto simp: copied_shard_def)
  from load_shards_edges_save [OF env buf flags dist this]
  obtain bs where "save_shards_edges env (h_store h) (h_vertices h) = Some bs"
    "\<forall>rest. \<exists>st' buf'. load_shards_edges [0..<16] buf (hC\<lparr>h_store := h_store hC\<rparr>, bs @ rest) =
       Some (Inr buf', (hC\<lparr>h_store := st'\<rparr>, rest)) \<and> length buf' = 16 \<and>
     only_edges (ptr_of hC ` fst ` set (concat (h_vertices h))) (h_store hC) st' \<and>
     (\<forall>e \<in> set (concat (h_vertices h)). finished hC (h_store h) st' e)"
    using len by auto
  moreover from this(2) obtain st' buf' where "load_shards_edges [0..<16] buf (hC, bs @ rest) =
       Some (Inr buf', (hC\<lparr>h_store := st'\<rparr>, rest))"
     "only_edges (ptr_of hC ` fst ` set (concat (h_vertices h))) (h_store hC) st'"
     "\<forall>e \<in> set (concat (h_vertices h)). finished hC (h_store h) st' e"
    by (auto dest!: spec [of _ rest])
  ultimately show thesis using that [of bs buf' st'] by (simp add: only_edges_def entries_def)
qed

lemma same_lookup:
  assumes map: "map_ok h" and hC: "length (h_vertices hC) = 16"
    and copied: "\<forall>j < 16. copied_shard (h_store h) (h_vertices h ! j) hC j"
    and core: "core st' = core (h_store hC)"
  shows "rel_option same_item (lookup h i) (lookup (hC\<lparr>h_store := st', h_entrypoint := ep\<rparr>) i)"
proof -
  let ?h' = "hC\<lparr>h_store := st', h_entrypoint := ep\<rparr>"
  have find: "find_vertex ?h' i = find_vertex hC i" by (simp add: find_vertex_def)
  show ?thesis
  proof (cases "find_vertex h i")
    case None
    then have "find_vertex hC i = None" using copied_find(2) [OF map hC copied, of i] by (cases "find_vertex hC i") auto
    then show ?thesis using None find by (simp add: lookup_def)
  next
    case (Some p)
    obtain v w where v: "deref (h_store h) p = Some v" "find_vertex hC i = Some (ptr_of hC i)"
      "deref (h_store hC) (ptr_of hC i) = Some w" "copy_of v w"
      using ptr_of_copied [OF map hC Some copied] .
    obtain w' where "deref st' (ptr_of hC i) = Some w'" "vvector w' = vvector w" "vmetadata w' = vmetadata w"
      using core_eqD [OF core [symmetric] v(3)] by auto
    then show ?thesis using Some v find by (simp add: lookup_def copy_of_def same_item_def)
  qed
qed

lemma same_edge_ids:
  assumes h: "saveable_index h" and hC: "length (h_vertices hC) = 16"
    and copied: "\<forall>j < 16. copied_shard (h_store h) (h_vertices h ! j) hC j"
    and core: "core st' = core (h_store hC)"
    and fin: "\<forall>e \<in> set (entries h). finished hC (h_store h) st' e"
    and E: "edge_ids h i l = Some E"
  shows "edge_ids (hC\<lparr>h_store := st', h_entrypoint := ep\<rparr>) i l = Some E"
proof -
  have map: "map_ok h" and graph: "graph_ok (h_store h)" using h by (simp_all add: saveable_index_def hnsw_ok_def)
  obtain p es where p: "find_vertex h i = Some p" and es: "edges_of (h_store h) p l = Some es"
    and E': "E = id_edge_set (h_store h) es"
    using E by (auto simp: edge_ids_def bind_eq_Some_conv)
  obtain v where v: "deref (h_store h) p = Some v" "vid v = i" "\<not> is_deleted v"
    "(i, p) \<in> set (h_vertices h ! shard_idx i)" using find_vertex_ok [OF map p] .
  have lvl: "0 \<le> l" "l \<le> vlevel v" "edges_at v l = Some es"
    using es v(1) graph by (auto simp: edges_of_def edges_at_def graph_ok_def split: if_splits)
  have len16: "length (h_vertices h) = 16" using map by (simp add: map_ok_def)
  have "(i, p) \<in> set (entries h)"
    using v(4) len16 shard_idx_less [of i] unfolding entries_def by (metis UN_I nth_mem set_concat)
  then have "finished hC (h_store h) st' (i, p)" using fin by blast
  then obtain xs where xs: "set xs = E" "edges_of st' (ptr_of hC i) l = Some (by_ptr hC xs)"
    using v(1) lvl unfolding finished_def edges_match_def E' by auto
  have img: "\<exists>w. deref st' (ptr_of hC u) = Some w \<and> vid w = u \<and> \<not> is_deleted w" if u: "(u, d) \<in> E" for u d
  proof -
    obtain q v' where "deref (h_store h) q = Some v'" "\<not> is_deleted v'" "vid v' = u"
      using u unfolding E' id_edge_set_def by auto
    then have "find_vertex h u = Some q" using map_ok_live [OF map] by metis
    then obtain v2 w where "vid v2 = u" "deref (h_store hC) (ptr_of hC u) = Some w" "copy_of v2 w"
      by (rule ptr_of_copied [OF map hC _ copied])
    then show ?thesis using core_eqD [OF core [symmetric], of "ptr_of hC u" w]
      by (auto simp: copy_of_def is_deleted_def)
  qed
  have "id_edge_set st' (by_ptr hC xs) = E"
  proof (intro subset_antisym subsetI)
    fix x assume "x \<in> id_edge_set st' (by_ptr hC xs)"
    then obtain u d w where "(u, d) \<in> set xs" "deref st' (ptr_of hC u) = Some w" "x = (vid w, d)"
      unfolding id_edge_set_def by_ptr_def by auto
    then show "x \<in> E" using img [of u d] xs(1) by auto
  next
    fix x assume x: "x \<in> E"
    obtain u d where ud: "x = (u, d)" by (cases x)
    then obtain w where "deref st' (ptr_of hC u) = Some w" "vid w = u" "\<not> is_deleted w"
      using img x by blast
    moreover have "(ptr_of hC u, d) \<in> set (by_ptr hC xs)"
      using x ud xs(1) by (force simp: by_ptr_def)
    ultimately show "x \<in> id_edge_set st' (by_ptr hC xs)"
      unfolding id_edge_set_def using ud by blast
  qed
  moreover have "find_vertex hC i = Some (ptr_of hC i)"
    by (rule ptr_of_copied [OF map hC p copied])
  ultimately show ?thesis using xs(2) by (simp add: edge_ids_def find_vertex_def)
qed

text \<open>What \<open>Load\<close> does with the bytes \<open>Save\<close> wrote, in the order it reads them.\<close>

lemma load_body_runs:
  assumes h: "saveable_index h" and env: "fair env"
    and hA: "h_size hA = h_size h" "length (h_vertices hA) = 16"
    and e: "deref (h_store h) (h_entrypoint h) = Some e" "\<not> is_deleted e"
  obtains vs es hD st' where "save_shards (sub env 0) (h_store h) (h_vertices h) = Some vs"
    "save_shards_edges (sub env 1) (h_store h) (h_vertices h) = Some es"
    "load_body (hA, vid e @ vs @ es @ rest) =
       Some (Inr (), (hD\<lparr>h_entrypoint := ptr_of hD (vid e), h_store := st'\<rparr>, rest))"
    "length (h_vertices hD) = 16" "\<forall>j < 16. copied_shard (h_store h) (h_vertices h ! j) hD j"
    "h_len hD = h_len h" "h_bytes_size hD = h_bytes_size hA + h_bytes_size h"
    "length (h_store hD) = length (h_store hA) + length (entries h)" "grown (hA\<lparr>h_len := 0\<rparr>) hD"
    "core st' = core (h_store hD)" "\<forall>e \<in> set (entries h). finished hD (h_store h) st' e"
    "\<forall>p l. has_level st' p l = has_level (h_store hD) p l"
proof -
  have f: "fair (sub env 0)" "fair (sub env 1)" using env by auto
  let ?hB = "hA\<lparr>h_len := 0\<rparr>"
  have wf: "uuid_wf (vid e)" using h e unfolding saveable_index_def saveable_def by metis
  have sA: "h_size ?hB = h_size h" "length (h_vertices ?hB) = 16" using hA by simp_all
  have buf: "length (vid e) = 16" using wf by (simp add: uuid_wf_def)
  obtain es where es: "save_shards_edges (sub env 1) (h_store h) (h_vertices h) = Some es"
    using saved_shards [OF h f(1) sA buf] saved_edges [OF h f(2) buf] by metis
  obtain vs hD buf2 where vs: "save_shards (sub env 0) (h_store h) (h_vertices h) = Some vs"
    "load_shards [0..<16] (vid e) (?hB, vs @ (es @ rest)) = Some (Inr buf2, (hD, es @ rest))"
    and copied: "length buf2 = 16" "length (h_vertices hD) = 16"
      "\<forall>j < 16. copied_shard (h_store h) (h_vertices h ! j) hD j"
      "h_len hD = h_len ?hB + h_len h" "h_bytes_size hD = h_bytes_size ?hB + h_bytes_size h"
      "length (h_store hD) = length (h_store ?hB) + length (entries h)" "grown ?hB hD"
    by (rule saved_shards [OF h f(1) sA buf])
  let ?ep = "ptr_of hD (vid e)"
  let ?hE = "hD\<lparr>h_entrypoint := ?ep\<rparr>"
  have E: "length (h_vertices ?hE) = 16" "\<forall>j < 16. copied_shard (h_store h) (h_vertices h ! j) ?hE j"
    using copied by (simp_all add: copied_shard_def copied_entry_def)
  obtain es2 st' buf3 where es2: "save_shards_edges (sub env 1) (h_store h) (h_vertices h) = Some es2"
    "load_shards_edges [0..<16] buf2 (?hE, es2 @ rest) = Some (Inr buf3, (?hE\<lparr>h_store := st'\<rparr>, rest))"
    and core: "core st' = core (h_store ?hE)" and fin: "\<forall>e \<in> set (entries h). finished ?hE (h_store h) st' e"
    and lvl: "\<forall>p l. has_level st' p l = has_level (h_store ?hE) p l"
    by (rule saved_edges [OF h f(2) copied(1) E])
  have "load_body (hA, vid e @ vs @ es @ rest) = Some (Inr (), (hD\<lparr>h_entrypoint := ?ep, h_store := st'\<rparr>, rest))"
    using vs es es2 wf
    by (simp add: load_body_def andthen_def read_uuid_append modify_def ret_def)
  moreover have "\<forall>e \<in> set (entries h). finished hD (h_store h) st' e"
    using fin by (simp add: finished_def edges_match_def by_ptr_def)
  ultimately show thesis using that [OF vs(1) es] copied core lvl by simp
qed

lemma load_body_save:
  assumes h: "saveable_index h" and env: "fair env"
    and hA: "h_size hA = h_size h" "length (h_vertices hA) = 16"
    and e: "deref (h_store h) (h_entrypoint h) = Some e" "\<not> is_deleted e"
  obtains vs es h' where "save_shards (sub env 0) (h_store h) (h_vertices h) = Some vs"
    "save_shards_edges (sub env 1) (h_store h) (h_vertices h) = Some es"
    "load_body (hA, vid e @ vs @ es @ rest) = Some (Inr (), (h', rest))"
    "same_index h h'" "h_bytes_size h' = h_bytes_size hA + h_bytes_size h"
proof -
  have map: "map_ok h" using h by (simp add: saveable_index_def hnsw_ok_def)
  obtain vs es hD st' where load: "save_shards (sub env 0) (h_store h) (h_vertices h) = Some vs"
    "save_shards_edges (sub env 1) (h_store h) (h_vertices h) = Some es"
    "load_body (hA, vid e @ vs @ es @ rest) =
       Some (Inr (), (hD\<lparr>h_entrypoint := ptr_of hD (vid e), h_store := st'\<rparr>, rest))"
    and hD: "length (h_vertices hD) = 16" "\<forall>j < 16. copied_shard (h_store h) (h_vertices h ! j) hD j"
    "h_len hD = h_len h" "h_bytes_size hD = h_bytes_size hA + h_bytes_size h"
    "core st' = core (h_store hD)" "\<forall>e \<in> set (entries h). finished hD (h_store h) st' e"
    by (rule load_body_runs [OF assms, of rest])
  let ?ep = "ptr_of hD (vid e)"
  let ?h' = "hD\<lparr>h_store := st', h_entrypoint := ?ep\<rparr>"
  have "same_index h ?h'"
    unfolding same_index_def
  proof (intro conjI allI impI)
    show "h_len ?h' = h_len h" using hD(3) by simp
    show "rel_option same_item (lookup h i) (lookup ?h' i)" for i
      by (rule same_lookup [OF map hD(1,2,5)])
    show "edge_ids ?h' i l = Some X" if "edge_ids h i l = Some X" for i l X
      by (rule same_edge_ids [OF h hD(1,2,5,6) that])
    have "find_vertex h (vid e) = Some (h_entrypoint h)" using map_ok_live [OF map e] .
    then obtain v w where "vid v = vid e" "deref (h_store hD) ?ep = Some w" "copy_of v w"
      by (rule ptr_of_copied [OF map hD(1) _ hD(2)])
    then obtain w' where "deref st' ?ep = Some w'" "vid w' = vid e"
      using core_eqD [OF hD(5) [symmetric], of ?ep w] by (auto simp: copy_of_def)
    then show "entrypoint_id ?h' = entrypoint_id h" using e by (simp add: entrypoint_id_def)
  qed
  then show thesis using that [OF load(1,2), of ?h'] load(3) hD(4) by simp
qed

lemma space_round_trip: "space_idx_to_space (space_to_space_idx s) = Inr s"
  by (cases s) (simp_all add: space_idx_to_space_def)

lemma saveable_len:
  assumes h: "saveable_index h"
  shows "hnsw_len h \<noteq> 0"
proof -
  have map: "map_ok h" and counters: "counters_ok h" and small: "length (entries h) < 2 ^ 32"
    using h by (simp_all add: saveable_index_def hnsw_ok_def)
  obtain e where e: "deref (h_store h) (h_entrypoint h) = Some e" "\<not> is_deleted e"
    using h by (auto simp: saveable_index_def entrypoint_live_def live_def)
  have "find_vertex h (vid e) = Some (h_entrypoint h)" using map_ok_live [OF map e] .
  then have "(vid e, h_entrypoint h) \<in> set (h_vertices h ! shard_idx (vid e))"
    by (simp add: find_vertex_def map_of_SomeD)
  then have "entries h \<noteq> []"
    using map shard_idx_less [of "vid e"] unfolding entries_def map_ok_def
    by (metis empty_iff in_set_conv_nth list.set(1) nth_mem concat_eq_Nil_conv)
  then show "hnsw_len h \<noteq> 0"
    using counters small
    by (auto simp: hnsw_len_def counters_ok_def signed_eq_0_iff unsigned_of_nat take_bit_nat_eq_self
        dest!: arg_cong [of _ 0 unat])
qed

lemma load_save:
  assumes h: "saveable_index h" and env: "fair env" and h0: "length (h_vertices h0) = 16"
    and size: "header \<or> h_size h0 = h_size h"
  shows "\<exists>bs h'. hnsw_save env header h = Some (None, bs) \<and>
    hnsw_load header (h0, bs @ rest) = Some (Inr (), (h', rest)) \<and> same_index h h' \<and>
    h_bytes_size h' = h_bytes_size h0 + h_bytes_size h"
proof -
  have nil: "h_entrypoint h \<noteq> nil" and cfg: "config_fits (h_config h)" and sz: "unat (h_size h) < 2 ^ 32"
    and map: "map_ok h" and counters: "counters_ok h" and small: "length (entries h) < 2 ^ 32"
    using h by (simp_all add: saveable_index_def hnsw_ok_def)
  obtain e where e: "deref (h_store h) (h_entrypoint h) = Some e" "\<not> is_deleted e"
    using h by (auto simp: saveable_index_def entrypoint_live_def live_def)
  have len: "hnsw_len h \<noteq> 0" by (rule saveable_len [OF h])
  show ?thesis
  proof (cases header)
    case False
    obtain vs es h' where "save_shards (sub env 0) (h_store h) (h_vertices h) = Some vs"
      "save_shards_edges (sub env 1) (h_store h) (h_vertices h) = Some es"
      "load_body (h0, vid e @ vs @ es @ rest) = Some (Inr (), (h', rest))"
      "same_index h h'" "h_bytes_size h' = h_bytes_size h0 + h_bytes_size h"
      using load_body_save [OF h env _ h0 e] size False by blast
    then show ?thesis using False len nil e by (simp add: hnsw_save_def hnsw_load_def)
  next
    case True
    let ?c = "(h_config h)\<lparr>cfg_extend_candidates := cfg_extend_candidates (h_config h0),
                cfg_keep_pruned := cfg_keep_pruned (h_config h0)\<rparr>"
    let ?hA = "h0\<lparr>h_config := ?c, h_size := h_size h, h_space := h_space h\<rparr>"
    have w: "ucast (ucast (h_size h) :: 32 word) = h_size h"
      using sz by (simp add: word_unat_eq_iff unsigned_take_bit_eq unsigned_ucast_eq take_bit_nat_eq_self)
    have hd: "load_header (h0, save_header h @ r) = Some (Inr (), (?hA, r))" for r
      using cfg sz
      by (simp add: load_header_def save_header_def andthen_def on_config_def config_load_save
          read_word_append w space_round_trip)
    obtain vs es h' where "save_shards (sub env 0) (h_store h) (h_vertices h) = Some vs"
      "save_shards_edges (sub env 1) (h_store h) (h_vertices h) = Some es"
      "load_body (?hA, vid e @ vs @ es @ rest) = Some (Inr (), (h', rest))"
      "same_index h h'" "h_bytes_size h' = h_bytes_size ?hA + h_bytes_size h"
      by (rule load_body_save [OF h env _ _ e, where hA = ?hA and rest = rest]) (simp_all add: h0)
    then show ?thesis using True len nil e hd [of "vid e @ vs @ es @ rest"]
      by (simp add: hnsw_save_def hnsw_load_def andthen_def)
  qed
qed

end
