(* ===== verification/HnswSamples.thy ===== *)
theory HnswSamples
  imports HnswRoundTrip
begin

text \<open>
  Concrete indexes and queries for the runs of \<open>HnswProperties\<close>. They use the native Manhattan
  distance on vectors of one small component: below \<open>2 ^ 22\<close> a bit pattern is a subnormal number
  of as many units, the float32 operations of the distance are exact there, and the distance is
  the difference of the patterns. \<open>manhattan_code\<close> makes such runs evaluate.
\<close>

section \<open>The native distance on small patterns\<close>

definition small :: "f32 \<Rightarrow> bool" where "small x = (x < 0x400000)"

lemma bit_length_le: "m < 2 ^ k \<Longrightarrow> bit_length m \<le> k"
proof (induction k arbitrary: m)
  case 0 then show ?case by (simp add: bit_length.simps)
next
  case (Suc k)
  have "m div 2 < 2 ^ k" using Suc.prems by auto
  then show ?case using Suc.IH [of "m div 2"] by (subst bit_length.simps) auto
qed

lemma round_small:
  assumes "m < 2 ^ 23"
  shows "f32_round s m (- 149) False = f32_pack s m"
proof -
  have "bit_length m \<le> 23" using bit_length_le [OF assms] .
  then have "max (- 149 + int (bit_length m) - 24) (- 149) = (- 149 :: int)" by simp
  then show ?thesis using assms by (simp add: f32_round_def f32_encode_def Let_def)
qed

lemma small_iff: "small x = (unat x < 2 ^ 22)"
  by (simp add: small_def word_less_nat_alt)

lemma small_bits: "small x \<Longrightarrow> bit x n \<Longrightarrow> n < 22"
proof -
  assume "small x" and b: "bit x n"
  then have "take_bit 22 x = x"
    by (simp add: small_iff word_unat_eq_iff unsigned_take_bit_eq take_bit_nat_eq_self)
  then show ?thesis using b by (metis bit_take_bit_iff)
qed

lemma unpack_small:
  assumes "small x"
  shows "f32_unpack x = Finite False (unat x) (- 149)" "f32_unpack (f32_neg x) = Finite True (unat x) (- 149)"
proof -
  have t: "take_bit 8 (drop_bit 23 x) = 0" "take_bit 23 x = x" "\<not> bit x 31"
    using small_bits [OF assms] by (fastforce intro!: bit_eqI simp: bit_simps)+
  then show "f32_unpack x = Finite False (unat x) (- 149)" by (simp add: f32_unpack_def)
  have m: "(0x80000000 :: f32) = push_bit 31 1" by simp
  have "take_bit 8 (drop_bit 23 (x XOR 0x80000000)) = 0" "take_bit 23 (x XOR 0x80000000) = x" "bit (x XOR 0x80000000) 31"
    unfolding m using small_bits [OF assms] by (fastforce intro!: bit_eqI simp: bit_simps simp del: push_bit_of_1)+
  then show "f32_unpack (f32_neg x) = Finite True (unat x) (- 149)" by (simp add: f32_unpack_def f32_neg_def)
qed
lemma small_unat: "small x \<Longrightarrow> unat x < 2 ^ 22"
  by (simp add: small_iff)

lemma abs_pack: "m < 2 ^ 23 \<Longrightarrow> f32_abs (f32_pack s m) = of_nat m"
proof -
  assume m: "m < 2 ^ 23"
  have b: "bit (of_nat m :: f32) n \<Longrightarrow> n < 23" for n
    using m by (metis (no_types, lifting) bit_of_nat_iff bit_take_bit_iff take_bit_nat_eq_self)
  have h: "(0x80000000 :: f32) = push_bit 31 1" by simp
  have e: "0x80000000 + of_nat m = (0x80000000 OR of_nat m :: f32)"
    unfolding h using b by (intro disjunctive_add) (fastforce simp: bit_simps simp del: push_bit_of_1)
  have mk: "(0x7FFFFFFF :: f32) = mask 31" by (simp add: mask_eq_exp_minus_1)
  show "f32_abs (f32_pack s m) = of_nat m"
    unfolding f32_abs_def f32_pack_def e mk unfolding h
    using b by (cases s) (fastforce intro!: bit_eqI simp: bit_simps simp del: push_bit_of_1)+
qed

lemma sub_small:
  assumes "small x" "small y"
  shows "f32_abs (f32_sub x y) = (if x < y then y - x else x - y)"
proof -
  define a b where "a = unat x" and "b = unat y"
  have bd: "a < 2 ^ 22" "b < 2 ^ 22" using assms small_unat by (auto simp: a_def b_def)
  have xy: "x = of_nat a" "y = of_nat b" by (simp_all add: a_def b_def)
  have sub: "f32_sub x y = (let c = int a - int b
      in if c = 0 then f32_pack False 0 else f32_round (c < 0) (nat \<bar>c\<bar>) (- 149) False)"
    by (simp add: f32_sub_def f32_add_def unpack_small assms signed_mantissa_def Let_def a_def b_def)
  consider "a = b" | "a < b" | "b < a" by linarith
  then show ?thesis
  proof cases
    case 1
    then show ?thesis unfolding sub by (simp add: abs_pack xy f32_pack_def f32_abs_def)
  next
    case 2
    then have "x < y" by (simp add: word_less_nat_alt a_def b_def)
    moreover have "nat \<bar>int a - int b\<bar> = b - a" using 2 by simp
    moreover have "y - x = of_nat (b - a)" using 2 by (simp add: xy of_nat_diff)
    ultimately show ?thesis using 2 bd round_small [of "b - a" True] abs_pack [of "b - a" True]
      unfolding sub by (simp add: Let_def)
  next
    case 3
    then have "\<not> x < y" by (simp add: word_less_nat_alt a_def b_def)
    moreover have "nat \<bar>int a - int b\<bar> = a - b" using 3 by simp
    moreover have "x - y = of_nat (a - b)" using 3 by (simp add: xy of_nat_diff)
    ultimately show ?thesis using 3 bd round_small [of "a - b" False] abs_pack [of "a - b" False]
      unfolding sub by (simp add: Let_def)
  qed
qed

lemma add_zero_small: "small x \<Longrightarrow> f32_add 0 x = x"
proof -
  assume x: "small x"
  have z: "small 0" by (simp add: small_def)
  have b: "unat x < 2 ^ 22" using small_unat [OF x] .
  show "f32_add 0 x = x"
  proof (cases "x = 0")
    case True
    then show ?thesis using unpack_small(1) [OF z] by (simp add: f32_add_def signed_mantissa_def f32_pack_def)
  next
    case False
    then have "unat x \<noteq> 0" by (simp add: unat_eq_0)
    then show ?thesis using b round_small [of "unat x" False] unpack_small(1) [OF z] unpack_small(1) [OF x]
      by (simp add: f32_add_def signed_mantissa_def f32_pack_def Let_def)
  qed
qed

lemma small_diff: "small x \<Longrightarrow> small y \<Longrightarrow> small (if x < y then y - x else x - y)"
  by (auto simp: small_iff unat_sub_if' word_less_nat_alt)

definition manhattan :: distance where
  "manhattan = space_distance native_impl Manhattan"

lemma manhattan_small: "small x \<Longrightarrow> small y \<Longrightarrow> manhattan [x] [y] = (if x < y then y - x else x - y)"
  using sub_small [of x y] add_zero_small [OF small_diff [of x y]]
  by (simp add: manhattan_def native_impl_def native_manhattan_def)

lemma manhattan_code [code]:
  "manhattan a b =
     (if length a = 1 \<and> length b = 1 \<and> small (hd a) \<and> small (hd b)
      then (if hd a < hd b then hd b - hd a else hd a - hd b)
      else space_distance native_impl Manhattan a b)"
proof (cases "length a = 1 \<and> length b = 1")
  case True
  then obtain x y where "a = [x]" "b = [y]" by (auto simp: length_Suc_conv)
  then show ?thesis using manhattan_small [of x y] by (simp add: manhattan_def)
qed (auto simp: manhattan_def)

lemma accepted_manhattan [simp]: "accepted_distance manhattan"
  unfolding manhattan_def by (rule accepted_native)

section \<open>A sample index\<close>

definition uuid_of :: "byte \<Rightarrow> uuid" where
  "uuid_of b = b # replicate 15 0"

definition plain_options :: "int \<Rightarrow> hnsw_option list" where
  "plain_options n = [hnsw_level_multiplier 0x3F800000, hnsw_m n, hnsw_m_max n, hnsw_m_max0 n]"

definition sample_index :: "int \<Rightarrow> hnsw" where
  "sample_index n = new_hnsw (\<lambda>x. x) 1 Manhattan (plain_options n)"

lemma plain_config_ok: "0 \<le> n \<Longrightarrow> config_ok (new_hnsw_config lg (plain_options n))"
  by (simp add: config_ok_def new_hnsw_config_def plain_options_def hnsw_m_def hnsw_m_max_def
      hnsw_m_max0_def hnsw_level_multiplier_def f32_minus_one_def Let_def)

lemma sample_ok:
  assumes "0 \<le> n"
  shows "hnsw_ok (sample_index n)" "lookup (sample_index n) = Map.empty" "h_entrypoint (sample_index n) = nil"
proof -
  note plain_config_ok [OF assms]
  then show "hnsw_ok (sample_index n)" "lookup (sample_index n) = Map.empty"
    unfolding sample_index_def by (rule new_hnsw_ok)+
  show "h_entrypoint (sample_index n) = nil" by (simp add: sample_index_def new_hnsw_def)
qed

text \<open>An index that holds one item with one component.\<close>

definition one_vertex :: vertex where
  "one_vertex = \<lparr>vid = uuid_of 1, vvector = [5], vmetadata = Some [([97], [98])], vlevel = 0,
     vdeleted = 0, vedges = [[]]\<rparr>"

definition one_item :: hnsw where
  "one_item = (sample_index 2)\<lparr>h_bytes_size := 22, h_len := 1,
     h_vertices := (h_vertices (sample_index 2))[1 := [(uuid_of 1, 1)]],
     h_entrypoint := 1, h_store := [one_vertex]\<rparr>"

lemma one_item_inserted:
  "hnsw_insert D env (uuid_of 1) [5] (Some [([97], [98])]) l (sample_index 2) = Some (Inr (), one_item)"
proof -
  have s: "shard_idx (uuid_of 1) = 1" by code_simp
  show ?thesis
    using sample_ok(3) [of 2]
    by (simp add: hnsw_insert_def new_vertex_def set_level_def store_vertex_def find_vertex_def s one_item_def
        one_vertex_def sample_index_def new_hnsw_def vertices_map_shard_count_def alloc_def Let_def
        vertex_bytes_size_def metadata_bytes_size_def andthen_def)
qed

lemma one_item_ok:
  "hnsw_ok one_item" "lookup one_item = [uuid_of 1 \<mapsto> ([5], Some [([97], [98])])]"
proof -
  have "lookup (sample_index 2) (uuid_of 1) = None" using sample_ok(2) [of 2] by simp
  from insert_ok [OF sample_ok(1) [of 2] plain_env(1) accepted_manhattan _ this, of 0 0 "[5]" "Some [([97], [98])]"]
  show "hnsw_ok one_item" "lookup one_item = [uuid_of 1 \<mapsto> ([5], Some [([97], [98])])]"
    using sample_ok(2) [of 2] by (auto simp: one_item_inserted)
qed

lemma one_item_store: "deref (h_store one_item) p = (if p = 1 then Some one_vertex else None)"
  by (simp add: one_item_def deref_def nil_def)

lemma one_item_entrypoint: "h_entrypoint one_item = 1" "entrypoint_live one_item" "h_entrypoint one_item \<noteq> nil"
  by (simp_all add: one_item_def entrypoint_live_def live_def deref_def nil_def one_vertex_def is_deleted_def)

lemma small_not_nan: "small x \<Longrightarrow> \<not> f32_nan x"
proof -
  assume "small x"
  then have "x AND 0x7FFFFFFF < 0x400000"
    using word_and_le2 [of x "0x7FFFFFFF"] by (auto simp: small_def intro: le_less_trans)
  then show ?thesis by (auto simp: f32_nan_def dest: less_trans)
qed

lemma sample_config: "cfg_ef (h_config (sample_index n)) = 20"
  "cfg_search_algorithm (h_config (sample_index n)) = hnsw_search_simple"
  by (simp_all add: sample_index_def new_hnsw_def new_hnsw_config_def plain_options_def hnsw_m_def hnsw_m_max_def
      hnsw_m_max0_def hnsw_level_multiplier_def f32_minus_one_def Let_def)

end
