(* ===== verification/HnswProperties.thy ===== *)
theory HnswProperties
  imports HnswSamples
begin

text \<open>
  The properties of the index. A run is a list of calls in the order the partition's log applies
  them; the specification of the index is a finite map with the same operations.
\<close>

section \<open>Runs and their specification\<close>

datatype index_op =
    IndexInsert uuid vec metadata int
  | IndexRemove uuid
  | IndexGet uuid

datatype index_reply = Done | Item vec

definition index_step :: "distance \<Rightarrow> env \<Rightarrow> index_op \<Rightarrow> (hnsw, index_reply) prog" where
  "index_step D env op = (case op of
       IndexInsert i x m l \<Rightarrow> andthen (hnsw_insert D env i x m l) (\<lambda>_. ret Done)
     | IndexRemove i \<Rightarrow> andthen (hnsw_remove D env i) (\<lambda>_. ret Done)
     | IndexGet i \<Rightarrow> andthen (hnsw_get i) (\<lambda>x. ret (Item x)))"

fun run_index :: "distance \<Rightarrow> env \<Rightarrow> index_op list \<Rightarrow> hnsw \<Rightarrow> ((error + index_reply) list \<times> hnsw) option" where
  "run_index D env [] h = Some ([], h)"
| "run_index D env (op # ops) h = do {
     (r, h') \<leftarrow> index_step D (sub env 0) op h;
     (rs, h'') \<leftarrow> run_index D (sub env 1) ops h';
     Some (r # rs, h'') }"

type_synonym item_map = "uuid \<Rightarrow> (vec \<times> metadata) option"

fun map_step :: "index_op \<Rightarrow> item_map \<Rightarrow> (error + index_reply) \<times> item_map" where
  "map_step (IndexInsert i x m l) f =
     (if f i = None then (Inr Done, f(i \<mapsto> (x, m))) else (Inl ItemAlreadyExists, f))"
| "map_step (IndexRemove i) f =
     (if f i = None then (Inl ItemNotFound, f) else (Inr Done, f(i := None)))"
| "map_step (IndexGet i) f =
     ((case f i of None \<Rightarrow> Inl ItemNotFound | Some (x, m) \<Rightarrow> Inr (Item x)), f)"

fun run_map :: "index_op list \<Rightarrow> item_map \<Rightarrow> (error + index_reply) list \<times> item_map" where
  "run_map [] f = ([], f)"
| "run_map (op # ops) f =
     (let (r, f') = map_step op f; (rs, f'') = run_map ops f' in (r # rs, f''))"

fun level_given :: "index_op \<Rightarrow> bool" where
  "level_given (IndexInsert i x m l) = (-1 \<le> l)"
| "level_given _ = True"

lemma index_step_ok:
  assumes ok: "hnsw_ok h" and env: "fair env" and D: "accepted_distance D" and op: "level_given op"
  shows "\<exists>r h'. index_step D env op h = Some (r, h') \<and> hnsw_ok h' \<and> map_step op (lookup h) = (r, lookup h')"
proof (cases op)
  case (IndexInsert i x m l)
  show ?thesis
  proof (cases "lookup h i")
    case None
    obtain h' where "hnsw_insert D env i x m l h = Some (Inr (), h')" "hnsw_ok h'"
      "lookup h' = (lookup h)(i \<mapsto> (x, m))"
      using insert_ok [OF ok env D _ None] op IndexInsert by fastforce
    then show ?thesis using IndexInsert None by (simp add: index_step_def andthen_def ret_def)
  next
    case (Some y)
    then show ?thesis using IndexInsert ok op insert_exists [OF ok, of l i D env x m]
      by (simp add: index_step_def andthen_def)
  qed
next
  case (IndexRemove i)
  show ?thesis
  proof (cases "lookup h i")
    case None
    then show ?thesis using IndexRemove ok remove_missing [OF ok None, of D env]
      by (simp add: index_step_def andthen_def)
  next
    case (Some y)
    then obtain h' where "hnsw_remove D env i h = Some (Inr (), h')" "hnsw_ok h'"
      "lookup h' = (lookup h)(i := None)"
      using remove_ok [OF ok env D, of i] by auto
    then show ?thesis using IndexRemove Some by (simp add: index_step_def andthen_def ret_def)
  qed
next
  case (IndexGet i)
  then show ?thesis using ok get_lookup [OF ok, of i]
    by (auto simp: index_step_def andthen_def ret_def split: option.split)
qed

lemma run_index_ok:
  "hnsw_ok h \<Longrightarrow> fair env \<Longrightarrow> accepted_distance D \<Longrightarrow> \<forall>op \<in> set ops. level_given op \<Longrightarrow>
   \<exists>rs h'. run_index D env ops h = Some (rs, h') \<and> hnsw_ok h' \<and> run_map ops (lookup h) = (rs, lookup h')"
proof (induction ops arbitrary: env h)
  case (Cons op ops)
  obtain r h1 where r: "index_step D (sub env 0) op h = Some (r, h1)" "hnsw_ok h1"
    "map_step op (lookup h) = (r, lookup h1)"
    using index_step_ok [OF Cons.prems(1) fair_sub [OF Cons.prems(2), of 0] Cons.prems(3), of op]
      Cons.prems(4) by auto
  moreover obtain rs h2 where "run_index D (sub env 1) ops h1 = Some (rs, h2)" "hnsw_ok h2"
    "run_map ops (lookup h1) = (rs, lookup h2)"
    using Cons.IH [OF r(2) fair_sub [OF Cons.prems(2), of 1] Cons.prems(3)] Cons.prems(4) by auto
  ultimately show ?case by (simp add: Let_def)
qed simp

lemma card_dom_lookup:
  assumes "map_ok h"
  shows "card (dom (lookup h)) = length (entries h)"
proof -
  have "dom (lookup h) = fst ` set (entries h)"
  proof (intro subset_antisym subsetI)
    fix i assume "i \<in> dom (lookup h)"
    then obtain p where "find_vertex h i = Some p" using lookup_eq_None [OF assms, of i] by auto
    then obtain v where "(i, p) \<in> set (h_vertices h ! shard_idx i)" using find_vertex_ok [OF assms] by metis
    moreover have "h_vertices h ! shard_idx i \<in> set (h_vertices h)"
      using assms shard_idx_less [of i] by (simp add: map_ok_def)
    ultimately show "i \<in> fst ` set (entries h)" by (force simp: entries_def)
  next
    fix i assume "i \<in> fst ` set (entries h)"
    then obtain e where e: "e \<in> set (entries h)" "i = fst e" by auto
    obtain s where s: "s < 16" "e \<in> set (h_vertices h ! s)" using in_entries [OF assms e(1)] by blast
    then obtain v where "deref (h_store h) (snd e) = Some v" "vid v = i" "\<not> is_deleted v"
      using map_ok_entry [OF assms s] e(2) by (auto simp: entry_ok_def)
    then have "find_vertex h i \<noteq> None" using map_ok_live [OF assms] by force
    then show "i \<in> dom (lookup h)" using lookup_eq_None [OF assms, of i] by (simp add: domIff)
  qed
  then show ?thesis using entries_distinct [OF assms] distinct_card by fastforce
qed


definition sample_calls :: "index_op list" where
  "sample_calls = [IndexInsert (uuid_of 1) [0x3F800000] None 0, IndexGet (uuid_of 1),
     IndexInsert (uuid_of 1) [0x40000000] None 0, IndexInsert (uuid_of 2) [0x40000000] None 1,
     IndexRemove (uuid_of 1), IndexRemove (uuid_of 1), IndexGet (uuid_of 2)]"


section \<open>Search\<close>

lemma regular_one_item: "small x \<Longrightarrow> regular manhattan (h_store one_item) [x]"
proof -
  assume x: "small x"
  have five: "small 5" by (simp add: small_def)
  have d: "manhattan [x] [5] = (if x < 5 then 5 - x else x - 5)" by (rule manhattan_small [OF x five])
  then have "small (manhattan [x] [5])" using small_diff [OF x five] by simp
  then have "\<not> f32_nan (manhattan [x] [5])" by (rule small_not_nan)
  then show ?thesis by (simp add: regular_def one_item_store one_vertex_def)
qed





text \<open>
  C19: The greedy walk ends and its result is a local optimum: no live neighbour of the vertex it
  stops at is closer to the query, the distance it reports is that vertex's, and it is not farther
  than the vertex it began at.
\<close>

theorem greedy_walk_local_optimum:
  assumes "graph_ok st" "fair env" "has_level st ep l"
  shows "\<exists>ep' md'. greedy_closest_neighbor D st env q l ep (D q (vec_of st ep)) = Some (ep', md') \<and>
    md' = D q (vec_of st ep') \<and> \<not> f32_lt (D q (vec_of st ep)) md' \<and> (ep' = ep \<or> live st ep') \<and>
    (\<forall>p \<in> neighbours st ep' l. live st p \<longrightarrow> \<not> f32_lt (D q (vec_of st p)) md')"
  using greedy_spec [OF assms refl, of D q] by blast

theorem greedy_walk_local_optimum_witness:
  "\<exists>ep' md'. greedy_closest_neighbor manhattan (h_store one_item) (plain_env 0) [3] 0 1
      (manhattan [3] (vec_of (h_store one_item) 1)) = Some (ep', md') \<and>
    md' = manhattan [3] (vec_of (h_store one_item) ep')"
proof -
  have "graph_ok (h_store one_item)" using one_item_ok(1) by (simp add: hnsw_ok_def)
  moreover have "has_level (h_store one_item) 1 0"
    by (simp add: has_level_def edges_of_def edges_at_def one_item_store one_vertex_def)
  ultimately show ?thesis
    using greedy_walk_local_optimum [where st = "h_store one_item" and env = "plain_env 0" and ep = 1
        and l = 0 and D = manhattan and q = "[3]"] plain_env(1)
    by blast
qed

section \<open>Selection and degree\<close>

text \<open>
  Equivalence. Without candidate extension \<open>selectNeighborsHeuristic\<close> is the simple
  selection: both return a queue of the \<open>k\<close> closest candidates, the option \<open>keepPruned\<close> changes
  nothing, and every candidate that is dropped is at least as far as every one that is kept.
\<close>

theorem heuristic_selects_closest:
  assumes "kind neighbors = MaxPQ" "pq_inv neighbors" "\<forall>x \<in> set (queue neighbors). \<not> f32_negative (priority x)" "0 \<le> k"
  shows "\<exists>r s. select_neighbors_heuristic D st env q neighbors k l False keep = Some r \<and>
    select_neighbors_heuristic D st env q neighbors k l False (\<not> keep) = Some r \<and>
    select_neighbors k neighbors = Some s \<and>
    closest (nat k) (queue neighbors) (queue r) \<and> closest (nat k) (queue neighbors) (queue s)"
proof -
  have ok: "\<forall>x \<in> set (queue neighbors). pq_ok x" using assms(2) by (simp add: pq_inv_def)
  obtain r where r: "select_neighbors_heuristic D st env q neighbors k l False keep = Some r"
    "closest (nat k) (queue neighbors) (queue r)"
    using heuristic_plain [OF assms(3,1,4), of D st env q l keep] ok by blast
  moreover have "select_neighbors_heuristic D st env q neighbors k l False (\<not> keep) = Some r"
    using r(1) by (simp add: heuristic_eq)
  moreover obtain s where "select_neighbors k neighbors = Some s" "closest (nat k) (queue neighbors) (queue s)"
    using select_neighbors_spec [OF assms(4), of neighbors] assms(1,2) ok by blast
  ultimately show ?thesis by blast
qed

definition two_candidates :: "ptr pq" where
  "two_candidates = \<lparr>kind = MaxPQ, queue = [new_item 0x40000000 2, new_item 0x3F800000 1]\<rparr>"

theorem heuristic_selects_closest_witness:
  "\<exists>r. select_neighbors_heuristic manhattan (h_store one_item) (plain_env 0) [3] two_candidates 1 0 False True = Some r \<and>
    closest 1 (queue two_candidates) (queue r)"
proof -
  have "pq_inv two_candidates"
    by (simp add: pq_inv_def two_candidates_def new_item_def pq_ok_def is_heap_def heap_from_def
        max_less_def less_Suc_eq_le numeral_2_eq_2 parent_def less_Suc_eq)
  then show ?thesis
    using heuristic_selects_closest [where neighbors = two_candidates and k = 1 and D = manhattan
        and st = "h_store one_item" and env = "plain_env 0" and q = "[3]" and l = 0 and keep = True]
    by (auto simp: two_candidates_def new_item_def)
qed

text \<open>
  C20: \<open>pruneNeighbors\<close> bounds the degree: afterwards the vertex has at most \<open>k\<close> edges on the
  level, none of them to a removed item, every other edge set is what it was, and the graph is
  still well formed.
\<close>

theorem prune_bounds_degree:
  assumes "graph_ok st" "fair env" "accepted_distance D" "has_level st p l" "0 \<le> k" "known_algorithm cfg"
  shows "\<exists>st' es. prune_neighbors D env cfg p k l st = Some st' \<and> edges_of st' p l = Some es \<and>
    int (length es) \<le> k \<and> (\<forall>q \<in> fst ` set es. live st q) \<and> graph_ok st' \<and>
    (\<forall>p' l'. (p', l') \<noteq> (p, l) \<longrightarrow> edges_of st' p' l' = edges_of st p' l')"
proof -
  obtain st' es where "prune_neighbors D env cfg p k l st = Some st'" "frame st st'"
    "\<forall>p' l'. (p', l') \<noteq> (p, l) \<longrightarrow> edges_of st' p' l' = edges_of st p' l'"
    "edges_of st' p l = Some es" "\<forall>q \<in> fst ` set es. live st q" "int (length es) \<le> k"
    using prune_spec [OF assms(1-5), of cfg] assms(6) by blast
  then show ?thesis using frameD(3) by blast
qed

theorem prune_bounds_degree_witness:
  "\<exists>st' es. prune_neighbors manhattan (plain_env 0) (h_config one_item) 1 0 0 (h_store one_item) = Some st' \<and>
    edges_of st' 1 0 = Some es \<and> int (length es) \<le> 0"
proof -
  have "graph_ok (h_store one_item)" using one_item_ok(1) by (simp add: hnsw_ok_def)
  moreover have "has_level (h_store one_item) 1 0"
    by (simp add: has_level_def edges_of_def edges_at_def one_item_store one_vertex_def)
  moreover have "known_algorithm (h_config one_item)" by (simp add: known_algorithm_def one_item_def sample_config)
  ultimately show ?thesis
    using prune_bounds_degree [where st = "h_store one_item" and env = "plain_env 0" and D = manhattan
        and p = 1 and l = 0 and k = 0 and cfg = "h_config one_item"] by fastforce
qed

section \<open>The entrypoint after a removal\<close>

definition removal_calls :: "index_op list" where
  "removal_calls = [IndexInsert (uuid_of 1) [0] None 0, IndexInsert (uuid_of 2) [10] None 0,
     IndexInsert (uuid_of 3) [15] None 0, IndexRemove (uuid_of 2), IndexRemove (uuid_of 1)]"


definition orphan_calls :: "index_op list" where
  "orphan_calls = [IndexInsert (uuid_of 1) [0] None 0, IndexInsert (uuid_of 2) [10] None 0,
     IndexInsert (uuid_of 3) [2] None 0, IndexRemove (uuid_of 3), IndexRemove (uuid_of 1)]"

text \<open>
  \<open>Remove\<close> may leave an index that holds items without an entrypoint: when the entrypoint
  has no edge left, nothing replaces it. The index below has one item, \<open>Search\<close> finds nothing in
  it and \<open>Save\<close> fails, so no snapshot of the partition can be taken.
\<close>

theorem remove_loses_entrypoint:
  "map_option (\<lambda>(rs, h). (rs, hnsw_len h, map_option fst (lookup h (uuid_of 2)),
       hnsw_search manhattan (plain_env 0) [3] 2 h, hnsw_save (plain_env 0) False h))
     (run_index manhattan (plain_env 0) orphan_calls (sample_index 1)) =
   Some (replicate 5 (Inr Done), 1, Some [10], Some [], Some (Some NoEntrypoint, []))"
  by code_simp

section \<open>Persistence\<close>


lemma one_item_saveable: "saveable_index one_item"
proof -
  have "saveable (unat (h_size one_item)) one_vertex"
    by (simp add: saveable_def one_vertex_def uuid_wf_def uuid_of_def int32_fits_def metadata_fits_def
        one_item_def sample_index_def new_hnsw_def)
  moreover have "config_fits (h_config one_item)"
    by (simp add: config_fits_def one_item_def sample_index_def new_hnsw_def new_hnsw_config_def
        plain_options_def hnsw_m_def hnsw_m_max_def hnsw_m_max0_def hnsw_level_multiplier_def
        f32_minus_one_def int32_fits_def hnsw_search_simple_def Let_def)
  moreover have "flags_ok (h_store one_item)"
    by (simp add: flags_ok_def one_item_store one_vertex_def split: if_splits)
  moreover have "unat (h_size one_item) < 2 ^ 32"
    by (simp add: one_item_def sample_index_def new_hnsw_def)
  moreover have "length (entries one_item) = card (dom (lookup one_item))"
    using card_dom_lookup one_item_ok(1) by (simp add: hnsw_ok_def)
  then have "length (entries one_item) < 2 ^ 32" by (simp add: one_item_ok(2))
  moreover have "length es < 2 ^ 32" if "edges_of (h_store one_item) p l = Some es" for p l es
    using that by (auto simp: edges_of_def edges_at_def one_item_store one_vertex_def split: if_splits)
  ultimately show ?thesis
    using one_item_ok(1) one_item_entrypoint by (simp add: saveable_index_def one_item_store)
qed


text \<open>
  \<open>Save\<close> of an index without items writes the header and nothing more, and \<open>Load\<close> of what
  it wrote returns \<open>io.EOF\<close>: a snapshot of an empty partition cannot be restored.
\<close>

theorem empty_index_does_not_load:
  assumes "hnsw_len h = 0"
  shows "hnsw_save env False h = Some (None, []) \<and> hnsw_load False (h0, []) = Some (Inl EOF, (h0, []))"
  using assms by (simp_all add: hnsw_save_def hnsw_load_def load_body_def read_uuid_def buf_read_def andthen_def)

theorem empty_index_does_not_load_witness:
  "hnsw_save (plain_env 0) False (sample_index 2) = Some (None, []) \<and>
   hnsw_load False (sample_index 2, []) = Some (Inl EOF, (sample_index 2, []))"
  by (rule empty_index_does_not_load) (simp add: hnsw_len_def sample_index_def new_hnsw_def)

section \<open>Metadata, configuration, distances and shards\<close>

text \<open>
  Round trip. Metadata with at most 65535 entries, keys below 256 and values below 65536 bytes
  are read back with the same value for every key, in whatever order \<open>save\<close> visited the map, and
  the reader stands behind the last byte.
\<close>

theorem metadata_round_trip:
  assumes "metadata_fits m" "fair env"
  shows "\<exists>m'. metadata_load (Some []) (s, metadata_save env m @ rest) = Some (Inr m', (s, rest)) \<and>
    metadata_lookup m' = metadata_lookup m"
  using metadata_load_save [OF assms, of s rest] metadata_lookup_visit [OF assms] by blast

theorem metadata_round_trip_witness:
  "\<exists>m'. metadata_load (Some []) (sample_index 1, metadata_save (plain_env 0) (Some [([97], [98, 99])]) @ [7]) =
      Some (Inr m', (sample_index 1, [7])) \<and> metadata_lookup m' = metadata_lookup (Some [([97], [98, 99])])"
  by (rule metadata_round_trip) (simp_all add: metadata_fits_def)

lemma load_kv_zero:
  "\<exists>r s'. load_kv (s, be_bytes 1 (0 :: 8 word) @ bs) = Some (r, s') \<and> (\<forall>x. r = Inr x \<longrightarrow> fst x = [])"
proof -
  have "read_word 1 (s, be_bytes 1 (0 :: 8 word) @ bs) = Some (Inr (0 :: 8 word), (s, bs))"
    by (rule read_word_append) simp
  moreover have "buf_read [] (s, bs) = Some (Inr [], (s, bs))" by (simp add: buf_read_def)
  ultimately have "load_kv (s, be_bytes 1 (0 :: 8 word) @ bs) =
      andthen (read_word 2) (\<lambda>l :: 16 word. andthen (buf_read (replicate (unat l) 0)) (\<lambda>v. ret ([], v))) (s, bs)"
    by (simp add: load_kv_def)
  also have "\<exists>r s'. \<dots> = Some (r, s') \<and> (\<forall>x. r = Inr x \<longrightarrow> fst x = [])"
    by (auto simp: andthen_def read_word_def read_full_def buf_read_def Let_def split: option.splits sum.splits)
  finally show ?thesis .
qed

text \<open>
  The length of a key is written as one byte and is not checked, so a key of 256 bytes is
  saved with length 0 and can never be read back: the entry that \<open>loadKV\<close> returns, if it
  returns one, has the empty key.
\<close>

theorem long_key_is_lost:
  assumes "length k = 256"
  shows "\<exists>r s'. load_kv (s, save_kv (k, v) @ rest) = Some (r, s') \<and> (\<forall>x. r = Inr x \<longrightarrow> fst x = [])"
proof -
  have "(of_nat (length k) :: 8 word) = 0"
    by (simp add: assms word_unat_eq_iff unsigned_of_nat take_bit_eq_mod)
  then have "save_kv (k, v) @ rest = be_bytes 1 (0 :: 8 word) @ k @ be_bytes 2 (of_nat (length v) :: 16 word) @ v @ rest"
    by simp
  then show ?thesis using load_kv_zero by metis
qed

theorem long_key_is_lost_witness:
  "\<exists>r s'. load_kv (0 :: nat, save_kv (replicate 256 97, [98]) @ []) = Some (r, s') \<and>
     (\<forall>x. r = Inr x \<longrightarrow> fst x = [])"
  by (rule long_key_is_lost) simp

text \<open>
  Round trip. A configuration whose numbers fit 32 bits is read back as it was written, except
  that the two options of the heuristic are not part of the format: the receiver keeps its own.
\<close>

theorem config_round_trip:
  assumes "config_fits c"
  shows "config_load (c0, config_save c @ rest) =
    Some (Inr (), (c\<lparr>cfg_extend_candidates := cfg_extend_candidates c0,
                    cfg_keep_pruned := cfg_keep_pruned c0\<rparr>, rest))"
  using config_load_save [OF assms] .

theorem config_round_trip_witness:
  "config_load (h_config (sample_index 1), config_save (h_config one_item) @ []) =
    Some (Inr (), ((h_config one_item)\<lparr>cfg_extend_candidates := cfg_extend_candidates (h_config (sample_index 1)),
                    cfg_keep_pruned := cfg_keep_pruned (h_config (sample_index 1))\<rparr>, []))"
  by (rule config_round_trip) (use one_item_saveable in \<open>simp add: saveable_index_def\<close>)

text \<open>
  The distances the index gets from the native implementation are never below zero, NaNs and
  infinities among the components included, so \<open>Push\<close> never panics on them.
\<close>

theorem native_distances_accepted:
  "\<not> f32_negative (space_distance native_impl sp a b)"
  using accepted_distanceD [OF accepted_native] .

text \<open>
  \<open>UuidMod\<close> panics exactly for modulus 0; otherwise its result is below the modulus and,
  up to modulus \<open>2 ^ 63\<close>, it is the sum of the two halves modulo \<open>m\<close>, the machine addition in
  the middle notwithstanding.
\<close>

theorem uuid_mod_is_sum_of_halves:
  assumes "unat m \<le> 2 ^ 63"
  shows "map_option unat (uuid_mod x m) = (if m = 0 then None
    else Some ((unat (le_word (take 8 x) :: 64 word) + unat (le_word (drop 8 x) :: 64 word)) mod unat m))"
  using uuid_mod_exact [OF _ assms] by (simp add: uuid_mod_def)

theorem uuid_mod_is_sum_of_halves_witness:
  "map_option unat (uuid_mod (2 # replicate 7 0 @ 15 # replicate 7 0) 16) = Some ((2 + 15) mod 16)"
proof -
  have "unat (le_word (take 8 (2 # replicate 7 0 @ 15 # replicate 7 0)) :: 64 word) = 2"
    "unat (le_word (drop 8 (2 # replicate 7 0 @ 15 # replicate 7 0)) :: 64 word) = 15"
    by code_simp+
  then show ?thesis
    using uuid_mod_is_sum_of_halves [of 16 "2 # replicate 7 0 @ 15 # replicate 7 0"] by simp
qed

end
