(* ===== verification/Notificator.thy ===== *)
theory Notificator
  imports Prelude
begin

text \<open>
  \<open>utils/notificator.go\<close>: how the goroutine that applies a committed entry answers the request
  that proposed it. A Go channel is an object that the receiver keeps while the notificator may
  forget it, so the state has a store of channels next to the map \<open>chans\<close>. A channel knows its
  capacity, what is buffered, whether a receiver is blocked on it and what that receiver got.
  \<open>uuid.NewV4\<close> is the argument \<open>u\<close> of \<open>create\<close>.
\<close>

section \<open>State and operations\<close>

record 'v channel =
  capacity :: nat
  buffered :: "'v list"
  waiting :: bool
  received :: "'v option"
  closed :: bool

type_synonym chan_ref = nat

record 'v notificator =
  chans :: "(uuid \<times> chan_ref) list"
  channels :: "'v channel list"

definition new_notificator :: "'v notificator" where
  "new_notificator = \<lparr>chans = [], channels = []\<rparr>"

definition make_channel :: "nat \<Rightarrow> 'v channel" where
  "make_channel n = \<lparr>capacity = n, buffered = [], waiting = False, received = None, closed = False\<rparr>"

text \<open>\<open>make(chan interface{}, bufSize)\<close> panics for a negative size.\<close>

definition create :: "uuid \<Rightarrow> int \<Rightarrow> ('v notificator, chan_ref \<times> uuid) prog" where
  "create u buf_size n =
     (if buf_size < 0 then None
      else let c = length (channels n)
           in Some (Inr (c, u), n\<lparr>chans := AList.update u c (chans n),
                                  channels := channels n @ [make_channel (nat buf_size)]\<rparr>))"

definition close_channel :: "chan_ref \<Rightarrow> 'v notificator \<Rightarrow> 'v notificator option" where
  "close_channel c n =
     (if c < length (channels n) \<and> \<not> closed (channels n ! c)
      then Some (n\<lparr>channels := (channels n)[c := (channels n ! c)\<lparr>closed := True, waiting := False\<rparr>]\<rparr>)
      else None)"

definition notificator_remove :: "uuid \<Rightarrow> ('v notificator, unit) prog" where
  "notificator_remove u n = (case map_of (chans n) u of
       None \<Rightarrow> Some (Inl NotificatorChannelDoesNotExist, n)
     | Some c \<Rightarrow> do {
         n' \<leftarrow> close_channel c (n\<lparr>chans := AList.delete u (chans n)\<rparr>);
         Some (Inr (), n') })"

text \<open>One attempt to send: to the receiver that waits, else into the buffer; \<open>None\<close> if it would block.\<close>

definition try_send :: "'v \<Rightarrow> 'v channel \<Rightarrow> 'v channel option" where
  "try_send v c =
     (if waiting c then Some (c\<lparr>waiting := False, received := Some v\<rparr>)
      else if length (buffered c) < capacity c then Some (c\<lparr>buffered := buffered c @ [v]\<rparr>)
      else None)"

datatype notified = Notified | Blocked

definition notify :: "uuid \<Rightarrow> 'v \<Rightarrow> bool \<Rightarrow> ('v notificator, notified) prog" where
  "notify u v blocking n = (case map_of (chans n) u of
       None \<Rightarrow> Some (Inl NotificatorChannelDoesNotExist, n)
     | Some c \<Rightarrow>
         if length (channels n) \<le> c \<or> closed (channels n ! c) then None
         else (case try_send v (channels n ! c) of
             Some c' \<Rightarrow> Some (Inr Notified, n\<lparr>channels := (channels n)[c := c']\<rparr>)
           | None \<Rightarrow> if blocking then Some (Inr Blocked, n)
                     else Some (Inl NotificatorReceiverNotAvailable, n)))"

text \<open>The receiver's side: take what is buffered, or wait; a closed channel yields nothing.\<close>

definition await :: "chan_ref \<Rightarrow> 'v notificator \<Rightarrow> 'v notificator" where
  "await c n =
     (let ch = channels n ! c
      in if \<not> c < length (channels n) \<or> closed ch then n
         else n\<lparr>channels := (channels n)[c :=
                (case buffered ch of v # vs \<Rightarrow> ch\<lparr>buffered := vs, received := Some v\<rparr>
                                   | [] \<Rightarrow> ch\<lparr>waiting := True\<rparr>)]\<rparr>)"

definition answer :: "chan_ref \<Rightarrow> 'v notificator \<Rightarrow> 'v option" where
  "answer c n = (if c < length (channels n) then received (channels n ! c) else None)"

section \<open>The invariant\<close>

text \<open>The notificator knows every channel under one id at most, and only channels that are open.\<close>

definition notificator_ok :: "'v notificator \<Rightarrow> bool" where
  "notificator_ok n = (distinct (map fst (chans n)) \<and> distinct (map snd (chans n)) \<and>
     (\<forall>(u, c) \<in> set (chans n). c < length (channels n) \<and> \<not> closed (channels n ! c)))"

lemma new_notificator_ok [simp]: "notificator_ok new_notificator"
  by (simp add: notificator_ok_def new_notificator_def)

lemma notificator_okD: "notificator_ok n \<Longrightarrow> map_of (chans n) u = Some c \<Longrightarrow>
    c < length (channels n) \<and> \<not> closed (channels n ! c)"
  by (auto simp: notificator_ok_def dest: map_of_SomeD)

lemma distinct_snd_delete: "distinct (map snd m) \<Longrightarrow> distinct (map snd (AList.delete k m))"
  by (simp add: AList.delete_eq distinct_map_filter)

lemma update_as_delete: "mset (AList.update k v m) = add_mset (k, v) (mset (AList.delete k m))"
  if "distinct (map fst m)"
  using that
proof (induction m)
  case (Cons e m)
  then show ?case by (cases e) auto
qed simp

lemma create_ok:
  assumes "notificator_ok n" "0 \<le> k"
  shows "\<exists>n'. create u k n = Some (Inr (length (channels n), u), n') \<and> notificator_ok n' \<and>
    channels n' = channels n @ [make_channel (nat k)] \<and> chans n' = AList.update u (length (channels n)) (chans n)"
proof -
  let ?m = "AList.update u (length (channels n)) (chans n)"
  have m: "mset ?m = add_mset (u, length (channels n)) (mset (AList.delete u (chans n)))"
    by (rule update_as_delete) (use assms in \<open>simp add: notificator_ok_def\<close>)
  have sub: "set (AList.delete u (chans n)) \<subseteq> set (chans n)" by (auto simp: AList.delete_eq)
  have lt: "\<forall>e \<in> set (chans n). snd e < length (channels n)"
    using assms(1) by (auto simp: notificator_ok_def)
  have "distinct (map snd ?m) = distinct (map snd ((u, length (channels n)) # AList.delete u (chans n)))"
    by (rule distinct_mset_map_cong) (simp add: m)
  moreover have "distinct (map snd (AList.delete u (chans n)))"
    using distinct_snd_delete [of "chans n" u] assms(1) by (simp add: notificator_ok_def)
  ultimately have "distinct (map snd ?m)" using sub lt by fastforce
  moreover have "\<forall>(i, c) \<in> set ?m. c < length (channels n @ [make_channel (nat k)]) \<and>
      \<not> closed ((channels n @ [make_channel (nat k)]) ! c)"
    using mset_add_set [OF m] sub assms(1)
    by (fastforce simp: notificator_ok_def make_channel_def nth_append)
  ultimately show ?thesis
    using assms by (simp add: create_def Let_def notificator_ok_def)
qed

lemma remove_notificator_ok:
  assumes "notificator_ok n"
  shows "\<exists>r n'. notificator_remove u n = Some (r, n') \<and> notificator_ok n'"
proof (cases "map_of (chans n) u")
  case None
  then show ?thesis using assms by (simp add: notificator_remove_def)
next
  case (Some c)
  have c: "c < length (channels n)" "\<not> closed (channels n ! c)"
    using notificator_okD [OF assms Some] by auto
  have "(u, c) \<in> set (chans n)" using Some by (rule map_of_SomeD)
  then have other: "snd e \<noteq> c" if "e \<in> set (AList.delete u (chans n))" for e
    using that assms inj_onD [of snd "set (chans n)" e "(u, c)"]
    by (auto simp: notificator_ok_def distinct_map AList.delete_eq)
  let ?n = "n\<lparr>chans := AList.delete u (chans n),
    channels := (channels n)[c := (channels n ! c)\<lparr>closed := True, waiting := False\<rparr>]\<rparr>"
  have "notificator_ok ?n"
    using assms other distinct_snd_delete [of "chans n" u]
    by (fastforce simp: notificator_ok_def AList.delete_eq distinct_map_filter nth_list_update)
  then show ?thesis using Some c by (simp add: notificator_remove_def close_channel_def)
qed

lemma channel_update_ok: "notificator_ok n \<Longrightarrow> closed ch = closed (channels n ! c) \<Longrightarrow>
    notificator_ok (n\<lparr>channels := (channels n)[c := ch]\<rparr>)"
proof -
  assume "notificator_ok n" and ch: "closed ch = closed (channels n ! c)"
  moreover have "closed ((channels n)[c := ch] ! k) = closed (channels n ! k)" for k
    using ch by (cases "c < length (channels n)") (auto simp: nth_list_update list_update_beyond)
  ultimately show ?thesis by (simp add: notificator_ok_def)
qed

lemma try_send_closed: "try_send v c = Some c' \<Longrightarrow> closed c' = closed c"
  by (auto simp: try_send_def split: if_splits)

lemma notify_ok:
  assumes "notificator_ok n"
  shows "\<exists>r n'. notify u v blocking n = Some (r, n') \<and> notificator_ok n' \<and> chans n' = chans n \<and>
    length (channels n') = length (channels n)"
  using assms notificator_okD [OF assms]
  by (fastforce simp: notify_def channel_update_ok try_send_closed split: option.split)

lemma await_ok: "notificator_ok n \<Longrightarrow> notificator_ok (await c n)"
  by (auto simp: await_def Let_def intro!: channel_update_ok split: list.split)

section \<open>Properties\<close>

lemma map_of_created:
  assumes "notificator_ok n" "0 \<le> k" "create u k n = Some (Inr (c, u), n')"
  shows "map_of (chans n') u = Some c" "c = length (channels n)" "channels n' ! c = make_channel (nat k)"
    "c < length (channels n')" "notificator_ok n'"
  using create_ok [OF assms(1,2), of u] assms(3) by (auto simp: update_conv)

text \<open>
  C25: A request creates its channel without a buffer and the appliers never block. So an answer
  that comes while the request waits reaches it, and one that comes before the request waits is
  lost: \<open>Notify\<close> says so to a caller that ignores it, and the request runs into its deadline.
\<close>

theorem notification_needs_waiting_receiver:
  assumes "notificator_ok n"
  shows "\<exists>n1. create u 0 n = Some (Inr (length (channels n), u), n1) \<and>
    notify u v False n1 = Some (Inl NotificatorReceiverNotAvailable, n1) \<and>
    (\<exists>n2. notify u v False (await (length (channels n)) n1) = Some (Inr Notified, n2) \<and>
       answer (length (channels n)) n2 = Some v)"
proof -
  obtain n1 where n1: "create u 0 n = Some (Inr (length (channels n), u), n1)"
    using create_ok [OF assms, of 0 u] by auto
  note c = map_of_created [OF assms order_refl n1]
  have "notify u v False n1 = Some (Inl NotificatorReceiverNotAvailable, n1)"
    using c by (simp add: notify_def try_send_def make_channel_def)
  moreover have "\<exists>n2. notify u v False (await (length (channels n)) n1) = Some (Inr Notified, n2) \<and>
       answer (length (channels n)) n2 = Some v"
    using c by (simp add: notify_def await_def try_send_def make_channel_def answer_def Let_def)
  ultimately show ?thesis using n1 by blast
qed

theorem notification_needs_waiting_receiver_witness:
  "\<exists>n1. create (replicate 16 1) 0 new_notificator = Some (Inr (0, replicate 16 1), n1) \<and>
    notify (replicate 16 1) (7 :: nat) False n1 = Some (Inl NotificatorReceiverNotAvailable, n1)"
  using notification_needs_waiting_receiver [OF new_notificator_ok, of "replicate 16 1" "7 :: nat"]
  by (auto simp: new_notificator_def)

datatype 'v notificator_op =
    CreateChannel uuid nat
  | RemoveChannel uuid
  | NotifyChannel uuid 'v bool
  | AwaitChannel chan_ref

fun notificator_step :: "'v notificator_op \<Rightarrow> 'v notificator \<Rightarrow> 'v notificator option" where
  "notificator_step (CreateChannel u k) n = map_option snd (create u (int k) n)"
| "notificator_step (RemoveChannel u) n = map_option snd (notificator_remove u n)"
| "notificator_step (NotifyChannel u v b) n = map_option snd (notify u v b n)"
| "notificator_step (AwaitChannel c) n = Some (await c n)"

fun run_notificator :: "'v notificator_op list \<Rightarrow> 'v notificator \<Rightarrow> 'v notificator option" where
  "run_notificator [] n = Some n"
| "run_notificator (op # ops) n = do { n' \<leftarrow> notificator_step op n; run_notificator ops n' }"

lemma notificator_step_ok: "notificator_ok n \<Longrightarrow> \<exists>n'. notificator_step op n = Some n' \<and> notificator_ok n'"
proof (cases op)
  case (CreateChannel u k)
  assume "notificator_ok n"
  then show ?thesis using create_ok [of n "int k" u] CreateChannel by auto
next
  case (RemoveChannel u)
  assume "notificator_ok n"
  then show ?thesis using remove_notificator_ok [of n u] RemoveChannel by auto
next
  case (NotifyChannel u v b)
  assume "notificator_ok n"
  then show ?thesis using notify_ok [of n u v b] NotifyChannel by auto
next
  case (AwaitChannel c)
  assume "notificator_ok n"
  then show ?thesis using await_ok [of n c] AwaitChannel by auto
qed

text \<open>
  No sequence of calls panics: a channel is closed once, and nothing is sent on a closed
  channel, because a channel leaves the map when it is closed. The notificator keeps knowing
  every channel under one id at most.
\<close>

theorem notificator_never_panics:
  "\<exists>n. run_notificator ops new_notificator = Some n \<and> notificator_ok n"
proof -
  have "\<exists>n'. run_notificator ops n = Some n' \<and> notificator_ok n'" if "notificator_ok n" for n :: "'a notificator"
    using that
  proof (induction ops arbitrary: n)
    case (Cons op ops)
    then show ?case using notificator_step_ok [of n op] by auto
  qed simp
  then show ?thesis using new_notificator_ok by blast
qed

end
