(* ===== verification/ClusterConn.thy ===== *)
theory ClusterConn
  imports Notificator
begin

text \<open>
  \<open>cluster/conn.go\<close>: the addresses of the nodes, one connection per node and the channels that
  announce changes of the membership. gRPC is an argument: what \<open>grpc.Dial\<close> returned; a
  connection is its handle. A send on a full channel blocks, with the mutexes held; a send on a
  closed one panics: \<open>attempt\<close> tells the three apart.
\<close>

section \<open>State\<close>

type_synonym node_id = "64 word"
type_synonym client = nat

datatype nodes_change = NodesChangeAddNode node_id | NodesChangeRemoveNode node_id

record conn =
  cn_id :: node_id
  cn_address :: string
  cn_addresses :: "(node_id \<times> string) list"
  cn_conns :: "(node_id \<times> client) list"
  cn_closed :: "client list"
  cn_notifications :: "nodes_change channel list"

datatype 's attempt = Returns 's | Blocks 's | Panics

text \<open>\<open>NewConn\<close>, given what reading the certificate returned when a file is named.\<close>

definition new_conn :: "node_id \<Rightarrow> string \<Rightarrow> string \<Rightarrow> error option \<Rightarrow> error + conn" where
  "new_conn i addr tls_cert_file certificate =
     (if tls_cert_file \<noteq> [] \<and> certificate \<noteq> None then Inl (the certificate)
      else Inr \<lparr>cn_id = i, cn_address = addr, cn_addresses = [], cn_conns = [], cn_closed = [],
                cn_notifications = []\<rparr>)"

section \<open>Membership\<close>

definition node_changes_notifications :: "conn \<Rightarrow> nat \<times> conn" where
  "node_changes_notifications c =
     (length (cn_notifications c), c\<lparr>cn_notifications := cn_notifications c @ [make_channel 10]\<rparr>)"

definition conn_nodes :: "conn \<Rightarrow> (node_id \<times> string) list" where
  "conn_nodes c = cn_addresses c"

definition node_ids :: "env \<Rightarrow> conn \<Rightarrow> node_id list" where
  "node_ids env c = map fst (visit env (cn_addresses c))"

fun send_all :: "nodes_change \<Rightarrow> nodes_change channel list \<Rightarrow> nodes_change channel list attempt" where
  "send_all n [] = Returns []"
| "send_all n (ch # chs) =
     (if closed ch then Panics
      else case try_send n ch of
          None \<Rightarrow> Blocks (ch # chs)
        | Some ch' \<Rightarrow> (case send_all n chs of
              Returns chs' \<Rightarrow> Returns (ch' # chs') | Blocks chs' \<Rightarrow> Blocks (ch' # chs') | Panics \<Rightarrow> Panics))"

definition send_nodes_change_notification :: "nodes_change \<Rightarrow> conn \<Rightarrow> conn attempt" where
  "send_nodes_change_notification n c = (case send_all n (cn_notifications c) of
       Returns chs \<Rightarrow> Returns (c\<lparr>cn_notifications := chs\<rparr>)
     | Blocks chs \<Rightarrow> Blocks (c\<lparr>cn_notifications := chs\<rparr>)
     | Panics \<Rightarrow> Panics)"

definition conn_add_node :: "node_id \<Rightarrow> string \<Rightarrow> conn \<Rightarrow> conn attempt" where
  "conn_add_node i addr c =
     (if map_of (cn_addresses c) i = None
      then send_nodes_change_notification (NodesChangeAddNode i)
             (c\<lparr>cn_addresses := AList.update i addr (cn_addresses c)\<rparr>)
      else Returns c)"

text \<open>The error of \<open>conn.Close()\<close> is only logged.\<close>

definition close_conn :: "node_id \<Rightarrow> conn \<Rightarrow> conn" where
  "close_conn i c = (case map_of (cn_conns c) i of
       None \<Rightarrow> c
     | Some k \<Rightarrow> c\<lparr>cn_closed := cn_closed c @ [k], cn_conns := AList.delete i (cn_conns c)\<rparr>)"

definition conn_remove_node :: "node_id \<Rightarrow> conn \<Rightarrow> conn attempt" where
  "conn_remove_node i c =
     (if map_of (cn_addresses c) i \<noteq> None
      then send_nodes_change_notification (NodesChangeRemoveNode i)
             (close_conn i (c\<lparr>cn_addresses := AList.delete i (cn_addresses c)\<rparr>))
      else Returns c)"

text \<open>\<open>Close\<close>: closing a channel a second time panics.\<close>

definition close_all :: "env \<Rightarrow> conn \<Rightarrow> conn option" where
  "close_all env c =
     (if \<exists>ch \<in> set (cn_notifications c). closed ch then None
      else Some (c\<lparr>cn_closed := cn_closed c @ map snd (visit env (cn_conns c)),
        cn_notifications := map (\<lambda>ch. ch\<lparr>closed := True, waiting := False\<rparr>) (cn_notifications c)\<rparr>))"

section \<open>Connections\<close>

definition get_cached_conn :: "node_id \<Rightarrow> conn \<Rightarrow> client option" where
  "get_cached_conn i c = map_of (cn_conns c) i"

definition get_address :: "node_id \<Rightarrow> conn \<Rightarrow> error + string" where
  "get_address i c = (case map_of (cn_addresses c) i of
     Some addr \<Rightarrow> Inr addr | None \<Rightarrow> Inl NodeAddressNotFound)"

text \<open>
  \<open>Dial\<close>: \<open>grpc_dial\<close> is what \<open>grpc.Dial\<close> returns for an address, and \<open>meanwhile\<close> what other
  goroutines do to the connection table before the mutex is taken again.
\<close>

definition conn_dial ::
  "(string \<Rightarrow> error + client) \<Rightarrow> (conn \<Rightarrow> conn) \<Rightarrow> node_id \<Rightarrow> conn \<Rightarrow> (error + client) \<times> conn" where
  "conn_dial grpc_dial meanwhile i c = (case get_cached_conn i c of
       Some k \<Rightarrow> (Inr k, c)
     | None \<Rightarrow> (case get_address i c of
           Inl e \<Rightarrow> (Inl e, c)
         | Inr addr \<Rightarrow> (case grpc_dial addr of
               Inl e \<Rightarrow> (Inl e, meanwhile c)
             | Inr k \<Rightarrow>
                 (let c' = meanwhile c
                  in case map_of (cn_conns c') i of
                       Some k' \<Rightarrow> (Inr k', c'\<lparr>cn_closed := cn_closed c' @ [k]\<rparr>)
                     | None \<Rightarrow> (Inr k, c'\<lparr>cn_conns := AList.update i k (cn_conns c')\<rparr>)))))"

definition dial_address :: "(string \<Rightarrow> error + client) \<Rightarrow> string \<Rightarrow> error + client" where
  "dial_address grpc_dial addr = grpc_dial addr"

section \<open>Membership and its announcements\<close>

definition members :: "conn \<Rightarrow> node_id set" where
  "members c = dom (map_of (cn_addresses c))"

fun replay :: "nodes_change list \<Rightarrow> node_id set \<Rightarrow> node_id set" where
  "replay [] A = A"
| "replay (NodesChangeAddNode i # cs) A = replay cs (insert i A)"
| "replay (NodesChangeRemoveNode i # cs) A = replay cs (A - {i})"

lemma replay_append: "replay (cs @ ds) A = replay ds (replay cs A)"
  by (induction cs A rule: replay.induct) auto

text \<open>A channel that nobody waits on: the allocator's loop takes from the buffer.\<close>

definition idle :: "'v channel \<Rightarrow> bool" where
  "idle ch = (\<not> waiting ch \<and> \<not> closed ch)"

lemma send_all_Returns:
  "\<forall>ch \<in> set chs. idle ch \<Longrightarrow> send_all n chs = Returns chs' \<Longrightarrow>
   chs' = map (\<lambda>ch. ch\<lparr>buffered := buffered ch @ [n]\<rparr>) chs"
  by (induction chs arbitrary: chs') (auto simp: idle_def try_send_def split: if_splits attempt.splits)

lemma send_all_not_Panics: "\<forall>ch \<in> set chs. \<not> closed ch \<Longrightarrow> send_all n chs \<noteq> Panics"
  by (induction chs) (auto split: option.split attempt.split)

lemma send_all_Blocks:
  "\<forall>ch \<in> set chs. idle ch \<Longrightarrow> (\<exists>chs'. send_all n chs = Returns chs') =
   (\<forall>ch \<in> set chs. length (buffered ch) < capacity ch)"
  by (induction chs) (auto simp: idle_def try_send_def split: attempt.splits option.splits)

datatype conn_op = AddNode node_id string | RemoveNode node_id | ReceiveChange

text \<open>A run with one subscriber, who takes from the head of the buffer and notes what it took.\<close>

fun conn_step :: "conn_op \<Rightarrow> conn \<times> nodes_change list \<Rightarrow> (conn \<times> nodes_change list) option" where
  "conn_step (AddNode i a) (c, got) = (case conn_add_node i a c of Returns c' \<Rightarrow> Some (c', got) | _ \<Rightarrow> None)"
| "conn_step (RemoveNode i) (c, got) = (case conn_remove_node i c of Returns c' \<Rightarrow> Some (c', got) | _ \<Rightarrow> None)"
| "conn_step ReceiveChange (c, got) = (case cn_notifications c of
       [ch] \<Rightarrow> (case buffered ch of
           [] \<Rightarrow> Some (c, got)
         | n # ns \<Rightarrow> Some (c\<lparr>cn_notifications := [ch\<lparr>buffered := ns\<rparr>]\<rparr>, got @ [n]))
     | _ \<Rightarrow> Some (c, got))"

fun run_conn :: "conn_op list \<Rightarrow> conn \<times> nodes_change list \<Rightarrow> (conn \<times> nodes_change list) option" where
  "run_conn [] s = Some s"
| "run_conn (op # ops) s = do { s' \<leftarrow> conn_step op s; run_conn ops s' }"

definition subscribed :: "node_id set \<Rightarrow> conn \<times> nodes_change list \<Rightarrow> bool" where
  "subscribed A s = (\<exists>ch. cn_notifications (fst s) = [ch] \<and> idle ch \<and> capacity ch = 10 \<and>
     length (buffered ch) \<le> 10 \<and> replay (snd s @ buffered ch) A = members (fst s))"

lemma members_simps [simp]:
  "members (c\<lparr>cn_addresses := AList.update i a (cn_addresses c')\<rparr>) = insert i (members c')"
  "members (c\<lparr>cn_addresses := AList.delete i (cn_addresses c')\<rparr>) = members c' - {i}"
  "members (c\<lparr>cn_notifications := chs\<rparr>) = members c"
  "members (close_conn i c) = members c"
  "cn_notifications (close_conn i c) = cn_notifications c"
  by (auto simp: members_def close_conn_def split: option.splits)

lemma send_subscribed:
  assumes "cn_notifications c = [ch]" "idle ch" "capacity ch = 10" "length (buffered ch) \<le> 10"
    "replay (got @ buffered ch @ [n]) A = members c"
    "send_nodes_change_notification n c = Returns c'"
  shows "subscribed A (c', got)"
  using assms
  by (auto simp: subscribed_def send_nodes_change_notification_def idle_def try_send_def
      split: if_splits attempt.splits)

lemma conn_step_subscribed:
  assumes "subscribed A (c, got)" "conn_step op (c, got) = Some s'"
  shows "subscribed A s'"
proof -
  obtain ch where ch: "cn_notifications c = [ch]" "idle ch" "capacity ch = 10" "length (buffered ch) \<le> 10"
    "replay (got @ buffered ch) A = members c"
    using assms(1) by (auto simp: subscribed_def)
  show ?thesis
  proof (cases op)
    case (AddNode i a)
    show ?thesis
    proof (cases "map_of (cn_addresses c) i")
      case None
      let ?c = "c\<lparr>cn_addresses := AList.update i a (cn_addresses c)\<rparr>"
      have "replay (got @ buffered ch @ [NodesChangeAddNode i]) A = members ?c"
        using ch(5) replay_append [of "got @ buffered ch"] by simp
      then show ?thesis
        using assms(2) send_subscribed [of ?c ch got "NodesChangeAddNode i" A] ch AddNode None
        by (auto simp: conn_add_node_def split: attempt.splits)
    next
      case (Some y)
      then show ?thesis using assms AddNode by (simp add: conn_add_node_def)
    qed
  next
    case (RemoveNode i)
    show ?thesis
    proof (cases "map_of (cn_addresses c) i")
      case None
      then show ?thesis using assms RemoveNode by (simp add: conn_remove_node_def)
    next
      case (Some y)
      let ?c = "close_conn i (c\<lparr>cn_addresses := AList.delete i (cn_addresses c)\<rparr>)"
      have "replay (got @ buffered ch @ [NodesChangeRemoveNode i]) A = members ?c"
        using ch(5) replay_append [of "got @ buffered ch"] by simp
      then show ?thesis
        using assms(2) send_subscribed [of ?c ch got "NodesChangeRemoveNode i" A] ch RemoveNode Some
        by (auto simp: conn_remove_node_def split: attempt.splits)
    qed
  next
    case ReceiveChange
    then show ?thesis using assms(2) ch
      by (cases "buffered ch") (auto simp: subscribed_def idle_def)
  qed
qed

lemma run_conn_subscribed: "subscribed A s \<Longrightarrow> run_conn ops s = Some s' \<Longrightarrow> subscribed A s'"
proof (induction ops arbitrary: s)
  case (Cons op ops)
  then show ?case using conn_step_subscribed [of A "fst s" "snd s" op]
    by (fastforce simp: bind_eq_Some_conv)
qed simp

section \<open>Properties\<close>

text \<open>
  C21: What a subscriber has received, followed by what waits in its channel, replays the change of
  the membership since it subscribed: additions that name a known node and removals that name an
  unknown one are not announced, and no change is lost or reordered.
\<close>

theorem announcements_replay_membership:
  assumes "cn_notifications c = []" "node_changes_notifications c = (k, c0)"
    and "run_conn ops (c0, []) = Some (c1, got)"
  shows "\<exists>ch. cn_notifications c1 = [ch] \<and> replay (got @ buffered ch) (members c) = members c1"
proof -
  have "subscribed (members c) (c0, [])"
    using assms(1,2) by (auto simp: node_changes_notifications_def subscribed_def make_channel_def idle_def)
  from run_conn_subscribed [OF this assms(3)] show ?thesis by (auto simp: subscribed_def)
qed

definition sample_conn :: conn where
  "sample_conn = \<lparr>cn_id = 1, cn_address = ''a'', cn_addresses = [], cn_conns = [], cn_closed = [],
     cn_notifications = []\<rparr>"

theorem announcements_replay_membership_witness:
  "\<exists>c1 got ch. run_conn [AddNode 1 ''a'', AddNode 1 ''b'', ReceiveChange, AddNode 2 ''c'', RemoveNode 1]
       (snd (node_changes_notifications sample_conn), []) = Some (c1, got) \<and>
     got = [NodesChangeAddNode 1] \<and> cn_notifications c1 = [ch] \<and>
     replay (got @ buffered ch) (members sample_conn) = members c1"
proof -
  let ?c0 = "snd (node_changes_notifications sample_conn)"
  let ?ops = "[AddNode 1 ''a'', AddNode 1 ''b'', ReceiveChange, AddNode 2 ''c'', RemoveNode 1]"
  obtain c1 got where run: "run_conn ?ops (?c0, []) = Some (c1, got)" "got = [NodesChangeAddNode 1]"
    by (simp add: sample_conn_def node_changes_notifications_def conn_add_node_def conn_remove_node_def
        send_nodes_change_notification_def make_channel_def try_send_def close_conn_def)
  have "cn_notifications sample_conn = []" by (simp add: sample_conn_def)
  moreover have "node_changes_notifications sample_conn = (0, ?c0)"
    by (simp add: node_changes_notifications_def sample_conn_def)
  ultimately show ?thesis using announcements_replay_membership [of sample_conn 0 ?c0 ?ops c1 got] run by auto
qed

text \<open>
  A change of the membership completes exactly while no subscriber has ten changes waiting;
  the eleventh blocks inside \<open>AddNode\<close> or \<open>RemoveNode\<close>, with the mutex of the addresses held. It
  never panics while the channels are open.
\<close>

theorem membership_change_blocks_on_full_channel:
  assumes "\<forall>ch \<in> set (cn_notifications c). idle ch \<and> capacity ch = 10"
  shows "(\<exists>c'. send_nodes_change_notification n c = Returns c') =
      (\<forall>ch \<in> set (cn_notifications c). length (buffered ch) < 10) \<and>
    send_nodes_change_notification n c \<noteq> Panics"
  using assms send_all_Blocks [of "cn_notifications c" n] send_all_not_Panics [of "cn_notifications c" n]
  by (auto simp: send_nodes_change_notification_def idle_def split: attempt.splits)

definition full_conn :: conn where
  "full_conn = sample_conn\<lparr>cn_notifications :=
     [(make_channel 10)\<lparr>buffered := replicate 10 (NodesChangeAddNode 2)\<rparr>]\<rparr>"

theorem membership_change_blocks_on_full_channel_witness:
  "\<not> (\<exists>c'. send_nodes_change_notification (NodesChangeAddNode 3) full_conn = Returns c') \<and>
   send_nodes_change_notification (NodesChangeAddNode 3) full_conn \<noteq> Panics"
  using membership_change_blocks_on_full_channel [of full_conn "NodesChangeAddNode 3"]
  by (simp add: full_conn_def idle_def make_channel_def)

text \<open>
  Dialing keeps one connection per node. After a dial that succeeds, the answer is the
  connection in the table, another dial returns the same one, and a connection that lost the race
  against another goroutine is closed.
\<close>

theorem dial_keeps_one_connection:
  assumes "conn_dial grpc_dial meanwhile i c = (Inr k, c')"
  shows "get_cached_conn i c' = Some k \<and>
    conn_dial grpc_dial2 meanwhile2 i c' = (Inr k, c') \<and>
    (\<forall>a k'. get_cached_conn i c = None \<longrightarrow> get_address i c = Inr a \<longrightarrow> grpc_dial a = Inr k' \<longrightarrow>
      k' \<noteq> k \<longrightarrow> k' \<in> set (cn_closed c'))"
  using assms
  by (auto simp: conn_dial_def get_cached_conn_def Let_def split: option.splits sum.splits)

theorem dial_keeps_one_connection_witness:
  "\<exists>c'. conn_dial (\<lambda>_. Inr 5) (\<lambda>c. c\<lparr>cn_conns := [(2, 4)]\<rparr>) 2 (sample_conn\<lparr>cn_addresses := [(2, ''b'')]\<rparr>) = (Inr 4, c') \<and>
     get_cached_conn 2 c' = Some 4 \<and> 5 \<in> set (cn_closed c')"
proof -
  let ?c = "sample_conn\<lparr>cn_addresses := [(2, ''b'')]\<rparr>" and ?m = "\<lambda>c. c\<lparr>cn_conns := [(2, 4)]\<rparr> :: conn"
  obtain c' where d: "conn_dial (\<lambda>_. Inr 5) ?m 2 ?c = (Inr 4, c')"
    by (simp add: conn_dial_def get_cached_conn_def get_address_def sample_conn_def)
  moreover have "get_cached_conn 2 ?c = None" "get_address 2 ?c = Inr ''b''"
    by (simp_all add: get_cached_conn_def get_address_def sample_conn_def)
  ultimately show ?thesis
    using dial_keeps_one_connection [OF d, of "\<lambda>_. Inr 5" "\<lambda>c. c"] by auto
qed

end
