(* ===== verification/RaftTransport.thy ===== *)
theory RaftTransport
  imports Wire ClusterConn
begin

text \<open>
  \<open>storage/raft/transport.go\<close>: the groups of a node by id, the cached clients of the other nodes,
  and the two directions of a raft message. The raft library, protobuf and gRPC are arguments;
  what the code tells the raft node is recorded in a list of \<open>node_call\<close>s, in order.
\<close>

section \<open>Messages and calls\<close>

type_synonym group_ref = nat

datatype message_type = MsgSnap | MsgOther int

record message =
  m_to :: node_id
  m_type :: message_type
  m_content :: bytes

datatype snapshot_status = SnapshotFinish | SnapshotFailure

datatype cc_type = ConfChangeAddNode | ConfChangeRemoveNode | ConfChangeOther int

record conf_change =
  cc_type :: cc_type
  cc_node_id :: node_id
  cc_context :: bytes

datatype entry_type = EntryNormal | EntryConfChange

record entry =
  e_term :: "64 word"
  e_index :: "64 word"
  e_type :: entry_type
  e_data :: bytes

record hard_state =
  hs_term :: "64 word"
  hs_vote :: "64 word"
  hs_commit :: "64 word"

type_synonym conf_state = "node_id list"

record raft_snapshot =
  rs_data :: bytes
  rs_conf_state :: conf_state
  rs_index :: "64 word"
  rs_term :: "64 word"

datatype node_call =
    CallTick
  | CallAdvance
  | CallStop
  | CallStep message
  | CallReportUnreachable node_id
  | CallReportSnapshot node_id snapshot_status
  | CallApplyConfChange conf_change
  | CallPropose bytes
  | CallProposeConfChange conf_change
  | WalSave hard_state "entry list" raft_snapshot
  | MessageSent client uuid bytes

section \<open>The transport\<close>

record transport =
  t_node_id :: node_id
  t_address :: string
  t_conn :: conn
  t_clients :: "(node_id \<times> client) list"
  t_groups :: "(uuid \<times> group_ref) list"

definition new_transport :: "node_id \<Rightarrow> string \<Rightarrow> conn \<Rightarrow> transport attempt" where
  "new_transport i addr c =
     (let t = (\<lambda>c'. \<lparr>t_node_id = i, t_address = addr, t_conn = c', t_clients = [], t_groups = []\<rparr>)
      in case conn_add_node i addr c of
           Returns c' \<Rightarrow> Returns (t c') | Blocks c' \<Rightarrow> Blocks (t c') | Panics \<Rightarrow> Panics)"

definition add_group :: "uuid \<Rightarrow> group_ref \<Rightarrow> transport \<Rightarrow> (error + unit) \<times> transport" where
  "add_group i g t =
     (if map_of (t_groups t) i \<noteq> None then (Inl GroupAlreadyExists, t)
      else (Inr (), t\<lparr>t_groups := AList.update i g (t_groups t)\<rparr>))"

definition remove_group :: "uuid \<Rightarrow> transport \<Rightarrow> (error + unit) \<times> transport" where
  "remove_group i t =
     (if map_of (t_groups t) i = None then (Inl GroupNotFound, t)
      else (Inr (), t\<lparr>t_groups := AList.delete i (t_groups t)\<rparr>))"

definition get_group :: "uuid \<Rightarrow> transport \<Rightarrow> error + group_ref" where
  "get_group i t = (case map_of (t_groups t) i of None \<Rightarrow> Inl GroupNotFound | Some g \<Rightarrow> Inr g)"

text \<open>\<open>addNodeAddress\<close> and \<open>removeNodeAddress\<close>; the result is \<open>None\<close> when the call does not return.\<close>

definition add_node_address :: "node_id \<Rightarrow> string \<Rightarrow> transport \<Rightarrow> transport option" where
  "add_node_address i addr t = (case conn_add_node i addr (t_conn t) of
     Returns c \<Rightarrow> Some (t\<lparr>t_conn := c\<rparr>) | _ \<Rightarrow> None)"

definition remove_node_address :: "node_id \<Rightarrow> transport \<Rightarrow> transport option" where
  "remove_node_address i t = (case conn_remove_node i (t_conn t) of
     Returns c \<Rightarrow> Some (t\<lparr>t_conn := c\<rparr>) | _ \<Rightarrow> None)"

record network =
  net_marshal :: "message \<Rightarrow> error + bytes"
  net_dial :: "string \<Rightarrow> error + client"
  net_deliver :: "client \<Rightarrow> uuid \<times> bytes \<Rightarrow> error option"

definition get_node_raft_transport_client :: "network \<Rightarrow> node_id \<Rightarrow> transport \<Rightarrow> (error + client) \<times> transport" where
  "get_node_raft_transport_client N i t = (case map_of (t_clients t) i of
       Some k \<Rightarrow> (Inr k, t)
     | None \<Rightarrow> (case conn_dial (net_dial N) (\<lambda>c. c) i (t_conn t) of
           (Inl e, c) \<Rightarrow> (Inl e, t\<lparr>t_conn := c\<rparr>)
         | (Inr k, c) \<Rightarrow> (Inr k, t\<lparr>t_conn := c, t_clients := AList.update i k (t_clients t)\<rparr>)))"

definition report_failure :: "message \<Rightarrow> node_call list" where
  "report_failure m = CallReportUnreachable (m_to m) #
     (if m_type m = MsgSnap then [CallReportSnapshot (m_to m) SnapshotFailure] else [])"

definition send_message :: "network \<Rightarrow> uuid \<Rightarrow> message \<Rightarrow> transport \<Rightarrow> node_call list \<times> transport" where
  "send_message N gid m t = (case net_marshal N m of
       Inl e \<Rightarrow> ([], t)
     | Inr bs \<Rightarrow> (case get_node_raft_transport_client N (m_to m) t of
           (Inl e, t') \<Rightarrow> (report_failure m, t')
         | (Inr k, t') \<Rightarrow> (case net_deliver N k (gid, bs) of
               Some e \<Rightarrow> (MessageSent k gid bs # report_failure m, t')
             | None \<Rightarrow> (MessageSent k gid bs #
                 (if m_type m = MsgSnap then [CallReportSnapshot (m_to m) SnapshotFinish] else []), t'))))"

fun send :: "network \<Rightarrow> uuid \<Rightarrow> message list \<Rightarrow> transport \<Rightarrow> node_call list \<times> transport" where
  "send N gid [] t = ([], t)"
| "send N gid (m # ms) t =
     (let (cs, t') = send_message N gid m t; (ds, t'') = send N gid ms t' in (cs @ ds, t''))"

text \<open>\<open>Receive\<close>, where \<open>step g m\<close> is what the raft node of group \<open>g\<close> answers to a message.\<close>

definition receive ::
  "(bytes \<Rightarrow> error + message) \<Rightarrow> (group_ref \<Rightarrow> message \<Rightarrow> error option) \<Rightarrow> bytes \<Rightarrow> bytes \<Rightarrow> transport \<Rightarrow>
   error + (group_ref \<times> node_call)" where
  "receive unmarshal step group_id content t = (case uuid_from_bytes group_id of
       Inl e \<Rightarrow> Inl e
     | Inr i \<Rightarrow> (case get_group i t of
           Inl e \<Rightarrow> Inl e
         | Inr g \<Rightarrow> (case unmarshal content of
               Inl e \<Rightarrow> Inl e
             | Inr m \<Rightarrow> (case step g m of Some e \<Rightarrow> Inl e | None \<Rightarrow> Inr (g, CallStep m)))))"

section \<open>Properties\<close>

lemma send_append:
  "send N gid (ms @ ms') t = (let (cs, t') = send N gid ms t; (ds, t'') = send N gid ms' t' in (cs @ ds, t''))"
  by (induction ms arbitrary: t) (auto simp: Let_def split: prod.splits)

lemma send_message_keeps:
  "send_message N gid m t = (cs, t') \<Longrightarrow> t_groups t' = t_groups t \<and> t_node_id t' = t_node_id t \<and>
     cn_addresses (t_conn t') = cn_addresses (t_conn t)"
  by (auto simp: send_message_def get_node_raft_transport_client_def conn_dial_def Let_def
      split: sum.splits option.splits prod.splits)

lemma send_keeps:
  "send N gid ms t = (cs, t') \<Longrightarrow> t_groups t' = t_groups t \<and> t_node_id t' = t_node_id t \<and>
     cn_addresses (t_conn t') = cn_addresses (t_conn t)"
  by (induction ms arbitrary: t cs t') (auto dest: send_message_keeps split: prod.splits)

text \<open>Every snapshot message that is marshalled is reported back to raft once, as finished or failed.\<close>

definition snapshot_reports :: "node_call list \<Rightarrow> nat" where
  "snapshot_reports cs = length (filter (\<lambda>c. case c of CallReportSnapshot _ _ \<Rightarrow> True | _ \<Rightarrow> False) cs)"

lemma snapshot_reports_simps [simp]:
  "snapshot_reports [] = 0" "snapshot_reports (xs @ ys) = snapshot_reports xs + snapshot_reports ys"
  "snapshot_reports (MessageSent k g b # cs) = snapshot_reports cs"
  "snapshot_reports (CallReportUnreachable i # cs) = snapshot_reports cs"
  "snapshot_reports (CallReportSnapshot i s # cs) = Suc (snapshot_reports cs)"
  by (simp_all add: snapshot_reports_def)

lemma send_message_reports:
  "snapshot_reports (fst (send_message N gid m t)) =
     (if m_type m = MsgSnap \<and> (\<exists>bs. net_marshal N m = Inr bs) then 1 else 0)"
  by (auto simp: send_message_def report_failure_def split: sum.splits option.splits prod.splits)

text \<open>
  \<open>Send\<close> tells raft the fate of a snapshot exactly once for each snapshot message that could
  be marshalled, whether the node has no address, cannot be dialed, refuses the message or takes
  it. Without that report raft would wait for the snapshot forever.
\<close>

theorem snapshots_are_reported_once:
  "snapshot_reports (fst (send N gid ms t)) =
     length (filter (\<lambda>m. m_type m = MsgSnap \<and> (\<exists>bs. net_marshal N m = Inr bs)) ms)"
proof (induction ms arbitrary: t)
  case (Cons m ms)
  show ?case using Cons.IH send_message_reports [of N gid m t] by (auto simp: Let_def split_beta)
qed simp

text \<open>
  The transport never forgets a client. After a node was removed and added again with another
  address, messages to it still go over the connection that the removal closed.
\<close>

theorem readded_node_keeps_closed_connection:
  assumes "map_of (t_clients t) i = Some k" "map_of (cn_conns (t_conn t)) i = Some k"
    "remove_node_address i t = Some t1" "add_node_address i addr t1 = Some t2"
    "map_of (cn_addresses (t_conn t)) i \<noteq> None"
  shows "get_address i (t_conn t2) = Inr addr \<and> k \<in> set (cn_closed (t_conn t2)) \<and>
    get_node_raft_transport_client N i t2 = (Inr k, t2)"
proof -
  let ?c = "t_conn t"
  obtain c1 where c1: "conn_remove_node i ?c = Returns c1" "t1 = t\<lparr>t_conn := c1\<rparr>"
    using assms(3) by (auto simp: remove_node_address_def split: attempt.splits)
  obtain c2 where c2: "conn_add_node i addr c1 = Returns c2" "t2 = t1\<lparr>t_conn := c2\<rparr>"
    using assms(4) c1(2) by (auto simp: add_node_address_def split: attempt.splits)
  have f1: "cn_addresses c1 = AList.delete i (cn_addresses ?c)" "k \<in> set (cn_closed c1)"
    using c1(1) assms(2,5)
    by (auto simp: conn_remove_node_def send_nodes_change_notification_def close_conn_def split: attempt.splits)
  have f2: "map_of (cn_addresses c2) i = Some addr" "k \<in> set (cn_closed c2)"
    using c2(1) f1 by (auto simp: conn_add_node_def send_nodes_change_notification_def split: attempt.splits)
  show ?thesis
    using f2 assms(1) c1(2) c2(2) by (simp add: get_address_def get_node_raft_transport_client_def)
qed

definition broken_net :: network where
  "broken_net = \<lparr>net_marshal = (\<lambda>_. Inr []), net_dial = (\<lambda>_. Inl (RemoteError [])),
     net_deliver = (\<lambda>_ _. Some (RemoteError []))\<rparr>"

definition sample_transport :: transport where
  "sample_transport = \<lparr>t_node_id = 1, t_address = ''a'',
     t_conn = sample_conn\<lparr>cn_addresses := [(1, ''a''), (2, ''b'')], cn_conns := [(2, 4)]\<rparr>,
     t_clients = [(2, 4)], t_groups = []\<rparr>"

theorem readded_node_keeps_closed_connection_witness:
  "\<exists>t1 t2. remove_node_address 2 sample_transport = Some t1 \<and> add_node_address 2 ''c'' t1 = Some t2 \<and>
     get_address 2 (t_conn t2) = Inr ''c'' \<and> 4 \<in> set (cn_closed (t_conn t2)) \<and>
     fst (get_node_raft_transport_client broken_net 2 t2) = Inr 4"
proof -
  obtain t1 t2 where t: "remove_node_address 2 sample_transport = Some t1" "add_node_address 2 ''c'' t1 = Some t2"
    by (simp add: sample_transport_def sample_conn_def remove_node_address_def add_node_address_def
        conn_remove_node_def conn_add_node_def send_nodes_change_notification_def close_conn_def)
  have "map_of (t_clients sample_transport) 2 = Some 4" "map_of (cn_conns (t_conn sample_transport)) 2 = Some 4"
    "map_of (cn_addresses (t_conn sample_transport)) 2 \<noteq> None"
    by (simp_all add: sample_transport_def)
  from readded_node_keeps_closed_connection [OF this(1,2) t this(3), of broken_net] t show ?thesis by auto
qed

end
