(* ===== verification/RaftGroup.thy ===== *)
theory RaftGroup
  imports RaftTransport
begin

text \<open>
  \<open>storage/raft/group.go\<close>: a raft group drives one state machine. The state machine is the type
  \<open>'s\<close>, its three functions are registered in the group; the write-ahead log is the type \<open>'w\<close> with
  the operations of \<open>wal.WAL\<close>. The raft node is a library: what it hands over in a \<open>Ready\<close>, and
  what it is told, are arguments and the list \<open>g_calls\<close>. One turn of the loop of \<open>run\<close> is
  \<open>group_step\<close>; \<open>None\<close> is the end of the process, by a panic or by \<open>log.Fatal\<close>.
\<close>

section \<open>State\<close>

record 'w wal_ops =
  wal_save :: "hard_state \<Rightarrow> entry list \<Rightarrow> raft_snapshot \<Rightarrow> ('w, unit) prog"
  wal_snapshot :: "'w \<Rightarrow> error + raft_snapshot"
  wal_create_snapshot :: "64 word \<Rightarrow> conf_state option \<Rightarrow> bytes \<Rightarrow> ('w, raft_snapshot) prog"

record raft_lib =
  is_empty_snap :: "raft_snapshot \<Rightarrow> bool"
  unmarshal_conf_change :: "bytes \<Rightarrow> error + conf_change"
  apply_conf_change :: "node_call list \<Rightarrow> conf_change \<Rightarrow> conf_state"

record ('s, 'w) raft_group =
  g_id :: uuid
  g_transport :: transport
  g_process :: "(env \<Rightarrow> bytes \<Rightarrow> ('s, unit) prog) option"
  g_process_snapshot :: "(bytes \<Rightarrow> ('s, unit) prog) option"
  g_snapshot :: "(env \<Rightarrow> 's \<Rightarrow> (error + bytes) option) option"
  g_conf_state :: "conf_state option"
  g_leader_id :: node_id
  g_wal :: 'w
  g_state :: 's
  g_last_applied :: "64 word"
  g_calls :: "node_call list"

datatype raft_start = StartNode "node_id list" | RestartNode

definition snapshot_offset :: "64 word" where
  "snapshot_offset = 5000"

definition start_raft_node :: "node_id list \<Rightarrow> raft_start" where
  "start_raft_node ids = (if 0 < length ids then StartNode ids else RestartNode)"

text \<open>The group of \<open>NewRaftGroup\<close>; the raft node starts even when the transport refuses the group.\<close>

definition new_raft_group ::
  "uuid \<Rightarrow> node_id list \<Rightarrow> 'w \<Rightarrow> group_ref \<Rightarrow> transport \<Rightarrow> 's \<Rightarrow>
   (error + ('s, 'w) raft_group) \<times> transport \<times> raft_start" where
  "new_raft_group i ids w ref t s =
     (case add_group i ref t of
        (Inl e, t') \<Rightarrow> (Inl e, t', start_raft_node ids)
      | (Inr _, t') \<Rightarrow> (Inr \<lparr>g_id = i, g_transport = t', g_process = None, g_process_snapshot = None,
            g_snapshot = None, g_conf_state = None, g_leader_id = 0, g_wal = w, g_state = s,
            g_last_applied = 0, g_calls = []\<rparr>, t', start_raft_node ids))"

definition register_process_fn ::
  "(env \<Rightarrow> bytes \<Rightarrow> ('s, unit) prog) \<Rightarrow> ('s, 'w) raft_group \<Rightarrow> (error + unit) \<times> ('s, 'w) raft_group" where
  "register_process_fn f g =
     (if g_process g \<noteq> None then (Inl ProcessFnAlreadyRegistered, g) else (Inr (), g\<lparr>g_process := Some f\<rparr>))"

definition register_process_snapshot_fn ::
  "(bytes \<Rightarrow> ('s, unit) prog) \<Rightarrow> ('s, 'w) raft_group \<Rightarrow> (error + unit) \<times> ('s, 'w) raft_group" where
  "register_process_snapshot_fn f g =
     (if g_process_snapshot g \<noteq> None then (Inl ProcessFnAlreadyRegistered, g)
      else (Inr (), g\<lparr>g_process_snapshot := Some f\<rparr>))"

definition register_snapshot_fn ::
  "(env \<Rightarrow> 's \<Rightarrow> (error + bytes) option) \<Rightarrow> ('s, 'w) raft_group \<Rightarrow> (error + unit) \<times> ('s, 'w) raft_group" where
  "register_snapshot_fn f g =
     (if g_snapshot g \<noteq> None then (Inl SnapshotFnAlreadyRegistered, g) else (Inr (), g\<lparr>g_snapshot := Some f\<rparr>))"

section \<open>Calls of the registered functions\<close>

text \<open>A nil function panics. \<open>lift_state\<close> runs a program on the state machine of the group.\<close>

definition lift_state :: "('s, 'a) prog option \<Rightarrow> (('s, 'w) raft_group, 'a) prog" where
  "lift_state f g = do {
     m \<leftarrow> f;
     (r, s) \<leftarrow> m (g_state g);
     Some (r, g\<lparr>g_state := s\<rparr>) }"

definition process_data :: "env \<Rightarrow> bytes \<Rightarrow> (('s, 'w) raft_group, unit) prog" where
  "process_data env data g = lift_state (map_option (\<lambda>f. f env data) (g_process g)) g"

definition process_snapshot_data :: "bytes \<Rightarrow> (('s, 'w) raft_group, unit) prog" where
  "process_snapshot_data data g = lift_state (map_option (\<lambda>f. f data) (g_process_snapshot g)) g"

definition fatal :: "('s, unit) prog \<Rightarrow> 's \<Rightarrow> 's option" where
  "fatal m s = (case m s of Some (Inr _, s') \<Rightarrow> Some s' | _ \<Rightarrow> None)"

definition group_start :: "raft_lib \<Rightarrow> 'w wal_ops \<Rightarrow> (('s, 'w) raft_group, unit) prog" where
  "group_start L W g = (case wal_snapshot W (g_wal g) of
       Inl e \<Rightarrow> Some (Inl e, g)
     | Inr snap \<Rightarrow> if is_empty_snap L snap then Some (Inr (), g) else process_snapshot_data (rs_data snap) g)"

definition group_stop :: "('s, 'w) raft_group \<Rightarrow> ('s, 'w) raft_group" where
  "group_stop g = g\<lparr>g_calls := g_calls g @ [CallStop], g_transport := snd (remove_group (g_id g) (g_transport g))\<rparr>"

definition group_propose :: "(bytes \<Rightarrow> error option) \<Rightarrow> bytes \<Rightarrow> ('s, 'w) raft_group \<Rightarrow> error option \<times> ('s, 'w) raft_group" where
  "group_propose raft_propose data g = (raft_propose data, g\<lparr>g_calls := g_calls g @ [CallPropose data]\<rparr>)"

definition propose_conf_change ::
  "(conf_change \<Rightarrow> error option) \<Rightarrow> conf_change \<Rightarrow> ('s, 'w) raft_group \<Rightarrow> error option \<times> ('s, 'w) raft_group" where
  "propose_conf_change offer cc g = (offer cc, g\<lparr>g_calls := g_calls g @ [CallProposeConfChange cc]\<rparr>)"

definition propose_join ::
  "(conf_change \<Rightarrow> error option) \<Rightarrow> node_id \<Rightarrow> bytes \<Rightarrow> ('s, 'w) raft_group \<Rightarrow> error option \<times> ('s, 'w) raft_group" where
  "propose_join offer i addr =
     propose_conf_change offer \<lparr>cc_type = ConfChangeAddNode, cc_node_id = i, cc_context = addr\<rparr>"

definition propose_leave ::
  "(conf_change \<Rightarrow> error option) \<Rightarrow> node_id \<Rightarrow> ('s, 'w) raft_group \<Rightarrow> error option \<times> ('s, 'w) raft_group" where
  "propose_leave offer i =
     propose_conf_change offer \<lparr>cc_type = ConfChangeRemoveNode, cc_node_id = i, cc_context = []\<rparr>"

definition is_leader :: "('s, 'w) raft_group \<Rightarrow> bool" where
  "is_leader g = (g_leader_id g = t_node_id (g_transport g))"

section \<open>The loop\<close>

text \<open>\<open>string(cc.Context)\<close>.\<close>

definition text_of :: "bytes \<Rightarrow> string" where
  "text_of bs = map (\<lambda>b. char_of (unat b)) bs"

text \<open>Only the zero group changes the addresses. Its error is dropped by the loop.\<close>

definition change_addresses :: "conf_change \<Rightarrow> ('s, 'w) raft_group \<Rightarrow> ('s, 'w) raft_group option" where
  "change_addresses cc g =
     (if g_id g = uuid_nil
      then (case cc_type cc of
          ConfChangeAddNode \<Rightarrow> map_option (\<lambda>t. g\<lparr>g_transport := t\<rparr>)
            (add_node_address (cc_node_id cc) (text_of (cc_context cc)) (g_transport g))
        | ConfChangeRemoveNode \<Rightarrow> map_option (\<lambda>t. g\<lparr>g_transport := t\<rparr>)
            (remove_node_address (cc_node_id cc) (g_transport g))
        | ConfChangeOther _ \<Rightarrow> Some g)
      else Some g)"

definition process_conf_change :: "raft_lib \<Rightarrow> entry \<Rightarrow> (('s, 'w) raft_group, unit) prog" where
  "process_conf_change L entry g = (case unmarshal_conf_change L (e_data entry) of
       Inl e \<Rightarrow> Some (Inl e, g)
     | Inr cc \<Rightarrow> do {
         g' \<leftarrow> change_addresses cc g;
         Some (Inr (), g'\<lparr>g_conf_state := Some (apply_conf_change L (g_calls g') cc),
                         g_calls := g_calls g' @ [CallApplyConfChange cc]\<rparr>) })"

definition apply_entry :: "raft_lib \<Rightarrow> env \<Rightarrow> entry \<Rightarrow> ('s, 'w) raft_group \<Rightarrow> ('s, 'w) raft_group option" where
  "apply_entry L env entry g = do {
     g' \<leftarrow> (case e_type entry of
         EntryConfChange \<Rightarrow> map_option snd (process_conf_change L entry g)
       | EntryNormal \<Rightarrow> if 0 < length (e_data entry) then fatal (process_data env (e_data entry)) g else Some g);
     Some (g'\<lparr>g_last_applied := e_index entry\<rparr>) }"

fun apply_entries :: "raft_lib \<Rightarrow> env \<Rightarrow> entry list \<Rightarrow> ('s, 'w) raft_group \<Rightarrow> ('s, 'w) raft_group option" where
  "apply_entries L env [] g = Some g"
| "apply_entries L env (e # es) g = do { g' \<leftarrow> apply_entry L (sub env 0) e g; apply_entries L (sub env 1) es g' }"

record ready =
  rd_lead :: "node_id option"
  rd_messages :: "message list"
  rd_hard_state :: hard_state
  rd_entries :: "entry list"
  rd_snapshot :: raft_snapshot
  rd_committed :: "entry list"

definition send_if :: "bool \<Rightarrow> network \<Rightarrow> message list \<Rightarrow> ('s, 'w) raft_group \<Rightarrow> ('s, 'w) raft_group" where
  "send_if b N ms g =
     (if b then let (cs, t) = send N (g_id g) ms (g_transport g)
                in g\<lparr>g_transport := t, g_calls := g_calls g @ cs\<rparr>
      else g)"

definition save_ready :: "'w wal_ops \<Rightarrow> ready \<Rightarrow> ('s, 'w) raft_group \<Rightarrow> ('s, 'w) raft_group option" where
  "save_ready W rd g = map_option
     (\<lambda>w. g\<lparr>g_wal := w, g_calls := g_calls g @ [WalSave (rd_hard_state rd) (rd_entries rd) (rd_snapshot rd)]\<rparr>)
     (fatal (wal_save W (rd_hard_state rd) (rd_entries rd) (rd_snapshot rd)) (g_wal g))"

definition install_snapshot :: "raft_lib \<Rightarrow> raft_snapshot \<Rightarrow> ('s, 'w) raft_group \<Rightarrow> ('s, 'w) raft_group option" where
  "install_snapshot L snap g =
     (if is_empty_snap L snap then Some g
      else map_option (\<lambda>g'. g'\<lparr>g_last_applied := max (rs_index snap) (g_last_applied g)\<rparr>)
             (fatal (process_snapshot_data (rs_data snap)) g))"

definition handle_ready ::
  "raft_lib \<Rightarrow> 'w wal_ops \<Rightarrow> network \<Rightarrow> env \<Rightarrow> ready \<Rightarrow> ('s, 'w) raft_group \<Rightarrow> ('s, 'w) raft_group option" where
  "handle_ready L W N env rd g = do {
     let g1 = (case rd_lead rd of None \<Rightarrow> g | Some l \<Rightarrow> g\<lparr>g_leader_id := l\<rparr>);
     let g2 = send_if (is_leader g1) N (rd_messages rd) g1;
     g3 \<leftarrow> save_ready W rd g2;
     g4 \<leftarrow> install_snapshot L (rd_snapshot rd) g3;
     g5 \<leftarrow> apply_entries L env (rd_committed rd) g4;
     let g6 = send_if (\<not> is_leader g5) N (rd_messages rd) g5;
     Some (g6\<lparr>g_calls := g_calls g6 @ [CallAdvance]\<rparr>) }"

definition try_snapshot :: "'w wal_ops \<Rightarrow> env \<Rightarrow> 64 word \<Rightarrow> 64 word \<Rightarrow> (('s, 'w) raft_group, unit) prog" where
  "try_snapshot W env last_committed skip g = (case g_snapshot g of
       None \<Rightarrow> Some (Inr (), g)
     | Some f \<Rightarrow> (case wal_snapshot W (g_wal g) of
           Inl e \<Rightarrow> Some (Inl e, g)
         | Inr existing \<Rightarrow>
             if last_committed \<le> rs_index existing + skip then Some (Inr (), g)
             else (case f env (g_state g) of
                 None \<Rightarrow> None
               | Some (Inl e) \<Rightarrow> Some (Inl e, g)
               | Some (Inr data) \<Rightarrow> do {
                   (r, w) \<leftarrow> wal_create_snapshot W last_committed (g_conf_state g) data (g_wal g);
                   Some (map_sum (\<lambda>e. e) (\<lambda>_. ()) r, g\<lparr>g_wal := w\<rparr>) })))"

datatype group_event = SnapshotTick | Tick | Ready ready | Stopped

text \<open>One turn of \<open>run\<close>; the error of a failed snapshot is logged.\<close>

definition group_step ::
  "raft_lib \<Rightarrow> 'w wal_ops \<Rightarrow> network \<Rightarrow> env \<Rightarrow> group_event \<Rightarrow> ('s, 'w) raft_group \<Rightarrow> ('s, 'w) raft_group option" where
  "group_step L W N env ev g = (case ev of
       SnapshotTick \<Rightarrow> map_option snd (try_snapshot W env (g_last_applied g) snapshot_offset g)
     | Tick \<Rightarrow> Some (g\<lparr>g_calls := g_calls g @ [CallTick]\<rparr>)
     | Ready rd \<Rightarrow> handle_ready L W N env rd g
     | Stopped \<Rightarrow> Some g)"

text \<open>\<open>run\<close> until \<open>ctx.Done()\<close>.\<close>

fun group_run ::
  "raft_lib \<Rightarrow> 'w wal_ops \<Rightarrow> network \<Rightarrow> env \<Rightarrow> group_event list \<Rightarrow> ('s, 'w) raft_group \<Rightarrow> ('s, 'w) raft_group option" where
  "group_run L W N env [] g = Some g"
| "group_run L W N env (ev # evs) g =
     (if ev = Stopped then Some g
      else do { g' \<leftarrow> group_step L W N (sub env 0) ev g; group_run L W N (sub env 1) evs g' })"

end
