(* ===== verification/RaftFacts.thy ===== *)
theory RaftFacts
  imports RaftGroup
begin

text \<open>
  What a raft group guarantees to the state machine it drives. \<open>refines\<close> relates a program on the
  concrete state to a step of a specification. \<open>state_machine\<close> is the contract between a group and
  the functions registered in it: every committed entry refines a step of the specification. From
  it follows that the state depends on the committed entries alone, however raft batches them.
\<close>

section \<open>Refinement of a step\<close>

text \<open>Both panic, or both give the same result.\<close>

definition refines :: "('s \<Rightarrow> bool) \<Rightarrow> ('s \<Rightarrow> 'm) \<Rightarrow> ('r \<times> 's) option \<Rightarrow> ('r \<times> 'm) option \<Rightarrow> bool" where
  "refines ok view c a = (case a of
       None \<Rightarrow> c = None
     | Some (r, m) \<Rightarrow> \<exists>s. c = Some (r, s) \<and> ok s \<and> view s = m)"

lemma refinesI: "ok s \<Longrightarrow> refines ok view (Some (r, s)) (Some (r, view s))"
  by (simp add: refines_def)

lemma refines_None [simp]: "refines ok view c None = (c = None)"
  by (simp add: refines_def)

lemma refines_Some: "refines ok view c (Some (r, m)) = (\<exists>s. c = Some (r, s) \<and> ok s \<and> view s = m)"
  by (simp add: refines_def)

section \<open>What the loop applies\<close>

definition log_of :: "entry list \<Rightarrow> bytes list" where
  "log_of es = map e_data (filter (\<lambda>e. e_type e = EntryNormal \<and> e_data e \<noteq> []) es)"

lemma log_of_simps [simp]:
  "log_of [] = []" "log_of (es @ fs) = log_of es @ log_of fs"
  "log_of (e # es) = (if e_type e = EntryNormal \<and> e_data e \<noteq> [] then e_data e # log_of es else log_of es)"
  by (simp_all add: log_of_def)

text \<open>The specification applied to a log: an error ends the process as a panic does.\<close>

fun run_spec :: "(bytes \<Rightarrow> 'm \<Rightarrow> ((error + unit) \<times> 'm) option) \<Rightarrow> bytes list \<Rightarrow> 'm \<Rightarrow> 'm option" where
  "run_spec spec [] m = Some m"
| "run_spec spec (d # ds) m = (case spec d m of Some (Inr _, m') \<Rightarrow> run_spec spec ds m' | _ \<Rightarrow> None)"

lemma run_spec_append: "run_spec spec (ds @ ds') m = do { m' \<leftarrow> run_spec spec ds m; run_spec spec ds' m' }"
  by (induction ds arbitrary: m) (auto split: option.split sum.split)

definition registered :: "('s, 'w) raft_group \<Rightarrow> ('s, 'w) raft_group \<Rightarrow> bool" where
  "registered g g' = (g_process g' = g_process g \<and> g_process_snapshot g' = g_process_snapshot g \<and>
     g_snapshot g' = g_snapshot g \<and> g_id g' = g_id g)"

lemma registered_refl [simp]: "registered g g" by (simp add: registered_def)

lemma registered_trans: "registered g g' \<Longrightarrow> registered g' g'' \<Longrightarrow> registered g g''"
  by (simp add: registered_def)

lemma fatal_Some: "fatal m s = Some s' \<longleftrightarrow> m s = Some (Inr (), s')"
  by (auto simp: fatal_def split: option.splits sum.splits prod.splits)

lemma process_conf_change_keeps:
  assumes "process_conf_change L e g = Some (r, g')"
  shows "registered g g' \<and> g_state g' = g_state g \<and> g_wal g' = g_wal g"
  using assms
  by (auto simp: process_conf_change_def change_addresses_def registered_def bind_eq_Some_conv
      split: sum.splits if_splits cc_type.splits)

lemma process_conf_change_returns: "g_id g \<noteq> uuid_nil \<Longrightarrow> process_conf_change L e g \<noteq> None"
  by (auto simp: process_conf_change_def change_addresses_def split: sum.splits)

lemma send_if_keeps: "registered g (send_if b N ms g)" "g_state (send_if b N ms g) = g_state g"
  "g_last_applied (send_if b N ms g) = g_last_applied g" "g_wal (send_if b N ms g) = g_wal g"
  "g_leader_id (send_if b N ms g) = g_leader_id g"
  by (auto simp: send_if_def registered_def Let_def split: prod.split)

lemma send_if_node: "t_node_id (g_transport (send_if b N ms g)) = t_node_id (g_transport g)"
  by (auto simp: send_if_def Let_def dest: send_keeps split: prod.split)

lemma save_ready_keeps: "save_ready W rd g = Some g' \<Longrightarrow> registered g g' \<and> g_state g' = g_state g \<and>
    g_last_applied g' = g_last_applied g \<and> g_leader_id g' = g_leader_id g \<and> g_transport g' = g_transport g"
  by (auto simp: save_ready_def registered_def)

lemma process_data_Some:
  "process_data env d g = Some (r, g') \<longleftrightarrow>
     (\<exists>f s. g_process g = Some f \<and> f env d (g_state g) = Some (r, s) \<and> g' = g\<lparr>g_state := s\<rparr>)"
  by (auto simp: process_data_def lift_state_def bind_eq_Some_conv)

text \<open>Events that bring no snapshot from the leader.\<close>

definition plain_event :: "raft_lib \<Rightarrow> group_event \<Rightarrow> bool" where
  "plain_event L ev = (case ev of Ready rd \<Rightarrow> is_empty_snap L (rd_snapshot rd) | Stopped \<Rightarrow> False | _ \<Rightarrow> True)"

definition committed_by :: "group_event list \<Rightarrow> entry list" where
  "committed_by evs = concat (map (\<lambda>ev. case ev of Ready rd \<Rightarrow> rd_committed rd | _ \<Rightarrow> []) evs)"

section \<open>The contract of a state machine\<close>

locale state_machine =
  fixes step :: "env \<Rightarrow> bytes \<Rightarrow> ('s, unit) prog"
    and spec :: "bytes \<Rightarrow> 'm \<Rightarrow> ((error + unit) \<times> 'm) option"
    and ok :: "'s \<Rightarrow> bool"
    and view :: "'s \<Rightarrow> 'm"
    and legal :: "bytes \<Rightarrow> bool"
  assumes step_refines: "ok s \<Longrightarrow> fair env \<Longrightarrow> legal data \<Longrightarrow>
    refines ok view (step env data s) (spec data (view s))"
begin

definition drives :: "('s, 'w) raft_group \<Rightarrow> bool" where
  "drives g = (g_process g = Some step \<and> ok (g_state g))"

lemma drives_registered: "drives g \<Longrightarrow> registered g g' \<Longrightarrow> ok (g_state g') \<Longrightarrow> drives g'"
  by (simp add: drives_def registered_def)

lemma step_Some:
  assumes "ok s" "fair env" "legal d" "step env d s = Some (r, s')"
  shows "spec d (view s) = Some (r, view s')" "ok s'"
proof -
  have "refines ok view (Some (r, s')) (spec d (view s))" using step_refines [OF assms(1-3)] assms(4) by simp
  then show "spec d (view s) = Some (r, view s')" "ok s'"
    by (auto simp: refines_def split: option.splits prod.splits)
qed

lemma apply_entry_spec:
  assumes "drives g" "fair env" "\<forall>d \<in> set (log_of [e]). legal d" "apply_entry L env e g = Some g'"
  shows "drives g' \<and> registered g g' \<and> run_spec spec (log_of [e]) (view (g_state g)) = Some (view (g_state g')) \<and>
    g_last_applied g' = e_index e"
proof (cases "e_type e")
  case EntryConfChange
  then obtain g1 where g1: "process_conf_change L e g = Some g1" "g' = (snd g1)\<lparr>g_last_applied := e_index e\<rparr>"
    using assms(4) by (auto simp: apply_entry_def bind_eq_Some_conv)
  have "registered g (snd g1) \<and> g_state (snd g1) = g_state g"
    using process_conf_change_keeps [of L e g "fst g1" "snd g1"] g1(1) by simp
  then show ?thesis using assms(1) EntryConfChange g1(2) by (auto simp: drives_def registered_def)
next
  case EntryNormal
  show ?thesis
  proof (cases "e_data e = []")
    case True
    then have "g' = g\<lparr>g_last_applied := e_index e\<rparr>" using assms(4) EntryNormal by (auto simp: apply_entry_def)
    then show ?thesis using assms(1) True by (auto simp: drives_def registered_def)
  next
    case False
    obtain s where s: "step env (e_data e) (g_state g) = Some (Inr (), s)"
      "g' = g\<lparr>g_state := s, g_last_applied := e_index e\<rparr>"
      using assms(1,4) EntryNormal False
      by (auto simp: apply_entry_def bind_eq_Some_conv fatal_Some process_data_Some drives_def)
    have "ok (g_state g)" "legal (e_data e)" using assms(1,3) EntryNormal False by (auto simp: drives_def)
    from step_Some [OF this(1) assms(2) this(2) s(1)] show ?thesis
      using assms(1) EntryNormal False s(2) by (auto simp: drives_def registered_def)
  qed
qed

lemma apply_entries_spec:
  assumes "drives g" "fair env" "\<forall>d \<in> set (log_of es). legal d" "apply_entries L env es g = Some g'"
  shows "drives g' \<and> registered g g' \<and> run_spec spec (log_of es) (view (g_state g)) = Some (view (g_state g')) \<and>
    g_last_applied g' = (if es = [] then g_last_applied g else e_index (last es))"
  using assms
proof (induction es arbitrary: env g)
  case (Cons e es)
  obtain g1 where g1: "apply_entry L (sub env 0) e g = Some g1" "apply_entries L (sub env 1) es g1 = Some g'"
    using Cons.prems(4) by (auto simp: bind_eq_Some_conv)
  have one: "drives g1 \<and> registered g g1 \<and> run_spec spec (log_of [e]) (view (g_state g)) = Some (view (g_state g1)) \<and>
      g_last_applied g1 = e_index e"
    by (rule apply_entry_spec [OF Cons.prems(1) fair_sub [OF Cons.prems(2)] _ g1(1)]) (use Cons.prems(3) in auto)
  moreover have "drives g' \<and> registered g1 g' \<and> run_spec spec (log_of es) (view (g_state g1)) = Some (view (g_state g')) \<and>
      g_last_applied g' = (if es = [] then g_last_applied g1 else e_index (last es))"
    by (rule Cons.IH) (use one Cons.prems g1(2) in \<open>auto split: if_splits\<close>)
  moreover have "log_of (e # es) = log_of [e] @ log_of es" by simp
  ultimately show ?case
    using registered_trans [of g g1 g'] run_spec_append [of spec "log_of [e]" "log_of es"]
    by (simp del: log_of_simps(3))
qed simp

text \<open>
  A group goes on as long as the specification does, unless it is the zero group and an entry changes
  the addresses: announcing that may block.
\<close>

lemma apply_entries_returns:
  assumes "drives g" "fair env" "\<forall>d \<in> set (log_of es). legal d" "g_id g \<noteq> uuid_nil \<or> (\<forall>e \<in> set es. e_type e = EntryNormal)"
    "run_spec spec (log_of es) (view (g_state g)) \<noteq> None"
  shows "apply_entries L env es g \<noteq> None"
  using assms
proof (induction es arbitrary: env g)
  case (Cons e es)
  have step: "apply_entry L (sub env 0) e g \<noteq> None"
  proof (cases "e_type e = EntryNormal \<and> e_data e \<noteq> []")
    case True
    obtain m where m: "spec (e_data e) (view (g_state g)) = Some (Inr (), m)"
      using Cons.prems(5) True by (auto split: option.splits sum.splits)
    have "refines ok view (step (sub env 0) (e_data e) (g_state g)) (spec (e_data e) (view (g_state g)))"
      by (rule step_refines) (use Cons.prems True in \<open>auto simp: drives_def\<close>)
    then show ?thesis using m True Cons.prems(1)
      by (auto simp: refines_def apply_entry_def fatal_def process_data_def lift_state_def drives_def)
  next
    case False
    have "process_conf_change L e g \<noteq> None" if "e_type e = EntryConfChange"
      using process_conf_change_returns [of g L e] Cons.prems(4) that by auto
    then show ?thesis using False by (cases "e_type e") (auto simp: apply_entry_def)
  qed
  then obtain g1 where g1: "apply_entry L (sub env 0) e g = Some g1" by blast
  have one: "drives g1 \<and> registered g g1 \<and> run_spec spec (log_of [e]) (view (g_state g)) = Some (view (g_state g1))"
    using apply_entry_spec [OF Cons.prems(1) fair_sub [OF Cons.prems(2), of 0] _ g1] Cons.prems(3) by auto
  have "log_of (e # es) = log_of [e] @ log_of es" by simp
  then have "run_spec spec (log_of es) (view (g_state g1)) \<noteq> None"
    using Cons.prems(5) one run_spec_append [of spec "log_of [e]" "log_of es"] by (simp del: log_of_simps(3))
  moreover have "g_id g1 \<noteq> uuid_nil \<or> (\<forall>e \<in> set es. e_type e = EntryNormal)"
    using one Cons.prems(4) by (auto simp: registered_def)
  ultimately have "apply_entries L (sub env 1) es g1 \<noteq> None"
    by (intro Cons.IH) (use one Cons.prems(2,3) in \<open>auto split: if_splits\<close>)
  then show ?case using g1 by simp
qed simp

lemma apply_entries_total:
  assumes "drives g" "fair env" "\<forall>d \<in> set (log_of es). legal d" "g_id g \<noteq> uuid_nil"
    "run_spec spec (log_of es) (view (g_state g)) \<noteq> None"
  shows "apply_entries L env es g \<noteq> None"
  by (rule apply_entries_returns [OF assms(1-3) disjI1 [OF assms(4)] assms(5)])

lemma apply_entries_view:
  assumes "drives g" "fair env" "\<forall>d \<in> set (log_of es). legal d"
    "g_id g \<noteq> uuid_nil \<or> (\<forall>e \<in> set es. e_type e = EntryNormal)"
  shows "map_option (\<lambda>g'. view (g_state g')) (apply_entries L env es g) = run_spec spec (log_of es) (view (g_state g))"
proof (cases "apply_entries L env es g")
  case None
  then have "run_spec spec (log_of es) (view (g_state g)) = None" using apply_entries_returns [OF assms, of L] by blast
  then show ?thesis using None by simp
next
  case (Some g')
  then show ?thesis using apply_entries_spec [OF assms(1-3) Some] by simp
qed

lemma handle_ready_spec:
  assumes "drives g" "fair env" "is_empty_snap L (rd_snapshot rd)"
    "\<forall>d \<in> set (log_of (rd_committed rd)). legal d" "handle_ready L W N env rd g = Some g'"
  shows "drives g' \<and> registered g g' \<and>
    run_spec spec (log_of (rd_committed rd)) (view (g_state g)) = Some (view (g_state g'))"
proof -
  define g1 where "g1 = (case rd_lead rd of None \<Rightarrow> g | Some l \<Rightarrow> g\<lparr>g_leader_id := l\<rparr>)"
  define g2 where "g2 = send_if (is_leader g1) N (rd_messages rd) g1"
  obtain g3 g5 where g: "save_ready W rd g2 = Some g3" "apply_entries L env (rd_committed rd) g3 = Some g5"
    "g' = (send_if (\<not> is_leader g5) N (rd_messages rd) g5)\<lparr>g_calls :=
       g_calls (send_if (\<not> is_leader g5) N (rd_messages rd) g5) @ [CallAdvance]\<rparr>"
    using assms(3,5) unfolding handle_ready_def g1_def [symmetric] Let_def g2_def [symmetric]
    by (auto simp: bind_eq_Some_conv install_snapshot_def)
  have "registered g g1 \<and> g_state g1 = g_state g" by (auto simp: g1_def registered_def split: option.split)
  then have r3: "registered g g3 \<and> g_state g3 = g_state g"
    using save_ready_keeps [OF g(1)]
      send_if_keeps(1,2) [where g = g1 and b = "is_leader g1" and N = N and ms = "rd_messages rd"]
    by (simp add: g2_def [symmetric] registered_def)
  then have "drives g3" using assms(1) drives_registered [of g g3] by (simp add: drives_def)
  from apply_entries_spec [OF this assms(2,4) g(2)] r3 g(3) show ?thesis
    using send_if_keeps(1,2) [where g = g5 and b = "\<not> is_leader g5" and N = N and ms = "rd_messages rd"]
    by (auto simp: drives_def registered_def)
qed

lemma try_snapshot_keeps: "try_snapshot W env i k g = Some (r, g') \<Longrightarrow> registered g g' \<and> g_state g' = g_state g"
  by (auto simp: try_snapshot_def registered_def bind_eq_Some_conv split: option.splits sum.splits if_splits)

lemma group_step_spec:
  assumes "drives g" "fair env" "plain_event L ev" "\<forall>d \<in> set (log_of (committed_by [ev])). legal d"
    "group_step L W N env ev g = Some g'"
  shows "drives g' \<and> registered g g' \<and>
    run_spec spec (log_of (committed_by [ev])) (view (g_state g)) = Some (view (g_state g'))"
proof (cases ev)
  case SnapshotTick
  then obtain r where "try_snapshot W env (g_last_applied g) snapshot_offset g = Some (r, g')"
    using assms(5) by (auto simp: group_step_def)
  from try_snapshot_keeps [OF this] show ?thesis
    using assms(1) SnapshotTick by (simp add: drives_def registered_def committed_by_def)
next
  case Tick
  then show ?thesis using assms by (auto simp: group_step_def drives_def registered_def committed_by_def)
next
  case (Ready rd)
  then show ?thesis using assms handle_ready_spec [of g env L rd W N g']
    by (simp add: group_step_def plain_event_def committed_by_def)
next
  case Stopped
  then show ?thesis using assms by (simp add: plain_event_def)
qed

lemma group_run_spec:
  assumes "drives g" "fair env" "\<forall>ev \<in> set evs. plain_event L ev"
    "\<forall>d \<in> set (log_of (committed_by evs)). legal d" "group_run L W N env evs g = Some g'"
  shows "drives g' \<and> run_spec spec (log_of (committed_by evs)) (view (g_state g)) = Some (view (g_state g'))"
  using assms
proof (induction evs arbitrary: env g)
  case (Cons ev evs)
  have ev: "plain_event L ev" "ev \<noteq> Stopped" using Cons.prems(3) by (auto simp: plain_event_def)
  have split: "committed_by (ev # evs) = committed_by [ev] @ committed_by evs" by (simp add: committed_by_def)
  obtain g1 where g1: "group_step L W N (sub env 0) ev g = Some g1" "group_run L W N (sub env 1) evs g1 = Some g'"
    using Cons.prems(5) ev(2) by (auto simp: bind_eq_Some_conv)
  have one: "drives g1 \<and> registered g g1 \<and>
      run_spec spec (log_of (committed_by [ev])) (view (g_state g)) = Some (view (g_state g1))"
    by (rule group_step_spec [OF Cons.prems(1) fair_sub [OF Cons.prems(2)] ev(1) _ g1(1)])
      (use Cons.prems(4) in \<open>simp add: split\<close>)
  have "drives g' \<and> run_spec spec (log_of (committed_by evs)) (view (g_state g1)) = Some (view (g_state g'))"
    by (rule Cons.IH [OF _ fair_sub [OF Cons.prems(2)] _ _ g1(2)]) (use one Cons.prems(3,4) in \<open>auto simp: split\<close>)
  then show ?case using one run_spec_append [of spec "log_of (committed_by [ev])"] by (simp add: split)
qed (simp add: committed_by_def)

text \<open>The state is a function of the committed entries.\<close>

lemma groups_agree:
  assumes "drives g1" "fair env1" "\<forall>ev \<in> set evs1. plain_event L1 ev" "group_run L1 W1 N1 env1 evs1 g1 = Some h1"
    "drives g2" "fair env2" "\<forall>ev \<in> set evs2. plain_event L2 ev" "group_run L2 W2 N2 env2 evs2 g2 = Some h2"
    "\<forall>d \<in> set (log_of (committed_by evs1)). legal d"
    "view (g_state g1) = view (g_state g2)" "log_of (committed_by evs1) = log_of (committed_by evs2)"
  shows "view (g_state h1) = view (g_state h2)"
  using group_run_spec [OF assms(1-3,9,4)] group_run_spec [OF assms(5-7) _ assms(8)] assms(9-11) by simp

end

section \<open>Properties of the loop\<close>

definition silent :: "('s, 'w) raft_group \<Rightarrow> ('s, 'w) raft_group \<Rightarrow> bool" where
  "silent g g' = (\<exists>cs. g_calls g' = g_calls g @ cs \<and> (\<forall>k i b. MessageSent k i b \<notin> set cs) \<and>
     is_leader g' = is_leader g)"

lemma silent_refl [simp]: "silent g g" by (simp add: silent_def)

lemma silent_trans: "silent g g' \<Longrightarrow> silent g' g'' \<Longrightarrow> silent g g''"
proof -
  assume "silent g g'" "silent g' g''"
  then obtain cs ds where "g_calls g'' = g_calls g @ cs @ ds" "\<forall>k i b. MessageSent k i b \<notin> set (cs @ ds)"
    "is_leader g'' = is_leader g" by (auto simp: silent_def)
  then show ?thesis unfolding silent_def by blast
qed

lemma address_keeps_node: "add_node_address i a t = Some t' \<Longrightarrow> t_node_id t' = t_node_id t"
  "remove_node_address i t = Some t' \<Longrightarrow> t_node_id t' = t_node_id t"
  by (auto simp: add_node_address_def remove_node_address_def split: attempt.splits)

lemma process_conf_change_silent: "process_conf_change L e g = Some (r, g') \<Longrightarrow> silent g g'"
  by (auto simp: process_conf_change_def change_addresses_def silent_def is_leader_def bind_eq_Some_conv
      address_keeps_node split: sum.splits if_splits cc_type.splits)

lemma fatal_silent: "fatal (process_data env d) g = Some g' \<Longrightarrow> silent g g'"
  "fatal (process_snapshot_data d) g = Some g' \<Longrightarrow> silent g g'"
  by (auto simp: fatal_Some process_data_def process_snapshot_data_def lift_state_def silent_def is_leader_def
      bind_eq_Some_conv)

lemma apply_entry_silent: "apply_entry L env e g = Some g' \<Longrightarrow> silent g g'"
proof -
  assume a: "apply_entry L env e g = Some g'"
  have upd: "silent g (h\<lparr>g_last_applied := k\<rparr>) = silent g h" for h k by (simp add: silent_def is_leader_def)
  show "silent g g'"
    using a by (auto simp: apply_entry_def bind_eq_Some_conv upd fatal_silent process_conf_change_silent
        split: entry_type.splits if_splits)
qed

lemma apply_entries_silent: "apply_entries L env es g = Some g' \<Longrightarrow> silent g g'"
proof (induction es arbitrary: env g)
  case (Cons e es)
  obtain g1 where g1: "apply_entry L (sub env 0) e g = Some g1" "apply_entries L (sub env 1) es g1 = Some g'"
    using Cons.prems by (auto simp: bind_eq_Some_conv)
  show ?case using silent_trans [OF apply_entry_silent [OF g1(1)] Cons.IH [OF g1(2)]] .
qed simp

lemma install_snapshot_silent: "install_snapshot L snap g = Some g' \<Longrightarrow> silent g g'"
proof -
  assume a: "install_snapshot L snap g = Some g'"
  have upd: "silent g (h\<lparr>g_last_applied := k\<rparr>) = silent g h" for h k by (simp add: silent_def is_leader_def)
  show "silent g g'" using a by (auto simp: install_snapshot_def upd fatal_silent split: if_splits)
qed

text \<open>
  C12: In every turn that handles a \<open>Ready\<close>, a node that is not the leader hands its messages to
  the network only after the hard state, the entries and the snapshot are saved, as raft requires
  of its user; the leader may send first. The turn ends by telling raft to advance.
\<close>

theorem follower_saves_before_sending:
  assumes "handle_ready L W N env rd g = Some g'"
  shows "\<exists>cs. g_calls g' = g_calls g @ cs @ [CallAdvance] \<and>
    (is_leader g' \<or> (\<forall>xs ys k i b. cs = xs @ MessageSent k i b # ys \<longrightarrow>
       WalSave (rd_hard_state rd) (rd_entries rd) (rd_snapshot rd) \<in> set xs))"
proof -
  let ?S = "WalSave (rd_hard_state rd) (rd_entries rd) (rd_snapshot rd)"
  define g1 where "g1 = (case rd_lead rd of None \<Rightarrow> g | Some l \<Rightarrow> g\<lparr>g_leader_id := l\<rparr>)"
  define g2 where "g2 = send_if (is_leader g1) N (rd_messages rd) g1"
  obtain g3 g4 g5 where g: "save_ready W rd g2 = Some g3" "install_snapshot L (rd_snapshot rd) g3 = Some g4"
    "apply_entries L env (rd_committed rd) g4 = Some g5"
    "g' = (send_if (\<not> is_leader g5) N (rd_messages rd) g5)\<lparr>g_calls :=
       g_calls (send_if (\<not> is_leader g5) N (rd_messages rd) g5) @ [CallAdvance]\<rparr>"
    using assms unfolding handle_ready_def g1_def [symmetric] Let_def g2_def [symmetric]
    by (auto simp: bind_eq_Some_conv)
  have c1: "g_calls g1 = g_calls g" by (auto simp: g1_def split: option.split)
  have lead: "is_leader (send_if b N ms h) = is_leader h" for b ms and h :: "('a, 'b) raft_group"
    by (simp add: is_leader_def send_if_keeps send_if_node)
  have c3: "g_calls g3 = g_calls g2 @ [?S]" "is_leader g3 = is_leader g1"
    using g(1) lead [of "is_leader g1" "rd_messages rd" g1] by (auto simp: save_ready_def is_leader_def g2_def)
  obtain cs where c5: "g_calls g5 = g_calls g3 @ cs" "\<forall>k i b. MessageSent k i b \<notin> set cs" "is_leader g5 = is_leader g3"
    using silent_trans [OF install_snapshot_silent [OF g(2)] apply_entries_silent [OF g(3)]] by (auto simp: silent_def)
  obtain ds where ds: "g_calls (send_if (\<not> is_leader g5) N (rd_messages rd) g5) = g_calls g5 @ ds"
    by (cases "is_leader g5") (auto simp: send_if_def split_beta Let_def)
  have lead': "is_leader g' = is_leader g1" using g(4) lead c5(3) c3(2) by (simp add: is_leader_def send_if_keeps send_if_node)
  show ?thesis
  proof (cases "is_leader g1")
    case True
    obtain ss where "g_calls g2 = g_calls g1 @ ss"
      by (cases "is_leader g1") (auto simp: g2_def send_if_def Let_def split_beta)
    then show ?thesis using g(4) c1 c3(1) c5(1) ds lead' True by auto
  next
    case False
    then have "g_calls g2 = g_calls g" using c1 by (simp add: g2_def send_if_def)
    then have calls: "g_calls g' = g_calls g @ (?S # cs @ ds) @ [CallAdvance]" using g(4) c3(1) c5(1) ds by simp
    have "?S \<in> set xs" if "?S # cs @ ds = xs @ MessageSent k i b # ys" for xs ys k i b
      using that by (cases xs) auto
    then show ?thesis using calls by blast
  qed
qed

text \<open>
  A snapshot that the loop writes is of the state machine as it is, under the index of the last
  applied entry, and only when more than \<open>skip\<close> entries follow the previous one; otherwise the
  log is left as it is. The state machine never changes.
\<close>

theorem snapshot_is_of_applied_state:
  assumes "try_snapshot W env idx skip g = Some (r, g')" "g_snapshot g = Some f"
    "wal_snapshot W (g_wal g) = Inr old"
  shows "g_state g' = g_state g \<and>
    (idx \<le> rs_index old + skip \<longrightarrow> r = Inr () \<and> g_wal g' = g_wal g) \<and>
    (rs_index old + skip < idx \<longrightarrow>
       (\<exists>e. f env (g_state g) = Some (Inl e) \<and> r = Inl e \<and> g_wal g' = g_wal g) \<or>
       (\<exists>data s. f env (g_state g) = Some (Inr data) \<and>
          wal_create_snapshot W idx (g_conf_state g) data (g_wal g) = Some (s, g_wal g') \<and>
          r = map_sum (\<lambda>e. e) (\<lambda>_. ()) s))"
  using assms
  by (auto simp: try_snapshot_def bind_eq_Some_conv split: option.splits sum.splits if_splits)

section \<open>Concrete groups\<close>

text \<open>A log without storage, a raft library and a network for concrete runs.\<close>

definition sample_wal :: "raft_snapshot wal_ops" where
  "sample_wal = \<lparr>wal_save = (\<lambda>_ _ snap w. Some (Inr (), w)), wal_snapshot = Inr,
     wal_create_snapshot = (\<lambda>i cs data w. Some (Inr w, \<lparr>rs_data = data, rs_conf_state = [], rs_index = i, rs_term = 1\<rparr>))\<rparr>"

definition sample_lib :: raft_lib where
  "sample_lib = \<lparr>is_empty_snap = (\<lambda>s. rs_index s = 0), unmarshal_conf_change = (\<lambda>_. Inl BadMessage),
     apply_conf_change = (\<lambda>_ _. [])\<rparr>"

definition sample_net :: network where
  "sample_net = \<lparr>net_marshal = (\<lambda>m. Inr (m_content m)), net_dial = (\<lambda>_. Inr 9), net_deliver = (\<lambda>_ _. None)\<rparr>"

definition no_snapshot :: raft_snapshot where
  "no_snapshot = \<lparr>rs_data = [], rs_conf_state = [], rs_index = 0, rs_term = 0\<rparr>"

definition counter_group :: "(nat, raft_snapshot) raft_group" where
  "counter_group = \<lparr>g_id = replicate 16 1, g_transport = sample_transport,
     g_process = Some (\<lambda>_ data n. Some (Inr (), n + length data)), g_process_snapshot = None,
     g_snapshot = Some (\<lambda>_ n. Some (Inr (replicate n 0))), g_conf_state = None, g_leader_id = 2,
     g_wal = no_snapshot, g_state = 0, g_last_applied = 0, g_calls = []\<rparr>"

definition sample_ready :: "message list \<Rightarrow> entry list \<Rightarrow> ready" where
  "sample_ready ms es = \<lparr>rd_lead = None, rd_messages = ms, rd_hard_state = \<lparr>hs_term = 1, hs_vote = 1, hs_commit = 1\<rparr>,
     rd_entries = es, rd_snapshot = no_snapshot, rd_committed = es\<rparr>"

theorem follower_saves_before_sending_witness:
  "\<exists>g' cs. handle_ready sample_lib sample_wal sample_net (plain_env 0)
       (sample_ready [\<lparr>m_to = 2, m_type = MsgOther 1, m_content = [7]\<rparr>]
          [\<lparr>e_term = 1, e_index = 1, e_type = EntryNormal, e_data = [1, 2]\<rparr>]) counter_group = Some g' \<and>
     g_calls g' = cs @ [CallAdvance] \<and> g_state g' = 2 \<and> MessageSent 4 (replicate 16 1) [7] \<in> set cs \<and>
     (\<forall>xs ys k i b. cs = xs @ MessageSent k i b # ys \<longrightarrow> (\<exists>h es s. WalSave h es s \<in> set xs))"
proof -
  let ?rd = "sample_ready [\<lparr>m_to = 2, m_type = MsgOther 1, m_content = [7]\<rparr>]
          [\<lparr>e_term = 1, e_index = 1, e_type = EntryNormal, e_data = [1, 2]\<rparr>]"
  obtain g' where g': "handle_ready sample_lib sample_wal sample_net (plain_env 0) ?rd counter_group = Some g'"
    "g_state g' = 2" "\<not> is_leader g'" "g_calls counter_group = []"
    "MessageSent 4 (replicate 16 1) [7] \<in> set (g_calls g')"
    by (simp add: handle_ready_def sample_ready_def counter_group_def send_if_def is_leader_def sample_transport_def
        save_ready_def fatal_def sample_wal_def install_snapshot_def sample_lib_def no_snapshot_def apply_entry_def
        process_data_def lift_state_def send_message_def sample_net_def get_node_raft_transport_client_def Let_def)
  obtain cs where "g_calls g' = g_calls counter_group @ cs @ [CallAdvance]"
    "is_leader g' \<or> (\<forall>xs ys k i b. cs = xs @ MessageSent k i b # ys \<longrightarrow>
       WalSave (rd_hard_state ?rd) (rd_entries ?rd) (rd_snapshot ?rd) \<in> set xs)"
    using follower_saves_before_sending [OF g'(1)] by blast
  then show ?thesis using g' by fastforce
qed

theorem snapshot_is_of_applied_state_witness:
  "\<exists>g'. try_snapshot sample_wal (plain_env 0) 9 3 (counter_group\<lparr>g_state := 1\<rparr>) = Some (Inr (), g') \<and>
     g_state g' = 1 \<and> rs_data (g_wal g') = [0] \<and> rs_index (g_wal g') = 9"
proof -
  let ?g = "counter_group\<lparr>g_state := 1\<rparr> :: (nat, raft_snapshot) raft_group"
  obtain g' where g': "try_snapshot sample_wal (plain_env 0) 9 3 ?g = Some (Inr (), g')"
    "rs_data (g_wal g') = [0]" "rs_index (g_wal g') = 9"
    by (simp add: try_snapshot_def counter_group_def sample_wal_def no_snapshot_def)
  have "g_snapshot ?g = Some (\<lambda>_ n. Some (Inr (replicate n 0)))" "wal_snapshot sample_wal (g_wal ?g) = Inr no_snapshot"
    by (simp_all add: counter_group_def sample_wal_def)
  from snapshot_is_of_applied_state [OF g'(1) this] show ?thesis
    using g' by (simp add: counter_group_def)
qed

end
