(* ===== verification/Wal.thy ===== *)
theory Wal
  imports RaftFacts "HOL-Library.List_Lexorder"
begin

text \<open>
  \<open>storage/wal/badger.go\<close>: the raft log of a group in a key-value store. An entry is stored under the
  id of the group followed by its index in big-endian order; the first stored entry is a dummy that
  stands for the snapshot. The store is badger and an argument (\<open>kv\<close>), as are the protobuf encodings
  (\<open>wal_codec\<close>). A write batch is part of the state while it is open; it is flushed in the order of
  its operations, and is taken to fit one transaction.
\<close>

section \<open>The store and the codec\<close>

datatype kv_op = SetKey bytes bytes | DeleteKey bytes

text \<open>
  \<open>kv_scan p\<close> lists the items whose keys have the prefix \<open>p\<close> in ascending order of the keys, each
  with the result of reading its value; an iterator moves over this list, or over its reverse.
\<close>

record 'd kv =
  kv_get :: "bytes \<Rightarrow> 'd \<Rightarrow> error + bytes"
  kv_scan :: "bytes \<Rightarrow> 'd \<Rightarrow> (bytes \<times> (error + bytes)) list"
  kv_refuses :: "kv_op \<Rightarrow> error option"
  kv_flush :: "kv_op list \<Rightarrow> ('d, unit) prog"

record wal_codec =
  m_entry :: "entry \<Rightarrow> error + bytes"
  u_entry :: "bytes \<Rightarrow> error + entry"
  entry_size :: "entry \<Rightarrow> 64 word"
  m_hard_state :: "hard_state \<Rightarrow> error + bytes"
  u_hard_state :: "bytes \<Rightarrow> error + hard_state"
  empty_hard_state :: "hard_state \<Rightarrow> bool"
  m_snap :: "raft_snapshot \<Rightarrow> error + bytes"
  u_snap :: "bytes \<Rightarrow> error + raft_snapshot"
  empty_snap :: "raft_snapshot \<Rightarrow> bool"

section \<open>State\<close>

text \<open>\<open>cache\<close> has three keys; \<open>w_batch\<close> is the write batch that is open.\<close>

record 'd wal =
  w_group :: uuid
  w_db :: 'd
  w_snapshot :: "raft_snapshot option"
  w_first :: "64 word option"
  w_last :: "64 word option"
  w_batch :: "kv_op list"

definition zero_entry :: entry where
  "zero_entry = \<lparr>e_term = 0, e_index = 0, e_type = EntryNormal, e_data = []\<rparr>"

definition zero_snapshot :: raft_snapshot where
  "zero_snapshot = \<lparr>rs_data = [], rs_conf_state = [], rs_index = 0, rs_term = 0\<rparr>"

definition zero_hard_state :: hard_state where
  "zero_hard_state = \<lparr>hs_term = 0, hs_vote = 0, hs_commit = 0\<rparr>"

section \<open>Keys\<close>

definition raft_id_key :: bytes where
  "raft_id_key = map (\<lambda>c. of_nat (of_char c)) ''raftid''"

definition entry_key :: "uuid \<Rightarrow> 64 word \<Rightarrow> bytes" where
  "entry_key g i = g @ be_bytes 8 i"

definition hard_state_key :: "uuid \<Rightarrow> bytes" where
  "hard_state_key g = map (\<lambda>c. of_nat (of_char c)) ''hs'' @ g"

definition snapshot_key :: "uuid \<Rightarrow> bytes" where
  "snapshot_key g = map (\<lambda>c. of_nat (of_char c)) ''ss'' @ g"

text \<open>A key that is too short is a slice out of range.\<close>

definition parse_index :: "bytes \<Rightarrow> 64 word option" where
  "parse_index k = (if 24 \<le> length k then Some (be_word (take 8 (drop 16 k))) else None)"

section \<open>The raft id of the node\<close>

definition get_badger_raft_id :: "'d kv \<Rightarrow> 'd \<Rightarrow> (error + 64 word) option" where
  "get_badger_raft_id V db = (case kv_get V raft_id_key db of
       Inl e \<Rightarrow> Some (Inl e)
     | Inr v \<Rightarrow> if length v < 8 then None else Some (Inr (be_word (take 8 v))))"

definition set_badger_raft_id :: "'d kv \<Rightarrow> 64 word \<Rightarrow> ('d, unit) prog" where
  "set_badger_raft_id V i db = (case kv_refuses V (SetKey raft_id_key (be_bytes 8 i)) of
       Some e \<Rightarrow> Some (Inl e, db)
     | None \<Rightarrow> kv_flush V [SetKey raft_id_key (be_bytes 8 i)] db)"

section \<open>Reading\<close>

definition seek :: "'d kv \<Rightarrow> 64 word \<Rightarrow> bool \<Rightarrow> 'd wal \<Rightarrow> (bytes \<times> (error + bytes)) list" where
  "seek V i backwards w =
     (let items = kv_scan V (w_group w) (w_db w); k = entry_key (w_group w) i
      in if backwards then dropWhile (\<lambda>(k', _). k < k') (rev items) else dropWhile (\<lambda>(k', _). k' < k) items)"

definition seek_index :: "'d kv \<Rightarrow> 64 word \<Rightarrow> bool \<Rightarrow> ('d wal, 64 word) prog" where
  "seek_index V i backwards w = (case seek V i backwards w of
       [] \<Rightarrow> Some (Inl EntryNotFound, w)
     | (k, _) # _ \<Rightarrow> map_option (\<lambda>j. (Inr j, w)) (parse_index k))"

definition seek_entry :: "'d kv \<Rightarrow> wal_codec \<Rightarrow> 64 word \<Rightarrow> ('d wal, entry) prog" where
  "seek_entry V C i w = (case seek V i False w of
       [] \<Rightarrow> Some (Inl EntryNotFound, w)
     | (k, v) # _ \<Rightarrow> do {
         _ \<leftarrow> parse_index k;
         Some (case v of Inl e \<Rightarrow> Inl e | Inr bs \<Rightarrow> u_entry C bs, w) })"

definition cached_snapshot :: "wal_codec \<Rightarrow> 'd wal \<Rightarrow> raft_snapshot option" where
  "cached_snapshot C w = (case w_snapshot w of
     Some s \<Rightarrow> if empty_snap C s then None else Some s | None \<Rightarrow> None)"

definition first_index :: "'d kv \<Rightarrow> wal_codec \<Rightarrow> ('d wal, 64 word) prog" where
  "first_index V C w = (case cached_snapshot C w of
       Some s \<Rightarrow> Some (Inr (rs_index s + 1), w)
     | None \<Rightarrow> (case w_first w of
           Some i \<Rightarrow> Some (Inr i, w)
         | None \<Rightarrow> andthen (seek_index V 0 False) (\<lambda>i w. Some (Inr (i + 1), w\<lparr>w_first := Some (i + 1)\<rparr>)) w))"

definition last_index :: "'d kv \<Rightarrow> ('d wal, 64 word) prog" where
  "last_index V w = (case w_last w of Some i \<Rightarrow> Some (Inr i, w) | None \<Rightarrow> seek_index V (- 1) True w)"

definition badger_snapshot :: "'d kv \<Rightarrow> wal_codec \<Rightarrow> 'd wal \<Rightarrow> error + raft_snapshot" where
  "badger_snapshot V C w = (case cached_snapshot C w of
       Some s \<Rightarrow> Inr s
     | None \<Rightarrow> (case kv_get V (snapshot_key (w_group w)) (w_db w) of
           Inl e \<Rightarrow> if e = KeyNotFound then Inr zero_snapshot else Inl e
         | Inr v \<Rightarrow> u_snap C v))"

definition badger_hard_state :: "'d kv \<Rightarrow> wal_codec \<Rightarrow> 'd wal \<Rightarrow> error + hard_state" where
  "badger_hard_state V C w = (case kv_get V (hard_state_key (w_group w)) (w_db w) of
       Inl e \<Rightarrow> if e = KeyNotFound then Inr zero_hard_state else Inl e
     | Inr v \<Rightarrow> u_hard_state C v)"

definition initial_state :: "'d kv \<Rightarrow> wal_codec \<Rightarrow> 'd wal \<Rightarrow> error + hard_state \<times> conf_state" where
  "initial_state V C w = (case badger_hard_state V C w of
       Inl e \<Rightarrow> Inl e
     | Inr h \<Rightarrow> (case badger_snapshot V C w of Inl e \<Rightarrow> Inl e | Inr s \<Rightarrow> Inr (h, rs_conf_state s)))"

text \<open>The loop of \<open>getEntries\<close>; the first entry is taken whatever its size.\<close>

fun collect_entries ::
  "wal_codec \<Rightarrow> bytes \<Rightarrow> 64 word \<Rightarrow> (bytes \<times> (error + bytes)) list \<Rightarrow> 64 word \<Rightarrow> bool \<Rightarrow> entry list \<Rightarrow> error + entry list" where
  "collect_entries C end_key max_size [] read first es = Inr es"
| "collect_entries C end_key max_size ((k, v) # items) read first es = (case v of
       Inl e \<Rightarrow> Inl e
     | Inr bs \<Rightarrow> (case u_entry C bs of
           Inl e \<Rightarrow> Inl e
         | Inr e \<Rightarrow>
             if end_key \<le> k then Inr es
             else let read' = read + entry_size C e
                  in if max_size < read' \<and> \<not> first then Inr es
                     else collect_entries C end_key max_size items read' False (es @ [e])))"

definition get_entries :: "'d kv \<Rightarrow> wal_codec \<Rightarrow> 64 word \<Rightarrow> 64 word \<Rightarrow> 64 word \<Rightarrow> 'd wal \<Rightarrow> error + entry list" where
  "get_entries V C lo hi max_size w =
     (if hi - lo = 1
      then (case kv_get V (entry_key (w_group w) lo) (w_db w) of
          Inl e \<Rightarrow> Inl e
        | Inr v \<Rightarrow> map_sum (\<lambda>e. e) (\<lambda>e. [e]) (u_entry C v))
      else collect_entries C (entry_key (w_group w) hi) max_size (seek V lo False w) 0 True [])"

definition log_entries :: "'d kv \<Rightarrow> wal_codec \<Rightarrow> 64 word \<Rightarrow> 64 word \<Rightarrow> 64 word \<Rightarrow> ('d wal, entry list) prog" where
  "log_entries V C lo hi max_size =
     andthen (first_index V C) (\<lambda>first. if lo < first then fail ErrCompacted else
     andthen (last_index V) (\<lambda>last w. if last + 1 < hi then Some (Inl ErrUnavailable, w)
       else Some (get_entries V C lo hi max_size w, w)))"

definition log_term :: "'d kv \<Rightarrow> wal_codec \<Rightarrow> 64 word \<Rightarrow> ('d wal, 64 word) prog" where
  "log_term V C i = andthen (first_index V C) (\<lambda>first w.
     if i < first - 1 then Some (Inl ErrCompacted, w)
     else (case seek_entry V C i w of
         None \<Rightarrow> None
       | Some (Inl e, w') \<Rightarrow> Some (Inl (if e = EntryNotFound then ErrUnavailable else e), w')
       | Some (Inr e, w') \<Rightarrow> Some (if i < e_index e then Inl ErrCompacted else Inr (e_term e), w')))"

section \<open>Writing\<close>

definition add_op :: "'d kv \<Rightarrow> kv_op \<Rightarrow> ('d wal, unit) prog" where
  "add_op V x w = (case kv_refuses V x of
     Some e \<Rightarrow> Some (Inl e, w) | None \<Rightarrow> Some (Inr (), w\<lparr>w_batch := w_batch w @ [x]\<rparr>))"

fun delete_keys :: "'d kv \<Rightarrow> bytes list \<Rightarrow> ('d wal, unit) prog" where
  "delete_keys V [] = ret ()"
| "delete_keys V (k # ks) = andthen (add_op V (DeleteKey k)) (\<lambda>_. delete_keys V ks)"

definition delete_entries_from_index :: "'d kv \<Rightarrow> 64 word \<Rightarrow> ('d wal, unit) prog" where
  "delete_entries_from_index V i w = delete_keys V (map fst (seek V i False w)) w"

fun keys_until :: "64 word \<Rightarrow> bool \<Rightarrow> (bytes \<times> (error + bytes)) list \<Rightarrow> (error + bytes list) option" where
  "keys_until i first [] = Some (Inr [])"
| "keys_until i first ((k, _) # items) = (case parse_index k of
       None \<Rightarrow> None
     | Some j \<Rightarrow> if first \<and> i \<le> j then Some (Inl ErrCompacted)
         else if i \<le> j then Some (Inr [])
         else map_option (map_sum (\<lambda>e. e) ((#) k)) (keys_until i False items))"

definition delete_entries_until_index :: "'d kv \<Rightarrow> 64 word \<Rightarrow> ('d wal, unit) prog" where
  "delete_entries_until_index V i w = (case keys_until i True (seek V 0 False w) of
       None \<Rightarrow> None
     | Some (Inl e) \<Rightarrow> Some (Inl e, w)
     | Some (Inr ks) \<Rightarrow> andthen (delete_keys V ks) (\<lambda>_ w. Some (Inr (), (case w_first w of
           Some j \<Rightarrow> if j \<le> i then w\<lparr>w_first := Some (i + 1)\<rparr> else w
         | None \<Rightarrow> w))) w)"

definition put_entry :: "'d kv \<Rightarrow> wal_codec \<Rightarrow> entry \<Rightarrow> ('d wal, unit) prog" where
  "put_entry V C e w = (case m_entry C e of
     Inl err \<Rightarrow> Some (Inl err, w) | Inr bs \<Rightarrow> add_op V (SetKey (entry_key (w_group w) (e_index e)) bs) w)"

fun put_entries :: "'d kv \<Rightarrow> wal_codec \<Rightarrow> entry list \<Rightarrow> ('d wal, unit) prog" where
  "put_entries V C [] = ret ()"
| "put_entries V C (e # es) = andthen (put_entry V C e) (\<lambda>_. put_entries V C es)"

text \<open>\<open>entries[(firstIndex - firstEntryIndex):]\<close> panics when the difference exceeds the length.\<close>

definition write_entries :: "'d kv \<Rightarrow> wal_codec \<Rightarrow> entry list \<Rightarrow> ('d wal, unit) prog" where
  "write_entries V C es = (case es of [] \<Rightarrow> ret () | e # _ \<Rightarrow>
     andthen (first_index V C) (\<lambda>first.
       if e_index e + of_nat (length es) - 1 < first then ret ()
       else let n = unat (first - e_index e); es' = (if e_index e < first then drop n es else es) in
       if e_index e < first \<and> length es < n then panic else
       andthen (last_index V) (\<lambda>last_i.
       andthen (put_entries V C es') (\<lambda>_ w.
         if es' = [] then None
         else let i = e_index (List.last es'); w' = w\<lparr>w_last := Some i\<rparr>
              in if i < last_i then delete_entries_from_index V (i + 1) w' else Some (Inr (), w')))))"

definition write_hard_state :: "'d kv \<Rightarrow> wal_codec \<Rightarrow> hard_state \<Rightarrow> ('d wal, unit) prog" where
  "write_hard_state V C h w =
     (if empty_hard_state C h then Some (Inr (), w)
      else case m_hard_state C h of
          Inl e \<Rightarrow> Some (Inl e, w)
        | Inr bs \<Rightarrow> add_op V (SetKey (hard_state_key (w_group w)) bs) w)"

definition write_snapshot :: "'d kv \<Rightarrow> wal_codec \<Rightarrow> raft_snapshot \<Rightarrow> ('d wal, unit) prog" where
  "write_snapshot V C s w =
     (if empty_snap C s then Some (Inr (), w)
      else case m_snap C s of
          Inl e \<Rightarrow> Some (Inl e, w)
        | Inr bs \<Rightarrow> andthen (add_op V (SetKey (snapshot_key (w_group w)) bs)) (\<lambda>_.
            andthen (put_entry V C (zero_entry\<lparr>e_term := rs_term s, e_index := rs_index s\<rparr>)) (\<lambda>_ w.
              Some (Inr (), w\<lparr>
                w_last := (case w_last w of Some i \<Rightarrow> Some (if i < rs_index s then rs_index s else i) | None \<Rightarrow> None),
                w_snapshot := Some s\<rparr>))) w)"

definition flush :: "'d kv \<Rightarrow> ('d wal, unit) prog" where
  "flush V w = (case kv_flush V (w_batch w) (w_db w) of
     None \<Rightarrow> None | Some (r, db) \<Rightarrow> Some (r, w\<lparr>w_db := db\<rparr>))"

text \<open>\<open>NewWriteBatch\<close> and the deferred \<open>Cancel\<close>.\<close>

definition with_batch :: "('d wal, 'a) prog \<Rightarrow> ('d wal, 'a) prog" where
  "with_batch m w = map_option (\<lambda>(r, w'). (r, w'\<lparr>w_batch := []\<rparr>)) (m (w\<lparr>w_batch := []\<rparr>))"

definition badger_save :: "'d kv \<Rightarrow> wal_codec \<Rightarrow> hard_state \<Rightarrow> entry list \<Rightarrow> raft_snapshot \<Rightarrow> ('d wal, unit) prog" where
  "badger_save V C h es s = with_batch (
     andthen (write_entries V C es) (\<lambda>_.
     andthen (write_hard_state V C h) (\<lambda>_.
     andthen (if empty_snap C s then ret ()
              else andthen (write_snapshot V C s) (\<lambda>_. delete_entries_from_index V 0)) (\<lambda>_. flush V))))"

definition badger_create_snapshot ::
  "'d kv \<Rightarrow> wal_codec \<Rightarrow> 64 word \<Rightarrow> conf_state option \<Rightarrow> bytes \<Rightarrow> ('d wal, raft_snapshot) prog" where
  "badger_create_snapshot V C i cs data = (case cs of
       None \<Rightarrow> fail EmptyConfState
     | Some conf \<Rightarrow>
         andthen (first_index V C) (\<lambda>first. if i < first then fail ErrSnapOutOfDate else
         andthen (seek_entry V C i) (\<lambda>e. if i \<noteq> e_index e then fail EntryNotFound else
         let s = \<lparr>rs_data = data, rs_conf_state = conf, rs_index = e_index e, rs_term = e_term e\<rparr> in
         with_batch (
           andthen (write_snapshot V C s) (\<lambda>_.
           andthen (delete_entries_until_index V (rs_index s)) (\<lambda>_.
           andthen (flush V) (\<lambda>_. ret s)))))))"

definition reset :: "'d kv \<Rightarrow> wal_codec \<Rightarrow> entry list \<Rightarrow> ('d wal, unit) prog" where
  "reset V C es w = with_batch (andthen (delete_entries_from_index V 0) (\<lambda>_. andthen (put_entries V C es) (\<lambda>_. flush V)))
     (w\<lparr>w_snapshot := None, w_first := None, w_last := None\<rparr>)"

definition delete_group :: "'d kv \<Rightarrow> wal_codec \<Rightarrow> ('d wal, unit) prog" where
  "delete_group V C = reset V C []"

text \<open>The error of \<open>reset\<close> is dropped; another error than a missing entry ends the process.\<close>

definition new_badger_wal :: "'d kv \<Rightarrow> wal_codec \<Rightarrow> uuid \<Rightarrow> 'd \<Rightarrow> 'd wal option" where
  "new_badger_wal V C g db =
     (case first_index V C \<lparr>w_group = g, w_db = db, w_snapshot = None, w_first = None, w_last = None, w_batch = []\<rparr> of
        None \<Rightarrow> None
      | Some (Inl e, w) \<Rightarrow> if e = EntryNotFound then map_option snd (reset V C [zero_entry] w) else None
      | Some (Inr _, w) \<Rightarrow> Some w)"

text \<open>What a raft group uses of it.\<close>

definition badger_ops :: "'d kv \<Rightarrow> wal_codec \<Rightarrow> 'd wal wal_ops" where
  "badger_ops V C = \<lparr>wal_save = badger_save V C, wal_snapshot = badger_snapshot V C,
     wal_create_snapshot = badger_create_snapshot V C\<rparr>"

end
