(* ===== verification/WalFacts.thy ===== *)
theory WalFacts
  imports Wal
begin

text \<open>
  What the stored log means. \<open>raft_log\<close> is the log as raft sees it: its entries from the dummy on,
  the hard state and the snapshot. \<open>represents\<close> relates a stored log with its caches to it, under
  the documented behaviour of the store (\<open>kv_laws\<close>) and of the codec (\<open>codec_laws\<close>); the lemmas give
  the effect of every operation on the abstract log.
\<close>

section \<open>What the store and the codec promise\<close>

fun apply_op :: "kv_op \<Rightarrow> (bytes \<rightharpoonup> bytes) \<Rightarrow> bytes \<rightharpoonup> bytes" where
  "apply_op (SetKey k v) m = m(k \<mapsto> v)"
| "apply_op (DeleteKey k) m = m(k := None)"

definition kv_laws :: "'d kv \<Rightarrow> ('d \<Rightarrow> bytes \<rightharpoonup> bytes) \<Rightarrow> bool" where
  "kv_laws V rows =
     ((\<forall>k d. kv_get V k d = (case rows d k of None \<Rightarrow> Inl KeyNotFound | Some v \<Rightarrow> Inr v)) \<and>
      (\<forall>p d. sorted_wrt (<) (map fst (kv_scan V p d)) \<and>
         set (kv_scan V p d) = {(k, Inr v) | k v. rows d k = Some v \<and> take (length p) k = p}) \<and>
      (\<forall>x. kv_refuses V x = None) \<and>
      (\<forall>xs d. \<exists>d'. kv_flush V xs d = Some (Inr (), d') \<and> rows d' = fold apply_op xs (rows d)))"

definition codec_laws :: "wal_codec \<Rightarrow> bool" where
  "codec_laws C =
     ((\<forall>e. \<exists>b. m_entry C e = Inr b \<and> u_entry C b = Inr e) \<and>
      (\<forall>h. \<exists>b. m_hard_state C h = Inr b \<and> u_hard_state C b = Inr h) \<and>
      (\<forall>s. \<exists>b. m_snap C s = Inr b \<and> u_snap C b = Inr s) \<and>
      (\<forall>h. empty_hard_state C h = (h = zero_hard_state)) \<and> (\<forall>s. empty_snap C s = (rs_index s = 0)))"

section \<open>Keys\<close>

lemma append_less_iff: "(g @ xs < g @ ys) = (xs < (ys :: bytes))"
  by (induction g) auto

lemma snoc_less_iff: "length xs = length ys \<Longrightarrow> (xs @ [a] < ys @ [b]) = (xs < ys \<or> xs = ys \<and> a < (b :: byte))"
  by (induction xs ys rule: list_induct2) auto

lemma be_bytes_Suc: "be_bytes (Suc n) w = be_bytes n (drop_bit 8 w) @ [ucast w]"
  by (simp add: be_bytes_def)

lemma be_bytes_less: "(be_bytes n (w :: 64 word) < be_bytes n (v :: 64 word)) = (unat w mod 2 ^ (8 * n) < unat v mod 2 ^ (8 * n))"
proof (induction n arbitrary: w v)
  case (Suc n)
  have split: "unat x mod 2 ^ (8 * Suc n) = 256 * (unat (drop_bit 8 x) mod 2 ^ (8 * n)) + unat (ucast x :: byte)"
    for x :: "64 word"
  proof -
    have "unat x mod 2 ^ (8 * Suc n) = unat x mod (256 * 2 ^ (8 * n))" by (simp add: power_add)
    also have "\<dots> = 256 * (unat x div 256 mod 2 ^ (8 * n)) + unat x mod 256" by (rule mod_mult2_eq)
    finally show ?thesis by (simp add: drop_bit_eq_div unat_div unsigned_ucast_eq take_bit_eq_mod)
  qed
  have bound: "unat (ucast x :: byte) < 256" for x :: "64 word"
  proof -
    have "unat (ucast x :: byte) < 2 ^ LENGTH(8)" by (rule unsigned_less)
    then show ?thesis by simp
  qed
  have eq: "(be_bytes n (drop_bit 8 w) = be_bytes n (drop_bit 8 v)) =
      (unat (drop_bit 8 w) mod 2 ^ (8 * n) = unat (drop_bit 8 v) mod 2 ^ (8 * n))"
    using Suc.IH [of "drop_bit 8 w" "drop_bit 8 v"] Suc.IH [of "drop_bit 8 v" "drop_bit 8 w"]
    by (metis less_irrefl linorder_neq_iff)
  have "(be_bytes (Suc n) w < be_bytes (Suc n) v) =
      (unat (drop_bit 8 w) mod 2 ^ (8 * n) < unat (drop_bit 8 v) mod 2 ^ (8 * n) \<or>
       unat (drop_bit 8 w) mod 2 ^ (8 * n) = unat (drop_bit 8 v) mod 2 ^ (8 * n) \<and>
       unat (ucast w :: byte) < unat (ucast v :: byte))"
    by (simp only: be_bytes_Suc snoc_less_iff length_be_bytes eq Suc.IH word_less_nat_alt)
  also have "\<dots> = (unat w mod 2 ^ (8 * Suc n) < unat v mod 2 ^ (8 * Suc n))"
    unfolding split using bound [of w] bound [of v] by arith
  finally show ?case .
qed (simp add: be_bytes_def)

lemma entry_key_less [simp]: "(entry_key g i < entry_key g j) = (i < j)"
proof -
  have "unat x mod 2 ^ 64 = unat x" for x :: "64 word"
  proof -
    have "unat x < 2 ^ LENGTH(64)" by (rule unsigned_less)
    then show ?thesis by simp
  qed
  then show ?thesis using be_bytes_less [of 8 i j] by (simp add: entry_key_def append_less_iff word_less_nat_alt)
qed

lemma entry_key_eq [simp]: "(entry_key g i = entry_key g j) = (i = j)"
  by (metis entry_key_less linorder_neq_iff less_irrefl)

lemma entry_key_le [simp]: "(entry_key g i \<le> entry_key g j) = (i \<le> j)"
  by (metis entry_key_less linorder_not_less)

lemma parse_entry_key: "length g = 16 \<Longrightarrow> parse_index (entry_key g i) = Some i"
  using be_word_be_bytes [of 8 i] by (simp add: parse_index_def entry_key_def)

lemma take_entry_key: "length g = 16 \<Longrightarrow> take 16 (entry_key g i) = g"
  by (simp add: entry_key_def)

lemma length_keys: "length g = 16 \<Longrightarrow> length (entry_key g i) = 24" "length (hard_state_key g) = 2 + length g"
  "length (snapshot_key g) = 2 + length g"
  by (simp_all add: entry_key_def hard_state_key_def snapshot_key_def)

lemma other_keys:
  assumes "length g = 16"
  shows "hard_state_key g \<noteq> snapshot_key g" "entry_key g i \<noteq> hard_state_key g" "entry_key g i \<noteq> snapshot_key g"
    "hard_state_key g \<noteq> entry_key g i" "snapshot_key g \<noteq> entry_key g i" "snapshot_key g \<noteq> hard_state_key g"
proof -
  show ne: "hard_state_key g \<noteq> snapshot_key g" by (simp add: hard_state_key_def snapshot_key_def)
  show "snapshot_key g \<noteq> hard_state_key g" using ne by metis
  have "length (entry_key g i) \<noteq> length (hard_state_key g)" "length (entry_key g i) \<noteq> length (snapshot_key g)"
    using assms by (simp_all add: length_keys)
  then show "entry_key g i \<noteq> hard_state_key g" "entry_key g i \<noteq> snapshot_key g"
    "hard_state_key g \<noteq> entry_key g i" "snapshot_key g \<noteq> entry_key g i" by metis+
qed

section \<open>Consecutive entries\<close>

definition from_index :: "nat \<Rightarrow> entry list \<Rightarrow> bool" where
  "from_index n es = (map (\<lambda>e. unat (e_index e)) es = [n..<n + length es])"

lemma from_index_simps [simp]:
  "from_index n []"
  "from_index n (e # es) = (unat (e_index e) = n \<and> from_index (Suc n) es)"
  by (auto simp: from_index_def upt_conv_Cons simp del: upt_Suc)

lemma from_index_append [simp]: "from_index n (xs @ ys) = (from_index n xs \<and> from_index (n + length xs) ys)"
  by (induction xs arbitrary: n) auto

lemma from_index_take: "from_index n es \<Longrightarrow> from_index n (take k es)"
  by (metis append_take_drop_id from_index_append)

lemma from_index_drop: "from_index n es \<Longrightarrow> from_index (n + k) (drop k es)"
proof (induction es arbitrary: n k)
  case (Cons e es)
  then show ?case using Cons.IH [of "Suc n" "k - 1"] by (cases k) auto
qed simp

lemma from_index_nth: "from_index n es \<Longrightarrow> k < length es \<Longrightarrow> unat (e_index (es ! k)) = n + k"
proof (induction es arbitrary: n k)
  case (Cons e es)
  then show ?case by (cases k) auto
qed simp

lemma from_index_hd: "from_index n es \<Longrightarrow> es \<noteq> [] \<Longrightarrow> unat (e_index (hd es)) = n"
  by (cases es) auto

lemma from_index_last: "from_index n es \<Longrightarrow> es \<noteq> [] \<Longrightarrow> unat (e_index (last es)) = n + length es - 1"
  using from_index_nth [of n es "length es - 1"] Suc_leI [of 0 "length es"] by (simp add: last_conv_nth)

lemma from_index_mem: "from_index n es \<Longrightarrow> e \<in> set es \<Longrightarrow> n \<le> unat (e_index e) \<and> unat (e_index e) < n + length es"
  by (induction es arbitrary: n) force+

lemma from_index_keys:
  assumes "from_index n es"
  shows "sorted_wrt (<) (map (\<lambda>e. entry_key g (e_index e)) es)"
proof -
  have "sorted_wrt (<) (map (\<lambda>e. unat (e_index e)) es)" using assms by (simp add: from_index_def)
  then have "sorted_wrt (\<lambda>e f. unat (e_index e) < unat (e_index f)) es" by (simp add: sorted_wrt_map)
  then show ?thesis by (simp add: sorted_wrt_map word_less_nat_alt)
qed

lemma from_index_before:
  assumes "from_index n es" "m \<le> n + length es"
  shows "dropWhile (\<lambda>e. unat (e_index e) < m) es = drop (m - n) es"
  using assms
proof (induction es arbitrary: n)
  case (Cons e es)
  then show ?case by (cases "n < m") (auto simp: drop_Cons')
qed simp

lemma from_index_beyond:
  assumes "from_index n es" "n + length es \<le> m"
  shows "dropWhile (\<lambda>e. unat (e_index e) < m) es = []"
  using from_index_mem [OF assms(1)] assms(2) by (fastforce simp: dropWhile_eq_Nil_conv)

section \<open>The abstract log\<close>

record raft_log =
  lg_entries :: "entry list"
  lg_hard_state :: "hard_state option"
  lg_snapshot :: "raft_snapshot option"

definition base :: "raft_log \<Rightarrow> nat" where
  "base l = unat (e_index (hd (lg_entries l)))"

definition log_wf :: "raft_log \<Rightarrow> bool" where
  "log_wf l = (lg_entries l \<noteq> [] \<and> from_index (base l) (lg_entries l) \<and>
     base l + length (lg_entries l) < 2 ^ 64 \<and>
     (\<forall>s. lg_snapshot l = Some s \<longrightarrow> rs_index s = e_index (hd (lg_entries l)) \<and> rs_index s \<noteq> 0))"

definition entry_bytes :: "wal_codec \<Rightarrow> entry \<Rightarrow> bytes" where
  "entry_bytes C e = projr (m_entry C e)"

definition pairs :: "wal_codec \<Rightarrow> uuid \<Rightarrow> entry list \<Rightarrow> (bytes \<times> bytes) list" where
  "pairs C g es = map (\<lambda>e. (entry_key g (e_index e), entry_bytes C e)) es"

definition proper_group :: "uuid \<Rightarrow> bool" where
  "proper_group g = (length g = 16 \<and> take 16 (hard_state_key g) \<noteq> g \<and> take 16 (snapshot_key g) \<noteq> g)"

text \<open>
  What the store holds for a group, and what the caches may say. The cached first index is not kept up
  to date once a snapshot is cached; it is not read then either.
\<close>

definition stores :: "wal_codec \<Rightarrow> (bytes \<rightharpoonup> bytes) \<Rightarrow> uuid \<Rightarrow> raft_log \<Rightarrow> bool" where
  "stores C m g l = ((\<forall>k. take 16 k = g \<longrightarrow> m k = map_of (pairs C g (lg_entries l)) k) \<and>
     m (hard_state_key g) = map_option (\<lambda>h. projr (m_hard_state C h)) (lg_hard_state l) \<and>
     m (snapshot_key g) = map_option (\<lambda>s. projr (m_snap C s)) (lg_snapshot l))"

definition caches :: "'d wal \<Rightarrow> raft_log \<Rightarrow> bool" where
  "caches w l =
     ((\<forall>s. w_snapshot w = Some s \<longrightarrow> lg_snapshot l = Some s) \<and>
      (w_snapshot w = None \<longrightarrow> (\<forall>i. w_first w = Some i \<longrightarrow> i = e_index (hd (lg_entries l)) + 1)) \<and>
      (\<forall>i. w_last w = Some i \<longrightarrow> i = e_index (last (lg_entries l))))"

definition represents :: "wal_codec \<Rightarrow> ('d \<Rightarrow> bytes \<rightharpoonup> bytes) \<Rightarrow> 'd wal \<Rightarrow> raft_log \<Rightarrow> bool" where
  "represents C rows w l = (proper_group (w_group w) \<and> log_wf l \<and> stores C (rows (w_db w)) (w_group w) l \<and> caches w l)"

lemma map_of_pairs:
  assumes "from_index n es"
  shows "map_of (pairs C g es) k = Some v \<longleftrightarrow> (\<exists>e \<in> set es. k = entry_key g (e_index e) \<and> v = entry_bytes C e)"
proof -
  have "distinct (map fst (pairs C g es))"
    using from_index_keys [OF assms, of g] by (simp add: pairs_def o_def strict_sorted_iff)
  then show ?thesis by (auto simp: pairs_def image_iff)
qed

lemma m_entry_bytes: "codec_laws C \<Longrightarrow> m_entry C e = Inr (entry_bytes C e)" "codec_laws C \<Longrightarrow> u_entry C (entry_bytes C e) = Inr e"
proof -
  assume "codec_laws C"
  then obtain b where "m_entry C e = Inr b" "u_entry C b = Inr e" unfolding codec_laws_def by metis
  then show "m_entry C e = Inr (entry_bytes C e)" "u_entry C (entry_bytes C e) = Inr e" by (simp_all add: entry_bytes_def)
qed

lemma m_snap_bytes: "codec_laws C \<Longrightarrow> m_snap C s = Inr (projr (m_snap C s))" "codec_laws C \<Longrightarrow> u_snap C (projr (m_snap C s)) = Inr s"
  by (metis codec_laws_def sum.sel(2))+

lemma m_hard_bytes: "codec_laws C \<Longrightarrow> m_hard_state C h = Inr (projr (m_hard_state C h))"
  "codec_laws C \<Longrightarrow> u_hard_state C (projr (m_hard_state C h)) = Inr h"
  by (metis codec_laws_def sum.sel(2))+

definition row :: "wal_codec \<Rightarrow> uuid \<Rightarrow> entry \<Rightarrow> bytes \<times> (error + bytes)" where
  "row C g e = (entry_key g (e_index e), Inr (entry_bytes C e))"

lemma scan_unique:
  assumes "sorted_wrt (<) (map fst xs)" "sorted_wrt (<) (map fst ys)" "set xs = set ys"
  shows "xs = (ys :: (bytes \<times> 'a) list)"
proof (rule map_sorted_distinct_set_unique [where f = fst])
  show "inj_on fst (set xs \<union> set ys)" using assms by (simp add: strict_sorted_iff distinct_map)
qed (use assms in \<open>simp_all add: strict_sorted_iff\<close>)

lemma scan_rows:
  assumes "kv_laws V rows" "length g = 16" "from_index n es"
    and "\<forall>k. take 16 k = g \<longrightarrow> rows db k = map_of (pairs C g es) k"
  shows "kv_scan V g db = map (row C g) es"
proof (rule scan_unique)
  show "sorted_wrt (<) (map fst (kv_scan V g db))" using assms(1) by (simp add: kv_laws_def)
  show "sorted_wrt (<) (map fst (map (row C g) es))"
    using from_index_keys [OF assms(3), of g] by (simp add: row_def o_def)
  have "set (kv_scan V g db) = {(k, Inr v) | k v. rows db k = Some v \<and> take 16 k = g}"
    using assms(1,2) by (simp add: kv_laws_def)
  also have "\<dots> = {(k, Inr v) | k v. map_of (pairs C g es) k = Some v \<and> take 16 k = g}"
    using assms(4) by (intro Collect_cong) metis
  also have "\<dots> = set (map (row C g) es)"
    using take_entry_key [OF assms(2)] by (auto simp: map_of_pairs [OF assms(3)] row_def image_iff)
  finally show "set (kv_scan V g db) = set (map (row C g) es)" .
qed

end
