(* ===== verification/WalOps.thy ===== *)
theory WalOps
  imports WalFacts
begin

text \<open>
  The operations of the stored log on the abstract log: what reading returns, and which abstract log
  a write leaves.
\<close>

section \<open>Reading\<close>

lemma from_index_drop_while: "from_index n es \<Longrightarrow> dropWhile (\<lambda>e. unat (e_index e) < m) es = drop (m - n) es"
  using from_index_before [of n es m] from_index_beyond [of n es m] by (cases "m \<le> n + length es") auto

lemma represents_group:
  assumes "represents C rows w l"
  shows "length (w_group w) = 16" "lg_entries l \<noteq> []" "from_index (base l) (lg_entries l)"
    "base l + length (lg_entries l) < 2 ^ 64" "log_wf l"
  using assms unfolding represents_def proper_group_def log_wf_def by blast+

lemma represents_scan:
  assumes "kv_laws V rows" "represents C rows w l"
  shows "kv_scan V (w_group w) (w_db w) = map (row C (w_group w)) (lg_entries l)"
  using scan_rows [OF assms(1) represents_group(1,3) [OF assms(2)]] assms(2)
  by (simp add: represents_def stores_def)

lemma seek_forward:
  assumes "kv_laws V rows" "represents C rows w l"
  shows "seek V i False w = map (row C (w_group w)) (drop (unat i - base l) (lg_entries l))"
proof -
  have "from_index (base l) (lg_entries l)" using assms(2) by (simp add: represents_def log_wf_def)
  from from_index_drop_while [OF this] show ?thesis
    by (simp add: seek_def represents_scan [OF assms] dropWhile_map o_def row_def word_less_nat_alt)
qed

lemma seek_back:
  assumes "kv_laws V rows" "represents C rows w l"
  shows "seek V (- 1) True w = rev (map (row C (w_group w)) (lg_entries l))"
proof -
  have "dropWhile (\<lambda>(k, _). entry_key (w_group w) (- 1) < k) (map (row C (w_group w)) es) =
      map (row C (w_group w)) es" for es
    by (cases es) (auto simp: row_def)
  then show ?thesis unfolding seek_def represents_scan [OF assms] by (simp add: Let_def rev_map)
qed

lemma parse_row:
  assumes "represents C rows w l"
  shows "parse_index (fst (row C (w_group w) e)) = Some (e_index e)"
  using assms by (simp add: represents_def proper_group_def row_def parse_entry_key)

lemma represents_update [simp]:
  "represents C rows (w\<lparr>w_batch := b\<rparr>) l = represents C rows w l"
  "represents C rows w l \<Longrightarrow> represents C rows (w\<lparr>w_first := Some (e_index (hd (lg_entries l)) + 1)\<rparr>) l"
  by (simp_all add: represents_def caches_def)

text \<open>\<open>FirstIndex\<close> may fill its cache and does nothing else.\<close>

definition read_only :: "'d wal \<Rightarrow> raft_log \<Rightarrow> 'd wal \<Rightarrow> bool" where
  "read_only w l w' = (w' \<in> {w, w\<lparr>w_first := Some (e_index (hd (lg_entries l)) + 1)\<rparr>})"

lemma read_onlyD:
  assumes "read_only w l w'" "represents C rows w l"
  shows "represents C rows w' l" "w_group w' = w_group w" "w_db w' = w_db w" "w_batch w' = w_batch w"
  using assms by (auto simp: read_only_def)

lemma first_index_reads:
  assumes "kv_laws V rows" "codec_laws C" "represents C rows w l"
  shows "\<exists>w'. first_index V C w = Some (Inr (e_index (hd (lg_entries l)) + 1), w') \<and> read_only w l w'"
proof (cases "cached_snapshot C w")
  case (Some s)
  then have "w_snapshot w = Some s" by (auto simp: cached_snapshot_def split: option.splits if_splits)
  then have "rs_index s = e_index (hd (lg_entries l))" using assms(3) by (auto simp: represents_def caches_def log_wf_def)
  then show ?thesis using Some by (simp add: first_index_def read_only_def)
next
  case None
  have "w_snapshot w = None"
  proof (rule ccontr)
    assume "w_snapshot w \<noteq> None"
    then obtain s where "w_snapshot w = Some s" "rs_index s \<noteq> 0" using assms(3) by (auto simp: represents_def caches_def log_wf_def)
    then show False using None assms(2) by (simp add: cached_snapshot_def codec_laws_def)
  qed
  show ?thesis
  proof (cases "w_first w")
    case (Some i)
    then have "i = e_index (hd (lg_entries l)) + 1"
      using assms(3) \<open>w_snapshot w = None\<close> by (auto simp: represents_def caches_def)
    then show ?thesis using None Some by (simp add: first_index_def read_only_def)
  next
    case first: None
    obtain e es where L: "lg_entries l = e # es" using represents_group(2) [OF assms(3)] by (cases "lg_entries l") auto
    have "seek V 0 False w = map (row C (w_group w)) (e # es)" using seek_forward [OF assms(1,3), of 0] L by simp
    then have "seek_index V 0 False w = Some (Inr (e_index e), w)"
      using parse_row [OF assms(3), of e] by (simp add: seek_index_def row_def)
    then show ?thesis using None first L by (simp add: first_index_def andthen_def read_only_def)
  qed
qed

lemma last_index_reads:
  assumes "kv_laws V rows" "represents C rows w l"
  shows "last_index V w = Some (Inr (e_index (last (lg_entries l))), w)"
proof (cases "w_last w")
  case (Some i)
  then show ?thesis using assms(2) by (auto simp: last_index_def represents_def caches_def)
next
  case None
  obtain e es where L: "lg_entries l = es @ [e]" using represents_group(2) [OF assms(2)] by (cases "lg_entries l" rule: rev_cases) auto
  then show ?thesis using None seek_back [OF assms] parse_row [OF assms(2), of e]
    by (simp add: last_index_def seek_index_def row_def)
qed

lemma snapshot_reads:
  assumes "kv_laws V rows" "codec_laws C" "represents C rows w l"
  shows "badger_snapshot V C w = Inr (case lg_snapshot l of None \<Rightarrow> zero_snapshot | Some s \<Rightarrow> s)"
proof (cases "cached_snapshot C w")
  case (Some s)
  then have "w_snapshot w = Some s" by (auto simp: cached_snapshot_def split: option.splits if_splits)
  then show ?thesis using Some assms(3) by (auto simp: badger_snapshot_def represents_def caches_def)
next
  case None
  have "rows (w_db w) (snapshot_key (w_group w)) = map_option (\<lambda>s. projr (m_snap C s)) (lg_snapshot l)"
    using assms(3) by (simp add: represents_def stores_def)
  then show ?thesis using None assms(1) m_snap_bytes(2) [OF assms(2)]
    by (simp add: badger_snapshot_def kv_laws_def split: option.split)
qed

lemma hard_state_reads:
  assumes "kv_laws V rows" "codec_laws C" "represents C rows w l"
  shows "badger_hard_state V C w = Inr (case lg_hard_state l of None \<Rightarrow> zero_hard_state | Some h \<Rightarrow> h)"
proof -
  have "rows (w_db w) (hard_state_key (w_group w)) = map_option (\<lambda>h. projr (m_hard_state C h)) (lg_hard_state l)"
    using assms(3) by (simp add: represents_def stores_def)
  then show ?thesis using assms(1) m_hard_bytes(2) [OF assms(2)]
    by (simp add: badger_hard_state_def kv_laws_def split: option.split)
qed

text \<open>The entries that fit the size limit; the first one always does.\<close>

fun within_size :: "wal_codec \<Rightarrow> 64 word \<Rightarrow> 64 word \<Rightarrow> bool \<Rightarrow> entry list \<Rightarrow> entry list" where
  "within_size C limit read first [] = []"
| "within_size C limit read first (e # es) =
     (if limit < read + entry_size C e \<and> \<not> first then []
      else e # within_size C limit (read + entry_size C e) False es)"

lemma collect_entries_rows:
  assumes "codec_laws C" "from_index n es" "n \<le> unat hi"
  shows "collect_entries C (entry_key g hi) limit (map (row C g) es) read first got =
    Inr (got @ within_size C limit read first (take (unat hi - n) es))"
  using assms(2,3)
proof (induction es arbitrary: n read first got)
  case (Cons e es)
  have le: "(hi \<le> e_index e) = (unat hi \<le> n)" using Cons.prems(1) by (simp add: word_le_nat_alt)
  show ?case
  proof (cases "unat hi \<le> n")
    case True
    then show ?thesis using le m_entry_bytes(2) [OF assms(1)] by (simp add: row_def)
  next
    case False
    then have "take (unat hi - n) (e # es) = e # take (unat hi - Suc n) es" by (simp add: take_Cons')
    then show ?thesis using False le m_entry_bytes(2) [OF assms(1)] Cons.IH [of "Suc n"] Cons.prems
      by (simp add: row_def Let_def)
  qed
qed simp

lemma get_entries_reads:
  assumes "kv_laws V rows" "codec_laws C" "represents C rows w l"
    and "base l < unat lo" "lo < hi" "unat hi \<le> base l + length (lg_entries l)"
  shows "get_entries V C lo hi limit w =
    Inr (within_size C limit 0 True (take (unat (hi - lo)) (drop (unat lo - base l) (lg_entries l))))"
proof -
  let ?L = "lg_entries l" and ?g = "w_group w"
  have L: "from_index (unat lo) (drop (unat lo - base l) ?L)"
    using from_index_drop [OF represents_group(3) [OF assms(3)], of "unat lo - base l"] assms(4) by simp
  have diff: "unat (hi - lo) = unat hi - unat lo" using assms(5) by (simp add: unat_sub_if' word_less_nat_alt)
  have less: "unat lo < unat hi" using assms(5) by (simp add: word_less_nat_alt)
  show ?thesis
  proof (cases "hi - lo = 1")
    case True
    then have one: "unat hi = Suc (unat lo)" using diff less by simp
    let ?e = "?L ! (unat lo - base l)"
    have k: "unat lo - base l < length ?L" using assms(4,6) one by simp
    have "e_index ?e = lo"
      using from_index_nth [OF represents_group(3) [OF assms(3)] k] assms(4) by (simp add: word_unat_eq_iff)
    then have "map_of (pairs C ?g ?L) (entry_key ?g lo) = Some (entry_bytes C ?e)"
      using map_of_pairs [OF represents_group(3) [OF assms(3)]] k by (metis nth_mem)
    then have "rows (w_db w) (entry_key ?g lo) = Some (entry_bytes C ?e)"
      using assms(3) take_entry_key [OF represents_group(1) [OF assms(3)]] by (simp add: represents_def stores_def)
    then have "get_entries V C lo hi limit w = Inr [?e]"
      using assms(1) True m_entry_bytes(2) [OF assms(2)] by (simp add: get_entries_def kv_laws_def)
    moreover have "take (unat (hi - lo)) (drop (unat lo - base l) ?L) = [?e]"
      using True k by (simp add: take_Suc_conv_app_nth [of 0, simplified] Cons_nth_drop_Suc [symmetric])
    ultimately show ?thesis by simp
  next
    case False
    then show ?thesis
      using collect_entries_rows [OF assms(2) L, of hi ?g limit 0 True "[]"] less diff
      by (simp add: get_entries_def seek_forward [OF assms(1,3)])
  qed
qed

definition read_entries :: "wal_codec \<Rightarrow> 64 word \<Rightarrow> 64 word \<Rightarrow> 64 word \<Rightarrow> raft_log \<Rightarrow> error + entry list" where
  "read_entries C lo hi limit l =
     (if unat lo \<le> base l then Inl ErrCompacted
      else if base l + length (lg_entries l) < unat hi then Inl ErrUnavailable
      else Inr (within_size C limit 0 True (take (unat (hi - lo)) (drop (unat lo - base l) (lg_entries l)))))"

definition read_term :: "64 word \<Rightarrow> raft_log \<Rightarrow> error + 64 word" where
  "read_term i l =
     (if unat i < base l then Inl ErrCompacted
      else if base l + length (lg_entries l) \<le> unat i then Inl ErrUnavailable
      else Inr (e_term (lg_entries l ! (unat i - base l))))"

lemma first_unat:
  assumes "log_wf l"
  shows "unat (e_index (hd (lg_entries l)) + 1) = Suc (base l)"
proof -
  have "base l + 1 < 2 ^ 64" using assms by (cases "lg_entries l") (auto simp: log_wf_def)
  then show ?thesis using unat_add_lem [of "e_index (hd (lg_entries l))" 1] by (simp add: base_def)
qed

lemma last_unat:
  assumes "log_wf l"
  shows "unat (e_index (last (lg_entries l))) = base l + length (lg_entries l) - 1"
    "unat (e_index (last (lg_entries l)) + 1) = base l + length (lg_entries l)"
proof -
  have L: "lg_entries l \<noteq> []" "from_index (base l) (lg_entries l)" "base l + length (lg_entries l) < 2 ^ 64"
    using assms by (simp_all add: log_wf_def)
  show i: "unat (e_index (last (lg_entries l))) = base l + length (lg_entries l) - 1"
    by (rule from_index_last [OF L(2,1)])
  have "0 < length (lg_entries l)" using L(1) by simp
  then show "unat (e_index (last (lg_entries l)) + 1) = base l + length (lg_entries l)"
    using i L(3) unat_add_lem [of "e_index (last (lg_entries l))" 1] by simp
qed

lemma log_entries_reads:
  assumes "kv_laws V rows" "codec_laws C" "represents C rows w l" "lo < hi"
  shows "\<exists>w'. log_entries V C lo hi limit w = Some (read_entries C lo hi limit l, w') \<and> read_only w l w'"
proof -
  have wf: "log_wf l" using represents_group(5) [OF assms(3)] .
  obtain w' where w': "first_index V C w = Some (Inr (e_index (hd (lg_entries l)) + 1), w')" "read_only w l w'"
    using first_index_reads [OF assms(1-3)] by blast
  note rep = read_onlyD(1) [OF w'(2) assms(3)]
  have "lo < e_index (hd (lg_entries l)) + 1 \<longleftrightarrow> unat lo \<le> base l"
    using first_unat [OF wf] by (simp add: word_less_nat_alt less_Suc_eq_le)
  moreover have "e_index (last (lg_entries l)) + 1 < hi \<longleftrightarrow> base l + length (lg_entries l) < unat hi"
    using last_unat(2) [OF wf] by (simp add: word_less_nat_alt)
  ultimately show ?thesis
    using w' last_index_reads [OF assms(1) rep] get_entries_reads [OF assms(1,2) rep _ assms(4), of limit]
    by (auto simp: log_entries_def andthen_def read_entries_def)
qed

lemma log_term_reads:
  assumes "kv_laws V rows" "codec_laws C" "represents C rows w l"
  shows "\<exists>w'. log_term V C i w = Some (read_term i l, w') \<and> read_only w l w'"
proof -
  let ?L = "lg_entries l"
  obtain w' where w': "first_index V C w = Some (Inr (e_index (hd ?L) + 1), w')" "read_only w l w'"
    using first_index_reads [OF assms(1-3)] by blast
  note rep = read_onlyD(1) [OF w'(2) assms(3)] and L = represents_group [OF assms(3)]
  have less: "i < e_index (hd ?L) \<longleftrightarrow> unat i < base l" by (simp add: word_less_nat_alt base_def)
  show ?thesis
  proof (cases "base l \<le> unat i \<and> unat i < base l + length ?L")
    case True
    then have k: "unat i - base l < length ?L" by auto
    let ?e = "?L ! (unat i - base l)"
    have "drop (unat i - base l) ?L = ?e # drop (Suc (unat i - base l)) ?L" using k by (simp add: Cons_nth_drop_Suc)
    then have "seek_entry V C i w' = Some (Inr ?e, w')"
      using seek_forward [OF assms(1) rep, of i] parse_row [OF rep, of ?e] m_entry_bytes(2) [OF assms(2)]
      by (simp add: seek_entry_def row_def)
    moreover have "e_index ?e = i"
      using from_index_nth [OF L(3) k] True by (simp add: word_unat_eq_iff)
    ultimately show ?thesis using w' less True by (simp add: log_term_def andthen_def read_term_def)
  next
    case False
    then have "seek_entry V C i w' = Some (Inl EntryNotFound, w')" if "\<not> unat i < base l"
      using that seek_forward [OF assms(1) rep, of i] by (simp add: seek_entry_def)
    then show ?thesis using w' less False by (auto simp: log_term_def andthen_def read_term_def)
  qed
qed

section \<open>Writing to the batch\<close>

abbreviation key_op :: "wal_codec \<Rightarrow> uuid \<Rightarrow> entry \<Rightarrow> kv_op" where
  "key_op C g e \<equiv> SetKey (entry_key g (e_index e)) (entry_bytes C e)"

lemma add_op_adds: "kv_laws V rows \<Longrightarrow> add_op V x w = Some (Inr (), w\<lparr>w_batch := w_batch w @ [x]\<rparr>)"
  by (simp add: add_op_def kv_laws_def)

lemma delete_keys_adds:
  "kv_laws V rows \<Longrightarrow> delete_keys V ks w = Some (Inr (), w\<lparr>w_batch := w_batch w @ map DeleteKey ks\<rparr>)"
  by (induction ks arbitrary: w) (simp_all add: andthen_def add_op_adds)

lemma put_entry_adds:
  "kv_laws V rows \<Longrightarrow> codec_laws C \<Longrightarrow> put_entry V C e w = Some (Inr (), w\<lparr>w_batch := w_batch w @ [key_op C (w_group w) e]\<rparr>)"
  by (simp add: put_entry_def m_entry_bytes add_op_adds)

lemma put_entries_adds:
  "kv_laws V rows \<Longrightarrow> codec_laws C \<Longrightarrow>
     put_entries V C es w = Some (Inr (), w\<lparr>w_batch := w_batch w @ map (key_op C (w_group w)) es\<rparr>)"
  by (induction es arbitrary: w) (simp_all add: andthen_def put_entry_adds)

lemma flush_writes:
  assumes "kv_laws V rows"
  shows "\<exists>db. flush V w = Some (Inr (), w\<lparr>w_db := db\<rparr>) \<and> rows db = fold apply_op (w_batch w) (rows (w_db w))"
proof -
  have "\<exists>d'. kv_flush V (w_batch w) (w_db w) = Some (Inr (), d') \<and> rows d' = fold apply_op (w_batch w) (rows (w_db w))"
    using assms by (simp add: kv_laws_def)
  then show ?thesis by (auto simp: flush_def)
qed

lemma delete_from_adds:
  assumes "kv_laws V rows" "represents C rows w0 l" "w_group w = w_group w0" "w_db w = w_db w0"
  shows "delete_entries_from_index V i w = Some (Inr (), w\<lparr>w_batch := w_batch w @
    map (\<lambda>e. DeleteKey (entry_key (w_group w) (e_index e))) (drop (unat i - base l) (lg_entries l))\<rparr>)"
proof -
  have "seek V i False w = seek V i False w0" by (simp add: seek_def assms(3,4))
  then show ?thesis
    by (simp add: delete_entries_from_index_def seek_forward [OF assms(1,2)] delete_keys_adds [OF assms(1)]
        assms(3) o_def row_def)
qed

text \<open>What the batch of \<open>writeEntries\<close> does to the keys of the group.\<close>

lemma fold_sets:
  assumes "from_index m es"
  shows "fold apply_op (map (key_op C g) es) f k = (case map_of (pairs C g es) k of Some v \<Rightarrow> Some v | None \<Rightarrow> f k)"
  using assms
proof (induction es arbitrary: m f)
  case (Cons e es)
  have fresh: "map_of (pairs C g es) (entry_key g (e_index e)) = None"
  proof (rule ccontr)
    assume "map_of (pairs C g es) (entry_key g (e_index e)) \<noteq> None"
    then obtain e' where "e' \<in> set es" "e_index e = e_index e'"
      using map_of_pairs [of "Suc m" es C g] Cons.prems by auto
    then show False using from_index_mem [of "Suc m" es e'] Cons.prems by auto
  qed
  have "fold apply_op (map (key_op C g) (e # es)) f k =
      (case map_of (pairs C g es) k of Some v \<Rightarrow> Some v | None \<Rightarrow> (f(entry_key g (e_index e) \<mapsto> entry_bytes C e)) k)"
    using Cons.IH [of "Suc m"] Cons.prems by simp
  also have "\<dots> = (case map_of (pairs C g (e # es)) k of Some v \<Rightarrow> Some v | None \<Rightarrow> f k)"
    using fresh by (auto simp: pairs_def split: option.splits)
  finally show ?case .
qed (simp add: pairs_def)

lemma fold_deletes: "fold apply_op (map DeleteKey ks) f k = (if k \<in> set ks then None else f k)"
  by (induction ks arbitrary: f) auto

end
