(* ===== verification/WalSave.thy ===== *)
theory WalSave
  imports WalOps
begin

text \<open>
  \<open>Save\<close> on the abstract log: without a snapshot it truncates and appends, with a snapshot that is
  newer than the log it starts the log anew.
\<close>

section \<open>Appending\<close>

definition new_entries :: "raft_log \<Rightarrow> entry list \<Rightarrow> entry list" where
  "new_entries l es = filter (\<lambda>e. base l < unat (e_index e)) es"

definition append_entries :: "entry list \<Rightarrow> raft_log \<Rightarrow> raft_log" where
  "append_entries es l = (let new = new_entries l es in
     if new = [] then l
     else l\<lparr>lg_entries := take (unat (e_index (hd new)) - base l) (lg_entries l) @ new\<rparr>)"

definition put_hard_state :: "hard_state \<Rightarrow> raft_log \<Rightarrow> raft_log" where
  "put_hard_state h l = (if h = zero_hard_state then l else l\<lparr>lg_hard_state := Some h\<rparr>)"

text \<open>Raft hands over consecutive entries that follow an entry of the log.\<close>

definition follows :: "entry list \<Rightarrow> raft_log \<Rightarrow> bool" where
  "follows es l = (\<exists>m. from_index m es \<and> m \<le> base l + length (lg_entries l) \<and> m + length es < 2 ^ 64)"

lemma filter_from_index: "from_index n es \<Longrightarrow> filter (\<lambda>e. m \<le> unat (e_index e)) es = drop (m - n) es"
proof (induction es arbitrary: n)
  case (Cons e es)
  have "filter (\<lambda>e. m \<le> unat (e_index e)) es = es" if "m \<le> n"
    using from_index_mem [of "Suc n" es] Cons.prems that by (fastforce simp: filter_id_conv)
  then show ?case using Cons.IH [of "Suc n"] Cons.prems by (auto simp: drop_Cons')
qed simp

lemma new_entries_drop: "from_index m es \<Longrightarrow> new_entries l es = drop (Suc (base l) - m) es"
  using filter_from_index [of m es "Suc (base l)"] by (simp add: new_entries_def Suc_le_eq)

lemma new_entries_from:
  assumes "from_index m es" "new_entries l es \<noteq> []"
  shows "from_index (max m (Suc (base l))) (new_entries l es)"
    "max m (Suc (base l)) + length (new_entries l es) = m + length es"
proof -
  have new: "new_entries l es = drop (Suc (base l) - m) es" by (rule new_entries_drop [OF assms(1)])
  have "m + (Suc (base l) - m) = max m (Suc (base l))" by simp
  then show "from_index (max m (Suc (base l))) (new_entries l es)"
    using from_index_drop [OF assms(1), of "Suc (base l) - m"] new by simp
  have "Suc (base l) - m < length es" using assms(2) new by simp
  then show "max m (Suc (base l)) + length (new_entries l es) = m + length es" using new by auto
qed

text \<open>The entry with an index, in a list of consecutive entries.\<close>

definition entry_at :: "nat \<Rightarrow> entry list \<Rightarrow> nat \<Rightarrow> entry option" where
  "entry_at n es i = (if n \<le> i \<and> i < n + length es then Some (es ! (i - n)) else None)"

lemma map_of_pairs_at:
  assumes "from_index n es"
  shows "map_of (pairs C g es) (entry_key g i) = map_option (entry_bytes C) (entry_at n es (unat i))"
proof (cases "n \<le> unat i \<and> unat i < n + length es")
  case True
  then have k: "unat i - n < length es" by auto
  then have "e_index (es ! (unat i - n)) = i"
    using from_index_nth [OF assms k] True by (simp add: word_unat_eq_iff)
  then have "map_of (pairs C g es) (entry_key g i) = Some (entry_bytes C (es ! (unat i - n)))"
    using map_of_pairs [OF assms] k by (metis nth_mem)
  then show ?thesis using True by (simp add: entry_at_def)
next
  case False
  have "map_of (pairs C g es) (entry_key g i) = None"
  proof (rule ccontr)
    assume "map_of (pairs C g es) (entry_key g i) \<noteq> None"
    then obtain e where "e \<in> set es" "e_index e = i" using map_of_pairs [OF assms, of C g] by auto
    then show False using from_index_mem [OF assms, of e] False by auto
  qed
  then show ?thesis using False by (auto simp: entry_at_def)
qed

lemma map_of_pairs_None:
  assumes "from_index n es" "\<And>i. k \<noteq> entry_key g i"
  shows "map_of (pairs C g es) k = None"
  using map_of_pairs [OF assms(1), of C g k] assms(2) by (cases "map_of (pairs C g es) k") auto

lemma overwritten:
  assumes "from_index n L" "from_index (n + j) new" "j \<le> length L"
    and f: "length g = 16" "\<forall>k. take 16 k = g \<longrightarrow> f k = map_of (pairs C g L) k"
  shows "fold apply_op (map (key_op C g) new @ map (\<lambda>e. DeleteKey (entry_key g (e_index e))) (drop (j + length new) L)) f k =
    (case map_of (pairs C g (take j L @ new)) k of Some v \<Rightarrow> Some v | None \<Rightarrow> if \<exists>i. k = entry_key g i then None else f k)"
proof -
  have deletes: "map (\<lambda>e. DeleteKey (entry_key g (e_index e))) es = map DeleteKey (map (\<lambda>e. entry_key g (e_index e)) es)" for es
    by simp
  have final: "from_index n (take j L @ new)" using assms(1-3) from_index_take [of n L j] by simp
  show ?thesis
  proof (cases "\<exists>i. k = entry_key g i")
    case False
    then have "map_of (pairs C g es) k = None" if "from_index m es" for m es using map_of_pairs_None [OF that] by blast
    then show ?thesis using False final assms(2)
      by (simp add: deletes fold_deletes fold_sets [OF assms(2)] image_iff del: map_map)
  next
    case True
    then obtain i where i: "k = entry_key g i" by blast
    have deleted: "k \<in> (\<lambda>e. entry_key g (e_index e)) ` set (drop (j + length new) L) \<longleftrightarrow>
        n + j + length new \<le> unat i \<and> unat i < n + length L"
    proof -
      have "k \<in> (\<lambda>e. entry_key g (e_index e)) ` set es \<longleftrightarrow> map_of (pairs C g es) k \<noteq> None" for es
        by (auto simp: pairs_def map_of_eq_None_iff image_iff)
      moreover have "from_index (n + (j + length new)) (drop (j + length new) L)" by (rule from_index_drop [OF assms(1)])
      ultimately show ?thesis using i map_of_pairs_at by (auto simp: entry_at_def)
    qed
    have "map_of (pairs C g (take j L @ new)) k = map_option (entry_bytes C) (entry_at n (take j L @ new) (unat i))"
      using i map_of_pairs_at [OF final] by simp
    moreover have "map_of (pairs C g new) k = map_option (entry_bytes C) (entry_at (n + j) new (unat i))"
      "f k = map_option (entry_bytes C) (entry_at n L (unat i))"
      using i map_of_pairs_at [OF assms(2)] map_of_pairs_at [OF assms(1)] f take_entry_key [OF f(1)] by simp_all
    ultimately show ?thesis using True deleted assms(3)
      by (auto simp: deletes fold_deletes fold_sets [OF assms(2)] entry_at_def nth_append simp del: map_map)
  qed
qed

text \<open>What \<open>writeEntries\<close> adds to the batch.\<close>

definition entry_ops :: "wal_codec \<Rightarrow> uuid \<Rightarrow> raft_log \<Rightarrow> entry list \<Rightarrow> kv_op list" where
  "entry_ops C g l new = (if new = [] then [] else map (key_op C g) new @
     map (\<lambda>e. DeleteKey (entry_key g (e_index e))) (drop (Suc (unat (e_index (last new))) - base l) (lg_entries l)))"

lemma write_entries_adds:
  assumes "kv_laws V rows" "codec_laws C" "represents C rows w l" "from_index m es" "m + length es < 2 ^ 64"
  shows "\<exists>w'. write_entries V C es w = Some (Inr (), w') \<and> w_group w' = w_group w \<and> w_db w' = w_db w \<and>
    w_snapshot w' = w_snapshot w \<and> w_batch w' = w_batch w @ entry_ops C (w_group w) l (new_entries l es) \<and>
    w_first w' \<in> {w_first w, Some (e_index (hd (lg_entries l)) + 1)} \<and>
    w_last w' = (if new_entries l es = [] then w_last w else Some (e_index (last (new_entries l es))))"
proof (cases es)
  case Nil
  then show ?thesis by (simp add: write_entries_def new_entries_def entry_ops_def)
next
  case (Cons e es0)
  let ?g = "w_group w" and ?new = "new_entries l es" and ?L = "lg_entries l" and ?first = "e_index (hd (lg_entries l)) + 1"
  have wf: "log_wf l" by (rule represents_group(5) [OF assms(3)])
  obtain w1 where w1: "first_index V C w = Some (Inr ?first, w1)" "read_only w l w1"
    using first_index_reads [OF assms(1-3)] by blast
  note rep = read_onlyD [OF w1(2) assms(3)]
  have m: "unat (e_index e) = m" using assms(4) Cons by simp
  have less: "e_index e < ?first \<longleftrightarrow> m < Suc (base l)" using first_unat [OF wf] m by (simp add: word_less_nat_alt)
  have new: "?new = drop (Suc (base l) - m) es" by (rule new_entries_drop [OF assms(4)])
  have pos: "1 \<le> length es" using Cons by simp
  have "unat (of_nat (length es) :: 64 word) = length es" using assms(5) by (simp add: unat_of_nat)
  then have "unat (e_index e + of_nat (length es)) = m + length es"
    using m assms(5) unat_add_lem [of "e_index e" "of_nat (length es)"] by simp
  then have "unat (e_index e + of_nat (length es) - 1) = m + length es - 1"
    using pos by (subst unat_minus_one) (auto simp: unat_eq_0)
  then have old: "e_index e + of_nat (length es) - 1 < ?first \<longleftrightarrow> ?new = []"
    using first_unat [OF wf] pos by (auto simp: word_less_nat_alt new)
  show ?thesis
  proof (cases "?new = []")
    case True
    then show ?thesis using old Cons w1 by (auto simp: write_entries_def andthen_def entry_ops_def read_only_def)
  next
    case False
    have n: "unat (?first - e_index e) = Suc (base l) - m" if "e_index e < ?first"
      using that first_unat [OF wf] m by (simp add: unat_sub_if' word_less_nat_alt)
    have rest: "(if e_index e < ?first then drop (unat (?first - e_index e)) es else es) = ?new"
      using n less by (auto simp: new)
    have short: "\<not> (e_index e < ?first \<and> length es < unat (?first - e_index e))"
      using n False by (auto simp: new)
    have last: "last_index V w1 = Some (Inr (e_index (last ?L)), w1)" by (rule last_index_reads [OF assms(1) rep(1)])
    let ?i = "e_index (last ?new)"
    let ?w2 = "w1\<lparr>w_batch := w_batch w1 @ map (key_op C ?g) ?new, w_last := Some ?i\<rparr>"
    have bound: "unat ?i + 1 < 2 ^ 64"
      using new_entries_from [OF assms(4) False] from_index_last [OF new_entries_from(1) [OF assms(4) False] False] assms(5)
        False by (cases ?new) auto
    then have suc: "unat (?i + 1) = Suc (unat ?i)" using unat_add_lem [of ?i 1] by simp
    let ?w3 = "w1\<lparr>w_batch := w_batch w1 @ entry_ops C ?g l ?new, w_last := Some ?i\<rparr>"
    have ops: "entry_ops C ?g l ?new = map (key_op C ?g) ?new @
        map (\<lambda>e. DeleteKey (entry_key ?g (e_index e))) (drop (Suc (unat ?i) - base l) ?L)"
      using False by (simp add: entry_ops_def)
    have del: "delete_entries_from_index V (?i + 1) ?w2 = Some (Inr (), ?w3)"
      using delete_from_adds [OF assms(1) rep(1), of ?w2 "?i + 1"] suc rep(2) by (simp add: ops)
    have same: "?w2 = ?w3" if "\<not> ?i < e_index (last ?L)"
      using that last_unat(1) [OF wf] by (simp add: ops word_less_nat_alt not_less)
    have put: "put_entries V C ?new w1 = Some (Inr (), w1\<lparr>w_batch := w_batch w1 @ map (key_op C ?g) ?new\<rparr>)"
      using put_entries_adds [OF assms(1,2), of ?new w1] rep(2) by simp
    have "write_entries V C es w = Some (Inr (), ?w3)"
    proof (cases "?i < e_index (last ?L)")
      case True
      then show ?thesis unfolding write_entries_def Cons list.case unfolding Cons [symmetric]
        using w1(1) old False short rest last del put by (simp add: andthen_def Let_def)
    next
      case no: False
      show ?thesis unfolding write_entries_def Cons list.case unfolding Cons [symmetric] same [OF no, symmetric]
        using w1(1) old False short rest last no put by (simp add: andthen_def Let_def)
    qed
    then show ?thesis using rep w1(2) False by (auto simp: read_only_def)
  qed
qed

definition hard_ops :: "wal_codec \<Rightarrow> uuid \<Rightarrow> hard_state \<Rightarrow> kv_op list" where
  "hard_ops C g h = (if h = zero_hard_state then [] else [SetKey (hard_state_key g) (projr (m_hard_state C h))])"

lemma write_hard_state_adds:
  assumes "kv_laws V rows" "codec_laws C"
  shows "write_hard_state V C h w = Some (Inr (), w\<lparr>w_batch := w_batch w @ hard_ops C (w_group w) h\<rparr>)"
proof -
  have "empty_hard_state C h = (h = zero_hard_state)" using assms(2) by (simp add: codec_laws_def)
  then show ?thesis
    by (subst write_hard_state_def, subst m_hard_bytes(1) [OF assms(2)]) (simp add: add_op_adds [OF assms(1)] hard_ops_def)
qed

lemma append_entries_base:
  assumes "log_wf l" "follows es l"
  shows "hd (lg_entries (append_entries es l)) = hd (lg_entries l)" "log_wf (append_entries es l)"
    "base (append_entries es l) = base l"
proof -
  let ?new = "new_entries l es" and ?L = "lg_entries l"
  obtain m where m: "from_index m es" "m \<le> base l + length ?L" "m + length es < 2 ^ 64"
    using assms(2) by (auto simp: follows_def)
  have L: "?L \<noteq> []" "from_index (base l) ?L" using assms(1) by (simp_all add: log_wf_def)
  have "hd (lg_entries (append_entries es l)) = hd ?L \<and> log_wf (append_entries es l)"
  proof (cases "?new = []")
    case True
    then show ?thesis using assms(1) by (simp add: append_entries_def)
  next
    case False
    let ?j = "max m (Suc (base l)) - base l"
    have j: "?j \<le> length ?L" "0 < ?j" "base l + ?j = max m (Suc (base l))"
      using m(2) L(1) by (cases ?L; auto)+
    have new: "from_index (base l + ?j) ?new" "base l + ?j + length ?new = m + length es"
      using new_entries_from [OF m(1) False] j(3) by simp_all
    then have ap: "lg_entries (append_entries es l) = take ?j ?L @ ?new"
      using False from_index_hd [OF new(1) False] by (simp add: append_entries_def)
    have hd: "hd (take ?j ?L @ ?new) = hd ?L" using j(2) L(1) by (cases ?L) (auto simp: take_Cons')
    have "from_index (base l) (take ?j ?L @ ?new)" using from_index_take [OF L(2), of ?j] new(1) j(1) by simp
    moreover have "base l + length (take ?j ?L @ ?new) < 2 ^ 64" using new(2) m(3) j(1) by simp
    moreover have "lg_snapshot (append_entries es l) = lg_snapshot l" by (simp add: append_entries_def Let_def)
    ultimately show ?thesis using assms(1) ap hd False by (auto simp: log_wf_def base_def)
  qed
  then show "hd (lg_entries (append_entries es l)) = hd (lg_entries l)" "log_wf (append_entries es l)" by simp_all
  then show "base (append_entries es l) = base l" by (simp add: base_def)
qed

lemma entry_ops_effect:
  assumes "proper_group g" "log_wf l" "follows es l" "stores C f g l"
  shows "fold apply_op (entry_ops C g l (new_entries l es)) f k =
    (case map_of (pairs C g (lg_entries (append_entries es l))) k of
       Some v \<Rightarrow> Some v | None \<Rightarrow> if \<exists>i. k = entry_key g i then None else f k)"
proof -
  let ?new = "new_entries l es" and ?L = "lg_entries l"
  have g: "length g = 16" "\<forall>k. take 16 k = g \<longrightarrow> f k = map_of (pairs C g ?L) k"
    using assms(1,4) by (simp_all add: proper_group_def stores_def)
  obtain m where m: "from_index m es" "m \<le> base l + length ?L" "m + length es < 2 ^ 64"
    using assms(3) by (auto simp: follows_def)
  have L: "?L \<noteq> []" "from_index (base l) ?L" using assms(2) by (simp_all add: log_wf_def)
  show ?thesis
  proof (cases "?new = []")
    case True
    then show ?thesis using g take_entry_key [OF g(1)] map_of_pairs_None [OF L(2), of k g C]
      by (auto simp: entry_ops_def append_entries_def split: option.split)
  next
    case False
    let ?j = "max m (Suc (base l)) - base l"
    have j: "?j \<le> length ?L" "base l + ?j = max m (Suc (base l))" using m(2) L(1) by (cases ?L; auto)+
    have new: "from_index (base l + ?j) ?new" "base l + ?j + length ?new = m + length es"
      using new_entries_from [OF m(1) False] j(2) by simp_all
    have ap: "lg_entries (append_entries es l) = take ?j ?L @ ?new"
      using False from_index_hd [OF new(1) False] by (simp add: append_entries_def)
    have "unat (e_index (last ?new)) = base l + ?j + length ?new - 1" by (rule from_index_last [OF new(1) False])
    moreover have "0 < length ?new" using False by simp
    ultimately have "Suc (unat (e_index (last ?new))) - base l = ?j + length ?new" by linarith
    then show ?thesis using overwritten [OF L(2) new(1) j(1) g] False ap by (simp add: entry_ops_def)
  qed
qed

lemma stores_saved:
  assumes "proper_group g" "log_wf l" "follows es l" "stores C f g l"
  shows "stores C (fold apply_op (entry_ops C g l (new_entries l es) @ hard_ops C g h) f) g
    (put_hard_state h (append_entries es l))"
proof -
  let ?l = "append_entries es l" and ?f = "fold apply_op (entry_ops C g l (new_entries l es)) f"
  have g: "length g = 16" "take 16 (hard_state_key g) \<noteq> g" using assms(1) by (simp_all add: proper_group_def)
  have from_i: "from_index (base l) (lg_entries ?l)"
    using append_entries_base [OF assms(2,3)] by (simp add: log_wf_def)
  have none: "map_of (pairs C g (lg_entries ?l)) (hard_state_key g) = None"
    "map_of (pairs C g (lg_entries ?l)) (snapshot_key g) = None"
    using map_of_pairs_None [OF from_i] other_keys [OF g(1)] by auto
  have keep: "lg_snapshot ?l = lg_snapshot l" "lg_hard_state ?l = lg_hard_state l"
    by (simp_all add: append_entries_def Let_def)
  have "?f k = map_of (pairs C g (lg_entries ?l)) k" if "take 16 k = g" for k
  proof -
    have "f k = map_of (pairs C g (lg_entries l)) k" using assms(4) that by (simp add: stores_def)
    moreover have "map_of (pairs C g (lg_entries l)) k = None" if "\<nexists>i. k = entry_key g i"
      using map_of_pairs_None [of "base l" "lg_entries l" k g] assms(2) that by (simp add: log_wf_def)
    ultimately show ?thesis using entry_ops_effect [OF assms, of k] by (auto split: option.splits)
  qed
  moreover have "?f (hard_state_key g) = f (hard_state_key g)" "?f (snapshot_key g) = f (snapshot_key g)"
    using entry_ops_effect [OF assms] none other_keys [OF g(1)] by simp_all
  ultimately have "stores C ?f g ?l" using assms(4) keep by (simp add: stores_def)
  then show ?thesis using g other_keys [OF g(1)] by (auto simp: hard_ops_def put_hard_state_def stores_def)
qed

lemma caches_append:
  assumes "caches w l" "log_wf l" "follows es l"
    and "w_snapshot w' = w_snapshot w" "w_first w' \<in> {w_first w, Some (e_index (hd (lg_entries l)) + 1)}"
    and "w_last w' = (if new_entries l es = [] then w_last w else Some (e_index (last (new_entries l es))))"
  shows "caches w' (put_hard_state h (append_entries es l))"
proof -
  have "lg_snapshot (put_hard_state h (append_entries es l)) = lg_snapshot l"
    "lg_entries (put_hard_state h (append_entries es l)) = lg_entries (append_entries es l)"
    by (simp_all add: put_hard_state_def append_entries_def Let_def)
  moreover have "last (lg_entries (append_entries es l)) =
      (if new_entries l es = [] then last (lg_entries l) else last (new_entries l es))"
    by (simp add: append_entries_def Let_def)
  ultimately show ?thesis using assms append_entries_base(1) [OF assms(2,3)]
    by (auto simp: caches_def split: if_splits)
qed

lemma save_appends:
  assumes "kv_laws V rows" "codec_laws C" "represents C rows w l" "follows es l" "rs_index s = 0"
  shows "\<exists>w'. badger_save V C h es s w = Some (Inr (), w') \<and> w_group w' = w_group w \<and>
    represents C rows w' (put_hard_state h (append_entries es l))"
proof -
  let ?g = "w_group w" and ?w0 = "w\<lparr>w_batch := []\<rparr>" and ?l = "put_hard_state h (append_entries es l)"
  have rep: "represents C rows ?w0 l" using assms(3) by simp
  have wf: "log_wf l" "proper_group ?g" "stores C (rows (w_db w)) ?g l" "caches w l"
    using assms(3) by (simp_all add: represents_def)
  obtain m where m: "from_index m es" "m + length es < 2 ^ 64" using assms(4) by (auto simp: follows_def)
  obtain w1 where w1: "write_entries V C es ?w0 = Some (Inr (), w1)" "w_group w1 = ?g" "w_db w1 = w_db w"
    "w_snapshot w1 = w_snapshot w" "w_batch w1 = entry_ops C ?g l (new_entries l es)"
    "w_first w1 \<in> {w_first w, Some (e_index (hd (lg_entries l)) + 1)}"
    "w_last w1 = (if new_entries l es = [] then w_last w else Some (e_index (last (new_entries l es))))"
    using write_entries_adds [OF assms(1,2) rep m] by auto
  let ?w2 = "w1\<lparr>w_batch := w_batch w1 @ hard_ops C ?g h\<rparr>"
  obtain db where db: "flush V ?w2 = Some (Inr (), ?w2\<lparr>w_db := db\<rparr>)"
    "rows db = fold apply_op (w_batch ?w2) (rows (w_db w))"
    using flush_writes [OF assms(1), of ?w2] w1(3) by auto
  have empty: "empty_snap C s" using assms(2,5) by (simp add: codec_laws_def)
  have run: "badger_save V C h es s w = Some (Inr (), ?w2\<lparr>w_db := db, w_batch := []\<rparr>)"
    using w1(1,2) db(1) write_hard_state_adds [OF assms(1,2), of h w1] empty
    by (simp add: badger_save_def with_batch_def andthen_def)
  have "stores C (rows db) ?g ?l" using stores_saved [OF wf(2,1) assms(4) wf(3), of h] db(2) w1(5) by simp
  moreover have "caches w1 ?l" by (rule caches_append [OF wf(4,1) assms(4) w1(4,6,7)])
  then have "caches (?w2\<lparr>w_db := db, w_batch := []\<rparr>) ?l" by (simp add: caches_def)
  moreover have "log_wf ?l" using append_entries_base(2) [OF wf(1) assms(4)]
    by (auto simp: put_hard_state_def log_wf_def base_def)
  ultimately have "represents C rows (?w2\<lparr>w_db := db, w_batch := []\<rparr>) ?l"
    using wf(2) w1(2) by (simp add: represents_def)
  then show ?thesis using run w1(2) by (intro exI [of _ "?w2\<lparr>w_db := db, w_batch := []\<rparr>"]) simp
qed

end
