(* ===== verification/WalSnapshot.thy ===== *)
theory WalSnapshot
  imports WalSave
begin

text \<open>
  Snapshots on the abstract log: one that this node takes compacts the log up to its index, one that
  the leader sent replaces a log that it lies beyond. And opening the log again after a stop.
\<close>

definition dummy_of :: "raft_snapshot \<Rightarrow> entry" where
  "dummy_of s = zero_entry\<lparr>e_term := rs_term s, e_index := rs_index s\<rparr>"

lemma dummy_fields [simp]: "e_index (dummy_of s) = rs_index s" "e_term (dummy_of s) = rs_term s"
  by (simp_all add: dummy_of_def)

definition snap_ops :: "wal_codec \<Rightarrow> uuid \<Rightarrow> raft_snapshot \<Rightarrow> kv_op list" where
  "snap_ops C g s = [SetKey (snapshot_key g) (projr (m_snap C s)), key_op C g (dummy_of s)]"

lemma write_snapshot_adds:
  assumes "kv_laws V rows" "codec_laws C" "rs_index s \<noteq> 0"
  shows "write_snapshot V C s w = Some (Inr (), w\<lparr>w_batch := w_batch w @ snap_ops C (w_group w) s,
    w_last := (case w_last w of Some i \<Rightarrow> Some (if i < rs_index s then rs_index s else i) | None \<Rightarrow> None),
    w_snapshot := Some s\<rparr>)"
proof -
  have "\<not> empty_snap C s" using assms(2,3) by (simp add: codec_laws_def)
  then show ?thesis
    by (subst write_snapshot_def, subst m_snap_bytes(1) [OF assms(2)])
      (simp add: andthen_def add_op_adds [OF assms(1)] put_entry_adds [OF assms(1,2)] snap_ops_def dummy_of_def)
qed

lemma delete_ops: "map (\<lambda>e. DeleteKey (entry_key g (e_index e))) es = map DeleteKey (map (\<lambda>e. entry_key g (e_index e)) es)"
  by simp

lemma deleted_keys:
  assumes "from_index n es"
  shows "entry_key g i \<in> set (map (\<lambda>e. entry_key g (e_index e)) es) \<longleftrightarrow> n \<le> unat i \<and> unat i < n + length es"
proof -
  have "entry_key g i \<in> set (map (\<lambda>e. entry_key g (e_index e)) es) \<longleftrightarrow> map_of (pairs C g es) (entry_key g i) \<noteq> None" for C
    by (auto simp: pairs_def map_of_eq_None_iff image_iff)
  then show ?thesis using map_of_pairs_at [OF assms] by (auto simp: entry_at_def)
qed

lemma other_key_deleted:
  "(\<And>i. k \<noteq> entry_key g i) \<Longrightarrow> k \<notin> set (map (\<lambda>e. entry_key g (e_index e)) es)"
  by auto

text \<open>Writing the snapshot and its dummy and deleting a range that leaves the entries of \<open>kept\<close>.\<close>

lemma snap_effect:
  assumes g: "proper_group g" and del: "from_index n es"
    and kept: "from_index (unat (rs_index s)) (dummy_of s # kept)" "unat (rs_index s) < n \<or> n + length es \<le> unat (rs_index s)"
    and f: "\<And>i. entry_at n es (unat i) = None \<Longrightarrow> i \<noteq> rs_index s \<Longrightarrow>
      f (entry_key g i) = map_option (entry_bytes C) (entry_at (Suc (unat (rs_index s))) kept (unat i))"
    and away: "\<And>i. entry_at n es i \<noteq> None \<Longrightarrow> entry_at (Suc (unat (rs_index s))) kept i = None"
    and hard: "f (hard_state_key g) = map_option (\<lambda>h. projr (m_hard_state C h)) h"
    and odd: "\<And>k. take 16 k = g \<Longrightarrow> (\<nexists>i. k = entry_key g i) \<Longrightarrow> f k = None"
  shows "stores C (fold apply_op (snap_ops C g s @ map (\<lambda>e. DeleteKey (entry_key g (e_index e))) es) f) g
    \<lparr>lg_entries = dummy_of s # kept, lg_hard_state = h, lg_snapshot = Some s\<rparr>"
proof -
  define F where "F = fold apply_op (snap_ops C g s @ map (\<lambda>e. DeleteKey (entry_key g (e_index e))) es) f"
  have len: "length g = 16" "take 16 (hard_state_key g) \<noteq> g" "take 16 (snapshot_key g) \<noteq> g"
    using g by (simp_all add: proper_group_def)
  note keys = other_keys [OF len(1)]
  have F: "F k = (if k \<in> set (map (\<lambda>e. entry_key g (e_index e)) es) then None
      else if k = entry_key g (rs_index s) then Some (entry_bytes C (dummy_of s))
      else if k = snapshot_key g then Some (projr (m_snap C s)) else f k)" for k
    by (simp add: F_def delete_ops fold_deletes snap_ops_def del: map_map set_map)
  have "F k = map_of (pairs C g (dummy_of s # kept)) k" if "take 16 k = g" for k
  proof (cases "\<exists>i. k = entry_key g i")
    case False
    then have "map_of (pairs C g (dummy_of s # kept)) k = None" using map_of_pairs_None [OF kept(1)] by blast
    moreover have "k \<noteq> snapshot_key g" using that len(3) by blast
    ultimately show ?thesis using False odd [OF that] other_key_deleted [of k g es] by (auto simp: F)
  next
    case True
    then obtain i where i: "k = entry_key g i" by blast
    have "map_of (pairs C g (dummy_of s # kept)) k = map_option (entry_bytes C)
        (entry_at (unat (rs_index s)) (dummy_of s # kept) (unat i))"
      using map_of_pairs_at [OF kept(1)] i by simp
    also have "entry_at (unat (rs_index s)) (dummy_of s # kept) (unat i) =
        (if i = rs_index s then Some (dummy_of s) else entry_at (Suc (unat (rs_index s))) kept (unat i))"
      by (auto simp: entry_at_def nth_Cons' word_unat_eq_iff)
    finally have R: "map_of (pairs C g (dummy_of s # kept)) k = map_option (entry_bytes C)
        (if i = rs_index s then Some (dummy_of s) else entry_at (Suc (unat (rs_index s))) kept (unat i))" .
    have D: "k \<in> set (map (\<lambda>e. entry_key g (e_index e)) es) \<longleftrightarrow> entry_at n es (unat i) \<noteq> None"
      using deleted_keys [OF del] i by (simp add: entry_at_def)
    have "entry_at n es (unat i) = None" if "i = rs_index s" using kept(2) that by (auto simp: entry_at_def)
    then show ?thesis using i f [of i] away [of "unat i"] keys(3) [of i] unfolding R F [of k] D by auto
  qed
  moreover have "F (hard_state_key g) = f (hard_state_key g)"
    using keys(1,4) other_key_deleted [of "hard_state_key g" g es] by (auto simp: F)
  moreover have "F (snapshot_key g) = Some (projr (m_snap C s))"
    using keys(5) other_key_deleted [of "snapshot_key g" g es] by (auto simp: F)
  ultimately show ?thesis using hard unfolding F_def [symmetric] by (simp add: stores_def)
qed

section \<open>Taking a snapshot\<close>

definition snapshot_at :: "64 word \<Rightarrow> conf_state \<Rightarrow> bytes \<Rightarrow> raft_log \<Rightarrow> raft_snapshot" where
  "snapshot_at i conf data l =
     \<lparr>rs_data = data, rs_conf_state = conf, rs_index = i, rs_term = e_term (lg_entries l ! (unat i - base l))\<rparr>"

definition compact :: "raft_snapshot \<Rightarrow> raft_log \<Rightarrow> raft_log" where
  "compact s l = \<lparr>lg_entries = dummy_of s # drop (Suc (unat (rs_index s) - base l)) (lg_entries l),
     lg_hard_state = lg_hard_state l, lg_snapshot = Some s\<rparr>"

lemma keys_until_rows:
  assumes "from_index n es" "length g = 16" "n < unat i" "unat i < n + length es"
  shows "keys_until i True (map (row C g) es) = Some (Inr (map (\<lambda>e. entry_key g (e_index e)) (take (unat i - n) es)))"
proof -
  have rest: "keys_until i False (map (row C g) es) = Some (Inr (map (\<lambda>e. entry_key g (e_index e)) (take (unat i - n) es)))"
    if "from_index n es" "n \<le> unat i" for n es
    using that
  proof (induction es arbitrary: n)
    case (Cons e es)
    have le: "(i \<le> e_index e) = (unat i \<le> n)" using Cons.prems(1) by (simp add: word_le_nat_alt)
    show ?case
    proof (cases "unat i \<le> n")
      case True
      then show ?thesis using le by (simp add: row_def parse_entry_key [OF assms(2)])
    next
      case False
      then show ?thesis using le Cons.IH [of "Suc n"] Cons.prems
        by (simp add: row_def parse_entry_key [OF assms(2)] take_Cons')
    qed
  qed simp
  obtain e es' where es: "es = e # es'" using assms(3,4) by (cases es) auto
  have "\<not> i \<le> e_index e" using assms(1,3) es by (simp add: word_le_nat_alt)
  then show ?thesis using rest [OF assms(1)] assms(3) es by (simp add: row_def parse_entry_key [OF assms(2)])
qed

lemma entry_at_drop: "n \<le> m \<Longrightarrow> entry_at m (drop (m - n) es) i = (if m \<le> i then entry_at n es i else None)"
proof (cases "m \<le> i \<and> i < n + length es")
  case True
  moreover assume "n \<le> m"
  ultimately have "m - n + (i - m) = i - n" "i - m < length es - (m - n)" by auto
  then show ?thesis using True \<open>n \<le> m\<close> by (simp add: entry_at_def)
qed (auto simp: entry_at_def)

lemma entry_at_take: "entry_at n (take k es) i = (if i < n + k then entry_at n es i else None)"
  by (auto simp: entry_at_def)

lemma stored_keys:
  assumes "represents C rows w l"
  shows "rows (w_db w) (entry_key (w_group w) i) = map_option (entry_bytes C) (entry_at (base l) (lg_entries l) (unat i))"
    "\<And>k. take 16 k = w_group w \<Longrightarrow> (\<nexists>i. k = entry_key (w_group w) i) \<Longrightarrow> rows (w_db w) k = None"
    "rows (w_db w) (hard_state_key (w_group w)) = map_option (\<lambda>h. projr (m_hard_state C h)) (lg_hard_state l)"
    "rows (w_db w) (snapshot_key (w_group w)) = map_option (\<lambda>s. projr (m_snap C s)) (lg_snapshot l)"
  using assms take_entry_key [OF represents_group(1) [OF assms], of i]
    map_of_pairs_at [OF represents_group(3) [OF assms], of C "w_group w" i]
    map_of_pairs_None [OF represents_group(3) [OF assms], of _ "w_group w" C]
  by (simp_all add: represents_def stores_def)

lemma create_snapshot_compacts:
  assumes "kv_laws V rows" "codec_laws C" "represents C rows w l" "base l < unat i" "unat i < base l + length (lg_entries l)"
  shows "\<exists>w'. badger_create_snapshot V C i (Some conf) data w = Some (Inr (snapshot_at i conf data l), w') \<and>
    w_group w' = w_group w \<and> represents C rows w' (compact (snapshot_at i conf data l) l)"
proof -
  let ?g = "w_group w" and ?L = "lg_entries l" and ?s = "snapshot_at i conf data l"
  let ?k = "unat i - base l" and ?e = "lg_entries l ! (unat i - base l)"
  have wf: "log_wf l" "length ?g = 16" "from_index (base l) ?L" using represents_group [OF assms(3)] by simp_all
  have s: "rs_index ?s = i" "rs_term ?s = e_term ?e" by (simp_all add: snapshot_at_def)
  have i: "i \<noteq> 0" using assms(4) by auto
  obtain w1 where w1: "first_index V C w = Some (Inr (e_index (hd ?L) + 1), w1)" "read_only w l w1"
    using first_index_reads [OF assms(1-3)] by blast
  note rep = read_onlyD [OF w1(2) assms(3)]
  have ok: "\<not> i < e_index (hd ?L) + 1" using first_unat [OF wf(1)] assms(4) by (simp add: word_less_nat_alt)
  have k: "?k < length ?L" using assms(4,5) by auto
  have ei: "e_index ?e = i" using from_index_nth [OF wf(3) k] assms(4) by (simp add: word_unat_eq_iff)
  have "drop ?k ?L = ?e # drop (Suc ?k) ?L" using k by (simp add: Cons_nth_drop_Suc)
  then have seek: "seek_entry V C i w1 = Some (Inr ?e, w1)"
    using seek_forward [OF assms(1) rep(1), of i] parse_row [OF rep(1), of ?e] m_entry_bytes(2) [OF assms(2)]
    by (simp add: seek_entry_def row_def)
  have snap: "\<lparr>rs_data = data, rs_conf_state = conf, rs_index = i, rs_term = e_term ?e\<rparr> = ?s" by (simp add: snapshot_at_def)
  let ?last = "case w_last w1 of Some j \<Rightarrow> Some (if j < i then i else j) | None \<Rightarrow> None"
  let ?w2 = "w1\<lparr>w_batch := snap_ops C ?g ?s, w_last := ?last, w_snapshot := Some ?s\<rparr>"
  have ws: "write_snapshot V C ?s (w1\<lparr>w_batch := []\<rparr>) = Some (Inr (), ?w2)"
    using write_snapshot_adds [OF assms(1,2), of ?s "w1\<lparr>w_batch := []\<rparr>", unfolded s(1)] i rep(2) by simp
  let ?del = "map DeleteKey (map (\<lambda>e. entry_key ?g (e_index e)) (take ?k ?L))"
  have "seek V 0 False ?w2 = seek V 0 False w1" by (simp add: seek_def)
  then have "keys_until i True (seek V 0 False ?w2) = Some (Inr (map (\<lambda>e. entry_key ?g (e_index e)) (take ?k ?L)))"
    using seek_forward [OF assms(1) rep(1), of 0] keys_until_rows [OF wf(3,2) assms(4,5)] rep(2) by simp
  then obtain w3 where w3: "delete_entries_until_index V i ?w2 = Some (Inr (), w3)"
    "w_batch w3 = snap_ops C ?g ?s @ ?del" "w_group w3 = ?g" "w_db w3 = w_db w" "w_snapshot w3 = Some ?s" "w_last w3 = ?last"
    using rep by (auto simp: delete_entries_until_index_def andthen_def delete_keys_adds [OF assms(1)] split: option.split)
  obtain db where db: "flush V w3 = Some (Inr (), w3\<lparr>w_db := db\<rparr>)" "rows db = fold apply_op (w_batch w3) (rows (w_db w))"
    using flush_writes [OF assms(1), of w3] w3(4) by auto
  let ?w = "w3\<lparr>w_db := db, w_batch := []\<rparr>"
  have run: "badger_create_snapshot V C i (Some conf) data w = Some (Inr ?s, ?w)"
    using w1(1) ok seek ei snap ws w3(1) db(1) s(1)
    by (simp add: badger_create_snapshot_def andthen_def with_batch_def Let_def)
  have dummy: "from_index (unat (rs_index ?s)) (dummy_of ?s # drop (Suc ?k) ?L)"
    using from_index_drop [OF wf(3), of "Suc ?k"] assms(4) s by simp
  have kept: "entry_at (Suc (unat i)) (drop (Suc ?k) ?L) j = (if Suc (unat i) \<le> j then entry_at (base l) ?L j else None)" for j
    using entry_at_drop [of "base l" "Suc (unat i)" ?L j] assms(4) by (simp add: Suc_diff_le)
  have "stores C (fold apply_op (snap_ops C ?g ?s @ map (\<lambda>e. DeleteKey (entry_key ?g (e_index e))) (take ?k ?L)) (rows (w_db w)))
      ?g (compact ?s l)"
    unfolding compact_def s(1)
  proof (rule snap_effect [where n = "base l"])
    show "proper_group ?g" using assms(3) by (simp add: represents_def)
    show "from_index (base l) (take ?k ?L)" by (rule from_index_take [OF wf(3)])
    show "from_index (unat (rs_index ?s)) (dummy_of ?s # drop (Suc ?k) ?L)" by (rule dummy)
    show "unat (rs_index ?s) < base l \<or> base l + length (take ?k ?L) \<le> unat (rs_index ?s)" using s k assms(4) by simp
    show "rows (w_db w) (entry_key ?g j) =
        map_option (entry_bytes C) (entry_at (Suc (unat (rs_index ?s))) (drop (Suc ?k) ?L) (unat j))"
      if "entry_at (base l) (take ?k ?L) (unat j) = None" "j \<noteq> rs_index ?s" for j
    proof -
      have "unat j \<noteq> unat i" using that(2) s(1) by (simp add: word_unat_eq_iff)
      then have "entry_at (base l) ?L (unat j) = entry_at (Suc (unat i)) (drop (Suc ?k) ?L) (unat j)"
        using that(1) kept assms(4) by (auto simp: entry_at_take split: if_splits)
      then show ?thesis using stored_keys(1) [OF assms(3), of j] s(1) by simp
    qed
    show "entry_at (Suc (unat (rs_index ?s))) (drop (Suc ?k) ?L) j = None"
      if "entry_at (base l) (take ?k ?L) j \<noteq> None" for j
      using that s(1) kept assms(4) by (auto simp: entry_at_take split: if_splits)
  qed (use stored_keys [OF assms(3)] in auto)
  then have "stores C (rows db) ?g (compact ?s l)" using db(2) w3(2) by (simp only: delete_ops)
  moreover have "log_wf (compact ?s l)"
    using dummy s i assms(4,5) represents_group(4) [OF assms(3)] by (auto simp: log_wf_def compact_def base_def)
  moreover have "caches ?w (compact ?s l)"
  proof -
    have "e_index (last (lg_entries (compact ?s l))) = e_index (last ?L)"
    proof (cases "Suc ?k < length ?L")
      case True
      then show ?thesis using s by (simp add: compact_def)
    next
      case False
      then have "?L ! ?k = last ?L" using k by (cases ?L rule: rev_cases) (auto simp: nth_append)
      then show ?thesis using False ei s by (simp add: compact_def)
    qed
    moreover have "j = e_index (last ?L)" if "w_last w1 = Some j" for j
      using rep(1) that by (simp add: represents_def caches_def)
    moreover have "\<not> e_index (last ?L) < i"
      using last_unat(1) [OF wf(1)] assms(5) by (simp add: word_less_nat_alt)
    ultimately show ?thesis using w3(5,6) by (auto simp: caches_def compact_def split: option.splits)
  qed
  ultimately have "represents C rows ?w (compact ?s l)"
    using assms(3) w3(3) by (simp add: represents_def)
  then show ?thesis using run w3(3) by (intro exI [of _ ?w]) simp
qed

lemma create_snapshot_refused:
  assumes "kv_laws V rows" "codec_laws C" "represents C rows w l"
    and "unat i \<le> base l \<or> base l + length (lg_entries l) \<le> unat i"
  shows "\<exists>w'. badger_create_snapshot V C i (Some conf) data w =
      Some (Inl (if unat i \<le> base l then ErrSnapOutOfDate else EntryNotFound), w') \<and> read_only w l w'"
proof -
  obtain w1 where w1: "first_index V C w = Some (Inr (e_index (hd (lg_entries l)) + 1), w1)" "read_only w l w1"
    using first_index_reads [OF assms(1-3)] by blast
  note rep = read_onlyD [OF w1(2) assms(3)]
  have less: "i < e_index (hd (lg_entries l)) + 1 \<longleftrightarrow> unat i \<le> base l"
    using first_unat [OF represents_group(5) [OF assms(3)]] by (simp add: word_less_nat_alt less_Suc_eq_le)
  show ?thesis
  proof (cases "unat i \<le> base l")
    case True
    then show ?thesis using w1 less by (auto simp: badger_create_snapshot_def andthen_def)
  next
    case False
    then have "seek_entry V C i w1 = Some (Inl EntryNotFound, w1)"
      using seek_forward [OF assms(1) rep(1), of i] assms(4) by (simp add: seek_entry_def)
    then show ?thesis using w1 less False by (auto simp: badger_create_snapshot_def andthen_def)
  qed
qed

section \<open>Installing the leader's snapshot\<close>

text \<open>The batch of \<open>Save\<close> when it brings a snapshot.\<close>

lemma save_snapshot_runs:
  assumes "kv_laws V rows" "codec_laws C" "represents C rows w l" "rs_index s \<noteq> 0"
    and "from_index m es" "m + length es < 2 ^ 64"
  shows "\<exists>w'. badger_save V C h es s w = Some (Inr (), w') \<and> w_group w' = w_group w \<and> w_snapshot w' = Some s \<and>
    w_last w' = (case if new_entries l es = [] then w_last w else Some (e_index (last (new_entries l es))) of
       Some i \<Rightarrow> Some (if i < rs_index s then rs_index s else i) | None \<Rightarrow> None) \<and>
    rows (w_db w') = fold apply_op (entry_ops C (w_group w) l (new_entries l es) @ hard_ops C (w_group w) h @
       snap_ops C (w_group w) s @ map (\<lambda>e. DeleteKey (entry_key (w_group w) (e_index e))) (lg_entries l)) (rows (w_db w))"
proof -
  let ?g = "w_group w"
  have rep: "represents C rows (w\<lparr>w_batch := []\<rparr>) l" using assms(3) by simp
  obtain w1 where w1: "write_entries V C es (w\<lparr>w_batch := []\<rparr>) = Some (Inr (), w1)" "w_group w1 = ?g" "w_db w1 = w_db w"
    "w_batch w1 = entry_ops C ?g l (new_entries l es)"
    "w_last w1 = (if new_entries l es = [] then w_last w else Some (e_index (last (new_entries l es))))"
    using write_entries_adds [OF assms(1,2) rep assms(5,6)] by auto
  let ?w2 = "w1\<lparr>w_batch := w_batch w1 @ hard_ops C ?g h\<rparr>"
  let ?w3 = "?w2\<lparr>w_batch := w_batch ?w2 @ snap_ops C ?g s,
    w_last := (case w_last ?w2 of Some i \<Rightarrow> Some (if i < rs_index s then rs_index s else i) | None \<Rightarrow> None),
    w_snapshot := Some s\<rparr>"
  let ?ops = "w_batch ?w3 @ map (\<lambda>e. DeleteKey (entry_key ?g (e_index e))) (lg_entries l)"
  have del: "delete_entries_from_index V 0 ?w3 = Some (Inr (), ?w3\<lparr>w_batch := ?ops\<rparr>)"
    using delete_from_adds [OF assms(1) rep, of ?w3 0] w1(2,3) by simp
  obtain db where db: "flush V (?w3\<lparr>w_batch := ?ops\<rparr>) = Some (Inr (), ?w3\<lparr>w_batch := ?ops, w_db := db\<rparr>)"
    "rows db = fold apply_op ?ops (rows (w_db w))"
    using flush_writes [OF assms(1), of "?w3\<lparr>w_batch := ?ops\<rparr>"] w1(3) by auto
  have "\<not> empty_snap C s" using assms(2,4) by (simp add: codec_laws_def)
  then have "badger_save V C h es s w = Some (Inr (), ?w3\<lparr>w_batch := ?ops, w_db := db, w_batch := []\<rparr>)"
    unfolding badger_save_def with_batch_def
    using w1(1,2) write_hard_state_adds [OF assms(1,2), of h w1] write_snapshot_adds [OF assms(1,2,4), of ?w2] del db(1)
    by (simp add: andthen_def)
  then show ?thesis using w1 db(2) by simp
qed

definition install :: "raft_snapshot \<Rightarrow> entry list \<Rightarrow> raft_log \<Rightarrow> raft_log" where
  "install s es l = \<lparr>lg_entries = dummy_of s # es, lg_hard_state = lg_hard_state l, lg_snapshot = Some s\<rparr>"

lemma save_installs:
  assumes "kv_laws V rows" "codec_laws C" "represents C rows w l"
    and "base l + length (lg_entries l) \<le> unat (rs_index s)"
    and "from_index (Suc (unat (rs_index s))) es" "Suc (unat (rs_index s)) + length es < 2 ^ 64"
  shows "\<exists>w'. badger_save V C h es s w = Some (Inr (), w') \<and> w_group w' = w_group w \<and>
    represents C rows w' (put_hard_state h (install s es l))"
proof -
  let ?g = "w_group w" and ?L = "lg_entries l" and ?l = "put_hard_state h (install s es l)"
  have L: "length ?g = 16" "?L \<noteq> []" "from_index (base l) ?L" using represents_group [OF assms(3)] by simp_all
  note keys = other_keys [OF L(1)]
  have s: "rs_index s \<noteq> 0" using assms(4) L(2) by (cases ?L) auto
  have new: "new_entries l es = es" using new_entries_drop [OF assms(5), of l] assms(4) by simp
  have ops: "entry_ops C ?g l es = map (key_op C ?g) es"
    using from_index_last [OF assms(5)] assms(4) by (auto simp: entry_ops_def)
  obtain w' where w': "badger_save V C h es s w = Some (Inr (), w')" "w_group w' = ?g" "w_snapshot w' = Some s"
    "w_last w' = (case if es = [] then w_last w else Some (e_index (last es)) of
       Some i \<Rightarrow> Some (if i < rs_index s then rs_index s else i) | None \<Rightarrow> None)"
    "rows (w_db w') = fold apply_op (map (key_op C ?g) es @ hard_ops C ?g h @ snap_ops C ?g s @
       map (\<lambda>e. DeleteKey (entry_key ?g (e_index e))) ?L) (rows (w_db w))"
    using save_snapshot_runs [OF assms(1-3) s assms(5,6), of h] unfolding new ops by blast
  define F where "F = fold apply_op (map (key_op C ?g) es @ hard_ops C ?g h) (rows (w_db w))"
  have f: "F k = (if h \<noteq> zero_hard_state \<and> k = hard_state_key ?g then Some (projr (m_hard_state C h))
      else case map_of (pairs C ?g es) k of Some v \<Rightarrow> Some v | None \<Rightarrow> rows (w_db w) k)" for k
    by (auto simp: F_def hard_ops_def fold_sets [OF assms(5)])
  have other: "(\<And>i. k \<noteq> entry_key ?g i) \<Longrightarrow> map_of (pairs C ?g es) k = None" for k
    using map_of_pairs_None [OF assms(5)] by blast
  have "stores C (fold apply_op (snap_ops C ?g s @ map (\<lambda>e. DeleteKey (entry_key ?g (e_index e))) ?L) F) ?g
      \<lparr>lg_entries = dummy_of s # es, lg_hard_state = lg_hard_state ?l, lg_snapshot = Some s\<rparr>"
  proof (rule snap_effect [where n = "base l"])
    show "F (entry_key ?g i) = map_option (entry_bytes C) (entry_at (Suc (unat (rs_index s))) es (unat i))"
      if "entry_at (base l) ?L (unat i) = None" "i \<noteq> rs_index s" for i
      using stored_keys(1) [OF assms(3), of i] map_of_pairs_at [OF assms(5), of C ?g i] that keys(2) [of i]
      by (simp add: f split: option.split)
    show "F k = None" if "take 16 k = ?g" "\<nexists>i. k = entry_key ?g i" for k
      using stored_keys(2) [OF assms(3) that] other [of k] that assms(3)
      by (auto simp: f represents_def proper_group_def)
    show "F (hard_state_key ?g) = map_option (\<lambda>h. projr (m_hard_state C h)) (lg_hard_state ?l)"
      using stored_keys(3) [OF assms(3)] other [of "hard_state_key ?g"] keys(4)
      by (auto simp: f put_hard_state_def install_def)
  qed (use assms(3,4,5) L in \<open>auto simp: represents_def entry_at_def\<close>)
  moreover have "\<lparr>lg_entries = dummy_of s # es, lg_hard_state = lg_hard_state ?l, lg_snapshot = Some s\<rparr> = ?l"
    by (simp add: put_hard_state_def install_def)
  moreover have "fold apply_op (snap_ops C ?g s @ map (\<lambda>e. DeleteKey (entry_key ?g (e_index e))) ?L) F = rows (w_db w')"
    using w'(5) by (simp add: F_def)
  ultimately have "stores C (rows (w_db w')) ?g ?l" by (simp only:)
  moreover have "log_wf ?l"
    using assms(5,6) s by (auto simp: log_wf_def put_hard_state_def install_def base_def)
  moreover have "caches w' ?l"
  proof -
    have "i = e_index (last ?L)" if "w_last w = Some i" for i using assms(3) that by (simp add: represents_def caches_def)
    moreover have "e_index (last ?L) < rs_index s"
      using last_unat(1) [OF represents_group(5) [OF assms(3)]] L(2) assms(4)
      by (cases ?L) (auto simp: word_less_nat_alt)
    moreover have "\<not> e_index (last es) < rs_index s" if "es \<noteq> []"
      using from_index_last [OF assms(5) that] that by (cases es) (auto simp: word_less_nat_alt)
    ultimately show ?thesis using w'(3,4)
      by (auto simp: caches_def put_hard_state_def install_def split: option.splits)
  qed
  ultimately have "represents C rows w' ?l" using assms(3) w'(2) by (simp add: represents_def)
  then show ?thesis using w'(1,2) by blast
qed

end
