(* ===== verification/WalProperties.thy ===== *)
theory WalProperties
  imports WalSnapshot
begin

text \<open>
  What the stored log guarantees: it is the abstract log after every operation and after a restart;
  and two ways in which the code leaves a log that does not fit its snapshot. At the end a store
  and a codec that satisfy the laws.
\<close>

section \<open>Opening\<close>

lemma reopened:
  assumes "kv_laws V rows" "codec_laws C" "represents C rows w l"
  shows "\<exists>w'. new_badger_wal V C (w_group w) (w_db w) = Some w' \<and> w_group w' = w_group w \<and> w_db w' = w_db w \<and>
    represents C rows w' l"
proof -
  let ?w = "\<lparr>w_group = w_group w, w_db = w_db w, w_snapshot = None, w_first = None, w_last = None, w_batch = []\<rparr>"
  have "represents C rows ?w l" using assms(3) by (simp add: represents_def caches_def)
  moreover obtain w' where "first_index V C ?w = Some (Inr (e_index (hd (lg_entries l)) + 1), w')" "read_only ?w l w'"
    using first_index_reads [OF assms(1,2) calculation] by blast
  ultimately show ?thesis using read_onlyD [of ?w l w' C rows] by (auto simp: new_badger_wal_def)
qed

lemma empty_scan:
  assumes "kv_laws V rows" "length g = 16" "\<forall>k. take 16 k = g \<longrightarrow> rows db k = None"
  shows "kv_scan V g db = []"
  using scan_rows [OF assms(1,2), of 0 "[]"] assms(3) by (simp add: pairs_def)

text \<open>A group without entries is opened with the zero entry, whatever else is stored for it.\<close>

lemma opened_empty:
  assumes "kv_laws V rows" "codec_laws C" "length g = 16" "\<forall>k. take 16 k = g \<longrightarrow> rows db k = None"
  shows "\<exists>db'. new_badger_wal V C g db =
      Some \<lparr>w_group = g, w_db = db', w_snapshot = None, w_first = None, w_last = None, w_batch = []\<rparr> \<and>
    rows db' = (rows db)(entry_key g 0 \<mapsto> entry_bytes C zero_entry)"
proof -
  let ?w = "\<lparr>w_group = g, w_db = db, w_snapshot = None, w_first = None, w_last = None, w_batch = []\<rparr>"
  have seek: "seek V i b w = []" if "w_group w = g" "w_db w = db" for i b w
    using empty_scan [OF assms(1,3,4)] that by (simp add: seek_def Let_def)
  have first: "first_index V C ?w = Some (Inl EntryNotFound, ?w)"
    using seek by (simp add: first_index_def cached_snapshot_def andthen_def seek_index_def)
  let ?op = "key_op C g zero_entry"
  obtain db' where db': "flush V (?w\<lparr>w_batch := [?op]\<rparr>) = Some (Inr (), ?w\<lparr>w_batch := [?op], w_db := db'\<rparr>)"
    "rows db' = fold apply_op [?op] (rows db)"
    using flush_writes [OF assms(1), of "?w\<lparr>w_batch := [?op]\<rparr>"] by auto
  have del: "delete_entries_from_index V 0 ?w = Some (Inr (), ?w)"
    using seek by (simp add: delete_entries_from_index_def)
  have put: "put_entry V C zero_entry ?w = Some (Inr (), ?w\<lparr>w_batch := [?op]\<rparr>)"
    using put_entry_adds [OF assms(1,2), of zero_entry ?w] by simp
  have "reset V C [zero_entry] ?w = Some (Inr (), ?w\<lparr>w_db := db'\<rparr>)"
    using del put db'(1) by (simp add: reset_def with_batch_def andthen_def)
  then show ?thesis using first db'(2) by (simp add: new_badger_wal_def zero_entry_def)
qed

definition empty_log :: raft_log where
  "empty_log = \<lparr>lg_entries = [zero_entry], lg_hard_state = None, lg_snapshot = None\<rparr>"

lemma opened_new:
  assumes "kv_laws V rows" "codec_laws C" "proper_group g" "\<forall>k. take 16 k = g \<longrightarrow> rows db k = None"
    and "rows db (hard_state_key g) = None" "rows db (snapshot_key g) = None"
  shows "\<exists>w. new_badger_wal V C g db = Some w \<and> w_group w = g \<and> represents C rows w empty_log"
proof -
  have g: "length g = 16" using assms(3) by (simp add: proper_group_def)
  obtain db' where db': "new_badger_wal V C g db =
      Some \<lparr>w_group = g, w_db = db', w_snapshot = None, w_first = None, w_last = None, w_batch = []\<rparr>"
    "rows db' = (rows db)(entry_key g 0 \<mapsto> entry_bytes C zero_entry)"
    using opened_empty [OF assms(1,2) g assms(4)] by blast
  have "stores C (rows db') g empty_log"
    using db'(2) assms(4-6) other_keys [OF g] by (auto simp: stores_def empty_log_def pairs_def zero_entry_def)
  moreover have "log_wf empty_log" by (simp add: log_wf_def empty_log_def base_def zero_entry_def)
  ultimately show ?thesis using db'(1) assms(3) by (simp add: represents_def caches_def)
qed

section \<open>Properties\<close>

definition save_spec :: "hard_state \<Rightarrow> entry list \<Rightarrow> raft_snapshot \<Rightarrow> raft_log \<Rightarrow> raft_log" where
  "save_spec h es s l = put_hard_state h (if rs_index s = 0 then append_entries es l else install s es l)"

text \<open>What raft may save: entries that follow the log, or a snapshot beyond it and entries that follow that.\<close>

definition can_save :: "entry list \<Rightarrow> raft_snapshot \<Rightarrow> raft_log \<Rightarrow> bool" where
  "can_save es s l =
     (if rs_index s = 0 then follows es l
      else base l + length (lg_entries l) \<le> unat (rs_index s) \<and> from_index (Suc (unat (rs_index s))) es \<and>
        Suc (unat (rs_index s)) + length es < 2 ^ 64)"

lemma save_represents:
  assumes "kv_laws V rows" "codec_laws C" "represents C rows w l" "can_save es s l"
  shows "\<exists>w'. badger_save V C h es s w = Some (Inr (), w') \<and> w_group w' = w_group w \<and> represents C rows w' (save_spec h es s l)"
proof (cases "rs_index s = 0")
  case True
  then show ?thesis using save_appends [OF assms(1-3), of es s h] assms(4) by (simp add: can_save_def save_spec_def)
next
  case False
  then show ?thesis using save_installs [OF assms(1-3), of s es h] assms(4) by (simp add: can_save_def save_spec_def)
qed

text \<open>
  C6: \<open>Save\<close> implements the log and survives a restart. On what raft hands over it succeeds and the
  stored log is the abstract one with the entries appended after truncating what they replace (or
  started anew by a snapshot from beyond the log) and the hard state replaced. Opening the log again
  from the store alone, without the caches, gives the same log.
\<close>

theorem save_implements_the_log:
  assumes "kv_laws V rows" "codec_laws C" "represents C rows w l" "can_save es s l"
  shows "\<exists>w' w''. badger_save V C h es s w = Some (Inr (), w') \<and> represents C rows w' (save_spec h es s l) \<and>
    new_badger_wal V C (w_group w) (w_db w') = Some w'' \<and> represents C rows w'' (save_spec h es s l)"
proof -
  obtain w' where w': "badger_save V C h es s w = Some (Inr (), w')" "w_group w' = w_group w"
    "represents C rows w' (save_spec h es s l)" using save_represents [OF assms, of h] by blast
  then show ?thesis using reopened [OF assms(1,2) w'(3)] by auto
qed

text \<open>
  C15: Reading the stored log. \<open>Entries\<close> returns the entries of the range, as many as the size limit
  allows and at least one, or says that they are compacted or not there; \<open>Term\<close> likewise; \<open>FirstIndex\<close>
  and \<open>LastIndex\<close> bound the entries after the dummy. No read panics or changes the log.
\<close>

theorem reading_the_log:
  assumes "kv_laws V rows" "codec_laws C" "represents C rows w l"
  shows "\<exists>we wt wf. (lo < hi \<longrightarrow> log_entries V C lo hi limit w = Some (read_entries C lo hi limit l, we)) \<and>
    log_term V C i w = Some (read_term i l, wt) \<and>
    first_index V C w = Some (Inr (e_index (hd (lg_entries l)) + 1), wf) \<and>
    last_index V w = Some (Inr (e_index (last (lg_entries l))), w) \<and>
    represents C rows we l \<and> represents C rows wt l \<and> represents C rows wf l"
proof -
  obtain wt where t: "log_term V C i w = Some (read_term i l, wt)" "read_only w l wt"
    using log_term_reads [OF assms] by blast
  obtain wf where f: "first_index V C w = Some (Inr (e_index (hd (lg_entries l)) + 1), wf)" "read_only w l wf"
    using first_index_reads [OF assms] by blast
  have "\<exists>we. (lo < hi \<longrightarrow> log_entries V C lo hi limit w = Some (read_entries C lo hi limit l, we)) \<and> represents C rows we l"
    using log_entries_reads [OF assms] read_onlyD(1) [OF _ assms(3)] assms(3) by (cases "lo < hi") blast+
  then show ?thesis
    using t f last_index_reads [OF assms(1,3)] read_onlyD(1) [OF t(2) assms(3)] read_onlyD(1) [OF f(2) assms(3)] by blast
qed

text \<open>
  C16: \<open>CreateSnapshot\<close> compacts the log. For an index of the log it stores the snapshot with the term
  of that entry, and the log starts with its dummy; all later entries stay. Outside the log it
  returns an error and changes nothing. After a restart the snapshot and the log are the same.
\<close>

theorem snapshot_compacts_the_log:
  assumes "kv_laws V rows" "codec_laws C" "represents C rows w l"
  shows "\<exists>r w'. badger_create_snapshot V C i (Some conf) data w = Some (r, w') \<and>
    (if unat i \<le> base l then r = Inl ErrSnapOutOfDate \<and> represents C rows w' l
     else if base l + length (lg_entries l) \<le> unat i then r = Inl EntryNotFound \<and> represents C rows w' l
     else r = Inr (snapshot_at i conf data l) \<and> represents C rows w' (compact (snapshot_at i conf data l) l) \<and>
       (\<exists>w''. new_badger_wal V C (w_group w) (w_db w') = Some w'' \<and>
          represents C rows w'' (compact (snapshot_at i conf data l) l) \<and>
          badger_snapshot V C w'' = Inr (snapshot_at i conf data l)))"
proof (cases "base l < unat i \<and> unat i < base l + length (lg_entries l)")
  case True
  obtain w' where w': "badger_create_snapshot V C i (Some conf) data w = Some (Inr (snapshot_at i conf data l), w')"
    "w_group w' = w_group w" "represents C rows w' (compact (snapshot_at i conf data l) l)"
    using create_snapshot_compacts [OF assms, of i conf data] True by blast
  obtain w'' where "new_badger_wal V C (w_group w) (w_db w') = Some w''"
    "represents C rows w'' (compact (snapshot_at i conf data l) l)"
    using reopened [OF assms(1,2) w'(3)] w'(2) by auto
  moreover from snapshot_reads [OF assms(1,2) this(2)] have "badger_snapshot V C w'' = Inr (snapshot_at i conf data l)"
    by (simp add: compact_def)
  ultimately show ?thesis using w' True by auto
next
  case False
  then have "unat i \<le> base l \<or> base l + length (lg_entries l) \<le> unat i" by auto
  from create_snapshot_refused [OF assms this, of conf data] show ?thesis
    using read_onlyD(1) [OF _ assms(3)] False by fastforce
qed

text \<open>A group whose entries are gone but whose snapshot is stored opens as an empty log with that snapshot.\<close>

lemma opened_beside_snapshot:
  assumes "kv_laws V rows" "codec_laws C" "proper_group g" "\<forall>k. take 16 k = g \<longrightarrow> rows db k = None"
    and "rows db (snapshot_key g) = Some (projr (m_snap C s))"
  shows "\<exists>w wf. new_badger_wal V C g db = Some w \<and> badger_snapshot V C w = Inr s \<and>
    first_index V C w = Some (Inr 1, wf) \<and> last_index V w = Some (Inr 0, w) \<and>
    rows (w_db w) (hard_state_key g) = rows db (hard_state_key g)"
proof -
  have g: "length g = 16" using assms(3) by (simp add: proper_group_def)
  obtain db' where db': "new_badger_wal V C g db =
      Some \<lparr>w_group = g, w_db = db', w_snapshot = None, w_first = None, w_last = None, w_batch = []\<rparr>"
    "rows db' = (rows db)(entry_key g 0 \<mapsto> entry_bytes C zero_entry)"
    using opened_empty [OF assms(1,2) g assms(4)] by blast
  let ?w = "\<lparr>w_group = g, w_db = db', w_snapshot = None, w_first = None, w_last = None, w_batch = []\<rparr>"
  have "\<forall>k. take 16 k = g \<longrightarrow> rows db' k = map_of (pairs C g [zero_entry]) k"
    using db'(2) assms(4) by (simp add: pairs_def zero_entry_def)
  then have scan: "kv_scan V g db' = [(entry_key g 0, Inr (entry_bytes C zero_entry))]"
    using scan_rows [OF assms(1) g, of 0 "[zero_entry]" db' C] by (simp add: row_def zero_entry_def)
  have index: "seek_index V i b ?w = Some (Inr 0, ?w)" if "b \<longrightarrow> i = - 1" "\<not> b \<longrightarrow> i = 0" for i b
    using that by (cases b) (simp_all add: seek_index_def seek_def scan Let_def parse_entry_key [OF g])
  have "badger_snapshot V C ?w = Inr s"
    using assms(1,5) db'(2) other_keys(5) [OF g, of 0] m_snap_bytes(2) [OF assms(2)]
    by (simp add: badger_snapshot_def cached_snapshot_def kv_laws_def)
  moreover have "rows db' (hard_state_key g) = rows db (hard_state_key g)"
    using db'(2) other_keys(4) [OF g, of 0] by simp
  ultimately show ?thesis using db'(1) index [of False 0] index [of True "- 1"]
    by (simp add: first_index_def last_index_def cached_snapshot_def andthen_def)
qed

text \<open>
  C30: \<open>DeleteGroup\<close> forgets the entries but not the hard state and the snapshot. When the partition
  comes back to the node and its log is opened, the log starts at 1 and is empty while the snapshot
  and the commit index are those of before: a snapshot from beyond its log.
\<close>

theorem deleted_group_keeps_its_snapshot:
  assumes "kv_laws V rows" "codec_laws C" "represents C rows w l" "lg_snapshot l = Some s" "lg_hard_state l = Some h"
  shows "\<exists>wd wo wf. delete_group V C w = Some (Inr (), wd) \<and> new_badger_wal V C (w_group w) (w_db wd) = Some wo \<and>
    badger_snapshot V C wo = Inr s \<and> badger_hard_state V C wo = Inr h \<and>
    first_index V C wo = Some (Inr 1, wf) \<and> last_index V wo = Some (Inr 0, wo)"
proof -
  let ?g = "w_group w" and ?c = "w\<lparr>w_snapshot := None, w_first := None, w_last := None, w_batch := []\<rparr>"
  have g: "proper_group ?g" "length ?g = 16" "from_index (base l) (lg_entries l)"
    using assms(3) represents_group [OF assms(3)] by (simp_all add: represents_def)
  have rep: "represents C rows ?c l" using assms(3) by (simp add: represents_def caches_def)
  let ?ops = "map (\<lambda>e. DeleteKey (entry_key ?g (e_index e))) (lg_entries l)"
  have del: "delete_entries_from_index V 0 ?c = Some (Inr (), ?c\<lparr>w_batch := ?ops\<rparr>)"
    using delete_from_adds [OF assms(1) rep, of ?c 0] by simp
  obtain db where db: "flush V (?c\<lparr>w_batch := ?ops\<rparr>) = Some (Inr (), ?c\<lparr>w_batch := ?ops, w_db := db\<rparr>)"
    "rows db = fold apply_op ?ops (rows (w_db w))"
    using flush_writes [OF assms(1), of "?c\<lparr>w_batch := ?ops\<rparr>"] by auto
  have run: "delete_group V C w = Some (Inr (), ?c\<lparr>w_db := db\<rparr>)"
    using del db(1) by (simp add: delete_group_def reset_def with_batch_def andthen_def)
  have k: "rows db k = (if k \<in> set (map (\<lambda>e. entry_key ?g (e_index e)) (lg_entries l)) then None else rows (w_db w) k)" for k
    unfolding db(2) delete_ops fold_deletes by simp
  have "rows db k = None" if "take 16 k = ?g" for k
  proof (cases "\<exists>i. k = entry_key ?g i")
    case True
    then obtain i where i: "k = entry_key ?g i" by blast
    then show ?thesis unfolding k using deleted_keys [OF g(3), of ?g i] stored_keys(1) [OF assms(3), of i]
      by (simp add: entry_at_def)
  qed (simp add: k stored_keys(2) [OF assms(3) that])
  moreover have "rows db (snapshot_key ?g) = Some (projr (m_snap C s))" "rows db (hard_state_key ?g) = Some (projr (m_hard_state C h))"
    unfolding k using other_key_deleted [OF other_keys(4) [OF g(2)]] other_key_deleted [OF other_keys(5) [OF g(2)]]
      stored_keys(3,4) [OF assms(3)] assms(4,5) by simp_all
  moreover obtain wo wf where wo: "new_badger_wal V C ?g db = Some wo" "badger_snapshot V C wo = Inr s"
    "first_index V C wo = Some (Inr 1, wf)" "last_index V wo = Some (Inr 0, wo)"
    "rows (w_db wo) (hard_state_key ?g) = rows db (hard_state_key ?g)"
    using opened_beside_snapshot [OF assms(1,2) g(1), of db s] calculation by blast
  moreover have "w_group wo = ?g"
    using wo(1) opened_empty [OF assms(1,2) g(2), of db] calculation(1) by auto
  ultimately have "badger_hard_state V C wo = Inr h"
    using assms(1) m_hard_bytes(2) [OF assms(2)] by (simp add: badger_hard_state_def kv_laws_def)
  then show ?thesis using run wo by auto
qed

text \<open>
  C31: A snapshot from the leader whose index the stored log already has is saved without its log.
  \<open>Save\<close> sets the dummy entry and then deletes every stored key, that of the dummy too: no entry is
  left, the term of the snapshot's index is not there, and after a restart the log starts at 1
  beside a snapshot of a later index.
\<close>

theorem snapshot_inside_the_log_loses_the_log:
  assumes "kv_laws V rows" "codec_laws C" "represents C rows w l"
    and "base l < unat (rs_index s)" "unat (rs_index s) < base l + length (lg_entries l)"
  shows "\<exists>w' wo wf. badger_save V C h [] s w = Some (Inr (), w') \<and> badger_snapshot V C w' = Inr s \<and>
    log_term V C (rs_index s) w' = Some (Inl ErrUnavailable, w') \<and>
    new_badger_wal V C (w_group w) (w_db w') = Some wo \<and> badger_snapshot V C wo = Inr s \<and>
    first_index V C wo = Some (Inr 1, wf) \<and> last_index V wo = Some (Inr 0, wo)"
proof -
  let ?g = "w_group w" and ?L = "lg_entries l"
  have g: "proper_group ?g" "length ?g = 16" "from_index (base l) ?L" "base l + length ?L < 2 ^ 64"
    using assms(3) represents_group [OF assms(3)] by (simp_all add: represents_def)
  have s: "rs_index s \<noteq> 0" using assms(4) by auto
  have new: "new_entries l [] = []" "entry_ops C ?g l [] = []" by (simp_all add: new_entries_def entry_ops_def)
  obtain w' where w': "badger_save V C h [] s w = Some (Inr (), w')" "w_group w' = ?g" "w_snapshot w' = Some s"
    "rows (w_db w') = fold apply_op (hard_ops C ?g h @ snap_ops C ?g s @ map (\<lambda>e. DeleteKey (entry_key ?g (e_index e))) ?L) (rows (w_db w))"
    using save_snapshot_runs [OF assms(1-3) s, of 0 "[]" h] new by auto
  have k: "rows (w_db w') k = (if k \<in> set (map (\<lambda>e. entry_key ?g (e_index e)) ?L) then None
      else if k = entry_key ?g (rs_index s) then Some (entry_bytes C (dummy_of s))
      else if k = snapshot_key ?g then Some (projr (m_snap C s))
      else if h \<noteq> zero_hard_state \<and> k = hard_state_key ?g then Some (projr (m_hard_state C h)) else rows (w_db w) k)" for k
    unfolding w'(4) by (simp add: delete_ops fold_deletes snap_ops_def hard_ops_def del: map_map set_map)
  have dead: "entry_key ?g (rs_index s) \<in> set (map (\<lambda>e. entry_key ?g (e_index e)) ?L)"
    using deleted_keys [OF g(3), of ?g "rs_index s"] assms(4,5) by simp
  have none: "\<forall>k. take 16 k = ?g \<longrightarrow> rows (w_db w') k = None"
  proof (intro allI impI)
    fix k assume t: "take 16 k = ?g"
    show "rows (w_db w') k = None"
    proof (cases "\<exists>i. k = entry_key ?g i")
      case True
      then obtain i where i: "k = entry_key ?g i" by blast
      show ?thesis unfolding k i
        using deleted_keys [OF g(3), of ?g i] stored_keys(1) [OF assms(3), of i] dead other_keys(2,3) [OF g(2)]
        by (auto simp: entry_at_def)
    next
      case False
      then show ?thesis using stored_keys(2) [OF assms(3) t False] t g(1) by (auto simp: k proper_group_def)
    qed
  qed
  have ss: "rows (w_db w') (snapshot_key ?g) = Some (projr (m_snap C s))"
    unfolding k using other_key_deleted [of "snapshot_key ?g" ?g ?L] other_keys(5) [OF g(2)] by simp
  have seek: "seek V i b w' = []" for i b using empty_scan [OF assms(1) g(2) none] w'(2) by (simp add: seek_def Let_def)
  have cached: "cached_snapshot C w' = Some s" using w'(3) s assms(2) by (simp add: cached_snapshot_def codec_laws_def)
  have "log_term V C (rs_index s) w' = Some (Inl ErrUnavailable, w')"
    using cached seek by (simp add: log_term_def first_index_def andthen_def seek_entry_def)
  moreover have "badger_snapshot V C w' = Inr s" using cached by (simp add: badger_snapshot_def)
  moreover obtain wo wf where "new_badger_wal V C ?g (w_db w') = Some wo" "badger_snapshot V C wo = Inr s"
    "first_index V C wo = Some (Inr 1, wf)" "last_index V wo = Some (Inr 0, wo)"
    using opened_beside_snapshot [OF assms(1,2) g(1) none ss] by blast
  ultimately show ?thesis using w'(1) by blast
qed

section \<open>A store and a codec\<close>

definition write_row :: "kv_op \<Rightarrow> (bytes \<times> bytes) list \<Rightarrow> (bytes \<times> bytes) list" where
  "write_row x d = (case x of SetKey k v \<Rightarrow> AList.update k v d | DeleteKey k \<Rightarrow> AList.delete k d)"

definition list_kv :: "(bytes \<times> bytes) list kv" where
  "list_kv = \<lparr>kv_get = (\<lambda>k d. case map_of d k of None \<Rightarrow> Inl KeyNotFound | Some v \<Rightarrow> Inr v),
     kv_scan = (\<lambda>p d. map (\<lambda>k. (k, Inr (the (map_of d k)))) (sort (remdups (filter (\<lambda>k. take (length p) k = p) (map fst d))))),
     kv_refuses = (\<lambda>_. None),
     kv_flush = (\<lambda>xs d. Some (Inr (), fold write_row xs d))\<rparr>"

lemma list_kv_laws: "kv_laws list_kv map_of"
proof -
  have rows: "map_of (fold write_row xs d) = fold apply_op xs (map_of d)" for xs d
  proof (induction xs arbitrary: d)
    case (Cons x xs)
    have "map_of (write_row x d) = apply_op x (map_of d)" by (cases x) (simp_all add: write_row_def)
    then show ?case using Cons by simp
  qed simp
  have "set (kv_scan list_kv p d) = {(k, Inr v) | k v. map_of d k = Some v \<and> take (length p) k = p}" for p d
  proof -
    have "set (kv_scan list_kv p d) = (\<lambda>k. (k, Inr (the (map_of d k)))) ` {k \<in> dom (map_of d). take (length p) k = p}"
      by (simp add: list_kv_def dom_map_of_conv_image_fst)
    then show ?thesis by auto
  qed
  moreover have "sorted_wrt (<) (map fst (kv_scan list_kv p d))" for p d
    by (simp add: list_kv_def o_def strict_sorted_iff)
  ultimately show ?thesis unfolding kv_laws_def by (simp add: rows) (simp add: list_kv_def rows)
qed

fun un_conf :: "bytes \<Rightarrow> node_id list \<times> bytes" where
  "un_conf [] = ([], [])"
| "un_conf (x # b) = (if x = 0 then ([], b)
     else let (cs, d) = un_conf (drop 8 b) in (be_word (take 8 b) # cs, d))"

definition byte_codec :: wal_codec where
  "byte_codec = \<lparr>
     m_entry = (\<lambda>e. Inr (be_bytes 8 (e_term e) @ be_bytes 8 (e_index e) @ (if e_type e = EntryNormal then 0 else 1) # e_data e)),
     u_entry = (\<lambda>b. if length b < 17 then Inl BadMessage
       else Inr \<lparr>e_term = be_word (take 8 b), e_index = be_word (take 8 (drop 8 b)),
         e_type = (if b ! 16 = 0 then EntryNormal else EntryConfChange), e_data = drop 17 b\<rparr>),
     entry_size = (\<lambda>e. of_nat (17 + length (e_data e))),
     m_hard_state = (\<lambda>h. Inr (be_bytes 8 (hs_term h) @ be_bytes 8 (hs_vote h) @ be_bytes 8 (hs_commit h))),
     u_hard_state = (\<lambda>b. Inr \<lparr>hs_term = be_word (take 8 b), hs_vote = be_word (take 8 (drop 8 b)), hs_commit = be_word (drop 16 b)\<rparr>),
     empty_hard_state = (\<lambda>h. h = zero_hard_state),
     m_snap = (\<lambda>s. Inr (be_bytes 8 (rs_index s) @ be_bytes 8 (rs_term s) @
       concat (map (\<lambda>n. 1 # be_bytes 8 n) (rs_conf_state s)) @ 0 # rs_data s)),
     u_snap = (\<lambda>b. let (cs, d) = un_conf (drop 16 b) in
       Inr \<lparr>rs_data = d, rs_conf_state = cs, rs_index = be_word (take 8 b), rs_term = be_word (take 8 (drop 8 b))\<rparr>),
     empty_snap = (\<lambda>s. rs_index s = 0)\<rparr>"

lemma un_conf_concat: "un_conf (concat (map (\<lambda>n. 1 # be_bytes 8 n) cs) @ 0 # d) = (cs, d)"
  by (induction cs) (simp_all add: be_word_be_bytes)

lemma byte_codec_laws: "codec_laws byte_codec"
proof -
  have "u_entry byte_codec (be_bytes 8 (e_term e) @ be_bytes 8 (e_index e) @ (if e_type e = EntryNormal then 0 else 1) # e_data e) = Inr e" for e
    by (cases e; cases "e_type e") (simp_all add: byte_codec_def be_word_be_bytes nth_append)
  moreover have "u_hard_state byte_codec (be_bytes 8 (hs_term h) @ be_bytes 8 (hs_vote h) @ be_bytes 8 (hs_commit h)) = Inr h" for h
    by (cases h) (simp add: byte_codec_def be_word_be_bytes)
  moreover have "u_snap byte_codec (be_bytes 8 (rs_index s) @ be_bytes 8 (rs_term s) @
      concat (map (\<lambda>n. 1 # be_bytes 8 n) (rs_conf_state s)) @ 0 # rs_data s) = Inr s" for s
    by (cases s) (simp add: byte_codec_def be_word_be_bytes un_conf_concat)
  ultimately show ?thesis unfolding codec_laws_def by (simp add: byte_codec_def)
qed

definition sample_group :: uuid where
  "sample_group = replicate 16 1"

lemma sample_group_proper: "proper_group sample_group"
  by code_simp

definition sample_entry :: "64 word \<Rightarrow> entry" where
  "sample_entry i = \<lparr>e_term = 3, e_index = i, e_type = EntryNormal, e_data = [7]\<rparr>"

definition sample_hard :: hard_state where
  "sample_hard = \<lparr>hs_term = 3, hs_vote = 1, hs_commit = 2\<rparr>"

definition sample_log :: raft_log where
  "sample_log = \<lparr>lg_entries = [zero_entry, sample_entry 1, sample_entry 2], lg_hard_state = Some sample_hard, lg_snapshot = None\<rparr>"

lemma sample_saves: "can_save [sample_entry 1, sample_entry 2] zero_snapshot empty_log"
    "save_spec sample_hard [sample_entry 1, sample_entry 2] zero_snapshot empty_log = sample_log"
  by (auto simp: can_save_def follows_def sample_entry_def zero_snapshot_def empty_log_def base_def zero_entry_def
      save_spec_def put_hard_state_def append_entries_def new_entries_def sample_log_def sample_hard_def zero_hard_state_def
      intro!: exI [of _ 1])

lemma sample_stored: "\<exists>w. w_group w = sample_group \<and> represents byte_codec map_of w sample_log"
proof -
  obtain w where "new_badger_wal list_kv byte_codec sample_group [] = Some w" "w_group w = sample_group"
    "represents byte_codec map_of w empty_log"
    using opened_new [OF list_kv_laws byte_codec_laws sample_group_proper, of "[]"] by auto
  then show ?thesis
    using save_represents [OF list_kv_laws byte_codec_laws _ sample_saves(1), of w sample_hard] sample_saves(2) by auto
qed

theorem save_implements_the_log_witness:
  "\<exists>w w' w''. new_badger_wal list_kv byte_codec sample_group [] = Some w \<and>
    badger_save list_kv byte_codec sample_hard [sample_entry 1, sample_entry 2] zero_snapshot w = Some (Inr (), w') \<and>
    new_badger_wal list_kv byte_codec sample_group (w_db w') = Some w'' \<and> represents byte_codec map_of w'' sample_log"
proof -
  obtain w where w: "new_badger_wal list_kv byte_codec sample_group [] = Some w" "w_group w = sample_group"
    "represents byte_codec map_of w empty_log"
    using opened_new [OF list_kv_laws byte_codec_laws sample_group_proper, of "[]"] by auto
  then show ?thesis
    using save_implements_the_log [OF list_kv_laws byte_codec_laws w(3) sample_saves(1), of sample_hard] sample_saves(2) by auto
qed

theorem reading_the_log_witness:
  "\<exists>w we wt. log_entries list_kv byte_codec 1 3 100 w = Some (Inr [sample_entry 1, sample_entry 2], we) \<and>
    log_term list_kv byte_codec 2 w = Some (Inr 3, wt)"
proof -
  obtain w where w: "represents byte_codec map_of w sample_log" using sample_stored by blast
  have "read_entries byte_codec 1 3 100 sample_log = Inr [sample_entry 1, sample_entry 2]" "read_term 2 sample_log = Inr 3"
    by (simp_all add: read_entries_def read_term_def sample_log_def base_def zero_entry_def sample_entry_def byte_codec_def)
  then show ?thesis
    using reading_the_log [OF list_kv_laws byte_codec_laws w, of 1 3 100 2] by auto
qed

definition sample_compacted :: raft_log where
  "sample_compacted = compact (snapshot_at 1 [1] [9] sample_log) sample_log"

theorem snapshot_compacts_the_log_witness:
  "\<exists>w w' w''. badger_create_snapshot list_kv byte_codec 1 (Some [1]) [9] w =
      Some (Inr \<lparr>rs_data = [9], rs_conf_state = [1], rs_index = 1, rs_term = 3\<rparr>, w') \<and>
    new_badger_wal list_kv byte_codec sample_group (w_db w') = Some w'' \<and>
    represents byte_codec map_of w'' sample_compacted"
proof -
  obtain w where w: "w_group w = sample_group" "represents byte_codec map_of w sample_log" using sample_stored by blast
  have s: "snapshot_at 1 [1] [9] sample_log = \<lparr>rs_data = [9], rs_conf_state = [1], rs_index = 1, rs_term = 3\<rparr>"
    by (simp add: snapshot_at_def sample_log_def base_def zero_entry_def sample_entry_def)
  have "base sample_log = 0" "length (lg_entries sample_log) = 3"
    by (simp_all add: sample_log_def base_def zero_entry_def)
  then show ?thesis
    using snapshot_compacts_the_log [OF list_kv_laws byte_codec_laws w(2), of 1 "[1]" "[9]"] s w(1)
    by (auto simp: sample_compacted_def)
qed

theorem deleted_group_keeps_its_snapshot_witness:
  "\<exists>w wd wo wf. represents byte_codec map_of w sample_compacted \<and> delete_group list_kv byte_codec w = Some (Inr (), wd) \<and>
    new_badger_wal list_kv byte_codec sample_group (w_db wd) = Some wo \<and>
    map_sum id rs_index (badger_snapshot list_kv byte_codec wo) = Inr 1 \<and> badger_hard_state list_kv byte_codec wo = Inr sample_hard \<and>
    first_index list_kv byte_codec wo = Some (Inr 1, wf) \<and> last_index list_kv wo = Some (Inr 0, wo)"
proof -
  obtain w where w: "w_group w = sample_group" "represents byte_codec map_of w sample_log" using sample_stored by blast
  have "base sample_log = 0" "length (lg_entries sample_log) = 3"
    by (simp_all add: sample_log_def base_def zero_entry_def)
  then obtain w' where w': "w_group w' = sample_group" "represents byte_codec map_of w' sample_compacted"
    using create_snapshot_compacts [OF list_kv_laws byte_codec_laws w(2), of 1 "[1]" "[9]"] w(1)
    by (auto simp: sample_compacted_def)
  have l: "lg_snapshot sample_compacted = Some (snapshot_at 1 [1] [9] sample_log)" "lg_hard_state sample_compacted = Some sample_hard"
    "rs_index (snapshot_at 1 [1] [9] sample_log) = 1"
    by (simp_all add: sample_compacted_def compact_def sample_log_def snapshot_at_def)
  show ?thesis
    using deleted_group_keeps_its_snapshot [OF list_kv_laws byte_codec_laws w'(2) l(1,2)] w' l(3) by fastforce
qed

theorem snapshot_inside_the_log_loses_the_log_witness:
  "\<exists>w w' wo wf. represents byte_codec map_of w sample_log \<and>
    badger_save list_kv byte_codec sample_hard [] \<lparr>rs_data = [9], rs_conf_state = [1], rs_index = 1, rs_term = 4\<rparr> w = Some (Inr (), w') \<and>
    log_term list_kv byte_codec 1 w' = Some (Inl ErrUnavailable, w') \<and>
    new_badger_wal list_kv byte_codec sample_group (w_db w') = Some wo \<and>
    first_index list_kv byte_codec wo = Some (Inr 1, wf) \<and> last_index list_kv wo = Some (Inr 0, wo)"
proof -
  obtain w where w: "w_group w = sample_group" "represents byte_codec map_of w sample_log" using sample_stored by blast
  let ?s = "\<lparr>rs_data = [9], rs_conf_state = [1], rs_index = 1, rs_term = 4\<rparr>"
  have "base sample_log < unat (rs_index ?s)" "unat (rs_index ?s) < base sample_log + length (lg_entries sample_log)"
    by (simp_all add: sample_log_def base_def zero_entry_def)
  from snapshot_inside_the_log_loses_the_log [OF list_kv_laws byte_codec_laws w(2) this, of sample_hard] show ?thesis
    using w by fastforce
qed

end
