(* ===== verification/Recovery.thy ===== *)
theory Recovery
  imports RaftFacts WalProperties
begin

text \<open>
  A raft group with its stored log, stopped and started again. \<open>orderly\<close> is what raft promises of a
  run: entries are consecutive, applied entries are not replaced, and the committed entries are
  handed over in the order of the log. The locale \<open>recoverable\<close> adds to the contract of a state
  machine that a new one can load a snapshot; it carries the invariant that the snapshot and the
  entries in the store give the state, over every event of a run, to the restart.
\<close>

section \<open>What raft hands over\<close>

text \<open>The entries after the dummy up to the index \<open>n\<close>, and those after it.\<close>

definition applied :: "nat \<Rightarrow> raft_log \<Rightarrow> entry list" where
  "applied n l = take (n - base l) (tl (lg_entries l))"

definition hands_over :: "ready \<Rightarrow> nat \<Rightarrow> raft_log \<Rightarrow> bool" where
  "hands_over rd n l = (rs_index (rd_snapshot rd) = 0 \<and> follows (rd_entries rd) l \<and>
     (\<forall>e \<in> set (rd_entries rd). n < unat (e_index e)) \<and>
     (\<exists>k. rd_committed rd = take k (drop (Suc n - base l) (lg_entries (append_entries (rd_entries rd) l)))))"

text \<open>\<open>loadable\<close> is asked of the state only when a snapshot of it is taken.\<close>

definition snapshot_due :: "'d kv \<Rightarrow> wal_codec \<Rightarrow> ('s, 'd wal) raft_group \<Rightarrow> bool" where
  "snapshot_due V C g = (\<exists>s. badger_snapshot V C (g_wal g) = Inr s \<and> rs_index s + snapshot_offset < g_last_applied g)"

definition orderly_event ::
  "'d kv \<Rightarrow> wal_codec \<Rightarrow> ('d \<Rightarrow> bytes \<rightharpoonup> bytes) \<Rightarrow> ('s \<Rightarrow> bool) \<Rightarrow> group_event \<Rightarrow> ('s, 'd wal) raft_group \<Rightarrow> bool" where
  "orderly_event V C rows loadable ev g = (case ev of
       Ready rd \<Rightarrow> (\<forall>l. represents C rows (g_wal g) l \<longrightarrow> hands_over rd (unat (g_last_applied g)) l)
     | SnapshotTick \<Rightarrow> snapshot_due V C g \<longrightarrow> loadable (g_state g)
     | Tick \<Rightarrow> True
     | Stopped \<Rightarrow> False)"

fun orderly ::
  "raft_lib \<Rightarrow> network \<Rightarrow> 'd kv \<Rightarrow> wal_codec \<Rightarrow> ('d \<Rightarrow> bytes \<rightharpoonup> bytes) \<Rightarrow> ('s \<Rightarrow> bool) \<Rightarrow> env \<Rightarrow> group_event list \<Rightarrow>
   ('s, 'd wal) raft_group \<Rightarrow> bool" where
  "orderly L N V C rows loadable env [] g = True"
| "orderly L N V C rows loadable env (ev # evs) g = (orderly_event V C rows loadable ev g \<and>
     (\<forall>g'. group_step L (badger_ops V C) N (sub env 0) ev g = Some g' \<longrightarrow>
        orderly L N V C rows loadable (sub env 1) evs g'))"

section \<open>The store under a run\<close>

lemma badger_ops_simps [simp]: "wal_save (badger_ops V C) = badger_save V C"
  "wal_snapshot (badger_ops V C) = badger_snapshot V C"
  "wal_create_snapshot (badger_ops V C) = badger_create_snapshot V C"
  by (simp_all add: badger_ops_def)

lemma apply_entries_wal: "apply_entries L env es g = Some g' \<Longrightarrow> g_wal g' = g_wal g"
proof (induction es arbitrary: env g)
  case (Cons e es)
  obtain g1 where g1: "apply_entry L (sub env 0) e g = Some g1" "apply_entries L (sub env 1) es g1 = Some g'"
    using Cons.prems by (auto simp: bind_eq_Some_conv)
  then have "g_wal g1 = g_wal g"
    by (auto simp: apply_entry_def bind_eq_Some_conv fatal_Some process_data_Some dest: process_conf_change_keeps
        split: entry_type.splits if_splits)
  then show ?case using Cons.IH [OF g1(2)] by simp
qed simp

lemma handle_ready_plain:
  assumes "is_empty_snap L (rd_snapshot rd)" "handle_ready L W N env rd g = Some g'"
  obtains g2 g3 g5 where "registered g g2" "g_state g2 = g_state g" "g_wal g2 = g_wal g" "g_last_applied g2 = g_last_applied g"
    "save_ready W rd g2 = Some g3" "apply_entries L env (rd_committed rd) g3 = Some g5"
    "g_wal g' = g_wal g5" "g_last_applied g' = g_last_applied g5"
proof -
  define g1 where "g1 = (case rd_lead rd of None \<Rightarrow> g | Some l \<Rightarrow> g\<lparr>g_leader_id := l\<rparr>)"
  define g2 where "g2 = send_if (is_leader g1) N (rd_messages rd) g1"
  obtain g3 g5 where g: "save_ready W rd g2 = Some g3" "apply_entries L env (rd_committed rd) g3 = Some g5"
    "g' = (send_if (\<not> is_leader g5) N (rd_messages rd) g5)\<lparr>g_calls :=
       g_calls (send_if (\<not> is_leader g5) N (rd_messages rd) g5) @ [CallAdvance]\<rparr>"
    using assms unfolding handle_ready_def g1_def [symmetric] Let_def g2_def [symmetric]
    by (auto simp: bind_eq_Some_conv install_snapshot_def)
  have "registered g g1 \<and> g_state g1 = g_state g \<and> g_wal g1 = g_wal g \<and> g_last_applied g1 = g_last_applied g"
    by (simp add: g1_def registered_def split: option.split)
  then have "registered g g2" "g_state g2 = g_state g" "g_wal g2 = g_wal g" "g_last_applied g2 = g_last_applied g"
    using send_if_keeps(1-4) [where g = g1 and b = "is_leader g1" and N = N and ms = "rd_messages rd"]
      registered_trans [of g g1 g2] by (simp_all add: g2_def)
  moreover have "g_wal g' = g_wal g5" "g_last_applied g' = g_last_applied g5" using g(3) by (simp_all add: send_if_keeps)
  ultimately show thesis using that [OF _ _ _ _ g(1,2)] by blast
qed

lemma handle_ready_wal:
  assumes "is_empty_snap L (rd_snapshot rd)" "handle_ready L (badger_ops V C) N env rd g = Some g'"
  shows "badger_save V C (rd_hard_state rd) (rd_entries rd) (rd_snapshot rd) (g_wal g) = Some (Inr (), g_wal g')"
proof -
  obtain g2 g3 g5 where g: "registered g g2" "g_state g2 = g_state g" "g_wal g2 = g_wal g" "g_last_applied g2 = g_last_applied g"
    "save_ready (badger_ops V C) rd g2 = Some g3" "apply_entries L env (rd_committed rd) g3 = Some g5"
    "g_wal g' = g_wal g5" "g_last_applied g' = g_last_applied g5"
    by (rule handle_ready_plain [OF assms])
  then show ?thesis using apply_entries_wal [OF g(6)] by (auto simp: save_ready_def fatal_Some)
qed

text \<open>Entries that replace nothing up to \<open>n\<close> leave the log as it is up to \<open>n\<close>.\<close>

lemma append_keeps_applied:
  assumes l: "log_wf l" "follows es l" and n: "base l \<le> n" "n < base l + length (lg_entries l)"
    and new: "\<forall>e \<in> set es. n < unat (e_index e)"
  shows "take (Suc n - base l) (lg_entries (append_entries es l)) = take (Suc n - base l) (lg_entries l)"
proof (cases "new_entries l es = []")
  case False
  let ?i = "unat (e_index (hd (new_entries l es)))"
  have "hd (new_entries l es) \<in> set es" using False by (metis filter_is_subset hd_in_set new_entries_def subsetD)
  then have i: "n < ?i" using new by blast
  have "take (Suc n - base l) (take (?i - base l) (lg_entries l) @ ys) = take (Suc n - base l) (lg_entries l)" for ys
    using i n by (simp add: min_def)
  then show ?thesis using False by (simp add: append_entries_def Let_def)
qed (simp add: append_entries_def)

lemma committed_applied:
  assumes l: "log_wf l" "follows es l" and n: "base l \<le> n" "n < base l + length (lg_entries l)"
    and new: "\<forall>e \<in> set es. n < unat (e_index e)" and l': "l' = put_hard_state h (append_entries es l)"
    and cs: "cs = take k (drop (Suc n - base l) (lg_entries (append_entries es l)))"
  shows "applied (n + length cs) l' = applied n l @ cs" "base l' = base l" "log_wf l'"
    "n + length cs < base l' + length (lg_entries l')" "cs \<noteq> [] \<Longrightarrow> unat (e_index (last cs)) = n + length cs"
    "lg_snapshot l' = lg_snapshot l"
proof -
  let ?L = "lg_entries (append_entries es l)"
  note ap = append_entries_base [OF l]
  have L': "lg_entries l' = ?L" and snap: "lg_snapshot l' = lg_snapshot l"
    by (simp_all add: l' put_hard_state_def append_entries_def Let_def)
  then show "base l' = base l" "lg_snapshot l' = lg_snapshot l" using ap(3) by (simp_all add: base_def)
  have keep: "take (Suc n - base l) ?L = take (Suc n - base l) (lg_entries l)"
    by (rule append_keeps_applied [OF l n new])
  then have len: "Suc n - base l \<le> length ?L"
  proof -
    have "length (take (Suc n - base l) (lg_entries l)) = Suc n - base l" using n by simp
    then show ?thesis using arg_cong [OF keep, of length] by (metis length_take min.cobounded1)
  qed
  have "lg_snapshot (append_entries es l) = lg_snapshot l" by (simp add: append_entries_def Let_def)
  then have "log_wf l' = log_wf (append_entries es l)" by (simp only: log_wf_def base_def L' snap)
  then show "log_wf l'" using ap(2) by simp
  have fi: "from_index (base l) ?L" "?L \<noteq> []" using ap(2,3) by (auto simp: log_wf_def)
  have cs': "cs = take (length cs) (drop (Suc n - base l) ?L)" using cs by (simp add: min_def)
  have lcs: "length cs \<le> length ?L - (Suc n - base l)" using cs by simp
  then have "(Suc n - base l) + length cs \<le> length ?L" using len by (simp add: le_diff_conv2 add.commute)
  moreover have "base l + (Suc n - base l) = Suc n" using n(1) by simp
  ultimately show "n + length cs < base l' + length (lg_entries l')"
    unfolding L' \<open>base l' = base l\<close> by linarith
  have "take (n - base l) (tl ?L) = take (n - base l) (tl (lg_entries l))"
    using arg_cong [OF keep, of tl] n(1) by (simp add: take_tl Suc_diff_le)
  moreover have "drop (n - base l) (tl ?L) = drop (Suc n - base l) ?L" using n(1) by (simp add: drop_Suc Suc_diff_le)
  moreover have "n + length cs - base l = (n - base l) + length cs" using n(1) by simp
  ultimately show "applied (n + length cs) l' = applied n l @ cs"
    using cs' \<open>base l' = base l\<close> by (simp add: applied_def L' take_add)
  have "from_index (base l + (Suc n - base l)) cs"
    unfolding cs by (intro from_index_take from_index_drop fi(1))
  then show "unat (e_index (last cs)) = n + length cs" if "cs \<noteq> []"
    using from_index_last [of "Suc n" cs] that n(1) by (simp add: Suc_diff_le)
qed

text \<open>The rows determine the entries.\<close>

lemma represents_entries:
  assumes kv: "codec_laws C" and l: "represents C rows w l" "represents C rows w l'"
  shows "lg_entries l = lg_entries l'"
proof -
  have sub: "set (lg_entries l1) \<subseteq> set (lg_entries l2)" if l1: "represents C rows w l1" and l2: "represents C rows w l2" for l1 l2
  proof
    fix e assume e: "e \<in> set (lg_entries l1)"
    have fi: "from_index (base l1) (lg_entries l1)" "from_index (base l2) (lg_entries l2)" "length (w_group w) = 16"
      using l1 l2 by (simp_all add: represents_def log_wf_def proper_group_def)
    let ?k = "entry_key (w_group w) (e_index e)"
    have "map_of (pairs C (w_group w) (lg_entries l1)) ?k = Some (entry_bytes C e)"
      using e map_of_pairs [OF fi(1)] by blast
    moreover have "map_of (pairs C (w_group w) (lg_entries l1)) ?k = map_of (pairs C (w_group w) (lg_entries l2)) ?k"
      using l1 l2 take_entry_key [OF fi(3)] unfolding represents_def stores_def by metis
    ultimately obtain e' where "e' \<in> set (lg_entries l2)" "entry_bytes C e = entry_bytes C e'"
      using map_of_pairs [OF fi(2)] by metis
    moreover from this have "e = e'" using m_entry_bytes(2) [OF kv] by (metis sum.inject(2))
    ultimately show "e \<in> set (lg_entries l2)" by simp
  qed
  have sorted: "sorted_wrt (<) (map (\<lambda>e. unat (e_index e)) (lg_entries l1))" if "represents C rows w l1" for l1
    using that by (auto simp: represents_def log_wf_def from_index_def)
  have set: "set (lg_entries l) = set (lg_entries l')" using sub l by blast
  show ?thesis
  proof (rule map_sorted_distinct_set_unique [where f = "\<lambda>e. unat (e_index e)"])
    have "inj_on (\<lambda>e. unat (e_index e)) (set (lg_entries l))"
      using sorted [OF l(1)] by (simp add: strict_sorted_iff distinct_map)
    then show "inj_on (\<lambda>e. unat (e_index e)) (set (lg_entries l) \<union> set (lg_entries l'))" using set by simp
  qed (use sorted [OF l(1)] sorted [OF l(2)] set in \<open>simp_all add: strict_sorted_iff\<close>)
qed

section \<open>The contract of a machine that recovers\<close>

text \<open>\<open>fresh\<close> is what a new machine looks like, \<open>loadable\<close> what a snapshot must be taken of to be loaded.\<close>

locale recoverable = state_machine step spec ok view legal
  for step :: "env \<Rightarrow> bytes \<Rightarrow> ('s, unit) prog" and spec :: "bytes \<Rightarrow> 'm \<Rightarrow> ((error + unit) \<times> 'm) option"
    and ok :: "'s \<Rightarrow> bool" and view :: "'s \<Rightarrow> 'm" and legal :: "bytes \<Rightarrow> bool" +
  fixes snap :: "env \<Rightarrow> 's \<Rightarrow> (error + bytes) option"
    and load :: "bytes \<Rightarrow> ('s, unit) prog"
    and fresh :: "'s \<Rightarrow> bool"
    and loadable :: "'s \<Rightarrow> bool"
    and start :: 'm
  assumes fresh_start: "fresh s \<Longrightarrow> ok s \<and> view s = start"
    and load_snap: "ok s \<Longrightarrow> loadable s \<Longrightarrow> fair env \<Longrightarrow> snap env s = Some (Inr data) \<Longrightarrow> fresh s0 \<Longrightarrow>
      \<exists>s'. load data s0 = Some (Inr (), s') \<and> ok s' \<and> view s' = view s"
begin

text \<open>What a new machine shows after it loaded the snapshot of the log.\<close>

definition restores :: "raft_log \<Rightarrow> 'm \<Rightarrow> bool" where
  "restores l m = (case lg_snapshot l of
       None \<Rightarrow> m = start
     | Some s \<Rightarrow> \<forall>s0. fresh s0 \<longrightarrow> (\<exists>s'. load (rs_data s) s0 = Some (Inr (), s') \<and> ok s' \<and> view s' = m))"

text \<open>The invariant: what the store holds gives the state of the machine.\<close>

definition backed :: "wal_codec \<Rightarrow> ('d \<Rightarrow> bytes \<rightharpoonup> bytes) \<Rightarrow> ('s, 'd wal) raft_group \<Rightarrow> raft_log \<Rightarrow> bool" where
  "backed C rows g l = (represents C rows (g_wal g) l \<and> w_group (g_wal g) = g_id g \<and>
     base l \<le> unat (g_last_applied g) \<and> unat (g_last_applied g) < base l + length (lg_entries l) \<and>
     (\<forall>d \<in> set (log_of (applied (unat (g_last_applied g)) l)). legal d) \<and>
     (\<exists>m. restores l m \<and>
        run_spec spec (log_of (applied (unat (g_last_applied g)) l)) m = Some (view (g_state g))))"

lemma fresh_backed:
  assumes "represents C rows (g_wal g) empty_log" "w_group (g_wal g) = g_id g" "fresh (g_state g)" "g_last_applied g = 0"
  shows "backed C rows g empty_log"
  using assms fresh_start [OF assms(3)]
  by (simp add: backed_def empty_log_def base_def zero_entry_def restores_def applied_def)

lemma handle_ready_last:
  assumes "drives g" "fair env" "is_empty_snap L (rd_snapshot rd)"
    "\<forall>d \<in> set (log_of (rd_committed rd)). legal d" "handle_ready L W N env rd g = Some g'"
  shows "g_last_applied g' = (if rd_committed rd = [] then g_last_applied g else e_index (last (rd_committed rd)))"
proof -
  obtain g2 g3 g5 where g: "registered g g2" "g_state g2 = g_state g" "g_wal g2 = g_wal g" "g_last_applied g2 = g_last_applied g"
    "save_ready W rd g2 = Some g3" "apply_entries L env (rd_committed rd) g3 = Some g5"
    "g_wal g' = g_wal g5" "g_last_applied g' = g_last_applied g5"
    by (rule handle_ready_plain [OF assms(3,5)])
  have g3: "registered g g3" "g_state g3 = g_state g" "g_last_applied g3 = g_last_applied g"
    using save_ready_keeps [OF g(5)] g(1-4) registered_trans [of g g2 g3] by auto
  then have "drives g3" using assms(1) drives_registered [of g g3] by (simp add: drives_def)
  from apply_entries_spec [OF this assms(2,4) g(6)] show ?thesis using g3 g(8) by simp
qed

lemma ready_backed:
  assumes kv: "kv_laws V rows" "codec_laws C" and lib: "\<forall>s. is_empty_snap L s = (rs_index s = 0)"
    and g: "drives g" "backed C rows g l" "fair env" and rd: "hands_over rd (unat (g_last_applied g)) l"
    and legal: "\<forall>d \<in> set (log_of (rd_committed rd)). legal d"
    and step: "handle_ready L (badger_ops V C) N env rd g = Some g'"
  shows "\<exists>l'. backed C rows g' l'"
proof -
  let ?n = "unat (g_last_applied g)" and ?cs = "rd_committed rd"
  have l: "represents C rows (g_wal g) l" "base l \<le> ?n" "?n < base l + length (lg_entries l)"
    using g(2) by (simp_all add: backed_def)
  have wf: "log_wf l" using l(1) by (simp add: represents_def)
  have empty: "is_empty_snap L (rd_snapshot rd)" "rs_index (rd_snapshot rd) = 0" "follows (rd_entries rd) l"
    "\<forall>e \<in> set (rd_entries rd). ?n < unat (e_index e)" using rd lib by (simp_all add: hands_over_def)
  obtain k where k: "?cs = take k (drop (Suc ?n - base l) (lg_entries (append_entries (rd_entries rd) l)))"
    using rd by (auto simp: hands_over_def)
  let ?l' = "put_hard_state (rd_hard_state rd) (append_entries (rd_entries rd) l)"
  note c = committed_applied [OF wf empty(3) l(2,3) empty(4) refl [of ?l'] k]
  have "can_save (rd_entries rd) (rd_snapshot rd) l" using empty by (simp add: can_save_def)
  then obtain w' where "badger_save V C (rd_hard_state rd) (rd_entries rd) (rd_snapshot rd) (g_wal g) = Some (Inr (), w')"
    "represents C rows w' ?l'" "w_group w' = w_group (g_wal g)"
    using save_represents [OF kv l(1), of "rd_entries rd" "rd_snapshot rd" "rd_hard_state rd"] empty(2)
    by (auto simp: save_spec_def)
  then have rep: "represents C rows (g_wal g') ?l'" "w_group (g_wal g') = w_group (g_wal g)"
    using handle_ready_wal [OF empty(1) step] by simp_all
  have run: "run_spec spec (log_of ?cs) (view (g_state g)) = Some (view (g_state g'))" "g_id g' = g_id g"
    using handle_ready_spec [OF g(1,3) empty(1) legal step] by (auto simp: registered_def)
  have last: "unat (g_last_applied g') = ?n + length ?cs"
    using handle_ready_last [OF g(1,3) empty(1) legal step] c(5) by simp
  obtain m where m: "restores l m" "run_spec spec (log_of (applied ?n l)) m = Some (view (g_state g))"
    using g(2) by (auto simp: backed_def)
  have "restores ?l' m" using m(1) c(6) by (simp add: restores_def)
  moreover have "run_spec spec (log_of (applied (?n + length ?cs) ?l')) m = Some (view (g_state g'))"
    using m(2) run by (simp add: c(1) run_spec_append)
  ultimately have "backed C rows g' ?l'"
    using rep run(2) last l(2) c(1,2,4) g(2) legal by (auto simp: backed_def)
  then show ?thesis by blast
qed

lemma snapshot_backed:
  assumes kv: "kv_laws V rows" "codec_laws C"
    and g: "drives g" "g_snapshot g = Some snap" "backed C rows g l" "fair env"
    and fit: "snapshot_due V C g \<longrightarrow> loadable (g_state g)"
    and step: "try_snapshot (badger_ops V C) env (g_last_applied g) snapshot_offset g = Some (r, g')"
  shows "\<exists>l'. backed C rows g' l'"
proof -
  let ?n = "unat (g_last_applied g)"
  have l: "represents C rows (g_wal g) l" "base l \<le> ?n" "?n < base l + length (lg_entries l)"
    using g(3) by (simp_all add: backed_def)
  have same: "backed C rows g' l" if "g' = g\<lparr>g_wal := w\<rparr>" "represents C rows w l" "w_group w = w_group (g_wal g)" for w
    using g(3) that by (simp add: backed_def)
  show ?thesis
  proof (cases "g_wal g' = g_wal g")
    case True
    then have "g' = g\<lparr>g_wal := g_wal g\<rparr>"
      using step by (auto simp: try_snapshot_def bind_eq_Some_conv split: option.splits sum.splits if_splits)
    then show ?thesis using same l(1) by blast
  next
    case False
    then obtain data x w where due: "snapshot_due V C g" and data: "snap env (g_state g) = Some (Inr data)"
      and w: "badger_create_snapshot V C (g_last_applied g) (g_conf_state g) data (g_wal g) = Some (x, w)"
      "g' = g\<lparr>g_wal := w\<rparr>"
      using step g(2)
      by (auto simp: try_snapshot_def snapshot_due_def bind_eq_Some_conv not_le split: option.splits sum.splits if_splits)
    then obtain conf where conf: "g_conf_state g = Some conf"
      using False by (cases "g_conf_state g") (auto simp: badger_create_snapshot_def fail_def)
    show ?thesis
    proof (cases "base l < ?n")
      case True
      let ?s = "snapshot_at (g_last_applied g) conf data l"
      have rep: "represents C rows w (compact ?s l)" "w_group w = w_group (g_wal g)"
        using create_snapshot_compacts [OF kv l(1) True l(3), of conf data] w(1) conf by auto
      have "loadable (g_state g)" "ok (g_state g)" using fit due g(1) by (simp_all add: drives_def)
      then have "restores (compact ?s l) (view (g_state g))"
        using load_snap [OF _ _ g(4) data] by (auto simp: restores_def compact_def snapshot_at_def)
      moreover have "base (compact ?s l) = ?n" by (simp add: compact_def base_def snapshot_at_def)
      moreover have "lg_entries (compact ?s l) \<noteq> []" by (simp add: compact_def)
      ultimately have "backed C rows g' (compact ?s l)" using rep w(2) g(3) by (simp add: backed_def applied_def)
      then show ?thesis by blast
    next
      case False
      then obtain w' where "badger_create_snapshot V C (g_last_applied g) (Some conf) data (g_wal g) =
          Some (Inl ErrSnapOutOfDate, w')" "read_only (g_wal g) l w'"
        using create_snapshot_refused [OF kv l(1), of "g_last_applied g" conf data] by auto
      then have "represents C rows w l" "w_group w = w_group (g_wal g)"
        using w(1) conf read_onlyD(1,2) [OF _ l(1)] by simp_all
      then show ?thesis using same [OF w(2)] by blast
    qed
  qed
qed

lemma step_backed:
  assumes kv: "kv_laws V rows" "codec_laws C" and lib: "\<forall>s. is_empty_snap L s = (rs_index s = 0)"
    and g: "drives g" "g_snapshot g = Some snap" "backed C rows g l" "fair env"
    and ev: "orderly_event V C rows loadable ev g" "\<forall>d \<in> set (log_of (committed_by [ev])). legal d"
    and step: "group_step L (badger_ops V C) N env ev g = Some g'"
  shows "drives g' \<and> registered g g' \<and> (\<exists>l'. backed C rows g' l')"
proof -
  have plain: "plain_event L ev"
  proof (cases ev)
    case (Ready rd)
    have "represents C rows (g_wal g) l" using g(3) by (simp add: backed_def)
    then show ?thesis using ev(1) lib Ready by (auto simp: orderly_event_def plain_event_def hands_over_def)
  qed (use ev(1) in \<open>simp_all add: orderly_event_def plain_event_def\<close>)
  have keeps: "drives g' \<and> registered g g'" using group_step_spec [OF g(1,4) plain ev(2) step] by blast
  moreover have "\<exists>l'. backed C rows g' l'"
  proof (cases ev)
    case (Ready rd)
    have "hands_over rd (unat (g_last_applied g)) l" using ev(1) g(3) Ready by (simp add: orderly_event_def backed_def)
    then show ?thesis
      using ready_backed [OF kv lib g(1,3,4), of rd N g'] ev(2) step Ready
      by (simp add: group_step_def committed_by_def)
  next
    case SnapshotTick
    then show ?thesis using snapshot_backed [OF kv g] ev(1) step by (auto simp: group_step_def orderly_event_def)
  next
    case Tick
    then have "backed C rows g' l" using g(3) step by (auto simp: group_step_def backed_def)
    then show ?thesis by blast
  qed (use ev(1) in \<open>simp add: orderly_event_def\<close>)
  ultimately show ?thesis by blast
qed

lemma run_backed:
  assumes kv: "kv_laws V rows" "codec_laws C" and lib: "\<forall>s. is_empty_snap L s = (rs_index s = 0)"
  shows "drives g \<Longrightarrow> g_snapshot g = Some snap \<Longrightarrow> backed C rows g l \<Longrightarrow> fair env \<Longrightarrow>
    orderly L N V C rows loadable env evs g \<Longrightarrow> \<forall>d \<in> set (log_of (committed_by evs)). legal d \<Longrightarrow>
    group_run L (badger_ops V C) N env evs g = Some g' \<Longrightarrow>
    drives g' \<and> registered g g' \<and> (\<exists>l'. backed C rows g' l')"
proof (induction evs arbitrary: env g l)
  case (Cons ev evs)
  have ev: "orderly_event V C rows loadable ev g" using Cons.prems(5) by simp
  then have "ev \<noteq> Stopped" by (auto simp: orderly_event_def)
  then obtain g1 where g1: "group_step L (badger_ops V C) N (sub env 0) ev g = Some g1"
    "group_run L (badger_ops V C) N (sub env 1) evs g1 = Some g'"
    using Cons.prems(7) by (auto simp: bind_eq_Some_conv)
  have split: "committed_by (ev # evs) = committed_by [ev] @ committed_by evs" by (simp add: committed_by_def)
  have one: "drives g1 \<and> registered g g1 \<and> (\<exists>l'. backed C rows g1 l')"
    by (rule step_backed [OF kv lib Cons.prems(1-3) fair_sub [OF Cons.prems(4)] ev _ g1(1)])
      (use Cons.prems(6) in \<open>simp add: split\<close>)
  then obtain l1 where l1: "backed C rows g1 l1" by blast
  have "drives g' \<and> registered g1 g' \<and> (\<exists>l'. backed C rows g' l')"
    by (rule Cons.IH [OF _ _ l1 fair_sub [OF Cons.prems(4)] _ _ g1(2)])
      (use one Cons.prems g1(1) in \<open>auto simp: split registered_def\<close>)
  then show ?case using one registered_trans by blast
qed auto

section \<open>The restart\<close>

text \<open>
  The log opened again, a new machine, and \<open>Start\<close>: it loads the snapshot, if there is one, and the
  entries after it give the state from before.
\<close>

lemma backed_recovers:
  assumes kv: "kv_laws V rows" "codec_laws C" and lib: "\<forall>s. is_empty_snap L s = (rs_index s = 0)"
    and g: "backed C rows g l"
    and new: "represents C rows (g_wal g0) l" "fresh (g_state g0)" "g_process g0 = Some step" "g_process_snapshot g0 = Some load"
  obtains g1 where "group_start L (badger_ops V C) g0 = Some (Inr (), g1)" "drives g1" "g_id g1 = g_id g0"
    "run_spec spec (log_of (applied (unat (g_last_applied g)) l)) (view (g_state g1)) = Some (view (g_state g))"
proof -
  obtain m where m: "restores l m" "run_spec spec (log_of (applied (unat (g_last_applied g)) l)) m = Some (view (g_state g))"
    using g by (auto simp: backed_def)
  have reads: "badger_snapshot V C (g_wal g0) = Inr (case lg_snapshot l of None \<Rightarrow> zero_snapshot | Some s \<Rightarrow> s)"
    by (rule snapshot_reads [OF kv new(1)])
  show thesis
  proof (cases "lg_snapshot l")
    case None
    have "group_start L (badger_ops V C) g0 = Some (Inr (), g0)"
      using reads None lib by (simp add: group_start_def zero_snapshot_def)
    moreover have "drives g0" "view (g_state g0) = m"
      using fresh_start [OF new(2)] new(3) m(1) None by (simp_all add: drives_def restores_def)
    ultimately show thesis using that m(2) by blast
  next
    case (Some s)
    have "rs_index s \<noteq> 0" using new(1) Some by (auto simp: represents_def log_wf_def)
    moreover obtain s' where s': "load (rs_data s) (g_state g0) = Some (Inr (), s')" "ok s'" "view s' = m"
      using m(1) Some new(2) by (auto simp: restores_def)
    ultimately have "group_start L (badger_ops V C) g0 = Some (Inr (), g0\<lparr>g_state := s'\<rparr>)"
      using reads Some lib new(4) by (simp add: group_start_def process_snapshot_data_def lift_state_def)
    then show thesis using that [of "g0\<lparr>g_state := s'\<rparr>"] s' m(2) new(3) by (simp add: drives_def)
  qed
qed

section \<open>A snapshot from the leader\<close>

text \<open>A new machine that is handed a snapshot of another one, and the entries committed after it.\<close>

lemma handle_ready_install:
  assumes new: "fresh (g_state g)" "g_process g = Some step" "g_process_snapshot g = Some load" and env: "fair env" "fair env0"
    and snap: "ok s" "loadable s" "snap env0 s = Some (Inr data)" "rs_data (rd_snapshot rd) = data" "\<not> is_empty_snap L (rd_snapshot rd)"
    and legal: "\<forall>d \<in> set (log_of (rd_committed rd)). legal d" and step: "handle_ready L W N env rd g = Some g'"
  shows "drives g' \<and> registered g g' \<and> run_spec spec (log_of (rd_committed rd)) (view s) = Some (view (g_state g'))"
proof -
  define g1 where "g1 = (case rd_lead rd of None \<Rightarrow> g | Some l \<Rightarrow> g\<lparr>g_leader_id := l\<rparr>)"
  define g2 where "g2 = send_if (is_leader g1) N (rd_messages rd) g1"
  obtain g3 g4 g5 where g: "save_ready W rd g2 = Some g3" "install_snapshot L (rd_snapshot rd) g3 = Some g4"
    "apply_entries L env (rd_committed rd) g4 = Some g5"
    "g' = (send_if (\<not> is_leader g5) N (rd_messages rd) g5)\<lparr>g_calls :=
       g_calls (send_if (\<not> is_leader g5) N (rd_messages rd) g5) @ [CallAdvance]\<rparr>"
    using step unfolding handle_ready_def g1_def [symmetric] Let_def g2_def [symmetric] by (auto simp: bind_eq_Some_conv)
  have "registered g g1 \<and> g_state g1 = g_state g" by (auto simp: g1_def registered_def split: option.split)
  then have g3: "registered g g3" "g_state g3 = g_state g"
    using send_if_keeps(1,2) [where g = g1 and b = "is_leader g1" and N = N and ms = "rd_messages rd"]
      save_ready_keeps [OF g(1)] registered_trans [of g g1 g2] registered_trans [of g g2 g3] by (auto simp: g2_def)
  obtain s' where s': "load data (g_state g3) = Some (Inr (), s')" "ok s'" "view s' = view s"
    using load_snap [OF snap(1,2) env(2) snap(3) new(1)] g3(2) by auto
  have "g_process_snapshot g3 = Some load" using g3(1) new(3) by (simp add: registered_def)
  then have g4: "registered g3 g4" "g_state g4 = s'"
    using g(2) s'(1) snap(4,5) by (auto simp: install_snapshot_def process_snapshot_data_def lift_state_def fatal_def registered_def)
  then have r4: "registered g g4" using registered_trans g3(1) by blast
  then have "drives g4" using new(2) s'(2) g4(2) by (simp add: drives_def registered_def)
  from apply_entries_spec [OF this env(1) legal g(3)]
  have g5: "drives g5" "registered g4 g5" "run_spec spec (log_of (rd_committed rd)) (view s) = Some (view (g_state g5))"
    using g4(2) s'(3) by simp_all
  have "registered g5 g'" "g_state g' = g_state g5"
    using g(4) send_if_keeps(1,2) [where g = g5 and b = "\<not> is_leader g5" and N = N and ms = "rd_messages rd"]
    by (simp_all add: registered_def)
  moreover from this have "drives g'" using drives_registered [OF g5(1)] g5(1) by (simp add: drives_def)
  ultimately show ?thesis using g5(2,3) r4 registered_trans by metis
qed

lemma install_then_run:
  assumes new: "fresh (g_state g)" "g_process g = Some step" "g_process_snapshot g = Some load" and env: "fair env" "fair env0"
    and snap: "ok s" "loadable s" "snap env0 s = Some (Inr data)" "rs_data (rd_snapshot rd) = data" "\<not> is_empty_snap L (rd_snapshot rd)"
    and legal: "\<forall>d \<in> set (log_of (rd_committed rd @ committed_by evs)). legal d" and plain: "\<forall>ev \<in> set evs. plain_event L ev"
    and run: "group_run L W N env (Ready rd # evs) g = Some g'"
  shows "run_spec spec (log_of (rd_committed rd @ committed_by evs)) (view s) = Some (view (g_state g'))"
proof -
  obtain g1 where g1: "handle_ready L W N (sub env 0) rd g = Some g1" "group_run L W N (sub env 1) evs g1 = Some g'"
    using run by (auto simp: bind_eq_Some_conv group_step_def)
  have "drives g1 \<and> registered g g1 \<and> run_spec spec (log_of (rd_committed rd)) (view s) = Some (view (g_state g1))"
    by (rule handle_ready_install [OF new fair_sub [OF env(1)] env(2) snap _ g1(1)]) (use legal in simp)
  moreover have "run_spec spec (log_of (committed_by evs)) (view (g_state g1)) = Some (view (g_state g'))" if "drives g1"
    using group_run_spec [OF that fair_sub [OF env(1)] plain _ g1(2)] legal by simp
  ultimately show ?thesis by (simp add: run_spec_append)
qed

end

end
