(* ===== verification/Partition.thy ===== *)
theory Partition
  imports HnswRoundTrip RaftTransport
begin

text \<open>
  \<open>storage/partition.go\<close>: one replica of one partition, an index that applies the committed
  entries of a raft log and answers the requests that proposed them. Raft, the codec of the
  protobuf messages and the write-ahead log are arguments of the definitions that use them: what
  a call of theirs returned. A log entry is a \<open>partition_change\<close>; \<open>process\<close> decodes and applies it.
\<close>

section \<open>Messages and state\<close>

record batch_item =
  bi_id :: bytes
  bi_value :: vec
  bi_metadata :: metadata
  bi_level :: "32 word"

datatype change_type =
    InsertValue | UpdateValue | DeleteValue
  | BatchInsertValue | BatchUpdateValue | BatchDeleteValue
  | UnknownChange int

record partition_change =
  pc_type :: change_type
  pc_notification_id :: bytes
  pc_id :: bytes
  pc_value :: vec
  pc_metadata :: metadata
  pc_level :: "32 word"
  pc_batch_items :: "batch_item list"

type_synonym batch_result = "(uuid \<times> error) list"

text \<open>What an applier sends through the notificator: an error or nil, or the errors of a batch.\<close>

datatype partition_reply = ErrorReply "error option" | BatchReply batch_result

record partition =
  p_id :: uuid
  p_node_ids :: "node_id list"
  p_index :: hnsw
  p_raft :: bool
  p_notificator :: "partition_reply notificator"

definition new_index_from_dataset_proto :: "(f32 \<Rightarrow> f32) \<Rightarrow> space \<Rightarrow> 32 word \<Rightarrow> hnsw" where
  "new_index_from_dataset_proto lg sp dim = new_hnsw lg (ucast dim) sp []"

definition new_partition :: "(f32 \<Rightarrow> f32) \<Rightarrow> space \<Rightarrow> 32 word \<Rightarrow> uuid \<Rightarrow> node_id list \<Rightarrow> partition" where
  "new_partition lg sp dim i nodes = \<lparr>p_id = i, p_node_ids = nodes,
     p_index = new_index_from_dataset_proto lg sp dim, p_raft = False,
     p_notificator = new_notificator\<rparr>"

definition index_distance :: "space_impl \<Rightarrow> hnsw \<Rightarrow> distance" where
  "index_distance impl h = space_distance impl (h_space h)"

section \<open>The operations on the index\<close>

definition insert_item :: "space_impl \<Rightarrow> env \<Rightarrow> batch_item \<Rightarrow> uuid \<Rightarrow> (hnsw, unit) prog" where
  "insert_item impl env item i h =
     hnsw_insert (index_distance impl h) env i (bi_value item) (bi_metadata item) (sint (bi_level item)) h"

definition delete_item :: "space_impl \<Rightarrow> env \<Rightarrow> batch_item \<Rightarrow> uuid \<Rightarrow> (hnsw, unit) prog" where
  "delete_item impl env item i h = hnsw_remove (index_distance impl h) env i h"

text \<open>The loop that keeps the old metadata under the keys the update does not name; a write to a
  nil map panics.\<close>

fun merge_metadata :: "(bytes \<times> bytes) list \<Rightarrow> metadata \<Rightarrow> metadata option" where
  "merge_metadata [] m = Some m"
| "merge_metadata ((k, v) # kvs) m =
     (if map_of (metadata_entries m) k \<noteq> None then merge_metadata kvs m
      else (case m of None \<Rightarrow> None
        | Some kept \<Rightarrow> merge_metadata kvs (Some (AList.update k v kept))))"

definition update_item :: "space_impl \<Rightarrow> env \<Rightarrow> batch_item \<Rightarrow> uuid \<Rightarrow> (hnsw, unit) prog" where
  "update_item impl env item i =
     andthen (hnsw_get_vertex i) (\<lambda>p.
     andthen (\<lambda>h. hnsw_remove (index_distance impl h) (sub env 0) i h) (\<lambda>_ h. do {
       v \<leftarrow> deref (h_store h) p;
       m \<leftarrow> merge_metadata (visit (sub env 1) (metadata_entries (vmetadata v))) (bi_metadata item);
       hnsw_insert (index_distance impl h) (sub env 2) i (bi_value item) m (vlevel v) h }))"

text \<open>The loop of the three batch operations: an id that is no UUID ends it with an error.\<close>

fun batch_loop ::
  "(env \<Rightarrow> batch_item \<Rightarrow> uuid \<Rightarrow> ('s, unit) prog) \<Rightarrow> env \<Rightarrow> batch_item list \<Rightarrow> batch_result \<Rightarrow>
   ('s, batch_result) prog" where
  "batch_loop step env [] errs s = Some (Inr errs, s)"
| "batch_loop step env (item # items) errs s =
     (case uuid_from_bytes (bi_id item) of
        Inl e \<Rightarrow> Some (Inl e, s)
      | Inr i \<Rightarrow>
          (case step (sub env 0) item i s of
             None \<Rightarrow> None
           | Some (Inl e, s') \<Rightarrow> batch_loop step (sub env 1) items (AList.update i e errs) s'
           | Some (Inr _, s') \<Rightarrow> batch_loop step (sub env 1) items errs s'))"

section \<open>Applying a committed entry\<close>

text \<open>\<open>Notify(id, v, false)\<close>; its error is ignored.\<close>

definition tell :: "uuid \<Rightarrow> partition_reply \<Rightarrow> partition \<Rightarrow> partition option" where
  "tell nid r p = do {
     (_, n) \<leftarrow> notify nid r False (p_notificator p);
     Some (p\<lparr>p_notificator := n\<rparr>) }"

definition error_of :: "error + 'a \<Rightarrow> error option" where
  "error_of r = (case r of Inl e \<Rightarrow> Some e | Inr _ \<Rightarrow> None)"

definition apply_value ::
  "(hnsw, unit) prog \<Rightarrow> uuid \<Rightarrow> (partition, unit) prog" where
  "apply_value op nid p = do {
     (r, h) \<leftarrow> op (p_index p);
     p' \<leftarrow> tell nid (ErrorReply (error_of r)) (p\<lparr>p_index := h\<rparr>);
     Some (Inr (), p') }"

definition apply_batch ::
  "(env \<Rightarrow> batch_item \<Rightarrow> uuid \<Rightarrow> (hnsw, unit) prog) \<Rightarrow> env \<Rightarrow> uuid \<Rightarrow> batch_item list \<Rightarrow>
   (partition, unit) prog" where
  "apply_batch step env nid items p =
     (case batch_loop step env items [] (p_index p) of
        None \<Rightarrow> None
      | Some (Inl e, h) \<Rightarrow> Some (Inl e, p\<lparr>p_index := h\<rparr>)
      | Some (Inr errs, h) \<Rightarrow> do {
          p' \<leftarrow> tell nid (BatchReply errs) (p\<lparr>p_index := h\<rparr>);
          Some (Inr (), p') })"

definition change_item :: "partition_change \<Rightarrow> batch_item" where
  "change_item c = \<lparr>bi_id = pc_id c, bi_value = pc_value c, bi_metadata = pc_metadata c, bi_level = pc_level c\<rparr>"

definition insert_value :: "space_impl \<Rightarrow> env \<Rightarrow> uuid \<Rightarrow> uuid \<Rightarrow> partition_change \<Rightarrow> (partition, unit) prog" where
  "insert_value impl env nid i c = apply_value (insert_item impl env (change_item c) i) nid"

definition update_value :: "space_impl \<Rightarrow> env \<Rightarrow> uuid \<Rightarrow> uuid \<Rightarrow> partition_change \<Rightarrow> (partition, unit) prog" where
  "update_value impl env nid i c = apply_value (update_item impl env (change_item c) i) nid"

definition delete_value :: "space_impl \<Rightarrow> env \<Rightarrow> uuid \<Rightarrow> uuid \<Rightarrow> partition_change \<Rightarrow> (partition, unit) prog" where
  "delete_value impl env nid i c = apply_value (delete_item impl env (change_item c) i) nid"

definition batch_insert_value ::
  "space_impl \<Rightarrow> env \<Rightarrow> uuid \<Rightarrow> batch_item list \<Rightarrow> (partition, unit) prog" where
  "batch_insert_value impl env nid items = apply_batch (insert_item impl) env nid items"

definition batch_update_value ::
  "space_impl \<Rightarrow> env \<Rightarrow> uuid \<Rightarrow> batch_item list \<Rightarrow> (partition, unit) prog" where
  "batch_update_value impl env nid items = apply_batch (update_item impl) env nid items"

definition batch_delete_value ::
  "space_impl \<Rightarrow> env \<Rightarrow> uuid \<Rightarrow> batch_item list \<Rightarrow> (partition, unit) prog" where
  "batch_delete_value impl env nid items = apply_batch (delete_item impl) env nid items"

definition with_uuid :: "bytes \<Rightarrow> (uuid \<Rightarrow> ('s, 'a) prog) \<Rightarrow> ('s, 'a) prog" where
  "with_uuid bs f = (case uuid_from_bytes bs of Inl e \<Rightarrow> fail e | Inr i \<Rightarrow> f i)"

definition apply_change :: "space_impl \<Rightarrow> env \<Rightarrow> partition_change \<Rightarrow> (partition, unit) prog" where
  "apply_change impl env c =
     with_uuid (pc_notification_id c) (\<lambda>nid.
       case pc_type c of
         InsertValue \<Rightarrow> with_uuid (pc_id c) (\<lambda>i. insert_value impl env nid i c)
       | UpdateValue \<Rightarrow> with_uuid (pc_id c) (\<lambda>i. update_value impl env nid i c)
       | DeleteValue \<Rightarrow> with_uuid (pc_id c) (\<lambda>i. delete_value impl env nid i c)
       | BatchInsertValue \<Rightarrow> batch_insert_value impl env nid (pc_batch_items c)
       | BatchUpdateValue \<Rightarrow> batch_update_value impl env nid (pc_batch_items c)
       | BatchDeleteValue \<Rightarrow> batch_delete_value impl env nid (pc_batch_items c)
       | UnknownChange _ \<Rightarrow> ret ())"

definition process ::
  "(bytes \<Rightarrow> error + partition_change) \<Rightarrow> space_impl \<Rightarrow> env \<Rightarrow> bytes \<Rightarrow> (partition, unit) prog" where
  "process unmarshal impl env data =
     (case unmarshal data of Inl e \<Rightarrow> fail e | Inr c \<Rightarrow> apply_change impl env c)"

definition process_snapshot :: "bytes \<Rightarrow> (partition, unit) prog" where
  "process_snapshot data p = do {
     (r, h, _) \<leftarrow> hnsw_load False (p_index p, data);
     Some (r, p\<lparr>p_index := h\<rparr>) }"

definition snapshot :: "env \<Rightarrow> partition \<Rightarrow> (error + bytes) option" where
  "snapshot env p = do {
     (e, bs) \<leftarrow> hnsw_save env False (p_index p);
     Some (case e of Some err \<Rightarrow> Inl err | None \<Rightarrow> Inr bs) }"

section \<open>Raft on and off\<close>

text \<open>
  \<open>loadRaft\<close>: what \<open>NewRaftGroup\<close> returned, and the snapshot in the log that \<open>Start\<close> found,
  or the error it met there. The three registrations succeed, the group being new.
\<close>

definition load_raft :: "error + unit \<Rightarrow> error + bytes option \<Rightarrow> (partition, unit) prog" where
  "load_raft new_group wal_snapshot p =
     (case new_group of
        Inl e \<Rightarrow> Some (Inl e, p\<lparr>p_raft := False\<rparr>)
      | Inr _ \<Rightarrow>
          (case wal_snapshot of
             Inl e \<Rightarrow> Some (Inl e, p\<lparr>p_raft := True\<rparr>)
           | Inr None \<Rightarrow> Some (Inr (), p\<lparr>p_raft := True\<rparr>)
           | Inr (Some data) \<Rightarrow> process_snapshot data (p\<lparr>p_raft := True\<rparr>)))"

definition unload_raft :: "(partition, unit) prog" where
  "unload_raft p = (if p_raft p then Some (Inr (), p\<lparr>p_raft := False\<rparr>) else Some (Inl RaftNotLoadedOnNode, p))"

definition is_on_node :: "node_id \<Rightarrow> partition \<Rightarrow> bool" where
  "is_on_node n p = (n \<in> set (p_node_ids p))"

definition is_under_replicated :: "32 word \<Rightarrow> partition \<Rightarrow> bool" where
  "is_under_replicated replication_factor p = (length (p_node_ids p) < unat replication_factor)"

text \<open>\<open>rand.Intn\<close> panics for a bound that is not positive; \<open>r\<close> is the number it drew.\<close>

definition random_node_id :: "nat \<Rightarrow> partition \<Rightarrow> node_id option" where
  "random_node_id r p = (if p_node_ids p = [] then None else Some (p_node_ids p ! (r mod length (p_node_ids p))))"

text \<open>The errors of \<open>loadRaft\<close> and \<open>unloadRaft\<close> are dropped by the callers below.\<close>

definition add_node :: "node_id \<Rightarrow> error + unit \<Rightarrow> error + bytes option \<Rightarrow> node_id \<Rightarrow> partition \<Rightarrow> partition option" where
  "add_node this new_group wal_snapshot n p =
     (let p' = p\<lparr>p_node_ids := p_node_ids p @ [n]\<rparr>
      in if n = this then map_option snd (load_raft new_group wal_snapshot p') else Some p')"

definition remove_node :: "node_id \<Rightarrow> node_id \<Rightarrow> partition \<Rightarrow> partition option" where
  "remove_node this n p =
     (let p' = p\<lparr>p_node_ids := filter (\<lambda>x. x \<noteq> n) (p_node_ids p)\<rparr>
      in if n = this then map_option snd (unload_raft p') else Some p')"

section \<open>Proposing\<close>

text \<open>
  \<open>proposeAndWaitForCommit\<close>. The arguments are the new notification id, the codec, raft's
  answer to the proposal, and what the other goroutines do to the partition from the moment the
  request waits to the moment its \<open>select\<close> returns; without an answer the deadline passed.
\<close>

definition deadline_exceeded :: error where
  "deadline_exceeded = RemoteError ''context deadline exceeded''"

record raft_env =
  new_id :: uuid
  marshal :: "partition_change \<Rightarrow> error + bytes"
  raft_propose :: "bytes \<Rightarrow> error option"
  meanwhile :: "bytes \<Rightarrow> partition \<Rightarrow> partition option"

definition finish_proposal :: "uuid \<Rightarrow> error + partition_reply \<Rightarrow> (partition, partition_reply) prog" where
  "finish_proposal nid r p = do {
     (_, n) \<leftarrow> notificator_remove nid (p_notificator p);
     Some (r, p\<lparr>p_notificator := n\<rparr>) }"

definition propose_and_wait :: "raft_env \<Rightarrow> partition_change \<Rightarrow> (partition, partition_reply) prog" where
  "propose_and_wait R change p = do {
     (cr, n) \<leftarrow> create (new_id R) 0 (p_notificator p);
     let p1 = p\<lparr>p_notificator := n\<rparr>;
     (case cr of
        Inl e \<Rightarrow> Some (Inl e, p1)
      | Inr (c, nid) \<Rightarrow>
          (case marshal R (change\<lparr>pc_notification_id := nid\<rparr>) of
             Inl e \<Rightarrow> finish_proposal nid (Inl e) p1
           | Inr data \<Rightarrow>
               (case raft_propose R data of
                  Some e \<Rightarrow> finish_proposal nid (Inl e) p1
                | None \<Rightarrow> do {
                    p2 \<leftarrow> meanwhile R data (p1\<lparr>p_notificator := await c n\<rparr>);
                    finish_proposal nid
                      (case answer c (p_notificator p2) of Some v \<Rightarrow> Inr v | None \<Rightarrow> Inl deadline_exceeded)
                      p2 }))) }"

text \<open>A nil message is an answer too: \<open>res.(error)\<close> of a batch result panics.\<close>

definition single_reply :: "(partition, partition_reply) prog \<Rightarrow> (partition, unit) prog" where
  "single_reply m = andthen m (\<lambda>r. case r of
     ErrorReply None \<Rightarrow> ret () | ErrorReply (Some e) \<Rightarrow> fail e | BatchReply _ \<Rightarrow> panic)"

definition batch_reply :: "(partition, partition_reply) prog \<Rightarrow> (partition, batch_result) prog" where
  "batch_reply m = andthen m (\<lambda>r. case r of BatchReply errs \<Rightarrow> ret errs | ErrorReply _ \<Rightarrow> panic)"

definition if_raft_loaded :: "(partition, 'a) prog \<Rightarrow> (partition, 'a) prog" where
  "if_raft_loaded m p = (if p_raft p then m p else Some (Inl RaftNotLoadedOnNode, p))"

definition empty_change :: "change_type \<Rightarrow> partition_change" where
  "empty_change t = \<lparr>pc_type = t, pc_notification_id = [], pc_id = [], pc_value = [], pc_metadata = None,
     pc_level = 0, pc_batch_items = []\<rparr>"

text \<open>\<open>int32(this.index.RandomLevel())\<close>, for the number \<open>r\<close> the generator returned.\<close>

definition random_level32 :: "(f32 \<Rightarrow> f32) \<Rightarrow> f32 \<Rightarrow> partition \<Rightarrow> 32 word" where
  "random_level32 lg r p = of_int (random_level lg r (p_index p))"

definition partition_insert ::
  "raft_env \<Rightarrow> (f32 \<Rightarrow> f32) \<Rightarrow> f32 \<Rightarrow> uuid \<Rightarrow> vec \<Rightarrow> metadata \<Rightarrow> (partition, unit) prog" where
  "partition_insert R lg r i x m p = if_raft_loaded (single_reply (propose_and_wait R
     ((empty_change InsertValue)\<lparr>pc_id := i, pc_value := x, pc_metadata := m,
        pc_level := random_level32 lg r p\<rparr>))) p"

definition partition_update :: "raft_env \<Rightarrow> uuid \<Rightarrow> vec \<Rightarrow> metadata \<Rightarrow> (partition, unit) prog" where
  "partition_update R i x m = if_raft_loaded (single_reply (propose_and_wait R
     ((empty_change UpdateValue)\<lparr>pc_id := i, pc_value := x, pc_metadata := m\<rparr>)))"

definition partition_remove :: "raft_env \<Rightarrow> uuid \<Rightarrow> (partition, unit) prog" where
  "partition_remove R i = if_raft_loaded (single_reply (propose_and_wait R
     ((empty_change DeleteValue)\<lparr>pc_id := i\<rparr>)))"

definition with_levels :: "(f32 \<Rightarrow> f32) \<Rightarrow> (nat \<Rightarrow> f32) \<Rightarrow> partition \<Rightarrow> batch_item list \<Rightarrow> batch_item list" where
  "with_levels lg rs p items =
     map2 (\<lambda>n item. item\<lparr>bi_level := random_level32 lg (rs n) p\<rparr>) [0..<length items] items"

definition partition_batch_insert ::
  "raft_env \<Rightarrow> (f32 \<Rightarrow> f32) \<Rightarrow> (nat \<Rightarrow> f32) \<Rightarrow> batch_item list \<Rightarrow> (partition, batch_result) prog" where
  "partition_batch_insert R lg rs items p = if_raft_loaded (batch_reply (propose_and_wait R
     ((empty_change BatchInsertValue)\<lparr>pc_batch_items := with_levels lg rs p items\<rparr>))) p"

definition partition_batch_update :: "raft_env \<Rightarrow> batch_item list \<Rightarrow> (partition, batch_result) prog" where
  "partition_batch_update R items = if_raft_loaded (batch_reply (propose_and_wait R
     ((empty_change BatchUpdateValue)\<lparr>pc_batch_items := items\<rparr>)))"

definition partition_batch_remove :: "raft_env \<Rightarrow> batch_item list \<Rightarrow> (partition, batch_result) prog" where
  "partition_batch_remove R items = if_raft_loaded (batch_reply (propose_and_wait R
     ((empty_change BatchDeleteValue)\<lparr>pc_batch_items := items\<rparr>)))"

definition partition_search ::
  "space_impl \<Rightarrow> env \<Rightarrow> vec \<Rightarrow> 64 word \<Rightarrow> partition \<Rightarrow> search_result option" where
  "partition_search impl env q k p = hnsw_search (index_distance impl (p_index p)) env q k (p_index p)"

definition partition_len :: "partition \<Rightarrow> int" where
  "partition_len p = hnsw_len (p_index p)"

text \<open>
  \<open>proposeAddNode\<close> and \<open>proposeRemoveNode\<close>: first the dataset manager's log, then the
  partition's own group, which panics when raft is not loaded.
\<close>

definition propose_node_change :: "error + unit \<Rightarrow> error + unit \<Rightarrow> partition \<Rightarrow> (error + unit) option" where
  "propose_node_change manager_reply conf_change p =
     (case manager_reply of Inl e \<Rightarrow> Some (Inl e)
      | Inr _ \<Rightarrow> if p_raft p then Some conf_change else None)"

end
