(* ===== verification/PartitionFacts.thy ===== *)
theory PartitionFacts
  imports Partition RaftFacts
begin

text \<open>
  What a partition guarantees. Its specification is a finite map from ids to a vector and a
  metadata map; \<open>item_operation\<close> is the contract between the three operations on the index and
  the loop that applies a batch of them. From it follow the refinement of every log entry, the
  agreement of replicas and the answers the proposers get.
\<close>

section \<open>The specification\<close>

type_synonym item_contents = "uuid \<Rightarrow> (vec \<times> (bytes \<Rightarrow> bytes option)) option"

definition contents :: "hnsw \<Rightarrow> item_contents" where
  "contents h i = map_option (\<lambda>(x, m). (x, metadata_lookup m)) (lookup h i)"

text \<open>The index is well formed and every stored metadata map has each key once.\<close>

definition index_ok :: "hnsw \<Rightarrow> bool" where
  "index_ok h = (hnsw_ok h \<and>
     (\<forall>i x m. lookup h i = Some (x, m) \<longrightarrow> distinct (map fst (metadata_entries m))))"

definition legal_item :: "batch_item \<Rightarrow> bool" where
  "legal_item item = (distinct (map fst (metadata_entries (bi_metadata item))) \<and> -1 \<le> sint (bi_level item))"

definition insert_spec :: "batch_item \<Rightarrow> uuid \<Rightarrow> item_contents \<Rightarrow> ((error + unit) \<times> item_contents) option" where
  "insert_spec item i f = Some
     (if f i = None then (Inr (), f(i \<mapsto> (bi_value item, metadata_lookup (bi_metadata item))))
      else (Inl ItemAlreadyExists, f))"

definition delete_spec :: "batch_item \<Rightarrow> uuid \<Rightarrow> item_contents \<Rightarrow> ((error + unit) \<times> item_contents) option" where
  "delete_spec item i f = Some
     (if f i = None then (Inl ItemNotFound, f) else (Inr (), f(i := None)))"

text \<open>An update replaces the vector, and keeps the old value of each key it does not name. Without
  a metadata map it panics, unless there was nothing to keep.\<close>

definition update_spec :: "batch_item \<Rightarrow> uuid \<Rightarrow> item_contents \<Rightarrow> ((error + unit) \<times> item_contents) option" where
  "update_spec item i f = (case f i of
       None \<Rightarrow> Some (Inl ItemNotFound, f)
     | Some (x, old) \<Rightarrow>
         if bi_metadata item = None \<and> old \<noteq> Map.empty then None
         else Some (Inr (), f(i \<mapsto> (bi_value item, old ++ metadata_lookup (bi_metadata item)))))"

fun batch_spec ::
  "(batch_item \<Rightarrow> uuid \<Rightarrow> 'm \<Rightarrow> ((error + unit) \<times> 'm) option) \<Rightarrow> batch_item list \<Rightarrow> batch_result \<Rightarrow>
   ('m, batch_result) prog" where
  "batch_spec spec [] errs f = Some (Inr errs, f)"
| "batch_spec spec (item # items) errs f =
     (case uuid_from_bytes (bi_id item) of
        Inl e \<Rightarrow> Some (Inl e, f)
      | Inr i \<Rightarrow>
          (case spec item i f of
             None \<Rightarrow> None
           | Some (Inl e, f') \<Rightarrow> batch_spec spec items (AList.update i e errs) f'
           | Some (Inr _, f') \<Rightarrow> batch_spec spec items errs f'))"

section \<open>The contract of an operation\<close>

locale item_operation =
  fixes step :: "env \<Rightarrow> batch_item \<Rightarrow> uuid \<Rightarrow> ('s, unit) prog"
    and spec :: "batch_item \<Rightarrow> uuid \<Rightarrow> 'm \<Rightarrow> ((error + unit) \<times> 'm) option"
    and ok :: "'s \<Rightarrow> bool"
    and view :: "'s \<Rightarrow> 'm"
    and legal :: "batch_item \<Rightarrow> bool"
  assumes step_refines: "ok s \<Longrightarrow> fair env \<Longrightarrow> legal item \<Longrightarrow>
    refines ok view (step env item i s) (spec item i (view s))"
begin

lemma batch_refines:
  "ok s \<Longrightarrow> fair env \<Longrightarrow> \<forall>item \<in> set items. legal item \<Longrightarrow>
   refines ok view (batch_loop step env items errs s) (batch_spec spec items errs (view s))"
proof (induction items arbitrary: env errs s)
  case Nil
  then show ?case by (simp add: refinesI)
next
  case (Cons item items)
  show ?case
  proof (cases "uuid_from_bytes (bi_id item)")
    case (Inl e)
    then show ?thesis using Cons.prems by (simp add: refinesI)
  next
    case (Inr i)
    have step: "refines ok view (step (sub env 0) item i s) (spec item i (view s))"
      using step_refines Cons.prems by simp
    show ?thesis
    proof (cases "spec item i (view s)")
      case None
      then show ?thesis using step Inr by simp
    next
      case (Some rm)
      obtain r m where rm: "rm = (r, m)" by (cases rm)
      obtain s' where s': "step (sub env 0) item i s = Some (r, s')" "ok s'" "view s' = m"
        using step Some rm by (auto simp: refines_Some)
      have "refines ok view (batch_loop step (sub env 1) items errs' s') (batch_spec spec items errs' m)" for errs'
        using Cons.IH [OF s'(2), of "sub env 1" errs'] Cons.prems s'(3) by simp
      then show ?thesis using Inr Some rm s'(1) by (cases r) simp_all
    qed
  qed
qed

end

section \<open>The three operations on the index\<close>

lemma remove_keeps_vertex:
  assumes ok: "hnsw_ok h" and p: "find_vertex h i = Some p" and v: "deref (h_store h) p = Some v"
    and env: "fair env" and D: "accepted_distance D"
    and run: "hnsw_remove D env i h = Some (Inr (), h')"
  shows "\<exists>v'. deref (h_store h') p = Some v' \<and> vmetadata v' = vmetadata v \<and> vlevel v' = vlevel v"
proof -
  obtain h1 v1 where h1: "remove_vertex i h = Some (Inr p, h1)" "hnsw_ok h1" "deref (h_store h1) p = Some v1"
    using remove_vertex_spec [OF ok p] by blast
  have v1: "vmetadata v1 = vmetadata v" "vlevel v1 = vlevel v"
    using h1(1,3) p v by (auto simp: remove_vertex_def bind_eq_Some_conv Let_def set_deleted_deref)
  have graph: "graph_ok (h_store h1)" and cfg: "config_ok (h_config h1)" using h1(2) by (auto simp: hnsw_ok_def)
  have "0 \<le> vlevel v1 \<Longrightarrow> has_level (h_store h1) p (vlevel v1)" using h1(3) has_level_iff [OF graph] by auto
  then obtain st where st: "unlink_levels D (sub env 1) (h_config h1) p (vlevel v1) (h_store h1) = Some st"
    "frame (h_store h1) st"
    using unlink_levels_spec [OF graph fair_sub [OF env, of 1] D cfg] by blast
  have "disconnect_vertex D env p h1 = Some (Inr (), h')" using run h1(1) by (simp add: hnsw_remove_def)
  then have "h_store h' = st"
    using h1(3) st(1) by (auto simp: disconnect_vertex_def bind_eq_Some_conv)
  then show ?thesis
    using core_eqD [OF frameD(1) [OF st(2), symmetric] h1(3)] v1 by auto
qed

lemma contents_simps:
  "contents h i = None \<longleftrightarrow> lookup h i = None"
  "lookup h' = (lookup h)(i \<mapsto> (x, m)) \<Longrightarrow> contents h' = (contents h)(i \<mapsto> (x, metadata_lookup m))"
  "lookup h' = (lookup h)(i := None) \<Longrightarrow> contents h' = (contents h)(i := None)"
  by (auto simp: contents_def fun_eq_iff)

lemma index_ok_insert:
  assumes "index_ok h" "fair env" "accepted_distance D" "-1 \<le> l" "lookup h i = None"
    "distinct (map fst (metadata_entries m))"
  obtains h' where "hnsw_insert D env i x m l h = Some (Inr (), h')" "index_ok h'"
    "contents h' = (contents h)(i \<mapsto> (x, metadata_lookup m))" "lookup h' = (lookup h)(i \<mapsto> (x, m))"
proof -
  obtain h' where h': "hnsw_insert D env i x m l h = Some (Inr (), h')" "hnsw_ok h'"
    "lookup h' = (lookup h)(i \<mapsto> (x, m))"
    using insert_ok [of h env D l i x m] assms by (auto simp: index_ok_def)
  moreover have "index_ok h'" using assms(1,6) h'(2,3) by (auto simp: index_ok_def split: if_splits)
  ultimately show thesis using that contents_simps(2) by blast
qed

lemma index_ok_remove:
  assumes "index_ok h" "fair env" "accepted_distance D" "lookup h i \<noteq> None"
  obtains h' where "hnsw_remove D env i h = Some (Inr (), h')" "index_ok h'"
    "contents h' = (contents h)(i := None)" "lookup h' = (lookup h)(i := None)"
proof -
  obtain h' where h': "hnsw_remove D env i h = Some (Inr (), h')" "hnsw_ok h'"
    "lookup h' = (lookup h)(i := None)"
    using remove_ok [of h env D i] assms by (auto simp: index_ok_def)
  moreover have "index_ok h'" using assms(1) h'(2,3) by (auto simp: index_ok_def split: if_splits)
  ultimately show thesis using that contents_simps(3) by blast
qed

definition accepted_impl :: "space_impl \<Rightarrow> bool" where
  "accepted_impl impl = (\<forall>s. accepted_distance (space_distance impl s))"

lemma accepted_index_distance [simp]: "accepted_impl impl \<Longrightarrow> accepted_distance (index_distance impl h)"
  by (simp add: accepted_impl_def index_distance_def)

lemma insert_item_refines:
  assumes "accepted_impl impl" "index_ok h" "fair env" "legal_item item"
  shows "refines index_ok contents (insert_item impl env item i h) (insert_spec item i (contents h))"
proof (cases "lookup h i")
  case None
  have legal: "-1 \<le> sint (bi_level item)" "distinct (map fst (metadata_entries (bi_metadata item)))"
    using assms(4) by (simp_all add: legal_item_def)
  obtain h' where "hnsw_insert (index_distance impl h) env i (bi_value item) (bi_metadata item)
      (sint (bi_level item)) h = Some (Inr (), h')" "index_ok h'"
    "contents h' = (contents h)(i \<mapsto> (bi_value item, metadata_lookup (bi_metadata item)))"
    by (rule index_ok_insert [OF assms(2,3) accepted_index_distance [OF assms(1)] legal(1) None legal(2)])
  then show ?thesis using None by (simp add: insert_item_def insert_spec_def contents_simps refines_Some)
next
  case (Some y)
  then have "hnsw_insert (index_distance impl h) env i (bi_value item) (bi_metadata item)
      (sint (bi_level item)) h = Some (Inl ItemAlreadyExists, h)"
    using assms(2,4) by (intro insert_exists) (simp_all add: index_ok_def legal_item_def)
  then show ?thesis using Some assms(2) contents_simps(1) [of h i]
    by (simp add: insert_item_def insert_spec_def refines_Some)
qed

lemma delete_item_refines:
  assumes "accepted_impl impl" "index_ok h" "fair env"
  shows "refines index_ok contents (delete_item impl env item i h) (delete_spec item i (contents h))"
proof (cases "lookup h i")
  case None
  then show ?thesis using assms remove_missing [OF _ None]
    by (simp add: delete_item_def delete_spec_def contents_simps index_ok_def refines_Some)
next
  case (Some y)
  then obtain h' where "hnsw_remove (index_distance impl h) env i h = Some (Inr (), h')" "index_ok h'"
    "contents h' = (contents h)(i := None)"
    using index_ok_remove [OF assms(2,3) accepted_index_distance [OF assms(1)], of i] by auto
  then show ?thesis using Some contents_simps(1) [of h i]
    by (simp add: delete_item_def delete_spec_def refines_Some)
qed

lemma merge_metadata_Some:
  "\<exists>kvs'. merge_metadata kvs (Some es) = Some (Some kvs') \<and>
     map_of kvs' = map_of kvs ++ map_of es \<and> (distinct (map fst es) \<longrightarrow> distinct (map fst kvs'))"
  if "distinct (map fst kvs)"
  using that
proof (induction kvs arbitrary: es)
  case (Cons kv kvs)
  obtain k v where kv: "kv = (k, v)" by (cases kv)
  show ?case
  proof (cases "map_of es k = None")
    case True
    have "k \<notin> dom (map_of kvs)" using Cons.prems kv by (simp add: dom_map_of_conv_image_fst)
    then have "map_of kvs ++ (map_of es)(k \<mapsto> v) = map_of (kv # kvs) ++ map_of es"
      using True by (auto simp: fun_eq_iff map_add_def kv split: option.split)
    moreover obtain kvs' where "merge_metadata kvs (Some (AList.update k v es)) = Some (Some kvs')"
      "map_of kvs' = map_of kvs ++ map_of (AList.update k v es)"
      "distinct (map fst (AList.update k v es)) \<longrightarrow> distinct (map fst kvs')"
      using Cons.IH [of "AList.update k v es"] Cons.prems unfolding list.map distinct.simps by blast
    ultimately show ?thesis using True distinct_fst_update [of es k v]
      by (simp add: kv update_conv' del: fun_upd_apply)
  next
    case False
    then have "map_of (kv # kvs) ++ map_of es = map_of kvs ++ map_of es"
      by (auto simp: fun_eq_iff map_add_def kv split: option.split)
    moreover have "merge_metadata (kv # kvs) (Some es) = merge_metadata kvs (Some es)"
      using False by (simp add: kv)
    ultimately show ?thesis using Cons.IH [of es] Cons.prems by (simp del: fun_upd_apply)
  qed
qed simp

lemma merge_metadata_None: "merge_metadata kvs None = (if kvs = [] then Some None else None)"
  by (cases kvs) auto

lemma update_item_refines:
  assumes impl: "accepted_impl impl" and ok: "index_ok h" and env: "fair env" and item: "legal_item item"
  shows "refines index_ok contents (update_item impl env item i h) (update_spec item i (contents h))"
proof (cases "find_vertex h i")
  case None
  then have "lookup h i = None" by (simp add: lookup_def)
  then show ?thesis using None ok contents_simps(1) [of h i]
    by (simp add: update_item_def update_spec_def hnsw_get_vertex_def andthen_def refines_Some)
next
  case (Some p)
  have hok: "hnsw_ok h" and map: "map_ok h" using ok by (auto simp: index_ok_def hnsw_ok_def)
  obtain v where v: "deref (h_store h) p = Some v" using find_vertex_ok [OF map Some] .
  have look: "lookup h i = Some (vvector v, vmetadata v)" using Some v by (simp add: lookup_def)
  have old: "distinct (map fst (metadata_entries (vmetadata v)))" using ok look by (auto simp: index_ok_def)
  have cont: "contents h i = Some (vvector v, metadata_lookup (vmetadata v))" by (simp add: contents_def look)
  obtain h1 where h1: "hnsw_remove (index_distance impl h) (sub env 0) i h = Some (Inr (), h1)" "index_ok h1"
    "contents h1 = (contents h)(i := None)" "lookup h1 = (lookup h)(i := None)"
    using index_ok_remove [OF ok fair_sub [OF env, of 0] accepted_index_distance [OF impl], of i] look by auto
  obtain v' where v': "deref (h_store h1) p = Some v'" "vmetadata v' = vmetadata v" "vlevel v' = vlevel v"
    using remove_keeps_vertex [OF hok Some v fair_sub [OF env, of 0] accepted_index_distance [OF impl] h1(1)]
    by auto
  have lvl: "-1 \<le> vlevel v"
  proof -
    have "int (length (vedges v)) = vlevel v + 1" using hok v by (auto simp: hnsw_ok_def graph_ok_def)
    then show ?thesis by linarith
  qed
  let ?kept = "visit (sub env 1) (metadata_entries (vmetadata v))"
  have kept: "map_of ?kept = metadata_lookup (vmetadata v)" "distinct (map fst ?kept)"
    using old env unfolding metadata_lookup_def by (auto intro!: map_of_inject_set [THEN iffD2])
  have run: "update_item impl env item i h = do {
      m \<leftarrow> merge_metadata ?kept (bi_metadata item);
      hnsw_insert (index_distance impl h1) (sub env 2) i (bi_value item) m (vlevel v) h1 }"
    using Some h1(1) v' by (simp add: update_item_def hnsw_get_vertex_def andthen_def)
  have none: "lookup h1 i = None" by (simp add: h1(4))
  show ?thesis
  proof (cases "merge_metadata ?kept (bi_metadata item)")
    case None
    have "bi_metadata item = None"
    proof (cases "bi_metadata item")
      case (Some es)
      then show ?thesis using None merge_metadata_Some [OF kept(2), of es] by simp
    qed
    moreover from this have "?kept \<noteq> []"
      using None merge_metadata_None [of ?kept] by (simp split: if_splits)
    moreover have "metadata_lookup (vmetadata v) \<noteq> Map.empty"
      using kept(1) map_of_eq_empty_iff [of ?kept] \<open>?kept \<noteq> []\<close> by simp
    ultimately show ?thesis using run None cont by (simp add: update_spec_def)
  next
    case (Some m)
    have m: "metadata_lookup m = metadata_lookup (vmetadata v) ++ metadata_lookup (bi_metadata item)"
      "distinct (map fst (metadata_entries m))"
      "\<not> (bi_metadata item = None \<and> metadata_lookup (vmetadata v) \<noteq> Map.empty)"
    proof (atomize (full), cases "bi_metadata item")
      case None
      then have "?kept = []" "m = None" using Some merge_metadata_None by (auto split: if_splits)
      then show "metadata_lookup m = metadata_lookup (vmetadata v) ++ metadata_lookup (bi_metadata item) \<and>
          distinct (map fst (metadata_entries m)) \<and>
          \<not> (bi_metadata item = None \<and> metadata_lookup (vmetadata v) \<noteq> Map.empty)"
        using None kept(1) by (simp add: metadata_lookup_def)
    next
      case (Some es)
      then show "metadata_lookup m = metadata_lookup (vmetadata v) ++ metadata_lookup (bi_metadata item) \<and>
          distinct (map fst (metadata_entries m)) \<and>
          \<not> (bi_metadata item = None \<and> metadata_lookup (vmetadata v) \<noteq> Map.empty)"
        using \<open>merge_metadata ?kept (bi_metadata item) = Some m\<close> merge_metadata_Some [OF kept(2), of es] item kept(1)
        by (auto simp: metadata_lookup_def legal_item_def)
    qed
    obtain h2 where "hnsw_insert (index_distance impl h1) (sub env 2) i (bi_value item) m (vlevel v) h1 = Some (Inr (), h2)"
      "index_ok h2" "contents h2 = (contents h1)(i \<mapsto> (bi_value item, metadata_lookup m))"
      by (rule index_ok_insert [OF h1(2) fair_sub [OF env, of 2] accepted_index_distance [OF impl] lvl none m(2)])
    then show ?thesis
      using run Some m(1,3) cont h1(3) by (simp add: update_spec_def refines_Some)
  qed
qed

interpretation inserting: item_operation "insert_item impl" insert_spec index_ok contents
    "\<lambda>item. legal_item item \<and> accepted_impl impl" for impl
  by unfold_locales (auto intro: insert_item_refines)

interpretation updating: item_operation "update_item impl" update_spec index_ok contents
    "\<lambda>item. legal_item item \<and> accepted_impl impl" for impl
  by unfold_locales (auto intro: update_item_refines)

interpretation deleting: item_operation "delete_item impl" delete_spec index_ok contents
    "\<lambda>item. accepted_impl impl" for impl
  by unfold_locales (auto intro: delete_item_refines)

end
