(* ===== verification/PartitionProperties.thy ===== *)
theory PartitionProperties
  imports PartitionFacts HnswSamples
begin

text \<open>
  A partition as a replicated state machine. \<open>change_spec\<close> says what a committed entry does to the
  map and what it answers; \<open>process\<close> refines it, so the interpretation \<open>partition_machine\<close> of
  \<open>state_machine\<close> gives the agreement of replicas. The last part follows a request from its
  proposal to its answer.
\<close>

section \<open>The specification of an entry\<close>

definition reply_item ::
  "(batch_item \<Rightarrow> uuid \<Rightarrow> item_contents \<Rightarrow> ((error + unit) \<times> item_contents) option) \<Rightarrow> partition_change \<Rightarrow>
   item_contents \<Rightarrow> ((error + partition_reply option) \<times> item_contents) option" where
  "reply_item spec c f = (case uuid_from_bytes (pc_id c) of
       Inl e \<Rightarrow> Some (Inl e, f)
     | Inr i \<Rightarrow> map_option (\<lambda>(r, f'). (Inr (Some (ErrorReply (error_of r))), f')) (spec (change_item c) i f))"

definition reply_items ::
  "(batch_item \<Rightarrow> uuid \<Rightarrow> item_contents \<Rightarrow> ((error + unit) \<times> item_contents) option) \<Rightarrow> partition_change \<Rightarrow>
   item_contents \<Rightarrow> ((error + partition_reply option) \<times> item_contents) option" where
  "reply_items spec c f = map_option (\<lambda>(r, f'). (map_sum (\<lambda>e. e) (\<lambda>errs. Some (BatchReply errs)) r, f'))
     (batch_spec spec (pc_batch_items c) [] f)"

definition reply_spec ::
  "partition_change \<Rightarrow> item_contents \<Rightarrow> ((error + partition_reply option) \<times> item_contents) option" where
  "reply_spec c = (case pc_type c of
       InsertValue \<Rightarrow> reply_item insert_spec c
     | UpdateValue \<Rightarrow> reply_item update_spec c
     | DeleteValue \<Rightarrow> reply_item delete_spec c
     | BatchInsertValue \<Rightarrow> reply_items insert_spec c
     | BatchUpdateValue \<Rightarrow> reply_items update_spec c
     | BatchDeleteValue \<Rightarrow> reply_items delete_spec c
     | UnknownChange _ \<Rightarrow> (\<lambda>f. Some (Inr None, f)))"

definition change_spec ::
  "partition_change \<Rightarrow> item_contents \<Rightarrow> ((error + (uuid \<times> partition_reply) option) \<times> item_contents) option" where
  "change_spec c f = (case uuid_from_bytes (pc_notification_id c) of
       Inl e \<Rightarrow> Some (Inl e, f)
     | Inr nid \<Rightarrow> map_option (\<lambda>(r, f'). (map_sum (\<lambda>e. e) (map_option (Pair nid)) r, f')) (reply_spec c f))"

text \<open>The effect of the answer on the notificator of the replica.\<close>

definition told :: "error + (uuid \<times> partition_reply) option \<Rightarrow> partition_reply notificator \<Rightarrow> partition_reply notificator" where
  "told r n = (case r of
       Inr (Some (nid, v)) \<Rightarrow> (case notify nid v False n of Some (_, n') \<Rightarrow> n' | None \<Rightarrow> n)
     | _ \<Rightarrow> n)"

definition partition_ok :: "partition \<Rightarrow> bool" where
  "partition_ok p = (index_ok (p_index p) \<and> notificator_ok (p_notificator p))"

type_synonym partition_view = "item_contents \<times> partition_reply notificator \<times> bool"

definition pview :: "partition \<Rightarrow> partition_view" where
  "pview p = (contents (p_index p), p_notificator p, p_raft p)"

definition entry_spec :: "partition_change \<Rightarrow> partition_view \<Rightarrow> ((error + unit) \<times> partition_view) option" where
  "entry_spec c = (\<lambda>(f, n, b). map_option (\<lambda>(r, f'). (map_sum (\<lambda>e. e) (\<lambda>_. ()) r, (f', told r n, b))) (change_spec c f))"

definition legal_change :: "partition_change \<Rightarrow> bool" where
  "legal_change c = (legal_item (change_item c) \<and> (\<forall>item \<in> set (pc_batch_items c). legal_item item))"

section \<open>Refinement\<close>

lemma tell_ok:
  assumes "notificator_ok (p_notificator p)"
  shows "tell nid v p = Some (p\<lparr>p_notificator := told (Inr (Some (nid, v))) (p_notificator p)\<rparr>)"
    "notificator_ok (told (Inr (Some (nid, v))) (p_notificator p))"
  using notify_ok [OF assms, of nid v False] by (auto simp: tell_def told_def)

lemma apply_value_refines:
  assumes "refines index_ok contents (op (p_index p)) a" "partition_ok p"
  shows "refines partition_ok pview (apply_value op nid p)
    (map_option (\<lambda>(r, f). (Inr (), (f, told (Inr (Some (nid, ErrorReply (error_of r)))) (p_notificator p), p_raft p))) a)"
proof (cases a)
  case None
  then show ?thesis using assms by (simp add: apply_value_def)
next
  case (Some rf)
  then obtain r f h where h: "rf = (r, f)" "op (p_index p) = Some (r, h)" "index_ok h" "contents h = f"
    using assms(1) by (cases rf) (auto simp: refines_Some)
  then show ?thesis
    using Some assms(2) tell_ok [of "p\<lparr>p_index := h\<rparr>" nid "ErrorReply (error_of r)"]
    by (simp add: apply_value_def refines_Some partition_ok_def pview_def)
qed

lemma apply_batch_refines:
  assumes "refines index_ok contents (batch_loop step env items [] (p_index p)) a" "partition_ok p"
  shows "refines partition_ok pview (apply_batch step env nid items p)
    (map_option (\<lambda>(r, f). (map_sum (\<lambda>e. e) (\<lambda>_. ()) r,
       (f, told (map_sum (\<lambda>e. e) (\<lambda>errs. Some (nid, BatchReply errs)) r) (p_notificator p), p_raft p))) a)"
proof (cases a)
  case None
  then show ?thesis using assms by (simp add: apply_batch_def)
next
  case (Some rf)
  then obtain r f h where h: "rf = (r, f)" "batch_loop step env items [] (p_index p) = Some (r, h)" "index_ok h" "contents h = f"
    using assms(1) by (cases rf) (auto simp: refines_Some)
  show ?thesis
  proof (cases r)
    case (Inl e)
    then show ?thesis using Some h assms(2)
      by (simp add: apply_batch_def refines_Some partition_ok_def pview_def told_def)
  next
    case (Inr errs)
    then show ?thesis
      using Some h assms(2) tell_ok [of "p\<lparr>p_index := h\<rparr>" nid "BatchReply errs"]
      by (simp add: apply_batch_def refines_Some partition_ok_def pview_def)
  qed
qed

lemma apply_change_refines:
  assumes impl: "accepted_impl impl" and p: "partition_ok p" and env: "fair env" and c: "legal_change c"
  shows "refines partition_ok pview (apply_change impl env c p) (entry_spec c (pview p))"
proof (cases "uuid_from_bytes (pc_notification_id c)")
  case (Inl e)
  then show ?thesis using p
    by (simp add: apply_change_def with_uuid_def entry_spec_def pview_def change_spec_def told_def refines_Some)
next
  case (Inr nid)
  have h: "index_ok (p_index p)" using p by (simp add: partition_ok_def)
  have item: "legal_item (change_item c)" "\<forall>item \<in> set (pc_batch_items c). legal_item item"
    using c by (simp_all add: legal_change_def)
  define run :: "(partition, unit) prog" where "run = apply_change impl env c"
  have spec: "entry_spec c (pview p) = map_option (\<lambda>(r, f'). (map_sum (\<lambda>e. e) (\<lambda>_. ()) r,
      (f', told (map_sum (\<lambda>e. e) (map_option (Pair nid)) r) (p_notificator p), p_raft p))) (reply_spec c (contents (p_index p)))"
    using Inr by (simp add: entry_spec_def pview_def change_spec_def option.map_comp o_def case_prod_unfold map_sum.compositionality)
  have one: "refines partition_ok pview (with_uuid (pc_id c) (\<lambda>i. apply_value (op i) nid) p) (entry_spec c (pview p))"
    if "reply_spec c = reply_item sp c" "\<And>i. refines index_ok contents (op i (p_index p)) (sp (change_item c) i (contents (p_index p)))"
    for op sp
  proof (cases "uuid_from_bytes (pc_id c)")
    case (Inl e)
    then show ?thesis using that(1) spec p by (simp add: with_uuid_def reply_item_def refines_Some pview_def told_def)
  next
    case (Inr i)
    then show ?thesis using that(1) spec apply_value_refines [where op = "op i" and nid = nid, OF that(2) p]
      by (simp add: with_uuid_def reply_item_def option.map_comp o_def case_prod_unfold)
  qed
  have many: "refines partition_ok pview (apply_batch st env nid (pc_batch_items c) p) (entry_spec c (pview p))"
    if "reply_spec c = reply_items sp c" "refines index_ok contents (batch_loop st env (pc_batch_items c) [] (p_index p))
      (batch_spec sp (pc_batch_items c) [] (contents (p_index p)))"
    for st sp
    using that(1) spec apply_batch_refines [where nid = nid, OF that(2) p]
    by (simp add: reply_items_def option.map_comp o_def case_prod_unfold map_sum.compositionality)
  show ?thesis
  proof (cases "pc_type c")
    case InsertValue
    then show ?thesis using one [of insert_spec "insert_item impl env (change_item c)"] Inr impl h env item
      by (simp add: apply_change_def with_uuid_def [of "pc_notification_id c"] reply_spec_def insert_value_def insert_item_refines)
  next
    case UpdateValue
    then show ?thesis using one [of update_spec "update_item impl env (change_item c)"] Inr impl h env item
      by (simp add: apply_change_def with_uuid_def [of "pc_notification_id c"] reply_spec_def update_value_def update_item_refines)
  next
    case DeleteValue
    then show ?thesis using one [of delete_spec "delete_item impl env (change_item c)"] Inr impl h env
      by (simp add: apply_change_def with_uuid_def [of "pc_notification_id c"] reply_spec_def delete_value_def delete_item_refines)
  next
    case BatchInsertValue
    then show ?thesis using many [of insert_spec "insert_item impl"] Inr impl h env item inserting.batch_refines
      by (simp add: apply_change_def with_uuid_def [of "pc_notification_id c"] reply_spec_def batch_insert_value_def)
  next
    case BatchUpdateValue
    then show ?thesis using many [of update_spec "update_item impl"] Inr impl h env item updating.batch_refines
      by (simp add: apply_change_def with_uuid_def [of "pc_notification_id c"] reply_spec_def batch_update_value_def)
  next
    case BatchDeleteValue
    then show ?thesis using many [of delete_spec "delete_item impl"] Inr impl h env item deleting.batch_refines
      by (simp add: apply_change_def with_uuid_def [of "pc_notification_id c"] reply_spec_def batch_delete_value_def)
  next
    case (UnknownChange k)
    then show ?thesis using Inr spec p
      by (simp add: apply_change_def with_uuid_def reply_spec_def refines_Some pview_def told_def)
  qed
qed

section \<open>A replica in its raft group\<close>

definition log_spec :: "(bytes \<Rightarrow> error + partition_change) \<Rightarrow> bytes \<Rightarrow> item_contents \<Rightarrow> ((error + unit) \<times> item_contents) option" where
  "log_spec unmarshal data f = (case unmarshal data of
       Inl e \<Rightarrow> Some (Inl e, f)
     | Inr c \<Rightarrow> map_option (\<lambda>(r, f'). (map_sum (\<lambda>e. e) (\<lambda>_. ()) r, f')) (change_spec c f))"

definition legal_data :: "(bytes \<Rightarrow> error + partition_change) \<Rightarrow> bytes \<Rightarrow> bool" where
  "legal_data unmarshal data = (\<forall>c. unmarshal data = Inr c \<longrightarrow> legal_change c)"

definition items_of :: "partition \<Rightarrow> item_contents" where
  "items_of p = contents (p_index p)"

lemma refines_weaken:
  assumes "refines ok view c a" "a' = map_option (\<lambda>(r, m). (r, h m)) a" "\<And>s. view' s = h (view s)"
  shows "refines ok view' c a'"
  using assms by (cases a) (auto simp: refines_def)

lemma process_refines:
  assumes "accepted_impl impl" "partition_ok p" "fair env" "legal_data unmarshal data"
  shows "refines partition_ok items_of (process unmarshal impl env data p) (log_spec unmarshal data (items_of p))"
proof (cases "unmarshal data")
  case (Inl e)
  then show ?thesis using assms(2) by (simp add: process_def log_spec_def refines_Some)
next
  case (Inr c)
  then have "legal_change c" using assms(4) by (simp add: legal_data_def)
  from apply_change_refines [OF assms(1-3) this]
  have "refines partition_ok items_of (apply_change impl env c p) (log_spec unmarshal data (items_of p))"
    by (rule refines_weaken [where h = fst])
      (auto simp: Inr log_spec_def entry_spec_def items_of_def pview_def option.map_comp o_def case_prod_unfold)
  then show ?thesis using Inr by (simp add: process_def)
qed

interpretation partition_machine: state_machine "process unmarshal impl" "log_spec unmarshal" partition_ok items_of
    "\<lambda>data. legal_data unmarshal data \<and> accepted_impl impl" for unmarshal impl
  by unfold_locales (auto intro: process_refines)

lemma new_partition_ok:
  assumes "config_ok (new_hnsw_config lg [])"
  shows "partition_ok (new_partition lg sp dim i nodes)" "items_of (new_partition lg sp dim i nodes) = Map.empty"
  using new_hnsw_ok [OF assms, of "ucast dim" sp]
  by (auto simp: partition_ok_def index_ok_def new_partition_def new_index_from_dataset_proto_def items_of_def contents_def)

text \<open>A replica that holds one item, and an entry that inserts a second.\<close>

definition sample_partition :: partition where
  "sample_partition = \<lparr>p_id = uuid_of 7, p_node_ids = [1, 2], p_index = one_item, p_raft = True,
     p_notificator = new_notificator\<rparr>"

definition sample_change :: partition_change where
  "sample_change = (empty_change InsertValue)\<lparr>pc_notification_id := uuid_of 9, pc_id := uuid_of 2, pc_value := [7]\<rparr>"

definition sample_unmarshal :: "bytes \<Rightarrow> error + partition_change" where
  "sample_unmarshal data = (if data = [1] then Inr sample_change else Inl BadMessage)"

definition sample_replica :: "(partition, raft_snapshot) raft_group" where
  "sample_replica = \<lparr>g_id = uuid_of 7, g_transport = sample_transport,
     g_process = Some (process sample_unmarshal native_impl), g_process_snapshot = Some process_snapshot,
     g_snapshot = Some snapshot, g_conf_state = None, g_leader_id = 2, g_wal = no_snapshot,
     g_state = sample_partition, g_last_applied = 0, g_calls = []\<rparr>"

definition sample_entries :: "entry list" where
  "sample_entries = [\<lparr>e_term = 1, e_index = 1, e_type = EntryNormal, e_data = []\<rparr>,
     \<lparr>e_term = 1, e_index = 2, e_type = EntryNormal, e_data = [1]\<rparr>]"

lemma uuid_of_simps [simp]: "uuid_from_bytes (uuid_of b) = Inr (uuid_of b)" "(uuid_of a = uuid_of b) = (a = b)"
  "uuid_of a = uuid_nil \<longleftrightarrow> a = 0" "length (uuid_of a) = 16"
  by (simp_all add: uuid_from_bytes_def uuid_of_def uuid_nil_def numeral_eq_Suc)

lemma accepted_impl_native [simp]: "accepted_impl native_impl"
  by (simp add: accepted_impl_def accepted_native)

lemma sample_partition_ok:
  "partition_ok sample_partition" "items_of sample_partition = [uuid_of 1 \<mapsto> ([5], [[97] \<mapsto> [98]])]"
  using one_item_ok
  by (auto simp: partition_ok_def index_ok_def sample_partition_def items_of_def contents_def fun_eq_iff
      metadata_lookup_def split: if_splits)

lemma sample_log:
  "log_of sample_entries = [[1]]" "e_index (last sample_entries) = 2" "sample_entries \<noteq> []" "legal_data sample_unmarshal [1]"
  "log_spec sample_unmarshal [1] f = Some (Inr (), if f (uuid_of 2) = None then f(uuid_of 2 \<mapsto> ([7], Map.empty)) else f)"
  by (simp_all add: sample_entries_def legal_data_def sample_unmarshal_def sample_change_def legal_change_def
      empty_change_def change_item_def legal_item_def log_spec_def change_spec_def reply_spec_def reply_item_def
      insert_spec_def metadata_lookup_def)

lemma sample_replica_run:
  assumes "g_id g \<noteq> uuid_nil"
  shows "group_step sample_lib sample_wal N env (Ready (sample_ready [] es)) g = None \<longleftrightarrow>
    apply_entries sample_lib env es
      (g\<lparr>g_calls := g_calls g @ [WalSave \<lparr>hs_term = 1, hs_vote = 1, hs_commit = 1\<rparr> es no_snapshot]\<rparr>) = None"
proof -
  have "is_empty_snap sample_lib no_snapshot" by (simp add: sample_lib_def no_snapshot_def)
  then show ?thesis
    by (auto simp: group_step_def handle_ready_def sample_ready_def send_if_def save_ready_def sample_wal_def fatal_def
        install_snapshot_def Let_def bind_eq_None_conv split: option.splits)
qed

text \<open>
  C2: Replicas converge. Two nodes whose raft groups hand them the same committed entries end with
  the same items, whatever else differs: how raft batched the entries, the messages, ticks and
  snapshots in between, the storage, the network, the iteration order of every Go map, and the
  distance implementation of the machine. Those items are what the specification makes of the log.
\<close>

theorem replicas_converge:
  assumes "g_process g1 = Some (process unmarshal impl1)" "g_process g2 = Some (process unmarshal impl2)"
    "partition_ok (g_state g1)" "partition_ok (g_state g2)" "items_of (g_state g1) = items_of (g_state g2)"
    and "accepted_impl impl1" "accepted_impl impl2" "fair env1" "fair env2"
    and "\<forall>ev \<in> set evs1. plain_event L1 ev" "\<forall>ev \<in> set evs2. plain_event L2 ev"
    and "log_of (committed_by evs1) = log_of (committed_by evs2)"
    and "\<forall>d \<in> set (log_of (committed_by evs1)). legal_data unmarshal d"
    and "group_run L1 W1 N1 env1 evs1 g1 = Some h1" "group_run L2 W2 N2 env2 evs2 g2 = Some h2"
  shows "items_of (g_state h1) = items_of (g_state h2) \<and>
    run_spec (log_spec unmarshal) (log_of (committed_by evs1)) (items_of (g_state g1)) = Some (items_of (g_state h1))"
proof -
  have d: "partition_machine.drives unmarshal impl1 g1" "partition_machine.drives unmarshal impl2 g2"
    using assms(1-4) by (simp_all add: partition_machine.drives_def)
  have l: "\<forall>d \<in> set (log_of (committed_by evs1)). legal_data unmarshal d \<and> accepted_impl impl1"
    "\<forall>d \<in> set (log_of (committed_by evs2)). legal_data unmarshal d \<and> accepted_impl impl2"
    using assms(6,7,12,13) by auto
  have "run_spec (log_spec unmarshal) (log_of (committed_by evs1)) (items_of (g_state g1)) = Some (items_of (g_state h1))"
    using partition_machine.group_run_spec [OF d(1) assms(8,10) l(1) assms(14)] by simp
  moreover have "run_spec (log_spec unmarshal) (log_of (committed_by evs2)) (items_of (g_state g2)) = Some (items_of (g_state h2))"
    using partition_machine.group_run_spec [OF d(2) assms(9,11) l(2) assms(15)] by simp
  ultimately show ?thesis using assms(5,12) by simp
qed

lemma sample_replica_returns:
  assumes "g_process g = g_process sample_replica" "g_state g = sample_partition" "g_id g = uuid_of 7" "fair env"
  shows "group_run sample_lib sample_wal N env [Tick, Ready (sample_ready [] sample_entries)] g \<noteq> None"
    "group_run sample_lib sample_wal N env [Ready (sample_ready [] sample_entries)] g \<noteq> None"
proof -
  have "group_step sample_lib sample_wal N e (Ready (sample_ready [] sample_entries)) h \<noteq> None"
    if h: "g_process h = g_process g" "g_state h = g_state g" "g_id h = g_id g" and e: "fair e" for h e
  proof -
    let ?h = "h\<lparr>g_calls := g_calls h @ [WalSave \<lparr>hs_term = 1, hs_vote = 1, hs_commit = 1\<rparr> sample_entries no_snapshot]\<rparr>"
    have "partition_machine.drives sample_unmarshal native_impl ?h"
      using assms h sample_partition_ok(1) by (simp add: partition_machine.drives_def sample_replica_def)
    from partition_machine.apply_entries_total [OF this e, of sample_entries sample_lib]
    show ?thesis using sample_replica_run [of h N e sample_entries] assms h by (simp add: sample_log)
  qed
  from this [of g "sub env 0"] this [of "g\<lparr>g_calls := g_calls g @ [CallTick]\<rparr>" "sub (sub env 1) 0"] assms(4)
  show "group_run sample_lib sample_wal N env [Tick, Ready (sample_ready [] sample_entries)] g \<noteq> None"
    "group_run sample_lib sample_wal N env [Ready (sample_ready [] sample_entries)] g \<noteq> None"
    by (auto simp: group_step_def [of _ _ _ _ Tick])
qed

theorem replicas_converge_witness:
  "\<exists>h1 h2. group_run sample_lib sample_wal sample_net (plain_env 0) [Tick, Ready (sample_ready [] sample_entries)]
       sample_replica = Some h1 \<and>
     group_run sample_lib sample_wal sample_net (plain_env 3) [Ready (sample_ready [] sample_entries)]
       (sample_replica\<lparr>g_leader_id := 1\<rparr>) = Some h2 \<and>
     items_of (g_state h1) = items_of (g_state h2) \<and>
     items_of (g_state h1) = [uuid_of 1 \<mapsto> ([5], [[97] \<mapsto> [98]]), uuid_of 2 \<mapsto> ([7], Map.empty)]"
proof -
  let ?g2 = "sample_replica\<lparr>g_leader_id := 1\<rparr>" and ?e = "Ready (sample_ready [] sample_entries)"
  have f: "g_process sample_replica = Some (process sample_unmarshal native_impl)"
    "g_process ?g2 = Some (process sample_unmarshal native_impl)"
    "g_state sample_replica = sample_partition" "g_state ?g2 = sample_partition" "g_id sample_replica = uuid_of 7"
    by (simp_all add: sample_replica_def)
  obtain h1 where h1: "group_run sample_lib sample_wal sample_net (plain_env 0) [Tick, ?e] sample_replica = Some h1"
    using sample_replica_returns(1) [of sample_replica "plain_env 0" sample_net] f by auto
  obtain h2 where h2: "group_run sample_lib sample_wal sample_net (plain_env 3) [?e] ?g2 = Some h2"
    using sample_replica_returns(2) [of ?g2 "plain_env 3" sample_net] f by auto
  have ev: "\<forall>ev \<in> set [Tick, ?e]. plain_event sample_lib ev" "\<forall>ev \<in> set [?e]. plain_event sample_lib ev"
    "committed_by [Tick, ?e] = sample_entries" "committed_by [?e] = sample_entries"
    by (simp_all add: plain_event_def sample_ready_def sample_lib_def no_snapshot_def committed_by_def)
  have "items_of (g_state h1) = items_of (g_state h2) \<and>
      run_spec (log_spec sample_unmarshal) (log_of (committed_by [Tick, ?e])) (items_of (g_state sample_replica)) =
        Some (items_of (g_state h1))"
    by (rule replicas_converge [OF f(1,2) _ _ _ accepted_impl_native accepted_impl_native plain_env(1) plain_env(1)
          ev(1,2) _ _ h1 h2])
      (use f sample_partition_ok in \<open>simp_all add: ev sample_log\<close>)
  then show ?thesis using h1 h2 f sample_partition_ok(2) by (simp add: ev sample_log)
qed

lemma apply_entries_items:
  assumes "g_process g = Some (process unmarshal impl)" "partition_ok (g_state g)" "g_id g \<noteq> uuid_nil"
    and "accepted_impl impl" "fair env" "\<forall>d \<in> set (log_of es). legal_data unmarshal d"
  shows "map_option (\<lambda>g'. items_of (g_state g')) (apply_entries L env es g) =
      run_spec (log_spec unmarshal) (log_of es) (items_of (g_state g)) \<and>
    (\<forall>g'. apply_entries L env es g = Some g' \<longrightarrow> partition_ok (g_state g') \<and>
       (es \<noteq> [] \<longrightarrow> g_last_applied g' = e_index (last es)))"
proof -
  have d: "partition_machine.drives unmarshal impl g" using assms(1,2) by (simp add: partition_machine.drives_def)
  have l: "\<forall>d \<in> set (log_of es). legal_data unmarshal d \<and> accepted_impl impl" using assms(4,6) by auto
  show ?thesis
  proof (cases "apply_entries L env es g")
    case None
    then show ?thesis using partition_machine.apply_entries_total [OF d assms(5) l assms(3), of L]
      by (cases "run_spec (log_spec unmarshal) (log_of es) (items_of (g_state g))") auto
  next
    case (Some g')
    then show ?thesis using partition_machine.apply_entries_spec [OF d assms(5) l Some]
      by (simp add: partition_machine.drives_def)
  qed
qed

text \<open>
  The loop that applies committed entries to a partition stops the process exactly when the
  specification of the log does: no other entry panics or is answered with a fatal error. When it
  goes on, the items are those of the specification and the last applied index is the last entry's.
\<close>

theorem committed_entries_apply:
  assumes "g_process g = Some (process unmarshal impl)" "partition_ok (g_state g)" "g_id g \<noteq> uuid_nil"
    and "accepted_impl impl" "fair env" "\<forall>d \<in> set (log_of es). legal_data unmarshal d"
  shows "map_option (\<lambda>g'. items_of (g_state g')) (apply_entries L env es g) =
      run_spec (log_spec unmarshal) (log_of es) (items_of (g_state g)) \<and>
    (\<forall>g'. apply_entries L env es g = Some g' \<longrightarrow> partition_ok (g_state g') \<and>
       (es \<noteq> [] \<longrightarrow> g_last_applied g' = e_index (last es)))"
  by (rule apply_entries_items [OF assms])

theorem committed_entries_apply_witness:
  "\<exists>g'. apply_entries sample_lib (plain_env 0) sample_entries sample_replica = Some g' \<and>
     items_of (g_state g') = [uuid_of 1 \<mapsto> ([5], [[97] \<mapsto> [98]]), uuid_of 2 \<mapsto> ([7], Map.empty)] \<and> g_last_applied g' = 2"
  using committed_entries_apply [of sample_replica sample_unmarshal native_impl "plain_env 0" sample_entries sample_lib]
    sample_partition_ok
  by (auto simp: sample_replica_def sample_log)

lemma uuid_from_bytes_iff: "(\<exists>e. uuid_from_bytes bs = Inl e) = (length bs \<noteq> 16)" "(\<exists>i. uuid_from_bytes bs = Inr i) = (length bs = 16)"
  by (auto simp: uuid_from_bytes_def)

text \<open>
  C26: A batch whose first item has an id that is no UUID stops the process of every replica that
  applies it, and a replica that restarts meets the entry again: the proposer does not check the
  ids, the applier returns the error to the loop, and the loop treats it as fatal.
\<close>

theorem malformed_batch_id_stops_replica:
  assumes "g_process g = Some (process unmarshal impl)" "partition_ok (g_state g)" "g_id g \<noteq> uuid_nil"
    and "accepted_impl impl" "fair env" "\<forall>d \<in> set (log_of (e # es)). legal_data unmarshal d"
    and "e_type e = EntryNormal" "e_data e \<noteq> []" "unmarshal (e_data e) = Inr c" "length (pc_notification_id c) = 16"
    and "pc_type c \<in> {BatchInsertValue, BatchUpdateValue, BatchDeleteValue}"
    and "pc_batch_items c = item # items" "length (bi_id item) \<noteq> 16"
  shows "apply_entries L env (e # es) g = None"
proof -
  obtain nid where nid: "uuid_from_bytes (pc_notification_id c) = Inr nid" using assms(10) uuid_from_bytes_iff(2) by blast
  obtain err where err: "uuid_from_bytes (bi_id item) = Inl err" using assms(13) uuid_from_bytes_iff(1) by blast
  have "run_spec (log_spec unmarshal) (log_of (e # es)) (items_of (g_state g)) = None"
    using assms(7-9,11,12) nid err
    by (auto simp: log_spec_def change_spec_def reply_spec_def reply_items_def)
  then show ?thesis using apply_entries_items [OF assms(1-6), of L] by (auto simp del: apply_entries.simps)
qed

definition bad_batch :: partition_change where
  "bad_batch = (empty_change BatchDeleteValue)\<lparr>pc_notification_id := uuid_of 9,
     pc_batch_items := [\<lparr>bi_id = [1, 2], bi_value = [], bi_metadata = None, bi_level = 0\<rparr>]\<rparr>"

theorem malformed_batch_id_stops_replica_witness:
  "apply_entries sample_lib (plain_env 0) [\<lparr>e_term = 1, e_index = 1, e_type = EntryNormal, e_data = [1]\<rparr>]
     (sample_replica\<lparr>g_process := Some (process (\<lambda>_. Inr bad_batch) native_impl)\<rparr>) = None"
  by (rule malformed_batch_id_stops_replica [where unmarshal = "\<lambda>_. Inr bad_batch" and impl = native_impl and c = bad_batch])
    (use sample_partition_ok(1) in \<open>auto simp: sample_replica_def bad_batch_def legal_data_def legal_change_def
       change_item_def legal_item_def empty_change_def\<close>)

text \<open>
  An update that carries no metadata stops the process of every replica when the stored item
  has some: protobuf decodes an absent map as nil, and keeping an old key writes to that map.
\<close>

theorem update_without_metadata_panics:
  assumes "g_process g = Some (process unmarshal impl)" "partition_ok (g_state g)" "g_id g \<noteq> uuid_nil"
    and "accepted_impl impl" "fair env" "\<forall>d \<in> set (log_of (e # es)). legal_data unmarshal d"
    and "e_type e = EntryNormal" "e_data e \<noteq> []" "unmarshal (e_data e) = Inr c" "length (pc_notification_id c) = 16"
    and "pc_type c = UpdateValue" "pc_metadata c = None" "length (pc_id c) = 16"
    and "items_of (g_state g) (pc_id c) = Some (x, m)" "m \<noteq> Map.empty"
  shows "apply_entries L env (e # es) g = None"
proof -
  have "uuid_from_bytes (pc_notification_id c) = Inr (pc_notification_id c)" "uuid_from_bytes (pc_id c) = Inr (pc_id c)"
    using assms(10,13) by (simp_all add: uuid_from_bytes_def)
  then have "run_spec (log_spec unmarshal) (log_of (e # es)) (items_of (g_state g)) = None"
    using assms(7-9,11-15)
    by (simp add: log_spec_def change_spec_def reply_spec_def reply_item_def update_spec_def change_item_def)
  then show ?thesis using apply_entries_items [OF assms(1-6), of L] by (auto simp del: apply_entries.simps)
qed

definition bare_update :: partition_change where
  "bare_update = (empty_change UpdateValue)\<lparr>pc_notification_id := uuid_of 9, pc_id := uuid_of 1, pc_value := [8]\<rparr>"

theorem update_without_metadata_panics_witness:
  "apply_entries sample_lib (plain_env 0) [\<lparr>e_term = 1, e_index = 1, e_type = EntryNormal, e_data = [1]\<rparr>]
     (sample_replica\<lparr>g_process := Some (process (\<lambda>_. Inr bare_update) native_impl)\<rparr>) = None"
  by (rule update_without_metadata_panics [where unmarshal = "\<lambda>_. Inr bare_update" and impl = native_impl
        and c = bare_update and x = "[5]" and m = "[[97] \<mapsto> [98]]"])
    (use sample_partition_ok in \<open>auto simp: sample_replica_def bare_update_def legal_data_def legal_change_def
       change_item_def legal_item_def empty_change_def\<close>)

section \<open>From a request to its answer\<close>

text \<open>The entries that other goroutines apply while a request waits.\<close>

fun process_all ::
  "(bytes \<Rightarrow> error + partition_change) \<Rightarrow> space_impl \<Rightarrow> env \<Rightarrow> bytes list \<Rightarrow> partition \<Rightarrow> partition option" where
  "process_all unmarshal impl env [] p = Some p"
| "process_all unmarshal impl env (d # ds) p = do {
     p' \<leftarrow> fatal (process unmarshal impl (sub env 0) d) p;
     process_all unmarshal impl (sub env 1) ds p' }"

definition pending :: "uuid \<Rightarrow> chan_ref \<Rightarrow> 'v option \<Rightarrow> 'v notificator \<Rightarrow> bool" where
  "pending u c x n = (notificator_ok n \<and> map_of (chans n) u = Some c \<and>
     waiting (channels n ! c) = (x = None) \<and> received (channels n ! c) = x)"

lemma told_other:
  assumes "pending u c x n" "\<forall>nid v. r = Inr (Some (nid, v)) \<longrightarrow> nid \<noteq> u"
  shows "pending u c x (told r n)"
proof (cases "\<exists>nid v. r = Inr (Some (nid, v))")
  case False
  then show ?thesis using assms(1) by (auto simp: told_def split: sum.split option.split)
next
  case True
  then obtain nid v where r: "r = Inr (Some (nid, v))" by blast
  have ok: "notificator_ok n" and u: "map_of (chans n) u = Some c" using assms(1) by (simp_all add: pending_def)
  obtain res n' where n': "notify nid v False n = Some (res, n')" "notificator_ok n'" "chans n' = chans n"
    using notify_ok [OF ok, of nid v False] by blast
  have "channels n' ! c = channels n ! c"
  proof (cases "map_of (chans n) nid")
    case None
    then show ?thesis using n'(1) by (simp add: notify_def)
  next
    case (Some c')
    have "(nid, c') \<in> set (chans n)" "(u, c) \<in> set (chans n)" using Some u by (auto dest: map_of_SomeD)
    moreover have "nid \<noteq> u" using assms(2) r by simp
    ultimately have "c' \<noteq> c"
      using ok inj_onD [of snd "set (chans n)" "(nid, c')" "(u, c)"] by (auto simp: notificator_ok_def distinct_map)
    then show ?thesis using n'(1) Some by (auto simp: notify_def split: if_splits option.splits)
  qed
  then show ?thesis using assms(1) n' r by (simp add: pending_def told_def)
qed

lemma told_own: "pending u c None n \<Longrightarrow> pending u c (Some v) (told (Inr (Some (u, v))) n)"
proof -
  assume p: "pending u c None n"
  then have ok: "notificator_ok n" and u: "map_of (chans n) u = Some c" by (simp_all add: pending_def)
  obtain res n' where n': "notify u v False n = Some (res, n')" "notificator_ok n'" "chans n' = chans n"
    using notify_ok [OF ok, of u v False] by blast
  then show "pending u c (Some v) (told (Inr (Some (u, v))) n)"
    using p notificator_okD [OF ok u] u
    by (auto simp: pending_def told_def notify_def try_send_def)
qed

text \<open>The entries of others leave the request's channel alone.\<close>

definition foreign :: "(bytes \<Rightarrow> error + partition_change) \<Rightarrow> uuid \<Rightarrow> bytes \<Rightarrow> bool" where
  "foreign unmarshal u data = (\<forall>c. unmarshal data = Inr c \<longrightarrow> pc_notification_id c \<noteq> u)"

lemma process_view:
  assumes "accepted_impl impl" "partition_ok p" "fair env" "unmarshal data = Inr c" "legal_change c"
    "change_spec c (items_of p) = Some (r, f)"
  shows "\<exists>p'. process unmarshal impl env data p = Some (map_sum (\<lambda>e. e) (\<lambda>_. ()) r, p') \<and> partition_ok p' \<and>
    items_of p' = f \<and> p_notificator p' = told r (p_notificator p) \<and> p_raft p' = p_raft p"
  using apply_change_refines [OF assms(1-3,5)] assms(4,6)
  by (auto simp: process_def entry_spec_def pview_def items_of_def refines_Some)

lemma change_spec_reply: "change_spec c f = Some (Inr (Some (nid, v)), f') \<Longrightarrow> nid = pc_notification_id c"
  by (auto simp: change_spec_def uuid_from_bytes_def split: if_splits) (case_tac a; auto)

lemma log_spec_Inr: "log_spec unmarshal d f = Some (Inr x, f') \<longleftrightarrow>
    (\<exists>c r. unmarshal d = Inr c \<and> change_spec c f = Some (Inr r, f'))"
  by (auto simp: log_spec_def split: sum.splits) (case_tac a; auto)+

lemma process_all_foreign:
  assumes "accepted_impl impl" "partition_ok p" "fair env" "\<forall>d \<in> set ds. legal_data unmarshal d \<and> foreign unmarshal u d"
    "run_spec (log_spec unmarshal) ds (items_of p) = Some f" "pending u c x (p_notificator p)"
  shows "\<exists>p'. process_all unmarshal impl env ds p = Some p' \<and> partition_ok p' \<and> items_of p' = f \<and>
    pending u c x (p_notificator p')"
  using assms
proof (induction ds arbitrary: env p)
  case (Cons d ds)
  obtain f' where f': "log_spec unmarshal d (items_of p) = Some (Inr (), f')" "run_spec (log_spec unmarshal) ds f' = Some f"
    using Cons.prems(5) by (auto split: option.splits sum.splits)
  then obtain ch r where d: "unmarshal d = Inr ch" "change_spec ch (items_of p) = Some (Inr r, f')"
    "run_spec (log_spec unmarshal) ds f' = Some f"
    using log_spec_Inr [of unmarshal d "items_of p"] by blast
  have "legal_change ch" "pc_notification_id ch \<noteq> u" using Cons.prems(4) d(1) by (auto simp: legal_data_def foreign_def)
  moreover have "\<forall>nid v. Inr r = (Inr (Some (nid, v)) :: error + (uuid \<times> partition_reply) option) \<longrightarrow> nid \<noteq> u"
    using change_spec_reply d(2) \<open>pc_notification_id ch \<noteq> u\<close> by blast
  ultimately obtain p' where p': "process unmarshal impl (sub env 0) d p = Some (Inr (), p')" "partition_ok p'"
    "items_of p' = f'" "pending u c x (p_notificator p')"
    using process_view [where unmarshal = unmarshal and impl = impl, OF Cons.prems(1,2) fair_sub [OF Cons.prems(3), of 0] d(1) _ d(2)]
      told_other [OF Cons.prems(6), of "Inr r"] by auto
  have "\<exists>p''. process_all unmarshal impl (sub env 1) ds p' = Some p'' \<and> partition_ok p'' \<and> items_of p'' = f \<and>
    pending u c x (p_notificator p'')"
    by (rule Cons.IH) (use Cons.prems p' d(3) in auto)
  then show ?case using p'(1) by (simp add: fatal_def)
qed simp

lemma process_all_append: "fair env \<Longrightarrow> \<exists>env'. fair env' \<and>
    (\<forall>ys q. process_all unmarshal impl env (xs @ ys) q =
      do { q' \<leftarrow> process_all unmarshal impl env xs q; process_all unmarshal impl env' ys q' })"
proof (induction xs arbitrary: env)
  case (Cons x xs)
  obtain env' where "fair env'" "\<And>ys q. process_all unmarshal impl (sub env 1) (xs @ ys) q =
      do { q' \<leftarrow> process_all unmarshal impl (sub env 1) xs q; process_all unmarshal impl env' ys q' }"
    using Cons.IH [OF fair_sub [OF Cons.prems]] by blast
  then have "process_all unmarshal impl env ((x # xs) @ ys) q =
      do { q' \<leftarrow> process_all unmarshal impl env (x # xs) q; process_all unmarshal impl env' ys q' }" for ys q
    by (cases "fatal (process unmarshal impl (sub env 0) x) q") simp_all
  then show ?case using \<open>fair env'\<close> by blast
qed auto

lemma propose_and_wait_answer:
  assumes p: "partition_ok p" and impl: "accepted_impl impl" and env: "fair env" and u: "length (new_id R) = 16"
    and data: "marshal R (change\<lparr>pc_notification_id := new_id R\<rparr>) = Inr data"
      "unmarshal data = Inr (change\<lparr>pc_notification_id := new_id R\<rparr>)" "legal_change change"
    and raft: "raft_propose R data = None"
      "meanwhile R data = process_all unmarshal impl env (before @ data # after)"
    and others: "\<forall>d \<in> set (before @ after). legal_data unmarshal d \<and> foreign unmarshal (new_id R) d"
    and spec: "run_spec (log_spec unmarshal) before (items_of p) = Some f1"
      "reply_spec (change\<lparr>pc_notification_id := new_id R\<rparr>) f1 = Some (Inr (Some v), f2)"
      "run_spec (log_spec unmarshal) after f2 = Some f3"
  shows "\<exists>p'. propose_and_wait R change p = Some (Inr v, p') \<and> partition_ok p' \<and> items_of p' = f3"
proof -
  let ?u = "new_id R" and ?change = "change\<lparr>pc_notification_id := new_id R\<rparr>"
  have ok: "notificator_ok (p_notificator p)" using p by (simp add: partition_ok_def)
  obtain n where n: "create ?u 0 (p_notificator p) = Some (Inr (length (channels (p_notificator p)), ?u), n)"
    using create_ok [OF ok, of 0 ?u] by auto
  define c where "c = length (channels (p_notificator p))"
  note m = map_of_created [OF ok order_refl n]
  let ?p = "p\<lparr>p_notificator := await c n\<rparr>"
  have pend: "pending ?u c None (await c n)"
  proof -
    have "waiting (channels (await c n) ! c)" "received (channels (await c n) ! c) = None" "chans (await c n) = chans n"
      using m(2-4) by (simp_all add: await_def make_channel_def c_def Let_def)
    then show ?thesis using await_ok [OF m(5)] m(1) by (simp add: pending_def c_def)
  qed
  have p1: "partition_ok ?p" "items_of ?p = items_of p"
    using p await_ok [OF m(5)] by (auto simp: partition_ok_def items_of_def)
  obtain e2 where e2: "fair e2" "\<And>ys q. process_all unmarshal impl env (before @ ys) q = do {
      q' \<leftarrow> process_all unmarshal impl env before q; process_all unmarshal impl e2 ys q' }"
    using process_all_append [OF env, of unmarshal impl before] by blast
  obtain q1 where q1: "process_all unmarshal impl env before ?p = Some q1" "partition_ok q1" "items_of q1 = f1"
    "pending ?u c None (p_notificator q1)"
    using process_all_foreign [OF impl p1(1) env _ _ , where unmarshal = unmarshal and u = ?u and c = c and x = None
      and ds = before and f = f1] others spec(1) p1(2) pend by auto
  have ch: "change_spec ?change (items_of q1) = Some (Inr (Some (?u, v)), f2)"
    using spec(2) q1(3) u by (simp add: change_spec_def uuid_from_bytes_def)
  have legal: "legal_change ?change" using data(3) by (simp add: legal_change_def change_item_def)
  obtain q2 where q2: "process unmarshal impl (sub e2 0) data q1 = Some (Inr (), q2)" "partition_ok q2" "items_of q2 = f2"
    "p_notificator q2 = told (Inr (Some (?u, v))) (p_notificator q1)"
    using process_view [where impl = impl and env = "sub e2 0" and unmarshal = unmarshal and data = data, OF impl q1(2) fair_sub [OF e2(1)] data(2) legal ch]
    by auto
  have "pending ?u c (Some v) (p_notificator q2)" using told_own [OF q1(4)] q2(4) by simp
  then obtain q3 where q3: "process_all unmarshal impl (sub e2 1) after q2 = Some q3" "partition_ok q3" "items_of q3 = f3"
    "pending ?u c (Some v) (p_notificator q3)"
    using process_all_foreign [OF impl q2(2) _ _ _ , where unmarshal = unmarshal and u = ?u and c = c and x = "Some v"
      and ds = after and f = f3 and env = "sub e2 1"] others spec(3) q2(3) e2(1) by auto
  have run: "meanwhile R data ?p = Some q3"
    using q1(1) q2(1) q3(1) by (simp add: raft(2) e2(2) fatal_def)
  have "answer c (p_notificator q3) = Some v"
    using q3(4) notificator_okD [of "p_notificator q3" ?u c] by (simp add: answer_def pending_def)
  moreover obtain r n' where "notificator_remove ?u (p_notificator q3) = Some (r, n')" "notificator_ok n'"
    using remove_notificator_ok [of "p_notificator q3" ?u] q3(2) by (auto simp: partition_ok_def)
  ultimately have "propose_and_wait R change p = Some (Inr v, q3\<lparr>p_notificator := n'\<rparr>)"
    using n data(1) raft(1) run by (simp add: propose_and_wait_def finish_proposal_def c_def)
  then show ?thesis using q3(2,3) \<open>notificator_ok n'\<close> by (simp add: partition_ok_def items_of_def)
qed

datatype item_request = InsertRequest uuid vec metadata | UpdateRequest uuid vec metadata | RemoveRequest uuid

fun serve_request :: "raft_env \<Rightarrow> (f32 \<Rightarrow> f32) \<Rightarrow> f32 \<Rightarrow> item_request \<Rightarrow> (partition, unit) prog" where
  "serve_request R lg r (InsertRequest i x m) = partition_insert R lg r i x m"
| "serve_request R lg r (UpdateRequest i x m) = partition_update R i x m"
| "serve_request R lg r (RemoveRequest i) = partition_remove R i"

fun request_change :: "(f32 \<Rightarrow> f32) \<Rightarrow> f32 \<Rightarrow> partition \<Rightarrow> item_request \<Rightarrow> partition_change" where
  "request_change lg r p (InsertRequest i x m) = (empty_change InsertValue)\<lparr>pc_id := i, pc_value := x,
     pc_metadata := m, pc_level := random_level32 lg r p\<rparr>"
| "request_change lg r p (UpdateRequest i x m) = (empty_change UpdateValue)\<lparr>pc_id := i, pc_value := x, pc_metadata := m\<rparr>"
| "request_change lg r p (RemoveRequest i) = (empty_change DeleteValue)\<lparr>pc_id := i\<rparr>"

definition plain_item :: "uuid \<Rightarrow> vec \<Rightarrow> metadata \<Rightarrow> batch_item" where
  "plain_item i x m = \<lparr>bi_id = i, bi_value = x, bi_metadata = m, bi_level = 0\<rparr>"

fun request_spec :: "item_request \<Rightarrow> item_contents \<Rightarrow> ((error + unit) \<times> item_contents) option" where
  "request_spec (InsertRequest i x m) = insert_spec (plain_item i x m) i"
| "request_spec (UpdateRequest i x m) = update_spec (plain_item i x m) i"
| "request_spec (RemoveRequest i) = delete_spec (plain_item i [] None) i"

fun request_id :: "item_request \<Rightarrow> uuid" where
  "request_id (InsertRequest i x m) = i"
| "request_id (UpdateRequest i x m) = i"
| "request_id (RemoveRequest i) = i"

lemma request_reply:
  assumes "length (request_id req) = 16" "request_spec req f = Some (res, f')"
  shows "reply_spec ((request_change lg r p req)\<lparr>pc_notification_id := u\<rparr>) f = Some (Inr (Some (ErrorReply (error_of res))), f')"
  using assms
  by (cases req) (auto simp: reply_spec_def reply_item_def uuid_from_bytes_def empty_change_def change_item_def
      plain_item_def insert_spec_def update_spec_def delete_spec_def split: option.splits if_splits)

lemma serve_request_answer:
  assumes "p_raft p" "propose_and_wait R (request_change lg r p req) p = Some (Inr (ErrorReply (error_of res)), p')"
  shows "serve_request R lg r req p = Some (res, p')"
proof -
  have "single_reply (propose_and_wait R (request_change lg r p req)) p = Some (res, p')"
    using assms(2) by (cases res) (auto simp: single_reply_def error_of_def)
  then show ?thesis
    using assms(1) by (cases req) (simp_all add: if_raft_loaded_def partition_insert_def partition_update_def partition_remove_def)
qed


definition sample_raft :: raft_env where
  "sample_raft = \<lparr>new_id = uuid_of 8, marshal = (\<lambda>c. Inr [2]), raft_propose = (\<lambda>_. None),
     meanwhile = (\<lambda>data. process_all
       (\<lambda>d. if d = [2] then Inr ((request_change (\<lambda>x. x) 0 sample_partition (RemoveRequest (uuid_of 2)))\<lparr>pc_notification_id := uuid_of 8\<rparr>)
            else sample_unmarshal d) native_impl (plain_env 0) ([[1]] @ [2] # [[1]]))\<rparr>"


end
