(* ===== verification/HnswReload.thy ===== *)
theory HnswReload
  imports HnswRoundTrip
begin

text \<open>
  An index that was loaded into a new one is as good as one that was built by insertions: it is well
  formed, and its items are those of the index that was saved. What makes the difference to the round
  trip is that the store holds nothing but the copies, so that every vertex of it is known.
\<close>

section \<open>The vertices of a loaded index\<close>

lemma entry_find:
  assumes "map_ok h" "e \<in> set (entries h)"
  obtains v where "find_vertex h (fst e) = Some (snd e)" "deref (h_store h) (snd e) = Some v" "vid v = fst e"
    "\<not> is_deleted v"
proof -
  obtain s where "s < 16" "e \<in> set (h_vertices h ! s)" using in_entries [OF assms] by blast
  then obtain v where v: "deref (h_store h) (snd e) = Some v" "vid v = fst e" "\<not> is_deleted v"
    using map_ok_entry [OF assms(1), of s e] by (auto simp: entry_ok_def)
  then have "find_vertex h (fst e) = Some (snd e)" using map_ok_live [OF assms(1) v(1,3)] by simp
  then show thesis using that v by blast
qed

text \<open>The copies fill the store, as there are as many of them as vertices.\<close>

lemma copies_fill_store:
  assumes map: "map_ok h" and hD: "length (h_vertices hD) = 16"
    and copied: "\<forall>j < 16. copied_shard (h_store h) (h_vertices h ! j) hD j"
    and n: "length (h_store hD) = length (entries h)"
  shows "(\<lambda>e. ptr_of hD (fst e)) ` set (entries h) = {1..length (h_store hD)}"
proof (rule card_subset_eq)
  have copy: "\<exists>w. deref (h_store hD) (ptr_of hD (fst e)) = Some w \<and> vid w = fst e" if e: "e \<in> set (entries h)" for e
  proof -
    obtain v where v: "find_vertex h (fst e) = Some (snd e)" using entry_find [OF map e] by blast
    obtain v' w where "vid v' = fst e" "deref (h_store hD) (ptr_of hD (fst e)) = Some w" "copy_of v' w"
      by (rule ptr_of_copied [OF map hD v copied])
    then show ?thesis by (simp add: copy_of_def)
  qed
  show "(\<lambda>e. ptr_of hD (fst e)) ` set (entries h) \<subseteq> {1..length (h_store hD)}"
    using copy deref_SomeD by fastforce
  have dist: "distinct (map fst (entries h))" by (rule entries_distinct [OF map])
  have "inj_on (\<lambda>e. ptr_of hD (fst e)) (set (entries h))"
  proof (rule inj_onI)
    fix e e' assume e: "e \<in> set (entries h)" "e' \<in> set (entries h)" "ptr_of hD (fst e) = ptr_of hD (fst e')"
    then have "fst e = fst e'" using copy [OF e(1)] copy [OF e(2)] by auto
    then show "e = e'" using dist e(1,2) by (metis distinct_map inj_onD)
  qed
  then have "card ((\<lambda>e. ptr_of hD (fst e)) ` set (entries h)) = card (set (entries h))" by (rule card_image)
  also have "\<dots> = length (entries h)" using dist distinct_card distinct_map by blast
  finally show "card ((\<lambda>e. ptr_of hD (fst e)) ` set (entries h)) = card {1..length (h_store hD)}" using n by simp
qed simp

text \<open>The situation after \<open>Load\<close> read all of what \<open>Save\<close> wrote of \<open>h\<close> into a new index.\<close>

definition loaded :: "hnsw \<Rightarrow> hnsw \<Rightarrow> store \<Rightarrow> bool" where
  "loaded h hD st' = (saveable_index h \<and> length (h_vertices hD) = 16 \<and>
     (\<forall>j < 16. copied_shard (h_store h) (h_vertices h ! j) hD j) \<and>
     length (h_store hD) = length (entries h) \<and> core st' = core (h_store hD) \<and>
     (\<forall>e \<in> set (entries h). finished hD (h_store h) st' e) \<and>
     (\<forall>p l. has_level st' p l = has_level (h_store hD) p l))"

lemma loadedD:
  assumes "loaded h hD st'"
  shows "map_ok h" "graph_ok (h_store h)" "length (h_vertices hD) = 16"
    "\<forall>j < 16. copied_shard (h_store h) (h_vertices h ! j) hD j" "core st' = core (h_store hD)"
    "e \<in> set (entries h) \<Longrightarrow> finished hD (h_store h) st' e" "has_level st' p l = has_level (h_store hD) p l"
    "length (h_store hD) = length (entries h)" "saveable_index h"
  using assms by (simp_all add: loaded_def saveable_index_def hnsw_ok_def)

lemma loaded_vertex:
  assumes l: "loaded h hD st'" and p: "deref st' p = Some w'"
  obtains i q v w where "(i, q) \<in> set (entries h)" "find_vertex h i = Some q" "deref (h_store h) q = Some v" "vid v = i"
    "\<not> is_deleted v" "find_vertex hD i = Some p" "p = ptr_of hD i" "deref (h_store hD) p = Some w" "copy_of v w"
    "vid w' = i" "vvector w' = vvector v" "vmetadata w' = vmetadata w" "vlevel w' = vlevel v" "\<not> is_deleted w'"
proof -
  note d = loadedD [OF l]
  obtain w0 where w0: "deref (h_store hD) p = Some w0" using core_eqD [OF d(5) p] by blast
  then have "p \<in> (\<lambda>e. ptr_of hD (fst e)) ` set (entries h)"
    using deref_SomeD copies_fill_store [OF d(1,3,4,8)] by blast
  then obtain e where e: "e \<in> set (entries h)" "p = ptr_of hD (fst e)" by blast
  obtain v where v: "find_vertex h (fst e) = Some (snd e)" "deref (h_store h) (snd e) = Some v" "vid v = fst e"
    "\<not> is_deleted v" using entry_find [OF d(1) e(1)] .
  obtain v' w where w: "deref (h_store h) (snd e) = Some v'" "find_vertex hD (fst e) = Some (ptr_of hD (fst e))"
    "deref (h_store hD) (ptr_of hD (fst e)) = Some w" "copy_of v' w"
    by (rule ptr_of_copied [OF d(1,3) v(1) d(4)])
  have "v' = v" using w(1) v(2) by simp
  moreover obtain x where "deref st' p = Some x" "vid x = vid w" "vvector x = vvector w" "vmetadata x = vmetadata w"
    "vlevel x = vlevel w" "vdeleted x = vdeleted w"
    using core_eqD [OF d(5) [symmetric], of p w] w(3) e(2) by auto
  ultimately show thesis
    using that [of "fst e" "snd e" v w] e v w p by (simp add: copy_of_def is_deleted_def)
qed

section \<open>The invariant of a loaded index\<close>

lemma loaded_edges_ok:
  assumes l: "loaded h hD st'" and es': "edges_of st' p lv = Some es'"
  shows "edges_ok st' lv es'"
proof -
  note d = loadedD [OF l]
  obtain w' where w': "deref st' p = Some w'" using es' by (rule edges_of_SomeE)
  obtain i q v w where v: "(i, q) \<in> set (entries h)" "deref (h_store h) q = Some v" "p = ptr_of hD i"
    "deref (h_store hD) p = Some w" "copy_of v w" by (rule loaded_vertex [OF l w'])
  have "has_level (h_store hD) p lv" using es' d(7) [of p lv] by (simp add: has_level_def)
  then have lv: "0 \<le> lv" "lv \<le> vlevel v"
    using v(4,5) by (auto simp: has_level_def edges_of_def edges_at_def copy_of_def split: if_splits)
  then obtain es xs where xs: "edges_at v lv = Some es" "set xs = id_edge_set (h_store h) es"
    "distinct (map fst (by_ptr hD xs))" "es' = by_ptr hD xs"
    using d(6) [OF v(1)] v(2,3) es' by (auto simp: finished_def edges_match_def)
  have src: "edges_ok (h_store h) lv es"
    using graph_ok_edges [OF d(2), of q lv es] v(2) xs(1) by (simp add: edges_of_def)
  have "\<not> f32_negative x \<and> has_level st' (ptr_of hD u) lv" if u: "(u, x) \<in> set xs" for u x
  proof -
    obtain q0 v0 where q0: "(q0, x) \<in> set es" "deref (h_store h) q0 = Some v0" "\<not> is_deleted v0" "vid v0 = u"
      using u unfolding xs(2) id_edge_set_def by auto
    have ok: "\<not> f32_negative x" "has_level (h_store h) q0 lv" using src q0(1) by (auto simp: edges_ok_def)
    then have "lv \<le> vlevel v0" using q0(2) d(2) by (auto simp: has_level_iff)
    moreover have "find_vertex h u = Some q0" using map_ok_live [OF d(1) q0(2,3)] q0(4) by simp
    then obtain v1 w1 where "deref (h_store h) q0 = Some v1" "deref (h_store hD) (ptr_of hD u) = Some w1" "copy_of v1 w1"
      by (rule ptr_of_copied [OF d(1,3) _ d(4)])
    ultimately have "has_level (h_store hD) (ptr_of hD u) lv"
      using q0(2) lv(1) by (simp add: has_level_def edges_of_def edges_at_def copy_of_def)
    then show ?thesis using ok(1) d(7) by simp
  qed
  then show ?thesis using xs(3,4) by (auto simp: edges_ok_def by_ptr_def)
qed

lemma same_bounds: "(\<And>l. (0 \<le> l \<and> l < int a) = (0 \<le> l \<and> l < int b)) \<Longrightarrow> a = b"
  by (metis less_irrefl linorder_neqE_nat of_nat_0_le_iff of_nat_less_iff)

lemma loaded_graph_ok:
  assumes l: "loaded h hD st'"
  shows "graph_ok st'"
  unfolding graph_ok_def
proof (intro conjI allI impI)
  note d = loadedD [OF l]
  fix p w' assume w': "deref st' p = Some w'"
  obtain i q v w where v: "deref (h_store h) q = Some v" "\<not> is_deleted v" "deref (h_store hD) p = Some w"
    "copy_of v w" "vlevel w' = vlevel v" by (rule loaded_vertex [OF l w'])
  have low: "-1 \<le> vlevel v" using d(9) v(1,2) by (auto simp: saveable_index_def saveable_def)
  have at: "has_level st p lv = (0 \<le> lv \<and> lv < int (length (vedges x)))" if "deref st p = Some x" for st x lv
    using that by (auto simp: has_level_def edges_of_def edges_at_def)
  have "length (vedges w') = length (vedges w)"
    by (rule same_bounds) (use at [OF w'] at [OF v(3)] d(7) [of p] in metis)
  then show "int (length (vedges w')) = vlevel w' + 1" using v(4,5) low by (simp add: copy_of_def)
next
  show "edges_ok st' lv es" if "edges_of st' p lv = Some es" for p lv es
    by (rule loaded_edges_ok [OF l that])
qed

lemma loaded_shard_entry:
  assumes l: "loaded h hD st'" and s: "s < 16" and e: "e \<in> set (h_vertices hD ! s)"
  shows "entry_ok st' s e \<and> snd e = ptr_of hD (fst e)"
proof -
  note d = loadedD [OF l]
  have c: "copied_shard (h_store h) (h_vertices h ! s) hD s" using d(4) s by simp
  have "fst e \<in> fst ` set (h_vertices h ! s)" using copied_keys [OF d(1) s c] e by simp
  then obtain q where q: "(fst e, q) \<in> set (h_vertices h ! s)" by auto
  then have i: "shard_idx (fst e) = s" using map_ok_entry [OF d(1) s] by (force simp: entry_ok_def)
  have dist: "distinct (map fst (h_vertices hD ! s))" using c by (simp add: copied_shard_def)
  obtain v p' where p': "(fst e, p') \<in> set (h_vertices hD ! s)" "copied_entry hD v (fst e, p')"
    using c q unfolding copied_shard_def by fast
  then have "snd e = p'" using dist e by (metis eq_key_imp_eq_value prod.collapse)
  moreover obtain w where w: "deref (h_store hD) p' = Some w" "copy_of v w" "fst e = vid v"
    using p'(2) by (auto simp: copied_entry_def)
  moreover obtain w' where "deref st' p' = Some w'" "vid w' = vid w" "vdeleted w' = vdeleted w"
    using core_eqD [OF d(5) [symmetric] w(1)] by blast
  moreover have "find_vertex hD (fst e) = Some p'"
    using i p'(1) dist by (simp add: find_vertex_def map_of_eq_Some_iff)
  ultimately show ?thesis using i by (simp add: entry_ok_def copy_of_def is_deleted_def ptr_of_def)
qed

lemma loaded_map_ok:
  assumes l: "loaded h hD st'"
  shows "map_ok (hD\<lparr>h_entrypoint := ep, h_store := st'\<rparr>)"
  unfolding map_ok_def
proof (intro conjI allI impI ballI)
  note d = loadedD [OF l]
  let ?h = "hD\<lparr>h_entrypoint := ep, h_store := st'\<rparr>"
  show "length (h_vertices ?h) = 16" using d(3) by simp
  show "distinct (map fst (h_vertices ?h ! s))" if "s < 16" for s using d(4) that by (simp add: copied_shard_def)
  show "entry_ok (h_store ?h) s e" if "s < 16" "e \<in> set (h_vertices ?h ! s)" for s e
    using loaded_shard_entry [OF l that(1)] that(2) by simp
  show "find_vertex ?h (vid v) = Some p" if "deref (h_store ?h) p = Some v" for p v
    by (rule loaded_vertex [OF l, of p v]) (use that in \<open>simp_all add: find_vertex_def\<close>)
qed

lemma loaded_entries:
  assumes l: "loaded h hD st'"
  shows "mset (map fst (entries hD)) = mset (map fst (entries h))" "length (entries hD) = length (entries h)"
proof -
  note d = loadedD [OF l]
  have len: "length (h_vertices h) = 16" using d(1) by (simp add: map_ok_def)
  have "map length (h_vertices hD) = map length (h_vertices h)"
    by (rule nth_equalityI) (use d(3,4) len in \<open>simp_all add: copied_shard_def\<close>)
  then show "length (entries hD) = length (entries h)" unfolding entries_def length_concat by simp
  have dist: "distinct (map fst (entries hD))"
    using entries_distinct [OF loaded_map_ok [OF l]] by (simp add: entries_def)
  have "map (\<lambda>x. fst ` set x) (h_vertices hD) = map (\<lambda>x. fst ` set x) (h_vertices h)"
  proof (rule nth_equalityI)
    fix s assume "s < length (map (\<lambda>x. fst ` set x) (h_vertices hD))"
    then have "s < 16" using d(3) by simp
    then show "map (\<lambda>x. fst ` set x) (h_vertices hD) ! s = map (\<lambda>x. fst ` set x) (h_vertices h) ! s"
      using copied_keys [OF d(1), of s hD] d(3,4) len by simp
  qed (simp add: d(3) len)
  then have "\<Union> (set (map (\<lambda>x. fst ` set x) (h_vertices hD))) = \<Union> (set (map (\<lambda>x. fst ` set x) (h_vertices h)))"
    by (rule arg_cong)
  moreover have "fst ` set (concat xs) = \<Union> (set (map (\<lambda>x. fst ` set x) xs))" for xs :: "shard list" by auto
  ultimately have "fst ` set (entries hD) = fst ` set (entries h)" by (simp only: entries_def)
  then show "mset (map fst (entries hD)) = mset (map fst (entries h))"
    using dist set_eq_iff_mset_eq_distinct [OF _ entries_distinct [OF d(1)], of "map fst (entries hD)"] by simp
qed

lemma loaded_size:
  assumes l: "loaded h hD st'"
  shows "sum_list (map (\<lambda>e. vertex_size_at st' (snd e)) (entries hD)) =
    sum_list (map (\<lambda>e. vertex_size_at (h_store h) (snd e)) (entries h))"
proof -
  note d = loadedD [OF l]
  define F where "F i = vertex_size_at (h_store hD) (ptr_of hD i)" for i
  have hD: "vertex_size_at st' (snd e) = F (fst e)" if e: "e \<in> set (entries hD)" for e
  proof -
    obtain s where s: "s < 16" "e \<in> set (h_vertices hD ! s)"
      using e d(3) unfolding entries_def by (metis UN_E in_set_conv_nth set_concat)
    show ?thesis using loaded_shard_entry [OF l s] core_store_fields(2) [OF d(5)] by (simp add: F_def)
  qed
  have src: "vertex_size_at (h_store h) (snd e) = F (fst e)" if e: "e \<in> set (entries h)" for e
  proof -
    obtain v where v: "find_vertex h (fst e) = Some (snd e)" using entry_find [OF d(1) e] by blast
    obtain v' w where "deref (h_store h) (snd e) = Some v'" "deref (h_store hD) (ptr_of hD (fst e)) = Some w" "copy_of v' w"
      by (rule ptr_of_copied [OF d(1,3) v d(4)])
    then show ?thesis by (simp add: F_def vertex_size_at_def copy_of_def)
  qed
  have "sum_list (map F (map fst (entries hD))) = sum_list (map F (map fst (entries h)))"
    by (rule sum_list_mset_cong) (rule loaded_entries [OF l])
  moreover have "map F (map fst (entries hD)) = map (\<lambda>e. vertex_size_at st' (snd e)) (entries hD)" using hD by simp
  moreover have "map F (map fst (entries h)) = map (\<lambda>e. vertex_size_at (h_store h) (snd e)) (entries h)" using src by simp
  ultimately show ?thesis by metis
qed

text \<open>
  \<open>Load\<close> into a new index of the same dimension: the result is well formed and equal to the saved
  index, and each of its metadata maps has every key once.
\<close>

definition blank :: "hnsw \<Rightarrow> bool" where
  "blank h = (h_store h = [] \<and> h_vertices h = replicate 16 [] \<and> h_bytes_size h = 0 \<and> config_ok (h_config h))"

lemma load_into_blank:
  assumes h: "saveable_index h" and env: "fair env" and h0: "blank h0" "h_size h0 = h_size h"
  shows "\<exists>bs h'. hnsw_save env False h = Some (None, bs) \<and>
    hnsw_load False (h0, bs @ rest) = Some (Inr (), (h', rest)) \<and> hnsw_ok h' \<and> same_index h h' \<and>
    h_size h' = h_size h \<and>
    (\<forall>i x m. lookup h' i = Some (x, m) \<longrightarrow> distinct (map fst (metadata_entries m)))"
proof -
  obtain bs h' where bs: "hnsw_save env False h = Some (None, bs)"
    "hnsw_load False (h0, bs @ rest) = Some (Inr (), (h', rest))" "same_index h h'"
    "h_bytes_size h' = h_bytes_size h0 + h_bytes_size h"
    using load_save [OF h env, of h0 False rest] h0 by (auto simp: blank_def)
  obtain e where e: "deref (h_store h) (h_entrypoint h) = Some e" "\<not> is_deleted e" "h_entrypoint h \<noteq> nil"
    using h by (auto simp: saveable_index_def entrypoint_live_def live_def)
  have sz: "h_size h0 = h_size h" "length (h_vertices h0) = 16" using h0 by (simp_all add: blank_def)
  obtain vs es hD st' where run: "save_shards (sub env 0) (h_store h) (h_vertices h) = Some vs"
    "save_shards_edges (sub env 1) (h_store h) (h_vertices h) = Some es"
    "load_body (h0, vid e @ vs @ es @ rest) =
       Some (Inr (), (hD\<lparr>h_entrypoint := ptr_of hD (vid e), h_store := st'\<rparr>, rest))"
    and hD: "length (h_vertices hD) = 16" "\<forall>j < 16. copied_shard (h_store h) (h_vertices h ! j) hD j"
    "h_len hD = h_len h" "h_bytes_size hD = h_bytes_size h0 + h_bytes_size h"
    "length (h_store hD) = length (h_store h0) + length (entries h)" "grown (h0\<lparr>h_len := 0\<rparr>) hD"
    "core st' = core (h_store hD)" "\<forall>e \<in> set (entries h). finished hD (h_store h) st' e"
    "\<forall>p l. has_level st' p l = has_level (h_store hD) p l"
    by (rule load_body_runs [OF h env sz e(1,2), of rest])
  have l: "loaded h hD st'" using h hD h0(1) by (simp add: loaded_def blank_def)
  note d = loadedD [OF l]
  have "bs = vid e @ vs @ es"
    using bs(1) e run(1,2) saveable_len [OF h] by (simp add: hnsw_save_def)
  then have h': "h' = hD\<lparr>h_entrypoint := ptr_of hD (vid e), h_store := st'\<rparr>"
    using bs(2) run(3) by (simp add: hnsw_load_def)
  have cfg: "config_ok (h_config hD)" "h_size hD = h_size h" using hD(6) h0 by (simp_all add: grown_def blank_def)
  have "counters_ok h" using h by (simp add: saveable_index_def hnsw_ok_def)
  then have "counters_ok h'"
    using hD(3,4) h0(1) loaded_size [OF l] loaded_entries(2) [OF l]
    by (simp add: counters_ok_def h' entries_def blank_def)
  moreover have "entrypoint_ok h'"
  proof -
    have "has_level (h_store h) (h_entrypoint h) 0"
      using h e(3) by (simp add: saveable_index_def hnsw_ok_def entrypoint_ok_def)
    then have "0 \<le> vlevel e" using e(1) d(2) by (auto simp: has_level_iff)
    moreover have "find_vertex h (vid e) = Some (h_entrypoint h)" using map_ok_live [OF d(1) e(1,2)] .
    then obtain v w where "deref (h_store h) (h_entrypoint h) = Some v" "deref (h_store hD) (ptr_of hD (vid e)) = Some w"
      "copy_of v w" by (rule ptr_of_copied [OF d(1,3) _ d(4)])
    ultimately have "has_level (h_store hD) (ptr_of hD (vid e)) 0"
      using e(1) by (simp add: has_level_def edges_of_def edges_at_def copy_of_def)
    then show ?thesis using d(7) by (simp add: entrypoint_ok_def h')
  qed
  ultimately have "hnsw_ok h'"
    using loaded_graph_ok [OF l] loaded_map_ok [OF l] cfg(1) by (simp add: hnsw_ok_def h')
  moreover have "distinct (map fst (metadata_entries m))" if lk: "lookup h' i = Some (x, m)" for i x m
  proof -
    obtain p w' where w': "deref st' p = Some w'" "vmetadata w' = m"
      using lk by (auto simp: lookup_def h' bind_eq_Some_conv)
    obtain v w where "copy_of v w" "vmetadata w' = vmetadata w" by (rule loaded_vertex [OF l w'(1)])
    then show ?thesis using w'(2) by (simp add: copy_of_def)
  qed
  ultimately show ?thesis using bs(1-3) cfg(2) h' by auto
qed

end
