(* ===== verification/PartitionRecovery.thy ===== *)
theory PartitionRecovery
  imports Recovery PartitionProperties HnswReload HnswProperties
begin

text \<open>
  A replica of a partition that stops and starts again: the interpretation \<open>partition_recovery\<close> of
  \<open>recoverable\<close> on \<open>snapshot\<close> and \<open>processSnapshot\<close>, which rests on what \<open>Load\<close> makes of an index in a
  new one. Before it, the vectors of a replica keep the dimension of their dataset.
\<close>

section \<open>The dimension of an index\<close>

definition keeps_size :: "('a \<Rightarrow> hnsw) \<Rightarrow> ('a, 'b) prog \<Rightarrow> bool" where
  "keeps_size index m = (\<forall>s r s'. m s = Some (r, s') \<longrightarrow> h_size (index s') = h_size (index s))"

lemma keeps_sizeD: "keeps_size index m \<Longrightarrow> m s = Some (r, s') \<Longrightarrow> h_size (index s') = h_size (index s)"
  by (auto simp: keeps_size_def)

lemma keeps_size_andthen:
  assumes "keeps_size index m" "\<And>x. keeps_size index (f x)"
  shows "keeps_size index (andthen m f)"
proof -
  have "h_size (index s') = h_size (index s)" if h: "andthen m f s = Some (r, s')" for s r s'
  proof -
    obtain r1 s1 where s1: "m s = Some (r1, s1)" using h by (cases "m s") (auto simp: andthen_def)
    then show ?thesis
      using h keeps_sizeD [OF assms(1) s1] keeps_sizeD [OF assms(2)]
      by (cases r1) auto
  qed
  then show ?thesis by (auto simp: keeps_size_def)
qed

lemma keeps_size_insert: "hnsw_insert D env i x m l h = Some (r, h') \<Longrightarrow> h_size h' = h_size h"
proof -
  assume run: "hnsw_insert D env i x m l h = Some (r, h')"
  have store: "keeps_size (\<lambda>h. h) (store_vertex v)" for v
    by (auto simp: keeps_size_def store_vertex_def alloc_def Let_def split: if_splits)
  have connect: "keeps_size (\<lambda>h. h) (connect_vertex D env p)" for p
    by (auto simp: keeps_size_def connect_vertex_def bind_eq_Some_conv Let_def split: if_splits)
  have first: "keeps_size (\<lambda>h. h) (\<lambda>h. Some (Inr (), h\<lparr>h_entrypoint := p\<rparr>))" for p
    by (simp add: keeps_size_def)
  have "keeps_size (\<lambda>h. h) (andthen (store_vertex v) (connect_vertex D env))"
    "keeps_size (\<lambda>h. h) (andthen (store_vertex v) (\<lambda>p h. Some (Inr (), h\<lparr>h_entrypoint := p\<rparr>)))" for v
    by (rule keeps_size_andthen [OF store connect], rule keeps_size_andthen [OF store first])
  from keeps_sizeD [OF this(1)] keeps_sizeD [OF this(2)] show ?thesis
    using run by (auto simp: hnsw_insert_def bind_eq_Some_conv split: if_splits)
qed

lemma keeps_size_remove: "hnsw_remove D env i h = Some (r, h') \<Longrightarrow> h_size h' = h_size h"
proof -
  assume run: "hnsw_remove D env i h = Some (r, h')"
  have "keeps_size (\<lambda>h. h) (remove_vertex i)"
    by (auto simp: keeps_size_def remove_vertex_def bind_eq_Some_conv Let_def split: option.splits)
  moreover have "keeps_size (\<lambda>h. h) (disconnect_vertex D env p)" for p
    by (auto simp: keeps_size_def disconnect_vertex_def bind_eq_Some_conv)
  ultimately have "keeps_size (\<lambda>h. h) (andthen (remove_vertex i) (disconnect_vertex D env))"
    by (rule keeps_size_andthen)
  from keeps_sizeD [OF this] show ?thesis using run by (auto simp: hnsw_remove_def)
qed

lemma keeps_size_items:
  "keeps_size (\<lambda>h. h) (insert_item impl env item i)" "keeps_size (\<lambda>h. h) (delete_item impl env item i)"
  "keeps_size (\<lambda>h. h) (update_item impl env item i)"
proof -
  show "keeps_size (\<lambda>h. h) (insert_item impl env item i)"
    by (auto simp: keeps_size_def insert_item_def dest: keeps_size_insert)
  show "keeps_size (\<lambda>h. h) (delete_item impl env item i)"
    by (auto simp: keeps_size_def delete_item_def dest: keeps_size_remove)
  show "keeps_size (\<lambda>h. h) (update_item impl env item i)"
    unfolding update_item_def
  proof (intro keeps_size_andthen)
    show "keeps_size (\<lambda>h. h) (hnsw_get_vertex i)"
      by (auto simp: keeps_size_def hnsw_get_vertex_def split: option.splits)
    show "keeps_size (\<lambda>h. h) (\<lambda>h. hnsw_remove (index_distance impl h) (sub env 0) i h)"
      by (auto simp: keeps_size_def dest: keeps_size_remove)
  qed (auto simp: keeps_size_def bind_eq_Some_conv dest: keeps_size_insert)
qed

lemma keeps_size_batch:
  assumes "\<And>env item i. keeps_size (\<lambda>h. h) (step env item i)"
  shows "keeps_size (\<lambda>h. h) (batch_loop step env items errs)"
proof -
  have "batch_loop step env items errs h = Some (r, h') \<Longrightarrow> h_size h' = h_size h" for env errs h r h'
  proof (induction items arbitrary: env errs h)
    case (Cons item items)
    then show ?case using keeps_sizeD [OF assms] by (fastforce split: sum.splits option.splits)
  qed simp
  then show ?thesis by (auto simp: keeps_size_def)
qed

lemma keeps_size_process: "keeps_size p_index (process unmarshal impl env data)"
proof -
  have tell: "tell nid v p = Some p' \<Longrightarrow> p_index p' = p_index p" for nid v p p'
    by (auto simp: tell_def bind_eq_Some_conv)
  have single: "keeps_size p_index (apply_value op nid)" if "keeps_size (\<lambda>h. h) op" for op nid
    using keeps_sizeD [OF that] by (auto simp: keeps_size_def apply_value_def bind_eq_Some_conv dest!: tell)
  have batch: "keeps_size p_index (apply_batch step env nid items)"
    if "\<And>env item i. keeps_size (\<lambda>h. h) (step env item i)" for step env nid items
    using keeps_sizeD [OF keeps_size_batch [OF that]]
    by (auto simp: keeps_size_def apply_batch_def bind_eq_Some_conv dest!: tell split: option.splits sum.splits)
  have keeps_size_ret: "keeps_size p_index (ret ())" by (simp add: keeps_size_def ret_def)
  have uuid: "keeps_size p_index (with_uuid b f)" if "\<And>i. keeps_size p_index (f i)" for b and f :: "uuid \<Rightarrow> (partition, unit) prog"
    using that by (auto simp: with_uuid_def keeps_size_def fail_def split: sum.split)
  have "keeps_size p_index (apply_change impl env c)" for c
    unfolding apply_change_def insert_value_def update_value_def delete_value_def batch_insert_value_def
      batch_update_value_def batch_delete_value_def
    by (intro uuid, cases "pc_type c") (simp_all add: uuid single batch keeps_size_items keeps_size_ret)
  then show ?thesis by (auto simp: process_def keeps_size_def fail_def split: sum.split)
qed

section \<open>Snapshots of a partition\<close>

definition sized :: "64 word \<Rightarrow> partition \<Rightarrow> bool" where
  "sized n p = (partition_ok p \<and> h_size (p_index p) = n)"

definition new_replica :: "64 word \<Rightarrow> partition \<Rightarrow> bool" where
  "new_replica n p = (sized n p \<and> blank (p_index p))"

definition restorable :: "partition \<Rightarrow> bool" where
  "restorable p = saveable_index (p_index p)"

lemma process_sized:
  assumes "accepted_impl impl" "sized n p" "fair env" "legal_data unmarshal data"
  shows "refines (sized n) items_of (process unmarshal impl env data p) (log_spec unmarshal data (items_of p))"
proof -
  have p: "partition_ok p" "h_size (p_index p) = n" using assms(2) by (simp_all add: sized_def)
  have "refines partition_ok items_of (process unmarshal impl env data p) (log_spec unmarshal data (items_of p))"
    by (rule process_refines [OF assms(1) p(1) assms(3,4)])
  then show ?thesis
    using keeps_sizeD [OF keeps_size_process, of unmarshal impl env data p] p(2)
    by (auto simp: refines_def sized_def split: option.splits)
qed

lemma same_index_contents: "same_index h h' \<Longrightarrow> contents h' = contents h"
proof
  fix i assume "same_index h h'"
  then have "rel_option same_item (lookup h i) (lookup h' i)" by (simp add: same_index_def)
  then show "contents h' i = contents h i"
    by (cases "lookup h i"; cases "lookup h' i") (auto simp: contents_def same_item_def)
qed

lemma blank_contents: "blank h \<Longrightarrow> contents h = Map.empty"
  by (simp add: fun_eq_iff contents_def lookup_def find_vertex_def blank_def)

lemma snapshot_restores:
  assumes "sized n p" "restorable p" "fair env" "snapshot env p = Some (Inr data)" "new_replica n p0"
  shows "\<exists>p'. process_snapshot data p0 = Some (Inr (), p') \<and> sized n p' \<and> items_of p' = items_of p"
proof -
  have p0: "blank (p_index p0)" "h_size (p_index p0) = h_size (p_index p)" "notificator_ok (p_notificator p0)"
    using assms(1,5) by (simp_all add: new_replica_def sized_def partition_ok_def)
  have "saveable_index (p_index p)" using assms(2) by (simp add: restorable_def)
  from load_into_blank [OF this assms(3) p0(1,2), of "[]"]
  obtain bs h' where h': "hnsw_save env False (p_index p) = Some (None, bs)"
    "hnsw_load False (p_index p0, bs) = Some (Inr (), (h', []))" "hnsw_ok h'" "same_index (p_index p) h'"
    "h_size h' = h_size (p_index p)"
    "\<forall>i x m. lookup h' i = Some (x, m) \<longrightarrow> distinct (map fst (metadata_entries m))" by auto
  have "data = bs" using assms(4) h'(1) by (simp add: snapshot_def)
  then have "process_snapshot data p0 = Some (Inr (), p0\<lparr>p_index := h'\<rparr>)"
    using h'(2) by (simp add: process_snapshot_def)
  moreover have "sized n (p0\<lparr>p_index := h'\<rparr>)"
    using h'(3,5,6) p0(3) assms(1) by (simp add: sized_def partition_ok_def index_ok_def)
  moreover have "items_of (p0\<lparr>p_index := h'\<rparr>) = items_of p"
    using same_index_contents [OF h'(4)] by (simp add: items_of_def)
  ultimately show ?thesis by blast
qed

interpretation partition_recovery: recoverable "process unmarshal impl" "log_spec unmarshal" "sized n" items_of
    "\<lambda>data. legal_data unmarshal data \<and> accepted_impl impl" snapshot process_snapshot "new_replica n" restorable Map.empty
  for unmarshal impl n
proof unfold_locales
  show "refines (sized n) items_of (process unmarshal impl env data s) (log_spec unmarshal data (items_of s))"
    if "sized n s" "fair env" "legal_data unmarshal data \<and> accepted_impl impl" for s env data
    using process_sized [OF _ that(1,2)] that(3) by blast
  show "sized n s \<and> items_of s = Map.empty" if "new_replica n s" for s
    using that blank_contents by (simp add: new_replica_def items_of_def)
qed (rule snapshot_restores)

lemma default_config_ok: "config_ok (new_hnsw_config lg [])"
  by (simp add: config_ok_def new_hnsw_config_def Let_def)

lemma new_partition_replica: "new_replica (ucast dim) (new_partition lg sp dim i nodes)"
proof -
  have "blank (p_index (new_partition lg sp dim i nodes))" "h_size (p_index (new_partition lg sp dim i nodes)) = ucast dim"
    using default_config_ok [of lg] by (simp_all add: blank_def new_partition_def new_index_from_dataset_proto_def new_hnsw_def
        vertices_map_shard_count_def)
  then show ?thesis using new_partition_ok [OF default_config_ok] by (simp add: new_replica_def sized_def)
qed

text \<open>A group that \<open>loadRaft\<close> made for a partition.\<close>

definition serves ::
  "(bytes \<Rightarrow> error + partition_change) \<Rightarrow> space_impl \<Rightarrow> uuid \<Rightarrow> 'w \<Rightarrow> partition \<Rightarrow> (partition, 'w) raft_group \<Rightarrow> bool" where
  "serves unmarshal impl i w p g = (g_id g = i \<and> g_wal g = w \<and> g_state g = p \<and> g_last_applied g = 0 \<and>
     g_process g = Some (process unmarshal impl) \<and> g_process_snapshot g = Some process_snapshot \<and>
     g_snapshot g = Some snapshot)"

definition unused :: "uuid \<Rightarrow> (bytes \<rightharpoonup> bytes) \<Rightarrow> bool" where
  "unused i m = ((\<forall>k. take 16 k = i \<longrightarrow> m k = None) \<and> m (hard_state_key i) = None \<and> m (snapshot_key i) = None)"

text \<open>What the interpretation says of a restart, for the entries of the store applied at once or in a run.\<close>

lemma partition_restart:
  assumes kv: "kv_laws V rows" "codec_laws C" and lib: "\<forall>s. is_empty_snap L s = (rs_index s = 0)" and i: "i \<noteq> uuid_nil"
    and g': "partition_recovery.backed unmarshal n impl C rows g' l" and w': "represents C rows w' l"
    and l: "\<forall>d \<in> set (log_of (applied (unat (g_last_applied g')) l)). legal_data unmarshal d \<and> accepted_impl impl"
    and new: "new_replica n p" and g0: "serves unmarshal impl i w' p g0"
  shows "\<exists>g1. group_start L (badger_ops V C) g0 = Some (Inr (), g1) \<and>
      (\<forall>env2. fair env2 \<longrightarrow> (\<exists>g2. apply_entries L env2 (applied (unat (g_last_applied g')) l) g1 = Some g2 \<and>
         items_of (g_state g2) = items_of (g_state g'))) \<and>
      (\<forall>N2 env2 evs2 g2. fair env2 \<longrightarrow> (\<forall>ev \<in> set evs2. plain_event L ev) \<longrightarrow>
         committed_by evs2 = applied (unat (g_last_applied g')) l \<longrightarrow>
         group_run L (badger_ops V C) N2 env2 evs2 g1 = Some g2 \<longrightarrow> items_of (g_state g2) = items_of (g_state g'))"
proof -
  let ?es = "applied (unat (g_last_applied g')) l"
  have g0': "represents C rows (g_wal g0) l" "new_replica n (g_state g0)" "g_process g0 = Some (process unmarshal impl)"
    "g_process_snapshot g0 = Some process_snapshot" "g_id g0 = i"
    using g0 w' new by (simp_all add: serves_def)
  obtain g1 where g1: "group_start L (badger_ops V C) g0 = Some (Inr (), g1)"
    "partition_recovery.drives unmarshal impl n g1" "g_id g1 = g_id g0"
    "run_spec (log_spec unmarshal) (log_of ?es) (items_of (g_state g1)) = Some (items_of (g_state g'))"
    by (rule partition_recovery.backed_recovers [OF kv lib g' g0'(1-4)])
  have "\<exists>g2. apply_entries L env2 ?es g1 = Some g2 \<and> items_of (g_state g2) = items_of (g_state g')" if env2: "fair env2" for env2
  proof -
    obtain g2 where g2: "apply_entries L env2 ?es g1 = Some g2"
      using partition_recovery.apply_entries_total [OF g1(2) env2 l, of L] g1(3,4) g0'(5) i by auto
    then show ?thesis using partition_recovery.apply_entries_spec [OF g1(2) env2 l g2] g1(4) by simp
  qed
  moreover have "items_of (g_state g2) = items_of (g_state g')"
    if run: "fair env2" "\<forall>ev \<in> set evs2. plain_event L ev" "committed_by evs2 = ?es"
      "group_run L (badger_ops V C) N2 env2 evs2 g1 = Some g2" for N2 env2 evs2 g2
    using partition_recovery.group_run_spec [OF g1(2) run(1,2) _ run(4)] l g1(4) run(3) by simp
  ultimately show ?thesis using g1(1) by blast
qed

text \<open>
  C3: A replica recovers from its store. Take a new partition on an unused part of the store, any run of
  its raft group that is orderly (raft hands over consecutive entries, replaces no applied ones, and
  snapshots are taken of indexes that \<open>Save\<close> can write) and a stop after it. Opening the log and starting
  a group on a new partition succeeds: the stored snapshot is loaded into the new index, and applying
  the stored entries after it, which never panics, gives back every item the replica had, in
  whatever batches and among whatever ticks, messages and snapshots raft hands them over again.
\<close>

theorem restarted_replica_recovers:
  assumes "kv_laws V rows" "codec_laws C" "\<forall>s. is_empty_snap L s = (rs_index s = 0)" "accepted_impl impl"
    and "proper_group i" "i \<noteq> uuid_nil" "unused i (rows db)" "new_badger_wal V C i db = Some w"
    and "serves unmarshal impl i w (new_partition lg sp dim i nodes) g"
    and "fair env" "orderly L N V C rows restorable env evs g"
    and "\<forall>d \<in> set (log_of (committed_by evs)). legal_data unmarshal d"
    and "group_run L (badger_ops V C) N env evs g = Some g'"
  shows "\<exists>w' l. new_badger_wal V C i (w_db (g_wal g')) = Some w' \<and> represents C rows w' l \<and>
    (\<forall>g0 nodes'. serves unmarshal impl i w' (new_partition lg sp dim i nodes') g0 \<longrightarrow>
      (\<exists>g1. group_start L (badger_ops V C) g0 = Some (Inr (), g1) \<and>
        (\<forall>env2. fair env2 \<longrightarrow> (\<exists>g2. apply_entries L env2 (applied (unat (g_last_applied g')) l) g1 = Some g2 \<and>
           items_of (g_state g2) = items_of (g_state g'))) \<and>
        (\<forall>N2 env2 evs2 g2. fair env2 \<longrightarrow> (\<forall>ev \<in> set evs2. plain_event L ev) \<longrightarrow>
           committed_by evs2 = applied (unat (g_last_applied g')) l \<longrightarrow>
           group_run L (badger_ops V C) N2 env2 evs2 g1 = Some g2 \<longrightarrow> items_of (g_state g2) = items_of (g_state g'))))"
proof -
  let ?n = "ucast dim :: 64 word"
  note new = new_partition_replica [of dim lg sp i]
  have w: "w_group w = i" "represents C rows w empty_log"
    using opened_new [OF assms(1,2,5), of db] assms(7,8) by (auto simp: unused_def)
  have g: "g_wal g = w" "g_id g = i" "g_state g = new_partition lg sp dim i nodes" "g_last_applied g = 0"
    "g_process g = Some (process unmarshal impl)" "g_snapshot g = Some snapshot"
    using assms(9) by (simp_all add: serves_def)
  have d: "partition_recovery.drives unmarshal impl ?n g"
    using new [of nodes] g by (simp add: partition_recovery.drives_def new_replica_def)
  have b: "partition_recovery.backed unmarshal ?n impl C rows g empty_log"
    by (rule partition_recovery.fresh_backed) (use w g new in simp_all)
  have legal: "\<forall>d \<in> set (log_of (committed_by evs)). legal_data unmarshal d \<and> accepted_impl impl"
    using assms(4,12) by blast
  obtain l where g': "partition_recovery.drives unmarshal impl ?n g'" "registered g g'"
    "partition_recovery.backed unmarshal ?n impl C rows g' l"
    using partition_recovery.run_backed [OF assms(1-3) d g(6) b assms(10,11) legal assms(13)] by blast
  have l: "represents C rows (g_wal g') l" "w_group (g_wal g') = i"
    "\<forall>d \<in> set (log_of (applied (unat (g_last_applied g')) l)). legal_data unmarshal d \<and> accepted_impl impl"
    using g'(2,3) g(2) by (simp_all add: partition_recovery.backed_def registered_def)
  obtain w' where w': "new_badger_wal V C i (w_db (g_wal g')) = Some w'" "represents C rows w' l"
    using reopened [OF assms(1,2) l(1)] l(2) by auto
  have "\<exists>g1. group_start L (badger_ops V C) g0 = Some (Inr (), g1) \<and>
      (\<forall>env2. fair env2 \<longrightarrow> (\<exists>g2. apply_entries L env2 (applied (unat (g_last_applied g')) l) g1 = Some g2 \<and>
         items_of (g_state g2) = items_of (g_state g'))) \<and>
      (\<forall>N2 env2 evs2 g2. fair env2 \<longrightarrow> (\<forall>ev \<in> set evs2. plain_event L ev) \<longrightarrow>
         committed_by evs2 = applied (unat (g_last_applied g')) l \<longrightarrow>
         group_run L (badger_ops V C) N2 env2 evs2 g1 = Some g2 \<longrightarrow> items_of (g_state g2) = items_of (g_state g'))"
    if g0: "serves unmarshal impl i w' (new_partition lg sp dim i nodes') g0" for g0 nodes'
    by (rule partition_restart [OF assms(1-3,6) g'(3) w'(2) l(3) new g0])
  with w' show ?thesis by blast
qed

text \<open>A new replica that saves and applies two entries, the second of which inserts an item.\<close>

definition first_events :: "group_event list" where
  "first_events = [Ready (sample_ready [] sample_entries), Tick]"

definition first_group :: "'w \<Rightarrow> (partition, 'w) raft_group" where
  "first_group w = \<lparr>g_id = sample_group, g_transport = sample_transport,
     g_process = Some (process sample_unmarshal native_impl), g_process_snapshot = Some process_snapshot,
     g_snapshot = Some snapshot, g_conf_state = None, g_leader_id = 2, g_wal = w,
     g_state = new_partition (\<lambda>x. x) Manhattan 1 sample_group [], g_last_applied = 0, g_calls = []\<rparr>"

lemma first_group_serves:
  "serves sample_unmarshal native_impl sample_group w (new_partition (\<lambda>x. x) Manhattan 1 sample_group []) (first_group w)"
  by (simp add: serves_def first_group_def)

lemma first_entries:
  assumes "lg_entries l = [zero_entry]"
  shows "hands_over (sample_ready [] sample_entries) 0 l"
proof -
  have b: "base l = 0" using assms by (simp add: base_def zero_entry_def)
  have "from_index 1 sample_entries" by (simp add: sample_entries_def)
  then have "follows sample_entries l" using assms b by (auto simp: follows_def sample_entries_def intro!: exI [of _ 1])
  moreover have "lg_entries (append_entries sample_entries l) = zero_entry # sample_entries"
    using assms b by (simp add: append_entries_def new_entries_def sample_entries_def)
  then have "sample_entries = take 2 (drop (Suc 0 - base l) (lg_entries (append_entries sample_entries l)))"
    using b by simp (simp add: sample_entries_def)
  moreover have "\<forall>e \<in> set sample_entries. 0 < unat (e_index e)" by (simp add: sample_entries_def)
  ultimately show ?thesis unfolding hands_over_def sample_ready_def no_snapshot_def by auto
qed

lemma first_run:
  assumes "represents byte_codec map_of w empty_log" "w_group w = sample_group"
  shows "orderly sample_lib sample_net list_kv byte_codec map_of restorable (plain_env 0) first_events (first_group w)"
    "\<exists>g'. group_run sample_lib (badger_ops list_kv byte_codec) sample_net (plain_env 0) first_events (first_group w) = Some g'"
proof -
  have hand: "hands_over (sample_ready [] sample_entries) 0 l" if l: "represents byte_codec map_of w l" for l
    using first_entries [of l] represents_entries [OF byte_codec_laws l assms(1)] by (simp add: empty_log_def)
  then show "orderly sample_lib sample_net list_kv byte_codec map_of restorable (plain_env 0) first_events (first_group w)"
    by (simp add: first_events_def orderly_event_def first_group_def)
  have "follows sample_entries empty_log" using hand [OF assms(1)] by (simp add: hands_over_def sample_ready_def)
  then have "can_save sample_entries no_snapshot empty_log" by (simp add: can_save_def no_snapshot_def)
  from save_represents [OF list_kv_laws byte_codec_laws assms(1) this]
  obtain w' where w': "badger_save list_kv byte_codec \<lparr>hs_term = 1, hs_vote = 1, hs_commit = 1\<rparr> sample_entries no_snapshot w =
      Some (Inr (), w')" by blast
  let ?g = "first_group w"
  let ?g' = "?g\<lparr>g_wal := w', g_calls := [WalSave \<lparr>hs_term = 1, hs_vote = 1, hs_commit = 1\<rparr> sample_entries no_snapshot]\<rparr>"
  have "partition_ok (g_state ?g')" using new_partition_ok [OF default_config_ok] by (simp add: first_group_def)
  moreover have "g_process ?g' = Some (process sample_unmarshal native_impl)" "g_id ?g' \<noteq> uuid_nil"
    by (simp_all add: first_group_def sample_group_def uuid_nil_def numeral_eq_Suc)
  ultimately obtain g5 where g5: "apply_entries sample_lib (plain_env 0) sample_entries ?g' = Some g5"
    using apply_entries_items [of ?g' sample_unmarshal native_impl "plain_env 0" sample_entries sample_lib]
    by (fastforce simp: sample_log)
  have "\<not> is_leader ?g" "is_empty_snap sample_lib no_snapshot"
    by (simp_all add: is_leader_def first_group_def sample_transport_def sample_lib_def no_snapshot_def)
  then have "handle_ready sample_lib (badger_ops list_kv byte_codec) sample_net (plain_env 0) (sample_ready [] sample_entries) ?g \<noteq> None"
    using w' g5 unfolding handle_ready_def sample_ready_def
    by (simp add: save_ready_def fatal_def install_snapshot_def send_if_def first_group_def Let_def)
  then show "\<exists>g'. group_run sample_lib (badger_ops list_kv byte_codec) sample_net (plain_env 0) first_events ?g = Some g'"
    by (auto simp: first_events_def group_step_def)
qed

lemma first_log: "log_of (committed_by first_events) = [[1]]"
  by (simp add: first_events_def committed_by_def sample_ready_def sample_log)

theorem restarted_replica_recovers_witness:
  "\<exists>w g' w' l g1 g2. new_badger_wal list_kv byte_codec sample_group [] = Some w \<and>
     group_run sample_lib (badger_ops list_kv byte_codec) sample_net (plain_env 0) first_events (first_group w) = Some g' \<and>
     new_badger_wal list_kv byte_codec sample_group (w_db (g_wal g')) = Some w' \<and> represents byte_codec map_of w' l \<and>
     group_start sample_lib (badger_ops list_kv byte_codec) (first_group w') = Some (Inr (), g1) \<and>
     apply_entries sample_lib (plain_env 3) (applied (unat (g_last_applied g')) l) g1 = Some g2 \<and>
     items_of (g_state g2) = [uuid_of 2 \<mapsto> ([7], Map.empty)]"
proof -
  note laws = list_kv_laws byte_codec_laws
  obtain w where w: "new_badger_wal list_kv byte_codec sample_group [] = Some w" "w_group w = sample_group"
    "represents byte_codec map_of w empty_log"
    using opened_new [OF laws sample_group_proper, of "[]"] by auto
  obtain g' where g': "group_run sample_lib (badger_ops list_kv byte_codec) sample_net (plain_env 0) first_events (first_group w) = Some g'"
    using first_run(2) [OF w(3,2)] by blast
  have side: "\<forall>s. is_empty_snap sample_lib s = (rs_index s = 0)" "sample_group \<noteq> uuid_nil" "unused sample_group (map_of [])"
    "\<forall>d \<in> set (log_of (committed_by first_events)). legal_data sample_unmarshal d"
    by (simp_all add: sample_lib_def sample_group_def uuid_nil_def unused_def first_log sample_log numeral_eq_Suc)
  have items: "items_of (g_state g') = [uuid_of 2 \<mapsto> ([7], Map.empty)]"
  proof -
    let ?p = "new_partition (\<lambda>x. x) Manhattan 1 sample_group []"
    have new: "new_replica (ucast (1 :: 32 word)) ?p" by (rule new_partition_replica)
    have d: "partition_recovery.drives sample_unmarshal native_impl (ucast (1 :: 32 word)) (first_group w)"
      using new by (simp add: partition_recovery.drives_def first_group_def new_replica_def)
    have plain: "\<forall>ev \<in> set first_events. plain_event sample_lib ev"
      by (simp add: first_events_def plain_event_def sample_ready_def sample_lib_def no_snapshot_def)
    have legal: "\<forall>d \<in> set (log_of (committed_by first_events)). legal_data sample_unmarshal d \<and> accepted_impl native_impl"
      using side(4) by simp
    have "items_of ?p = Map.empty" using new blank_contents by (simp add: new_replica_def items_of_def)
    then show ?thesis
      using partition_recovery.group_run_spec [OF d plain_env(1) plain legal g']
      by (simp add: first_log first_group_def sample_log)
  qed
  from restarted_replica_recovers [OF laws side(1) accepted_impl_native sample_group_proper side(2,3) w(1)
      first_group_serves plain_env(1) first_run(1) [OF w(3,2)] side(4) g']
  show ?thesis
    apply (elim exE conjE)
    apply (erule allE, erule allE, erule impE, rule first_group_serves)
    apply (elim exE conjE)
    apply (erule allE [of _ "plain_env 3"], erule impE, rule plain_env(1))
    apply (elim exE conjE)
    apply (intro exI conjI, rule w(1), rule g', assumption+)
    apply (simp only: items)
    done
qed

section \<open>A replica that joins late\<close>

text \<open>
  C4: A new replica catches up with its leader. Raft hands it a snapshot that the leader took of
  its partition, and the entries committed after it; the new index loads the snapshot and the loop
  applies the entries, in this and in later turns. Then it has the items the leader has once that
  applied the same entries, whatever the two machines' distance implementations, map orders,
  batches, ticks and further snapshots are.
\<close>

theorem late_replica_catches_up:
  assumes leader: "g_process gl = Some (process unmarshal impl')" "sized (ucast dim) (g_state gl)" "restorable (g_state gl)"
    "snapshot env0 (g_state gl) = Some (Inr data)" "group_run L' W' N' env' evs' gl = Some gl'"
    and new: "g_state g = new_partition lg sp dim i nodes" "g_process g = Some (process unmarshal impl)" "g_process_snapshot g = Some process_snapshot"
    "group_run L W N env (Ready rd # evs) g = Some g'"
    and snap: "rs_data (rd_snapshot rd) = data" "\<not> is_empty_snap L (rd_snapshot rd)"
    and same: "log_of (committed_by evs') = log_of (rd_committed rd @ committed_by evs)"
    and rest: "accepted_impl impl" "accepted_impl impl'" "fair env" "fair env0" "fair env'"
    "\<forall>ev \<in> set evs. plain_event L ev" "\<forall>ev \<in> set evs'. plain_event L' ev"
    "\<forall>d \<in> set (log_of (committed_by evs')). legal_data unmarshal d"
  shows "items_of (g_state g') = items_of (g_state gl') \<and>
    run_spec (log_spec unmarshal) (log_of (committed_by evs')) (items_of (g_state gl)) = Some (items_of (g_state g'))"
proof -
  have legal: "\<forall>d \<in> set (log_of (committed_by evs')). legal_data unmarshal d \<and> accepted_impl impl'"
    "\<forall>d \<in> set (log_of (rd_committed rd @ committed_by evs)). legal_data unmarshal d \<and> accepted_impl impl"
    using rest(1,2,8) same by simp_all
  have fresh: "new_replica (ucast dim) (g_state g)" using new(1) new_partition_replica by simp
  have "run_spec (log_spec unmarshal) (log_of (rd_committed rd @ committed_by evs)) (items_of (g_state gl)) = Some (items_of (g_state g'))"
    by (rule partition_recovery.install_then_run [OF fresh new(2,3) rest(3,4) leader(2,3,4) snap legal(2) rest(6) new(4)])
  moreover have "partition_recovery.drives unmarshal impl' (ucast dim) gl"
    using leader(1,2) by (simp add: partition_recovery.drives_def)
  then have "run_spec (log_spec unmarshal) (log_of (committed_by evs')) (items_of (g_state gl)) = Some (items_of (g_state gl'))"
    using partition_recovery.group_run_spec [OF _ rest(5,7) legal(1) leader(5)] by blast
  ultimately show ?thesis using same by simp
qed

definition late_ready :: "bytes \<Rightarrow> ready" where
  "late_ready data = (sample_ready [] sample_entries)\<lparr>rd_snapshot := \<lparr>rs_data = data, rs_conf_state = [], rs_index = 5, rs_term = 1\<rparr>\<rparr>"

lemma sample_partition_sized: "sized (ucast (1 :: 32 word)) sample_partition" "restorable sample_partition"
  using sample_partition_ok(1) one_item_saveable
  by (simp_all add: sized_def restorable_def sample_partition_def one_item_def sample_index_def new_hnsw_def)

lemma late_replica_runs:
  assumes "snapshot (plain_env 0) sample_partition = Some (Inr data)"
  shows "\<exists>g'. group_run sample_lib sample_wal sample_net (plain_env 0) [Ready (late_ready data), Tick] (first_group no_snapshot) = Some g'"
proof -
  let ?g = "first_group no_snapshot" and ?rd = "late_ready data"
  let ?p = "new_partition (\<lambda>x. x) Manhattan (1 :: 32 word) sample_group []"
  obtain p' where p': "process_snapshot data ?p = Some (Inr (), p')" "partition_ok p'"
    "items_of p' = items_of sample_partition"
    using snapshot_restores [OF sample_partition_sized plain_env(1) assms new_partition_replica [of 1 "\<lambda>x. x" Manhattan sample_group "[]"]]
    unfolding sized_def by blast
  let ?g' = "?g\<lparr>g_calls := [WalSave \<lparr>hs_term = 1, hs_vote = 1, hs_commit = 1\<rparr> sample_entries (rd_snapshot ?rd)], g_state := p', g_last_applied := 5\<rparr>"
  have "g_process ?g' = Some (process sample_unmarshal native_impl)" "g_id ?g' \<noteq> uuid_nil" "partition_ok (g_state ?g')"
    using p'(2) by (simp_all add: first_group_def sample_group_def uuid_nil_def numeral_eq_Suc)
  then obtain g5 where g5: "apply_entries sample_lib (plain_env 0) sample_entries ?g' = Some g5"
    using apply_entries_items [of ?g' sample_unmarshal native_impl "plain_env 0" sample_entries sample_lib]
    by (fastforce simp: sample_log)
  have "\<not> is_leader ?g" by (simp add: is_leader_def first_group_def sample_transport_def)
  then have "handle_ready sample_lib sample_wal sample_net (plain_env 0) ?rd ?g \<noteq> None"
    using p'(1) g5 unfolding handle_ready_def late_ready_def sample_ready_def
    by (simp add: save_ready_def fatal_def install_snapshot_def send_if_def first_group_def Let_def sample_wal_def sample_lib_def
        process_snapshot_data_def lift_state_def)
  then show ?thesis by (auto simp: group_step_def)
qed

theorem late_replica_catches_up_witness:
  "\<exists>data g' gl'. snapshot (plain_env 0) sample_partition = Some (Inr data) \<and>
     group_run sample_lib sample_wal sample_net (plain_env 3) [Tick, Ready (sample_ready [] sample_entries)] sample_replica = Some gl' \<and>
     group_run sample_lib sample_wal sample_net (plain_env 0) [Ready (late_ready data), Tick] (first_group no_snapshot) = Some g' \<and>
     items_of (g_state g') = items_of (g_state gl') \<and>
     items_of (g_state g') = [uuid_of 1 \<mapsto> ([5], [[97] \<mapsto> [98]]), uuid_of 2 \<mapsto> ([7], Map.empty)]"
proof -
  let ?evs' = "[Tick, Ready (sample_ready [] sample_entries)]"
  have f: "g_process sample_replica = Some (process sample_unmarshal native_impl)" "g_state sample_replica = sample_partition"
    "g_id sample_replica = uuid_of 7" by (simp_all add: sample_replica_def)
  obtain gl' where gl': "group_run sample_lib sample_wal sample_net (plain_env 3) ?evs' sample_replica = Some gl'"
    using sample_replica_returns(1) [of sample_replica "plain_env 3" sample_net] f by auto
  obtain bs where "hnsw_save (plain_env 0) False (p_index sample_partition) = Some (None, bs)"
    using load_save [OF sample_partition_sized(2) [unfolded restorable_def] plain_env(1) _ disjI2 [OF refl]]
      sample_partition_ok(1) by (fastforce simp: partition_ok_def index_ok_def hnsw_ok_def map_ok_def)
  then have data: "snapshot (plain_env 0) sample_partition = Some (Inr bs)" by (simp add: snapshot_def)
  obtain g' where g': "group_run sample_lib sample_wal sample_net (plain_env 0) [Ready (late_ready bs), Tick] (first_group no_snapshot) = Some g'"
    using late_replica_runs [OF data] by blast
  have ev: "\<forall>ev \<in> set ?evs'. plain_event sample_lib ev" "\<forall>ev \<in> set [Tick]. plain_event sample_lib ev"
    "committed_by ?evs' = sample_entries" "committed_by [Tick] = []"
    by (simp_all add: plain_event_def sample_ready_def sample_lib_def no_snapshot_def committed_by_def)
  have rd: "rs_data (rd_snapshot (late_ready bs)) = bs" "\<not> is_empty_snap sample_lib (rd_snapshot (late_ready bs))"
    "rd_committed (late_ready bs) = sample_entries" by (simp_all add: late_ready_def sample_lib_def sample_ready_def)
  have g: "g_state (first_group no_snapshot) = new_partition (\<lambda>x. x) Manhattan 1 sample_group []"
    "g_process (first_group no_snapshot) = Some (process sample_unmarshal native_impl)"
    "g_process_snapshot (first_group no_snapshot) = Some process_snapshot" by (simp_all add: first_group_def)
  have "items_of (g_state g') = items_of (g_state gl') \<and>
      run_spec (log_spec sample_unmarshal) (log_of (committed_by ?evs')) (items_of (g_state sample_replica)) = Some (items_of (g_state g'))"
    by (rule late_replica_catches_up [OF f(1) _ _ _ gl' g g' rd(1,2) _ accepted_impl_native accepted_impl_native
          plain_env(1) plain_env(1) plain_env(1) ev(2,1)])
      (use f(2) sample_partition_sized data in \<open>simp_all add: ev rd(3) sample_log\<close>)
  then show ?thesis using data gl' g' f(2) sample_partition_ok(2) by (simp add: ev sample_log)
qed

end
