(* ===== verification/Dataset.thy ===== *)
theory Dataset
  imports Partition
begin

text \<open>
  \<open>storage/dataset.go\<close>: a dataset routes every item to one of its partitions by its id, on this
  node or on a node that holds the partition, and splits batches by partition. The clients of other
  nodes are arguments (\<open>remote\<close>), as are the random node choices; \<open>DatasetSearch\<close> holds the
  concurrent part of searching.
\<close>

section \<open>State\<close>

text \<open>The message \<open>pb.Dataset\<close> and its partitions.\<close>

record partition_meta =
  pm_id :: bytes
  pm_node_ids :: "node_id list"

record dataset_meta =
  dm_id :: bytes
  dm_dimension :: "32 word"
  dm_space :: space
  dm_partition_count :: "32 word"
  dm_replication_factor :: "32 word"
  dm_partitions :: "partition_meta list"
  dm_size :: "64 word"

text \<open>\<open>ds_partitions_map\<close> holds pointers to the partitions of \<open>ds_partitions\<close>: their positions.\<close>

record dataset =
  ds_id :: uuid
  ds_meta :: dataset_meta
  ds_conn :: conn
  ds_partitions :: "partition list"
  ds_partitions_map :: "(uuid \<times> nat) list"
  ds_search_clients :: "(node_id \<times> client) list"
  ds_data_clients :: "(node_id \<times> client) list"

definition max_batch_request_size :: int where
  "max_batch_request_size = 100"

text \<open>The loop of \<open>newDataset\<close>; an index beyond \<open>meta.Partitions\<close> panics.\<close>

fun new_partitions ::
  "(f32 \<Rightarrow> f32) \<Rightarrow> dataset_meta \<Rightarrow> nat \<Rightarrow> partition_meta list \<Rightarrow> (partition list \<times> (uuid \<times> nat) list, unit) prog" where
  "new_partitions lg meta 0 pms s = Some (Inr (), s)"
| "new_partitions lg meta (Suc k) [] s = None"
| "new_partitions lg meta (Suc k) (pm # pms) (ps, m) = (case uuid_from_bytes (pm_id pm) of
       Inl e \<Rightarrow> Some (Inl e, (ps, m))
     | Inr i \<Rightarrow> new_partitions lg meta k pms
         (ps @ [new_partition lg (dm_space meta) (dm_dimension meta) i (pm_node_ids pm)], AList.update i (length ps) m))"

definition new_dataset ::
  "(f32 \<Rightarrow> f32) \<Rightarrow> uuid \<Rightarrow> dataset_meta \<Rightarrow> conn \<Rightarrow> (error + dataset) option" where
  "new_dataset lg i meta c =
     (case new_partitions lg meta (unat (dm_partition_count meta)) (dm_partitions meta) ([], []) of
        None \<Rightarrow> None
      | Some (Inl e, _) \<Rightarrow> Some (Inl e)
      | Some (Inr _, (ps, m)) \<Rightarrow> Some (Inr \<lparr>ds_id = i, ds_meta = meta, ds_conn = c, ds_partitions = ps,
          ds_partitions_map = m, ds_search_clients = [], ds_data_clients = []\<rparr>))"

section \<open>Finding a partition\<close>

definition check_dimension :: "vec \<Rightarrow> dataset \<Rightarrow> error option" where
  "check_dimension v d =
     (if (of_nat (length v) :: 32 word) \<noteq> dm_dimension (ds_meta d) then Some DimensionMissmatch else None)"

definition get_partition :: "uuid \<Rightarrow> dataset \<Rightarrow> error + nat" where
  "get_partition i d = (case map_of (ds_partitions_map d) i of Some k \<Rightarrow> Inr k | None \<Rightarrow> Inl PartitionNotFound)"

text \<open>A dataset of no partitions panics: \<open>UuidMod\<close> divides by zero.\<close>

definition get_partition_for_id :: "uuid \<Rightarrow> dataset \<Rightarrow> nat option" where
  "get_partition_for_id i d = do {
     k \<leftarrow> uuid_mod i (ucast (dm_partition_count (ds_meta d)));
     if unat k < length (ds_partitions d) then Some (unat k) else None }"

definition on_this_node :: "dataset \<Rightarrow> nat \<Rightarrow> bool" where
  "on_this_node d k = is_on_node (cn_id (ds_conn d)) (ds_partitions d ! k)"

definition on_partition :: "nat \<Rightarrow> (partition, 'a) prog \<Rightarrow> (dataset, 'a) prog" where
  "on_partition k m d = do {
     (r, p) \<leftarrow> m (ds_partitions d ! k);
     Some (r, d\<lparr>ds_partitions := (ds_partitions d)[k := p]\<rparr>) }"

section \<open>Other nodes\<close>

record remote =
  rm_dial :: "string \<Rightarrow> error + client"
  rm_insert :: "client \<Rightarrow> uuid \<Rightarrow> uuid \<Rightarrow> vec \<Rightarrow> metadata \<Rightarrow> error option"
  rm_update :: "client \<Rightarrow> uuid \<Rightarrow> uuid \<Rightarrow> vec \<Rightarrow> metadata \<Rightarrow> error option"
  rm_remove :: "client \<Rightarrow> uuid \<Rightarrow> uuid \<Rightarrow> error option"
  rm_batch :: "change_type \<Rightarrow> client \<Rightarrow> uuid \<Rightarrow> uuid \<Rightarrow> batch_item list \<Rightarrow> error + (string \<times> string) list"
  rm_partition_info :: "client \<Rightarrow> uuid \<Rightarrow> uuid \<Rightarrow> error + (64 word \<times> 64 word)"

definition get_data_manager_client :: "remote \<Rightarrow> node_id \<Rightarrow> dataset \<Rightarrow> (error + client) \<times> dataset" where
  "get_data_manager_client rm n d = (case map_of (ds_data_clients d) n of
       Some k \<Rightarrow> (Inr k, d)
     | None \<Rightarrow> (case conn_dial (rm_dial rm) (\<lambda>c. c) n (ds_conn d) of
           (Inl e, c) \<Rightarrow> (Inl e, d\<lparr>ds_conn := c\<rparr>)
         | (Inr k, c) \<Rightarrow> (Inr k, d\<lparr>ds_conn := c, ds_data_clients := AList.update n k (ds_data_clients d)\<rparr>)))"

definition get_node_search_client :: "remote \<Rightarrow> node_id \<Rightarrow> dataset \<Rightarrow> (error + client) \<times> dataset" where
  "get_node_search_client rm n d = (case map_of (ds_search_clients d) n of
       Some k \<Rightarrow> (Inr k, d)
     | None \<Rightarrow> (case conn_dial (rm_dial rm) (\<lambda>c. c) n (ds_conn d) of
           (Inl e, c) \<Rightarrow> (Inl e, d\<lparr>ds_conn := c\<rparr>)
         | (Inr k, c) \<Rightarrow> (Inr k, d\<lparr>ds_conn := c, ds_search_clients := AList.update n k (ds_search_clients d)\<rparr>)))"

section \<open>Insert, Update, Remove\<close>

text \<open>
  The three have one shape. When dialing the other node fails they return nil, not the error.
\<close>

definition proxy :: "remote \<Rightarrow> nat \<Rightarrow> nat \<Rightarrow> (client \<Rightarrow> error option) \<Rightarrow> (dataset, unit) prog" where
  "proxy rm r k call d = do {
     n \<leftarrow> random_node_id r (ds_partitions d ! k);
     Some (case get_data_manager_client rm n d of
         (Inl e, d') \<Rightarrow> (Inr (), d')
       | (Inr c, d') \<Rightarrow> ((case call c of Some e \<Rightarrow> Inl e | None \<Rightarrow> Inr ()), d')) }"

definition route ::
  "remote \<Rightarrow> nat \<Rightarrow> uuid \<Rightarrow> (client \<Rightarrow> error option) \<Rightarrow> (partition, unit) prog \<Rightarrow> (dataset, unit) prog" where
  "route rm r i call local d = do {
     k \<leftarrow> get_partition_for_id i d;
     if \<not> on_this_node d k then proxy rm r k call d else on_partition k local d }"

definition dataset_insert ::
  "remote \<Rightarrow> raft_env \<Rightarrow> nat \<Rightarrow> (f32 \<Rightarrow> f32) \<Rightarrow> f32 \<Rightarrow> uuid \<Rightarrow> vec \<Rightarrow> metadata \<Rightarrow> (dataset, unit) prog" where
  "dataset_insert rm R r lg x i v m d = (case check_dimension v d of
       Some e \<Rightarrow> Some (Inl e, d)
     | None \<Rightarrow> route rm r i (\<lambda>c. rm_insert rm c (ds_id d) i v m) (partition_insert R lg x i v m) d)"

definition dataset_update ::
  "remote \<Rightarrow> raft_env \<Rightarrow> nat \<Rightarrow> uuid \<Rightarrow> vec \<Rightarrow> metadata \<Rightarrow> (dataset, unit) prog" where
  "dataset_update rm R r i v m d = (case check_dimension v d of
       Some e \<Rightarrow> Some (Inl e, d)
     | None \<Rightarrow> route rm r i (\<lambda>c. rm_update rm c (ds_id d) i v m) (partition_update R i v m) d)"

definition dataset_remove :: "remote \<Rightarrow> raft_env \<Rightarrow> nat \<Rightarrow> uuid \<Rightarrow> (dataset, unit) prog" where
  "dataset_remove rm R r i d = route rm r i (\<lambda>c. rm_remove rm c (ds_id d) i) (partition_remove R i) d"

section \<open>Batches\<close>

fun add_to_group :: "nat \<Rightarrow> batch_item \<Rightarrow> (nat \<times> batch_item list) list \<Rightarrow> (nat \<times> batch_item list) list" where
  "add_to_group k item [] = [(k, [item])]"
| "add_to_group k item ((k', items) # gs) =
     (if k' = k then (k', items @ [item]) # gs else (k', items) # add_to_group k item gs)"

text \<open>\<open>uuid.Must\<close> panics for an id that is no UUID.\<close>

fun group_batch_items_by_partition ::
  "dataset \<Rightarrow> batch_item list \<Rightarrow> (nat \<times> batch_item list) list \<Rightarrow> (nat \<times> batch_item list) list option" where
  "group_batch_items_by_partition d [] gs = Some gs"
| "group_batch_items_by_partition d (item # items) gs = (case uuid_from_bytes (bi_id item) of
       Inl e \<Rightarrow> None
     | Inr i \<Rightarrow> do {
         k \<leftarrow> get_partition_for_id i d;
         group_batch_items_by_partition d items (add_to_group k item gs) })"

fun error_to_result :: "batch_item list \<Rightarrow> error \<Rightarrow> batch_result \<Rightarrow> batch_result" where
  "error_to_result [] e m = m"
| "error_to_result (item # items) e m =
     error_to_result items e (AList.update (uuid_from_bytes_or_nil (bi_id item)) e m)"

definition error_to_partition_batch_result :: "batch_item list \<Rightarrow> error \<Rightarrow> batch_result" where
  "error_to_partition_batch_result items e = error_to_result items e []"

text \<open>\<open>from_string\<close> is \<open>uuid.FromString\<close>.\<close>

fun errors_response_to_partition_batch_result ::
  "(string \<Rightarrow> error + uuid) \<Rightarrow> (string \<times> string) list \<Rightarrow> batch_result \<Rightarrow> batch_result option" where
  "errors_response_to_partition_batch_result from_string [] m = Some m"
| "errors_response_to_partition_batch_result from_string ((i, e) # es) m = (case from_string i of
       Inl _ \<Rightarrow> None
     | Inr u \<Rightarrow> errors_response_to_partition_batch_result from_string es (AList.update u (RemoteError e) m))"

definition handle_partition_batch_request ::
  "remote \<Rightarrow> (string \<Rightarrow> error + uuid) \<Rightarrow> change_type \<Rightarrow> nat \<Rightarrow> (batch_item list \<Rightarrow> (partition, batch_result) prog) \<Rightarrow>
   nat \<Rightarrow> batch_item list \<Rightarrow> dataset \<Rightarrow> (batch_result \<times> dataset) option" where
  "handle_partition_batch_request rm from_string t r local k items d =
     (if \<not> on_this_node d k
      then do {
        n \<leftarrow> random_node_id r (ds_partitions d ! k);
        (case get_data_manager_client rm n d of
           (Inl e, d') \<Rightarrow> Some (error_to_partition_batch_result items e, d')
         | (Inr c, d') \<Rightarrow> (case rm_batch rm t c (ds_id d) (p_id (ds_partitions d ! k)) items of
               Inl e \<Rightarrow> Some (error_to_partition_batch_result items e, d')
             | Inr es \<Rightarrow> map_option (\<lambda>m. (m, d')) (errors_response_to_partition_batch_result from_string es []))) }
      else do {
        (res, d') \<leftarrow> on_partition k (local items) d;
        Some ((case res of Inl e \<Rightarrow> error_to_partition_batch_result items e | Inr errs \<Rightarrow> errs), d') })"

fun merge_results :: "batch_result \<Rightarrow> batch_result \<Rightarrow> batch_result" where
  "merge_results errs [] = errs"
| "merge_results errs ((i, e) # m) = merge_results (AList.update i e errs) m"

text \<open>
  The goroutines of \<open>partitionsBatchRequest\<close>, one per group, in the order in which their results
  arrive. \<open>ends\<close> is the number of results after which the context ends, if it ends first; the
  goroutines go on regardless.
\<close>

fun collect_groups ::
  "remote \<Rightarrow> (string \<Rightarrow> error + uuid) \<Rightarrow> change_type \<Rightarrow> (nat \<Rightarrow> nat) \<Rightarrow>
   (nat \<Rightarrow> batch_item list \<Rightarrow> (partition, batch_result) prog) \<Rightarrow> (nat \<times> batch_item list) list \<Rightarrow> batch_result \<Rightarrow>
   dataset \<Rightarrow> (batch_result \<times> dataset) option" where
  "collect_groups rm from_string t r local [] errs d = Some (errs, d)"
| "collect_groups rm from_string t r local ((k, items) # gs) errs d = do {
     (m, d') \<leftarrow> handle_partition_batch_request rm from_string t (r k) (local k) k items d;
     collect_groups rm from_string t r local gs (merge_results errs m) d' }"

definition partitions_batch_request ::
  "remote \<Rightarrow> (string \<Rightarrow> error + uuid) \<Rightarrow> change_type \<Rightarrow> (nat \<Rightarrow> nat) \<Rightarrow> env \<Rightarrow> nat option \<Rightarrow>
   (nat \<Rightarrow> batch_item list \<Rightarrow> (partition, batch_result) prog) \<Rightarrow> batch_item list \<Rightarrow> (dataset, batch_result) prog" where
  "partitions_batch_request rm from_string t r env ends local items d = do {
     gs \<leftarrow> group_batch_items_by_partition d items [];
     (errs, d') \<leftarrow> collect_groups rm from_string t r local (visit env gs) [] d;
     Some (if \<exists>n. ends = Some n \<and> n < length gs then Inl deadline_exceeded else Inr errs, d') }"

fun check_items :: "dataset \<Rightarrow> batch_item list \<Rightarrow> batch_result \<times> batch_item list \<Rightarrow> batch_result \<times> batch_item list" where
  "check_items d [] s = s"
| "check_items d (item # items) (errs, checked) = (case check_dimension (bi_value item) d of
       Some e \<Rightarrow> check_items d items (AList.update (uuid_from_bytes_or_nil (bi_id item)) e errs, checked)
     | None \<Rightarrow> check_items d items (errs, checked @ [item]))"

definition checked_batch ::
  "(batch_item list \<Rightarrow> (dataset, batch_result) prog) \<Rightarrow> batch_item list \<Rightarrow> (dataset, batch_result) prog" where
  "checked_batch request items d =
     (if max_batch_request_size < int (length items) then Some (Inl BatchRequestTooLarge, d)
      else let (errs, checked) = check_items d items ([], [])
           in andthen (request checked) (\<lambda>m. ret (merge_results errs m)) d)"

definition batch_insert ::
  "remote \<Rightarrow> (string \<Rightarrow> error + uuid) \<Rightarrow> (nat \<Rightarrow> nat) \<Rightarrow> env \<Rightarrow> nat option \<Rightarrow> (nat \<Rightarrow> raft_env) \<Rightarrow> (f32 \<Rightarrow> f32) \<Rightarrow>
   (nat \<Rightarrow> nat \<Rightarrow> f32) \<Rightarrow> batch_item list \<Rightarrow> (dataset, batch_result) prog" where
  "batch_insert rm from_string r env ends R lg xs = checked_batch
     (partitions_batch_request rm from_string BatchInsertValue r env ends (\<lambda>k. partition_batch_insert (R k) lg (xs k)))"

definition batch_update ::
  "remote \<Rightarrow> (string \<Rightarrow> error + uuid) \<Rightarrow> (nat \<Rightarrow> nat) \<Rightarrow> env \<Rightarrow> nat option \<Rightarrow> (nat \<Rightarrow> raft_env) \<Rightarrow>
   batch_item list \<Rightarrow> (dataset, batch_result) prog" where
  "batch_update rm from_string r env ends R = checked_batch
     (partitions_batch_request rm from_string BatchUpdateValue r env ends (\<lambda>k. partition_batch_update (R k)))"

definition batch_remove ::
  "remote \<Rightarrow> (string \<Rightarrow> error + uuid) \<Rightarrow> (nat \<Rightarrow> nat) \<Rightarrow> env \<Rightarrow> nat option \<Rightarrow> (nat \<Rightarrow> raft_env) \<Rightarrow>
   batch_item list \<Rightarrow> (dataset, batch_result) prog" where
  "batch_remove rm from_string r env ends R items d =
     (if max_batch_request_size < int (length items) then Some (Inl BatchRequestTooLarge, d)
      else partitions_batch_request rm from_string BatchDeleteValue r env ends (\<lambda>k. partition_batch_remove (R k)) items d)"

text \<open>The requests that another node proxies name their partition.\<close>

definition on_named_partition :: "uuid \<Rightarrow> (partition, 'a) prog \<Rightarrow> (dataset, 'a) prog" where
  "on_named_partition i m d = (case get_partition i d of Inl e \<Rightarrow> Some (Inl e, d) | Inr k \<Rightarrow> on_partition k m d)"

definition dataset_partition_batch_insert ::
  "raft_env \<Rightarrow> (f32 \<Rightarrow> f32) \<Rightarrow> (nat \<Rightarrow> f32) \<Rightarrow> uuid \<Rightarrow> batch_item list \<Rightarrow> (dataset, batch_result) prog" where
  "dataset_partition_batch_insert R lg xs i items = on_named_partition i (partition_batch_insert R lg xs items)"

definition dataset_partition_batch_update :: "raft_env \<Rightarrow> uuid \<Rightarrow> batch_item list \<Rightarrow> (dataset, batch_result) prog" where
  "dataset_partition_batch_update R i items = on_named_partition i (partition_batch_update R items)"

definition dataset_partition_batch_remove :: "raft_env \<Rightarrow> uuid \<Rightarrow> batch_item list \<Rightarrow> (dataset, batch_result) prog" where
  "dataset_partition_batch_remove R i items = on_named_partition i (partition_batch_remove R items)"

section \<open>Sizes\<close>

text \<open>\<open>Hnsw.BytesSize\<close> estimates with float64 exponentials; it is the argument \<open>bytes_size\<close>.\<close>

definition partition_info ::
  "(hnsw \<Rightarrow> 64 word) \<Rightarrow> uuid \<Rightarrow> dataset \<Rightarrow> error + (64 word \<times> 64 word)" where
  "partition_info bytes_size i d = (case get_partition i d of
       Inl e \<Rightarrow> Inl e
     | Inr k \<Rightarrow> if \<not> on_this_node d k then Inl PartitionNotOnNode
         else Inr (of_int (partition_len (ds_partitions d ! k)), bytes_size (p_index (ds_partitions d ! k))))"

text \<open>
  \<open>SizeInfo\<close>: a goroutine for every partition that is elsewhere. It reads the loop variable, so
  the partition it asks for is the one the loop has reached when it runs: \<open>seen k\<close> for the
  goroutine that the loop started at \<open>k\<close>. A closed channel yields nil, so a result is an error
  exactly when a goroutine sent one; the first to arrive is the first in the order of \<open>env\<close>.
\<close>

definition remote_size ::
  "remote \<Rightarrow> nat \<Rightarrow> nat \<Rightarrow> (dataset, 64 word \<times> 64 word) prog" where
  "remote_size rm r k d = do {
     n \<leftarrow> random_node_id r (ds_partitions d ! k);
     Some (case get_data_manager_client rm n d of
         (Inl e, d') \<Rightarrow> (Inl e, d')
       | (Inr c, d') \<Rightarrow> (rm_partition_info rm c (ds_id d) (p_id (ds_partitions d ! k)), d')) }"

fun remote_sizes ::
  "remote \<Rightarrow> (nat \<Rightarrow> nat) \<Rightarrow> (nat \<Rightarrow> nat) \<Rightarrow> nat list \<Rightarrow> 64 word \<times> 64 word \<Rightarrow> error option \<Rightarrow>
   (dataset, 64 word \<times> 64 word) prog" where
  "remote_sizes rm r seen [] s e d = Some (case e of Some err \<Rightarrow> Inl err | None \<Rightarrow> Inr s, d)"
| "remote_sizes rm r seen (k # ks) (l, b) e d = (case remote_size rm (r k) (seen k) d of
       None \<Rightarrow> None
     | Some (Inl err, d') \<Rightarrow> remote_sizes rm r seen ks (l, b) (case e of None \<Rightarrow> Some err | _ \<Rightarrow> e) d'
     | Some (Inr (l', b'), d') \<Rightarrow> remote_sizes rm r seen ks (l + l', b + b') e d')"

definition local_sizes :: "(hnsw \<Rightarrow> 64 word) \<Rightarrow> dataset \<Rightarrow> 64 word \<times> 64 word" where
  "local_sizes bytes_size d =
     (let ps = filter (is_on_node (cn_id (ds_conn d))) (ds_partitions d)
      in (sum_list (map (\<lambda>p. of_int (partition_len p)) ps), sum_list (map (\<lambda>p. bytes_size (p_index p)) ps)))"

definition size_info ::
  "remote \<Rightarrow> (hnsw \<Rightarrow> 64 word) \<Rightarrow> (nat \<Rightarrow> nat) \<Rightarrow> (nat \<Rightarrow> nat) \<Rightarrow> env \<Rightarrow> bool \<Rightarrow> (dataset, 64 word \<times> 64 word) prog" where
  "size_info rm bytes_size r seen env ends d =
     andthen (remote_sizes rm r seen (visit env (filter (\<lambda>k. \<not> on_this_node d k) [0..<length (ds_partitions d)]))
        (local_sizes bytes_size d) None)
       (\<lambda>s. if ends then fail deadline_exceeded else ret s) d"

definition dataset_len ::
  "remote \<Rightarrow> (hnsw \<Rightarrow> 64 word) \<Rightarrow> (nat \<Rightarrow> nat) \<Rightarrow> (nat \<Rightarrow> nat) \<Rightarrow> env \<Rightarrow> bool \<Rightarrow> (dataset, 64 word) prog" where
  "dataset_len rm bytes_size r seen env ends = andthen (size_info rm bytes_size r seen env ends) (\<lambda>(l, _). ret l)"

definition dataset_bytes_size ::
  "remote \<Rightarrow> (hnsw \<Rightarrow> 64 word) \<Rightarrow> (nat \<Rightarrow> nat) \<Rightarrow> (nat \<Rightarrow> nat) \<Rightarrow> env \<Rightarrow> bool \<Rightarrow> (dataset, 64 word) prog" where
  "dataset_bytes_size rm bytes_size r seen env ends = andthen (size_info rm bytes_size r seen env ends) (\<lambda>(_, b). ret b)"

end
