(* ===== verification/DatasetSearch.thy ===== *)
theory DatasetSearch
  imports Dataset HnswResults
begin

text \<open>
  The concurrent part of \<open>storage/dataset.go\<close>: \<open>Search\<close> asks one goroutine per node,
  \<open>SearchPartitions\<close> one per partition, and both collect the answers from two buffered channels that
  a last goroutine closes. The goroutines interleave freely, so the collection is a step relation
  on the channels; what a worker sends is a function of what its node or partition answers.
  \<open>sort.Sort\<close> is an argument: any function that sorts.
\<close>

section \<open>What the workers send\<close>

datatype sent = SentResult search_result | SentError error

definition search_partition :: "space_impl \<Rightarrow> env \<Rightarrow> vec \<Rightarrow> 64 word \<Rightarrow> partition \<Rightarrow> sent list option" where
  "search_partition impl env q k p = map_option (\<lambda>rs. [SentResult rs]) (partition_search impl env q k p)"

text \<open>
  A node answers a search with a stream of items, ended by EOF or by an error. An item whose id is
  no UUID makes the worker send an error and go on.
\<close>

record stream_item =
  si_id :: bytes
  si_metadata :: metadata
  si_score :: f32

type_synonym search_stream = "stream_item list \<times> error option"

fun read_stream :: "stream_item list \<Rightarrow> error option \<Rightarrow> search_result \<Rightarrow> sent list" where
  "read_stream [] (Some e) rs = [SentError e]"
| "read_stream [] None rs = [SentResult rs]"
| "read_stream (x # xs) e rs = (case uuid_from_bytes (si_id x) of
       Inl err \<Rightarrow> SentError err # read_stream xs e
         (rs @ [\<lparr>sr_id = uuid_nil, sr_metadata = si_metadata x, sr_score = si_score x\<rparr>])
     | Inr i \<Rightarrow> read_stream xs e (rs @ [\<lparr>sr_id = i, sr_metadata = si_metadata x, sr_score = si_score x\<rparr>]))"

definition search_partitions_on_node ::
  "remote \<Rightarrow> (client \<Rightarrow> uuid list \<Rightarrow> vec \<Rightarrow> 32 word \<Rightarrow> error + search_stream) \<Rightarrow> node_id \<Rightarrow> uuid list \<Rightarrow> vec \<Rightarrow>
   64 word \<Rightarrow> dataset \<Rightarrow> sent list \<times> dataset" where
  "search_partitions_on_node rm rpc n pids q k d = (case get_node_search_client rm n d of
       (Inl e, d') \<Rightarrow> ([SentError e], d')
     | (Inr c, d') \<Rightarrow> ((case rpc c pids q (ucast k) of
           Inl e \<Rightarrow> [SentError e]
         | Inr (items, e) \<Rightarrow> read_stream items e []), d'))"

text \<open>\<open>rand.Intn\<close> panics when a partition has no node; \<open>r k\<close> is the draw for the partition at \<open>k\<close>.\<close>

fun add_query_node :: "node_id \<Rightarrow> uuid \<Rightarrow> (node_id \<times> uuid list) list \<Rightarrow> (node_id \<times> uuid list) list" where
  "add_query_node n i [] = [(n, [i])]"
| "add_query_node n i ((n', is) # m) = (if n' = n then (n', is @ [i]) # m else (n', is) # add_query_node n i m)"

fun query_nodes :: "(nat \<Rightarrow> nat) \<Rightarrow> nat \<Rightarrow> partition list \<Rightarrow> (node_id \<times> uuid list) list \<Rightarrow> (node_id \<times> uuid list) list option" where
  "query_nodes r k [] m = Some m"
| "query_nodes r k (p # ps) m = do {
     n \<leftarrow> random_node_id (r k) p;
     query_nodes r (Suc k) ps (add_query_node n (p_id p) m) }"

definition get_search_query_nodes :: "(nat \<Rightarrow> nat) \<Rightarrow> dataset \<Rightarrow> (node_id \<times> uuid list) list option" where
  "get_search_query_nodes r d = query_nodes r 0 (ds_partitions d) []"

section \<open>Collecting\<close>

text \<open>
  \<open>to_send\<close> is what every worker still has to send. The channels have room for one value per
  worker. \<open>to_receive\<close> counts the iterations left of the collecting loop.
\<close>

record collector =
  to_send :: "sent list list"
  results :: "search_result list"
  failures :: "error list"
  chans_closed :: bool
  collected :: search_result
  to_receive :: nat
  returned :: "(error + search_result) option"

definition start_collector :: "sent list list \<Rightarrow> collector" where
  "start_collector ws = \<lparr>to_send = ws, results = [], failures = [], chans_closed = False, collected = [],
     to_receive = length ws, returned = None\<rparr>"

text \<open>\<open>result[:math.MinInt(int(k), len(result))]\<close> for a \<open>k\<close> that is not negative as an int.\<close>

definition best :: "(search_result \<Rightarrow> search_result) \<Rightarrow> 64 word \<Rightarrow> search_result \<Rightarrow> search_result" where
  "best sorter k rs = take (nat (min (sint k) (int (length rs)))) (sorter rs)"

inductive collector_step :: "(search_result \<Rightarrow> search_result) \<Rightarrow> 64 word \<Rightarrow> collector \<Rightarrow> collector \<Rightarrow> bool"
  for sorter :: "search_result \<Rightarrow> search_result" and k :: "64 word" where
  send_result: "i < length (to_send s) \<Longrightarrow> to_send s ! i = SentResult r # rest \<Longrightarrow>
     length (results s) < length (to_send s) \<Longrightarrow>
     collector_step sorter k s (s\<lparr>to_send := (to_send s)[i := rest], results := results s @ [r]\<rparr>)"
| send_failure: "i < length (to_send s) \<Longrightarrow> to_send s ! i = SentError e # rest \<Longrightarrow>
     length (failures s) < length (to_send s) \<Longrightarrow>
     collector_step sorter k s (s\<lparr>to_send := (to_send s)[i := rest], failures := failures s @ [e]\<rparr>)"
| close_chans: "\<forall>w \<in> set (to_send s). w = [] \<Longrightarrow> \<not> chans_closed s \<Longrightarrow>
     collector_step sorter k s (s\<lparr>chans_closed := True\<rparr>)"
| receive_result: "returned s = None \<Longrightarrow> to_receive s = Suc n \<Longrightarrow> results s = r # rs \<Longrightarrow>
     collector_step sorter k s (s\<lparr>results := rs, collected := collected s @ r, to_receive := n\<rparr>)"
| receive_no_result: "returned s = None \<Longrightarrow> to_receive s = Suc n \<Longrightarrow> results s = [] \<Longrightarrow> chans_closed s \<Longrightarrow>
     collector_step sorter k s (s\<lparr>to_receive := n\<rparr>)"
| receive_failure: "returned s = None \<Longrightarrow> to_receive s = Suc n \<Longrightarrow> failures s = e # es \<Longrightarrow>
     collector_step sorter k s (s\<lparr>failures := es, returned := Some (Inl e)\<rparr>)"
| receive_nil_failure: "returned s = None \<Longrightarrow> to_receive s = Suc n \<Longrightarrow> failures s = [] \<Longrightarrow> chans_closed s \<Longrightarrow>
     collector_step sorter k s (s\<lparr>returned := Some (Inr [])\<rparr>)"
| context_done: "returned s = None \<Longrightarrow> to_receive s = Suc n \<Longrightarrow>
     collector_step sorter k s (s\<lparr>returned := Some (Inl deadline_exceeded)\<rparr>)"
| all_received: "returned s = None \<Longrightarrow> to_receive s = 0 \<Longrightarrow>
     collector_step sorter k s (s\<lparr>returned := Some (Inr (best sorter k (collected s)))\<rparr>)"

definition collector_run :: "(search_result \<Rightarrow> search_result) \<Rightarrow> 64 word \<Rightarrow> collector \<Rightarrow> collector \<Rightarrow> bool" where
  "collector_run sorter k = (collector_step sorter k)\<^sup>*\<^sup>*"

section \<open>Search and SearchPartitions\<close>

text \<open>The workers of \<open>Search\<close>, in the order in which their goroutines start.\<close>

fun node_workers ::
  "remote \<Rightarrow> (client \<Rightarrow> uuid list \<Rightarrow> vec \<Rightarrow> 32 word \<Rightarrow> error + search_stream) \<Rightarrow> (node_id \<times> uuid list) list \<Rightarrow> vec \<Rightarrow>
   64 word \<Rightarrow> dataset \<Rightarrow> sent list list \<times> dataset" where
  "node_workers rm rpc [] q k d = ([], d)"
| "node_workers rm rpc ((n, is) # m) q k d =
     (let (w, d') = search_partitions_on_node rm rpc n is q k d; (ws, d'') = node_workers rm rpc m q k d'
      in (w # ws, d''))"

definition dataset_search ::
  "remote \<Rightarrow> (client \<Rightarrow> uuid list \<Rightarrow> vec \<Rightarrow> 32 word \<Rightarrow> error + search_stream) \<Rightarrow> (nat \<Rightarrow> nat) \<Rightarrow> env \<Rightarrow> vec \<Rightarrow>
   64 word \<Rightarrow> (dataset, sent list list) prog" where
  "dataset_search rm rpc r env q k d = (case check_dimension q d of
       Some e \<Rightarrow> Some (Inl e, d)
     | None \<Rightarrow> do {
         m \<leftarrow> get_search_query_nodes r d;
         let (ws, d') = node_workers rm rpc (visit env m) q k d;
         Some (Inr ws, d') })"

fun partition_workers :: "space_impl \<Rightarrow> env \<Rightarrow> vec \<Rightarrow> 64 word \<Rightarrow> partition list \<Rightarrow> sent list list option" where
  "partition_workers impl env q k [] = Some []"
| "partition_workers impl env q k (p # ps) = do {
     w \<leftarrow> search_partition impl (sub env 0) q k p;
     ws \<leftarrow> partition_workers impl (sub env 1) q k ps;
     Some (w # ws) }"

fun get_partitions :: "dataset \<Rightarrow> uuid list \<Rightarrow> error + partition list" where
  "get_partitions d [] = Inr []"
| "get_partitions d (i # is) = (case get_partition i d of
       Inl e \<Rightarrow> Inl e
     | Inr k \<Rightarrow> map_sum (\<lambda>e. e) ((#) (ds_partitions d ! k)) (get_partitions d is))"

definition search_partitions ::
  "space_impl \<Rightarrow> env \<Rightarrow> uuid list \<Rightarrow> vec \<Rightarrow> 64 word \<Rightarrow> dataset \<Rightarrow> (error + sent list list) option" where
  "search_partitions impl env is q k d = (case get_partitions d is of
       Inl e \<Rightarrow> Some (Inl e)
     | Inr ps \<Rightarrow> map_option Inr (partition_workers impl env q k ps))"

text \<open>The result that a search returns is one its workers' collector can return.\<close>

definition may_return :: "(search_result \<Rightarrow> search_result) \<Rightarrow> 64 word \<Rightarrow> sent list list \<Rightarrow> error + search_result \<Rightarrow> bool" where
  "may_return sorter k ws r = (\<exists>s. collector_run sorter k (start_collector ws) s \<and> returned s = Some r)"

section \<open>The collector\<close>

lemma concat_update_Nil: "i < length ws \<Longrightarrow> ws ! i = [x] \<Longrightarrow> mset (concat ws) = add_mset x (mset (concat (ws[i := []])))"
proof (induction ws arbitrary: i)
  case (Cons w ws)
  then show ?case by (cases i) (auto simp: ac_simps)
qed simp

definition answers :: "sent list list \<Rightarrow> search_result list" where
  "answers ws = map (\<lambda>x. case x of SentResult r \<Rightarrow> r | SentError _ \<Rightarrow> []) (concat ws)"

lemma answers_update:
  assumes "i < length ws" "ws ! i = [SentResult r]"
  shows "mset (concat (answers ws)) = mset r + mset (concat (answers (ws[i := []])))"
    "length (concat ws) = Suc (length (concat (ws[i := []])))"
proof -
  let ?f = "\<lambda>x. case x of SentResult r \<Rightarrow> r | SentError _ \<Rightarrow> ([] :: search_result)"
  have *: "mset (concat xs) = sum_mset (image_mset mset (mset xs))" for xs :: "search_result list"
    by (induction xs) auto
  have m: "mset (concat ws) = add_mset (SentResult r) (mset (concat (ws[i := []])))"
    using concat_update_Nil [OF assms] .
  then have "mset (map ?f (concat ws)) = add_mset r (mset (map ?f (concat (ws[i := []]))))" by simp
  then show "mset (concat (answers ws)) = mset r + mset (concat (answers (ws[i := []])))"
    by (simp add: * answers_def)
  show "length (concat ws) = Suc (length (concat (ws[i := []])))"
    using m by (rule mset_add_length)
qed

text \<open>While every worker has one result to send, the loop receives each exactly once.\<close>

definition collecting :: "(search_result \<Rightarrow> search_result) \<Rightarrow> 64 word \<Rightarrow> search_result list \<Rightarrow> collector \<Rightarrow> bool" where
  "collecting sorter k rs s =
     ((\<forall>w \<in> set (to_send s). w = [] \<or> (\<exists>r. w = [SentResult r])) \<and> failures s = [] \<and>
      (returned s = None \<longrightarrow> to_receive s = length (results s) + length (concat (to_send s))) \<and>
      (chans_closed s \<longrightarrow> concat (to_send s) = []) \<and>
      (returned s = None \<longrightarrow>
         mset (collected s) + mset (concat (results s)) + mset (concat (answers (to_send s))) = mset (concat rs)) \<and>
      (\<forall>out. returned s = Some (Inr out) \<longrightarrow>
         out = [] \<or> (\<exists>ys. mset ys = mset (concat rs) \<and> out = best sorter k ys)))"

lemma collecting_start: "collecting sorter k rs (start_collector (map (\<lambda>r. [SentResult r]) rs))"
  by (auto simp: collecting_def start_collector_def answers_def o_def length_concat concat_map_singleton)

lemma set_update_Nil: "\<forall>w \<in> set ws. w = [] \<or> P w \<Longrightarrow> \<forall>w \<in> set (ws[i := []]). w = [] \<or> P w"
  by (meson insert_iff set_update_subset_insert subsetD)

lemma collecting_step: "collector_step sorter k s s' \<Longrightarrow> collecting sorter k rs s \<Longrightarrow> collecting sorter k rs s'"
proof (induction rule: collector_step.induct)
  case (send_result i s r rest)
  have one: "to_send s ! i = [SentResult r]" "rest = []"
    using send_result by (auto simp: collecting_def dest!: bspec [OF _ nth_mem])
  have ok: "\<forall>w \<in> set ((to_send s)[i := []]). w = [] \<or> (\<exists>r. w = [SentResult r])"
    by (rule set_update_Nil) (use send_result in \<open>simp add: collecting_def\<close>)
  have "\<not> chans_closed s"
    using send_result one by (auto simp: collecting_def dest!: bspec [OF _ nth_mem])
  then show ?case
    using send_result ok answers_update [OF send_result(1) one(1)] by (simp add: collecting_def one(2) ac_simps)
next
  case (send_failure i s e rest)
  then have "to_send s ! i = [] \<or> (\<exists>r. to_send s ! i = [SentResult r])"
    using nth_mem [OF send_failure(1)] by (auto simp: collecting_def simp del: nth_mem)
  then show ?case using send_failure(2) by auto
next
  case (close_chans s)
  then show ?case by (auto simp: collecting_def)
next
  case (receive_result s n r rs')
  then show ?case by (auto simp: collecting_def ac_simps)
next
  case (receive_no_result s n)
  then have c: "concat (to_send s) = []" and n: "to_receive s = length (results s) + length (concat (to_send s))"
    unfolding collecting_def by blast+
  have "to_receive s = 0" using n unfolding c receive_no_result(3) by simp
  then show ?case using receive_no_result(2) by simp
next
  case (all_received s)
  then have n: "to_receive s = length (results s) + length (concat (to_send s))"
    and m: "mset (collected s) + mset (concat (results s)) + mset (concat (answers (to_send s))) = mset (concat rs)"
    unfolding collecting_def by blast+
  have "results s = []" "answers (to_send s) = []" using n all_received(2) by (simp_all add: answers_def)
  then have "mset (collected s) = mset (concat rs)" using m by simp
  then show ?case using all_received by (auto simp: collecting_def)
qed (auto simp: collecting_def)

lemma collecting_run:
  assumes "may_return sorter k (map (\<lambda>r. [SentResult r]) rs) (Inr out)"
  shows "out = [] \<or> (\<exists>ys. mset ys = mset (concat rs) \<and> out = best sorter k ys)"
proof -
  obtain s where s: "collector_run sorter k (start_collector (map (\<lambda>r. [SentResult r]) rs)) s" "returned s = Some (Inr out)"
    using assms by (auto simp: may_return_def)
  have "collecting sorter k rs s"
    using s(1) unfolding collector_run_def
    by (induction rule: rtranclp_induct) (auto intro: collecting_start collecting_step)
  then show ?thesis using s(2) by (simp add: collecting_def)
qed

section \<open>The nearest items\<close>

definition sorts :: "(search_result \<Rightarrow> search_result) \<Rightarrow> bool" where
  "sorts sorter = (\<forall>ys. (\<forall>y \<in> set ys. \<not> f32_nan (sr_score y)) \<longrightarrow> mset (sorter ys) = mset ys \<and> ascending (sorter ys))"

text \<open>\<open>nearest n S r\<close>: \<open>r\<close> lists \<open>n\<close> items of \<open>S\<close> (all, if there are fewer) and no other is closer.\<close>

definition nearest :: "nat \<Rightarrow> search_result \<Rightarrow> search_result \<Rightarrow> bool" where
  "nearest n S r = (ascending r \<and> length r = min n (length S) \<and>
     (\<exists>rest. mset S = mset r + mset rest \<and> (\<forall>x \<in> set r. \<forall>y \<in> set rest. \<not> search_result_less y x)))"

abbreviation score_key :: "search_result_item \<Rightarrow> int" where
  "score_key x \<equiv> f32_key (sr_score x)"

lemma less_key: "\<not> f32_nan (sr_score x) \<Longrightarrow> \<not> f32_nan (sr_score y) \<Longrightarrow>
    search_result_less x y = (score_key x < score_key y)"
  by (simp add: search_result_less_def f32_lt_def)

lemma ascending_sorted: "\<forall>x \<in> set r. \<not> f32_nan (sr_score x) \<Longrightarrow> ascending r = sorted (map score_key r)"
proof -
  assume r: "\<forall>x \<in> set r. \<not> f32_nan (sr_score x)"
  then have "sorted_wrt (\<lambda>a b. \<not> search_result_less b a) r = sorted_wrt (\<lambda>a b. score_key a \<le> score_key b) r"
    by (auto simp: less_key not_less sorted_wrt_iff_nth_less)
  then show "ascending r = sorted (map score_key r)" by (simp add: ascending_def sorted_map)
qed

text \<open>In a sorted list an element has only as many smaller ones as there are before it.\<close>

lemma smaller_before:
  assumes "sorted (map f zs)" "j < length zs"
  shows "length (filter (\<lambda>z. f z < (f (zs ! j) :: int)) zs) \<le> j"
proof -
  have le: "f (zs ! i) \<le> f (zs ! l)" if "i \<le> l" "l < length zs" for i l
    using sorted_nth_mono [OF assms(1), of i l] that by simp
  have "filter (\<lambda>z. f z < f (zs ! j)) (drop j zs) = []"
  proof -
    have "f (zs ! j) \<le> f z" if "z \<in> set (drop j zs)" for z
      using that le [of j] by (auto simp: in_set_conv_nth)
    then show ?thesis by (auto simp: filter_empty_conv not_less)
  qed
  then have "filter (\<lambda>z. f z < f (zs ! j)) zs = filter (\<lambda>z. f z < f (zs ! j)) (take j zs)"
    by (metis append_Nil2 append_take_drop_id filter_append)
  also have "length \<dots> \<le> length (take j zs)" by (rule length_filter_le)
  finally show ?thesis using assms(2) by simp
qed

lemma length_filter_mset: "mset xs = mset ys + M \<Longrightarrow> length (filter P ys) \<le> length (filter P xs)"
proof -
  assume "mset xs = mset ys + M"
  then have "filter_mset P (mset xs) = filter_mset P (mset ys) + filter_mset P M" by simp
  then have "size (filter_mset P (mset xs)) = size (filter_mset P (mset ys)) + size (filter_mset P M)"
    by (metis size_union)
  then have "size (mset (filter P ys)) \<le> size (mset (filter P xs))" unfolding mset_filter by linarith
  then show ?thesis by (simp only: size_mset)
qed

lemma mset_concat_member: "r \<in> set rs \<Longrightarrow> \<exists>M. mset (concat rs) = mset r + M"
  by (induction rs) (auto simp: ac_simps intro: exI)

lemma nearest_merge:
  assumes sorter: "sorts sorter" and num: "\<forall>(S, r) \<in> set Ss. nearest n S r \<and> (\<forall>x \<in> set S. \<not> f32_nan (sr_score x))"
    and ys: "mset ys = mset (concat (map snd Ss))"
  shows "nearest n (concat (map fst Ss)) (take n (sorter ys))"
proof -
  let ?S = "concat (map fst Ss)" and ?zs = "sorter ys"
  have nan: "\<not> f32_nan (sr_score x)" if "x \<in> set ?S" for x using that num by auto
  have part: "\<exists>rest. mset S = mset r + mset rest \<and> length r = min n (length S) \<and>
      (\<forall>x \<in> set r. \<forall>y \<in> set rest. score_key x \<le> score_key y)" if "(S, r) \<in> set Ss" for S r
  proof -
    have "nearest n S r" and S: "\<forall>x \<in> set S. \<not> f32_nan (sr_score x)" using num that by auto
    then obtain rest where rest: "mset S = mset r + mset rest" "length r = min n (length S)"
      "\<forall>x \<in> set r. \<forall>y \<in> set rest. \<not> search_result_less y x" by (auto simp: nearest_def)
    have "set S = set r \<union> set rest" using rest(1) by (rule mset_union_set)
    then show ?thesis using rest S by (auto simp: less_key not_less intro!: exI [of _ rest])
  qed
  have merged: "\<exists>rest. mset (concat (map fst T)) = mset (concat (map snd T)) + mset rest \<and>
      (\<forall>y \<in> set rest. \<exists>(S, r) \<in> set T. length r = n \<and> (\<forall>x \<in> set r. score_key x \<le> score_key y))"
    if "set T \<subseteq> set Ss" for T
    using that
  proof (induction T)
    case (Cons Sr T)
    obtain S r where Sr: "Sr = (S, r)" by (cases Sr)
    obtain rest where rest: "mset (concat (map fst T)) = mset (concat (map snd T)) + mset rest"
      "\<forall>y \<in> set rest. \<exists>(S, r) \<in> set T. length r = n \<and> (\<forall>x \<in> set r. score_key x \<le> score_key y)"
      using Cons by auto
    obtain rest' where rest': "mset S = mset r + mset rest'" "length r = min n (length S)"
      "\<forall>x \<in> set r. \<forall>y \<in> set rest'. score_key x \<le> score_key y" using part [of S r] Cons.prems Sr by auto
    have "length r = n" if "rest' \<noteq> []"
    proof -
      have "length S = length r + length rest'" using arg_cong [OF rest'(1), of size] by simp
      then show ?thesis using rest'(2) that by (cases rest') auto
    qed
    then have "\<forall>y \<in> set rest'. length r = n \<and> (\<forall>x \<in> set r. score_key x \<le> score_key y)" using rest'(3) by force
    then show ?case
      using rest rest'(1) by (intro exI [of _ "rest' @ rest"]) (auto simp: Sr ac_simps split_beta)
  qed simp
  obtain rest where rest0: "mset ?S = mset (concat (map snd Ss)) + mset rest"
    "\<forall>y \<in> set rest. \<exists>(S, r) \<in> set Ss. length r = n \<and> (\<forall>x \<in> set r. score_key x \<le> score_key y)"
    using merged [OF subset_refl] by blast
  note rest = rest0(1) [folded ys] rest0(2)
  have nan_ys: "\<forall>y \<in> set ys. \<not> f32_nan (sr_score y)" using nan unfolding mset_union_set [OF rest(1)] by blast
  then have zs: "mset ?zs = mset ys" "ascending ?zs" using sorter by (auto simp: sorts_def)
  have set_zs: "set ?zs = set ys" using zs(1) by (metis set_mset_mset)
  have sorted: "sorted (map score_key ?zs)" using zs(2) ascending_sorted [of ?zs] nan_ys set_zs by simp
  have far: "score_key x \<le> score_key y" if x: "x \<in> set (take n ?zs)" and y: "y \<in> set rest" for x y
  proof (rule ccontr)
    assume "\<not> ?thesis"
    then have yx: "score_key y < score_key x" by simp
    obtain S r where r: "(S, r) \<in> set Ss" "length r = n" "\<forall>x \<in> set r. score_key x \<le> score_key y"
      using rest(2) y by blast
    obtain j where j: "j < n" "j < length ?zs" "x = ?zs ! j" using x by (auto simp: in_set_conv_nth)
    have "r \<in> set (map snd Ss)" using r(1) by force
    then obtain M where "mset ?zs = mset r + M" using mset_concat_member [of r "map snd Ss"] zs(1) ys by auto
    then have "length (filter (\<lambda>z. score_key z < score_key x) r) \<le> length (filter (\<lambda>z. score_key z < score_key x) ?zs)"
      by (rule length_filter_mset)
    also have "\<dots> \<le> j" using smaller_before [OF sorted j(2)] j(3) by simp
    finally have "length (filter (\<lambda>z. score_key z < score_key x) r) \<le> j" .
    moreover have "filter (\<lambda>z. score_key z < score_key x) r = r" using r(3) yx by (force simp: filter_id_conv)
    ultimately show False using r(2) j(1) by simp
  qed
  have near: "score_key x \<le> score_key y" if "x \<in> set (take n ?zs)" "y \<in> set (drop n ?zs)" for x y
  proof -
    have "sorted (map score_key (take n ?zs @ drop n ?zs))" using sorted by simp
    then show ?thesis using that unfolding map_append sorted_append by auto
  qed
  have nanr: "\<not> f32_nan (sr_score x)" if "x \<in> set (take n ?zs) \<union> set (drop n ?zs @ rest)" for x
  proof -
    have "x \<in> set ys \<union> set rest" using that set_zs by (auto dest: in_set_takeD in_set_dropD)
    then show ?thesis using nan unfolding mset_union_set [OF rest(1)] by blast
  qed
  have "ascending (take n ?zs)"
    using zs(2) by (metis ascending_def append_take_drop_id sorted_wrt_append)
  moreover have "mset ?S = mset (take n ?zs) + mset (drop n ?zs @ rest)"
    using rest(1) zs(1) by (metis append_take_drop_id mset_append append.assoc)
  moreover have "length (take n ?zs) = min n (length ?S)"
  proof (cases "n \<le> length ?zs")
    case True
    then show ?thesis using arg_cong [OF rest(1), of size] arg_cong [OF zs(1), of size] by simp
  next
    case False
    have "rest = []"
    proof (rule ccontr)
      assume "rest \<noteq> []"
      then obtain S r where r: "(S, r) \<in> set Ss" "length r = n" using rest(2) by (cases rest) auto
      then have "r \<in> set (map snd Ss)" by force
      then obtain M where "mset ?zs = mset r + M" using mset_concat_member [of r "map snd Ss"] zs(1) ys by auto
      then have "length ?zs = length r + size M" by (metis size_mset size_union)
      then show False using False r(2) by simp
    qed
    then show ?thesis using False arg_cong [OF rest(1), of size] arg_cong [OF zs(1), of size] by simp
  qed
  moreover have "\<forall>x \<in> set (take n ?zs). \<forall>y \<in> set (drop n ?zs @ rest). \<not> search_result_less y x"
    using far near nanr by (auto simp: less_key not_less)
  ultimately show ?thesis unfolding nearest_def by blast
qed

end
