(* ===== verification/DatasetSearchProperties.thy ===== *)
theory DatasetSearchProperties
  imports DatasetSearch HnswProperties PartitionProperties
begin

text \<open>
  What a search over a dataset returns: the exact answer of all partitions together when every
  partition answers exactly, and the outcomes that the closing of the channels adds to it.
\<close>

section \<open>The items of a partition, with their distances\<close>

definition scored_items :: "distance \<Rightarrow> vec \<Rightarrow> hnsw \<Rightarrow> search_result" where
  "scored_items D q h = map (\<lambda>(i, _). case lookup h i of
       Some (x, m) \<Rightarrow> \<lparr>sr_id = i, sr_metadata = m, sr_score = D q x\<rparr>
     | None \<Rightarrow> \<lparr>sr_id = i, sr_metadata = None, sr_score = 0\<rparr>) (entries h)"

definition exact_partition :: "space_impl \<Rightarrow> vec \<Rightarrow> partition \<Rightarrow> bool" where
  "exact_partition impl q p =
     (let h = p_index p
      in hnsw_ok h \<and> regular (index_distance impl h) (h_store h) q \<and> entrypoint_live h \<and> h_entrypoint h \<noteq> nil \<and>
         plain_algorithm (h_config h) \<and> connected h \<and> int (card (dom (lookup h))) \<le> cfg_ef (h_config h))"

lemma dom_lookup: "map_ok h \<Longrightarrow> dom (lookup h) = fst ` set (entries h)"
proof -
  assume map: "map_ok h"
  have "\<exists>p. (i, p) \<in> set (entries h)" if i: "i \<in> dom (lookup h)" for i
  proof -
    obtain p where "find_vertex h i = Some p" using i lookup_eq_None [OF map, of i] by auto
    then have "(i, p) \<in> set (h_vertices h ! shard_idx i)" using find_vertex_ok [OF map] by metis
    moreover have "h_vertices h ! shard_idx i \<in> set (h_vertices h)"
      using map shard_idx_less [of i] by (simp add: map_ok_def)
    ultimately show ?thesis by (auto simp: entries_def)
  qed
  then have "dom (lookup h) \<subseteq> fst ` set (entries h)" by force
  moreover have "card (dom (lookup h)) = card (fst ` set (entries h))"
    using card_dom_lookup [OF map] distinct_card [OF entries_distinct [OF map]] by simp
  ultimately show ?thesis by (simp add: card_subset_eq)
qed

lemma scored_items_facts:
  assumes "map_ok h"
  shows "map sr_id (scored_items D q h) = map fst (entries h)" "distinct (map sr_id (scored_items D q h))"
    "length (scored_items D q h) = card (dom (lookup h))"
    "x \<in> set (scored_items D q h) \<longleftrightarrow>
       (\<exists>v. lookup h (sr_id x) = Some (v, sr_metadata x) \<and> sr_score x = D q v)"
proof -
  show ids: "map sr_id (scored_items D q h) = map fst (entries h)"
    by (auto simp: scored_items_def split: option.split prod.split)
  show "distinct (map sr_id (scored_items D q h))" by (simp add: ids entries_distinct [OF assms])
  show "length (scored_items D q h) = card (dom (lookup h))" by (simp add: scored_items_def card_dom_lookup [OF assms])
  show "x \<in> set (scored_items D q h) \<longleftrightarrow> (\<exists>v. lookup h (sr_id x) = Some (v, sr_metadata x) \<and> sr_score x = D q v)"
  proof
    assume "x \<in> set (scored_items D q h)"
    then obtain e where e: "e \<in> set (entries h)" "x = (case lookup h (fst e) of
        Some (v, m) \<Rightarrow> \<lparr>sr_id = fst e, sr_metadata = m, sr_score = D q v\<rparr>
      | None \<Rightarrow> \<lparr>sr_id = fst e, sr_metadata = None, sr_score = 0\<rparr>)"
      by (auto simp: scored_items_def split_beta)
    then have "fst e \<in> dom (lookup h)" using dom_lookup [OF assms] by blast
    then show "\<exists>v. lookup h (sr_id x) = Some (v, sr_metadata x) \<and> sr_score x = D q v" using e(2) by auto
  next
    assume "\<exists>v. lookup h (sr_id x) = Some (v, sr_metadata x) \<and> sr_score x = D q v"
    then obtain v where v: "lookup h (sr_id x) = Some (v, sr_metadata x)" "sr_score x = D q v" by blast
    then have "sr_id x \<in> fst ` set (entries h)" using dom_lookup [OF assms] by blast
    then obtain p where "(sr_id x, p) \<in> set (entries h)" by auto
    then have "\<lparr>sr_id = sr_id x, sr_metadata = sr_metadata x, sr_score = D q v\<rparr> \<in> set (scored_items D q h)"
      using v(1) by (force simp: scored_items_def)
    then show "x \<in> set (scored_items D q h)" using v(2) by (cases x) simp
  qed
qed

lemma exact_partition_search:
  assumes p: "exact_partition impl q p" and impl: "accepted_impl impl" and env: "fair env" and k: "0 \<le> sint k"
  shows "\<exists>r. search_partition impl env q k p = Some [SentResult r] \<and>
    nearest (nat (sint k)) (scored_items (index_distance impl (p_index p)) q (p_index p)) r \<and>
    (\<forall>x \<in> set (scored_items (index_distance impl (p_index p)) q (p_index p)). \<not> f32_nan (sr_score x))"
proof -
  let ?h = "p_index p"
  let ?D = "index_distance impl ?h"
  let ?S = "scored_items ?D q ?h"
  have ok: "hnsw_ok ?h" "regular ?D (h_store ?h) q" "entrypoint_live ?h" "h_entrypoint ?h \<noteq> nil"
    "plain_algorithm (h_config ?h)" "connected ?h" "int (card (dom (lookup ?h))) \<le> cfg_ef (h_config ?h)"
    using p by (simp_all add: exact_partition_def Let_def)
  have map: "map_ok ?h" using ok(1) by (simp add: hnsw_ok_def)
  note D = accepted_index_distance [OF impl, of ?h]
  note S = scored_items_facts [OF map, where D = ?D and q = q]
  obtain r where r: "hnsw_search ?D env q k ?h = Some r" "length r = min (nat (sint k)) (card (dom (lookup ?h)))"
    "\<forall>x \<in> set r. \<forall>i v m. lookup ?h i = Some (v, m) \<longrightarrow> i \<notin> sr_id ` set r \<longrightarrow> \<not> f32_lt (?D q v) (sr_score x)"
    using search_exact [OF ok(1) env D ok(2-4) k ok(5-7)] by blast
  have sound: "ascending r" "distinct (map sr_id r)"
    "\<forall>x \<in> set r. \<exists>v. lookup ?h (sr_id x) = Some (v, sr_metadata x) \<and> sr_score x = ?D q v"
    using search_sound [OF ok(1) env D ok(2,3) k] r(1) by auto
  define rest where "rest = filter (\<lambda>x. x \<notin> set r) ?S"
  have sub: "set r \<subseteq> set ?S" using sound(3) S(4) by blast
  have "mset ?S = mset r + mset rest"
  proof -
    have "distinct ?S" "distinct r" using S(2) sound(2) by (simp_all add: distinct_map)
    moreover have "set (r @ rest) = set ?S" using sub by (auto simp: rest_def)
    moreover have "distinct (r @ rest)" using calculation(1,2) by (auto simp: rest_def)
    ultimately have "mset (r @ rest) = mset ?S" by (metis set_eq_iff_mset_eq_distinct)
    then show ?thesis by simp
  qed
  moreover have "\<not> search_result_less y x" if x: "x \<in> set r" and y: "y \<in> set rest" for x y
  proof -
    have yS: "y \<in> set ?S" "y \<notin> set r" using y by (auto simp: rest_def)
    then obtain v where v: "lookup ?h (sr_id y) = Some (v, sr_metadata y)" "sr_score y = ?D q v" using S(4) by blast
    have "sr_id y \<notin> sr_id ` set r"
      using yS sub S(2) inj_onD [of sr_id "set ?S"] by (auto simp: distinct_map)
    then have "\<not> f32_lt (?D q v) (sr_score x)" using r(3) x v(1) by blast
    then show ?thesis using v(2) by (simp add: search_result_less_def)
  qed
  moreover have "length r = min (nat (sint k)) (length ?S)" using r(2) S(3) by simp
  ultimately have "nearest (nat (sint k)) ?S r" using sound(1) unfolding nearest_def by blast
  moreover have "\<not> f32_nan (sr_score x)" if x: "x \<in> set ?S" for x
  proof -
    obtain v where v: "lookup ?h (sr_id x) = Some (v, sr_metadata x)" "sr_score x = ?D q v" using S(4) x by blast
    then obtain pt w where "deref (h_store ?h) pt = Some w" "vvector w = v" by (auto simp: lookup_def bind_eq_Some_conv)
    then show ?thesis using ok(2) v(2) by (auto simp: regular_def vec_of_def)
  qed
  ultimately show ?thesis using r(1) by (simp add: search_partition_def partition_search_def)
qed

lemma exact_workers:
  assumes "\<forall>p \<in> set ps. exact_partition impl q p" "accepted_impl impl" "fair env" "0 \<le> sint k"
  shows "\<exists>Ss. partition_workers impl env q k ps = Some (map (\<lambda>(S, r). [SentResult r]) Ss) \<and>
    map fst Ss = map (\<lambda>p. scored_items (index_distance impl (p_index p)) q (p_index p)) ps \<and>
    (\<forall>(S, r) \<in> set Ss. nearest (nat (sint k)) S r \<and> (\<forall>x \<in> set S. \<not> f32_nan (sr_score x)))"
  using assms
proof (induction ps arbitrary: env)
  case (Cons p ps)
  obtain Ss where Ss: "partition_workers impl (sub env 1) q k ps = Some (map (\<lambda>(S, r). [SentResult r]) Ss)"
    "map fst Ss = map (\<lambda>p. scored_items (index_distance impl (p_index p)) q (p_index p)) ps"
    "\<forall>(S, r) \<in> set Ss. nearest (nat (sint k)) S r \<and> (\<forall>x \<in> set S. \<not> f32_nan (sr_score x))"
    using Cons.IH [OF _ Cons.prems(2) fair_sub [OF Cons.prems(3), of 1] Cons.prems(4)] Cons.prems(1) by auto
  obtain r where r: "search_partition impl (sub env 0) q k p = Some [SentResult r]"
    "nearest (nat (sint k)) (scored_items (index_distance impl (p_index p)) q (p_index p)) r"
    "\<forall>x \<in> set (scored_items (index_distance impl (p_index p)) q (p_index p)). \<not> f32_nan (sr_score x)"
    using exact_partition_search [of impl q p "sub env 0" k] Cons.prems by auto
  show ?case
    by (rule exI [of _ "(scored_items (index_distance impl (p_index p)) q (p_index p), r) # Ss"]) (use Ss r in auto)
qed simp

section \<open>Runs of the collector\<close>

lemma collector_run_step: "collector_step sorter k s s' \<Longrightarrow> collector_run sorter k s' s'' \<Longrightarrow> collector_run sorter k s s''"
  by (simp add: collector_run_def converse_rtranclp_into_rtranclp)

lemma collector_run_trans: "collector_run sorter k s s' \<Longrightarrow> collector_run sorter k s' s'' \<Longrightarrow> collector_run sorter k s s''"
  by (simp add: collector_run_def)

lemma collector_run_refl [simp]: "collector_run sorter k s s"
  by (simp add: collector_run_def)

abbreviation cst ::
  "sent list list \<Rightarrow> search_result list \<Rightarrow> error list \<Rightarrow> bool \<Rightarrow> search_result \<Rightarrow> nat \<Rightarrow> (error + search_result) option \<Rightarrow> collector" where
  "cst ts rs fs c col n r \<equiv> \<lparr>to_send = ts, results = rs, failures = fs, chans_closed = c, collected = col,
     to_receive = n, returned = r\<rparr>"

text \<open>The workers finish, in order, before anything is received.\<close>

lemma workers_finish:
  "length qs \<le> m \<Longrightarrow> collector_run sorter k (cst (replicate m [] @ map (\<lambda>r. [SentResult r]) rs) qs fs c col n out)
     (cst (replicate (m + length rs) []) (qs @ rs) fs c col n out)"
proof (induction rs arbitrary: qs m)
  case (Cons r rs)
  let ?ts = "replicate m [] @ map (\<lambda>r. [SentResult r]) (r # rs)"
  have upd: "?ts[m := []] = replicate (Suc m) [] @ map (\<lambda>r. [SentResult r]) rs"
    by (simp add: list_update_append replicate_append_same [symmetric])
  have "collector_step sorter k (cst ?ts qs fs c col n out) (cst (?ts[m := []]) (qs @ [r]) fs c col n out)"
    using collector_step.send_result [of m "cst ?ts qs fs c col n out" r "[]" sorter k] Cons.prems
    by (simp add: nth_append)
  moreover have "collector_run sorter k (cst (?ts[m := []]) (qs @ [r]) fs c col n out)
      (cst (replicate (Suc m + length rs) []) ((qs @ [r]) @ rs) fs c col n out)"
    unfolding upd by (rule Cons.IH) (use Cons.prems in simp)
  ultimately have "collector_run sorter k (cst ?ts qs fs c col n out)
      (cst (replicate (Suc m + length rs) []) ((qs @ [r]) @ rs) fs c col n out)"
    by (rule collector_run_step)
  then show ?case by simp
qed simp

lemma receive_all:
  "collector_run sorter k (cst ts rs fs c col (length rs + n) None) (cst ts [] fs c (col @ concat rs) n None)"
proof (induction rs arbitrary: col)
  case (Cons r rs)
  have "collector_step sorter k (cst ts (r # rs) fs c col (length (r # rs) + n) None)
      (cst ts rs fs c (col @ r) (length rs + n) None)"
    using collector_step.receive_result [of "cst ts (r # rs) fs c col (length (r # rs) + n) None"] by simp
  from collector_run_step [OF this Cons.IH] show ?case by simp
qed simp

lemma close_step: "\<forall>w \<in> set ts. w = [] \<Longrightarrow>
    collector_step sorter k (cst ts rs fs False col n out) (cst ts rs fs True col n out)"
  using collector_step.close_chans [of "cst ts rs fs False col n out"] by simp

lemma return_step: "collector_step sorter k (cst ts rs fs c col 0 None) (cst ts rs fs c col 0 (Some (Inr (best sorter k col))))"
  using collector_step.all_received [of "cst ts rs fs c col 0 None"] by simp

lemma finish_and_close:
  "collector_run sorter k (start_collector (map (\<lambda>r. [SentResult r]) rs))
     (cst (replicate (length rs) []) rs [] True [] (length rs) None)"
  using collector_run_trans [OF workers_finish [of "[]" 0] collector_run_step [OF close_step collector_run_refl]]
  by (simp add: start_collector_def)

lemma may_return_all: "may_return sorter k (map (\<lambda>r. [SentResult r]) rs) (Inr (best sorter k (concat rs)))"
proof -
  have "collector_run sorter k (start_collector (map (\<lambda>r. [SentResult r]) rs))
      (cst (replicate (length rs) []) [] [] True (concat rs) 0 (Some (Inr (best sorter k (concat rs)))))"
    using collector_run_trans [OF finish_and_close collector_run_trans [OF receive_all [where n = 0, simplified]
        collector_run_step [OF return_step collector_run_refl]]] by simp
  then show ?thesis unfolding may_return_def by (intro exI conjI) auto
qed

lemma may_return_nothing:
  assumes "rs \<noteq> []"
  shows "may_return sorter k (map (\<lambda>r. [SentResult r]) rs) (Inr [])"
proof -
  obtain n where n: "length rs = Suc n" using assms by (cases rs) auto
  have "collector_step sorter k (cst (replicate (length rs) []) rs [] True [] (length rs) None)
      (cst (replicate (length rs) []) rs [] True [] (length rs) (Some (Inr [])))"
    using collector_step.receive_nil_failure [of "cst (replicate (length rs) []) rs [] True [] (length rs) None" n sorter k] n
    by simp
  from collector_run_trans [OF finish_and_close collector_run_step [OF this collector_run_refl]]
  show ?thesis unfolding may_return_def by (intro exI conjI) auto
qed

lemma may_hide_failure: "may_return sorter k ([SentError e] # map (\<lambda>r. [SentResult r]) rs) (Inr (best sorter k (concat rs)))"
proof -
  let ?ts = "map (\<lambda>r. [SentResult r]) rs" and ?es = "replicate (Suc (length rs)) []"
  let ?n = "Suc (length rs)"
  have a: "collector_step sorter k (start_collector ([SentError e] # ?ts)) (cst ([] # ?ts) [] [e] False [] ?n None)"
    using collector_step.send_failure [of 0 "start_collector ([SentError e] # ?ts)" e "[]" sorter k]
    by (simp add: start_collector_def)
  have b: "collector_run sorter k (cst ([] # ?ts) [] [e] False [] ?n None) (cst ?es rs [e] False [] ?n None)"
    using workers_finish [of "[]" 1 sorter k rs] by simp
  have c: "collector_step sorter k (cst ?es rs [e] False [] ?n None) (cst ?es rs [e] True [] ?n None)"
    by (rule close_step) simp
  have d: "collector_run sorter k (cst ?es rs [e] True [] ?n None) (cst ?es [] [e] True (concat rs) 1 None)"
    using receive_all [of sorter k ?es rs "[e]" True "[]" 1] by simp
  have e': "collector_step sorter k (cst ?es [] [e] True (concat rs) 1 None) (cst ?es [] [e] True (concat rs) 0 None)"
    using collector_step.receive_no_result [of "cst ?es [] [e] True (concat rs) 1 None" 0 sorter k] by simp
  note f = return_step [of sorter k ?es "[]" "[e]" True "concat rs"]
  have "collector_run sorter k (start_collector ([SentError e] # ?ts))
      (cst ?es [] [e] True (concat rs) 0 (Some (Inr (best sorter k (concat rs)))))"
    by (rule collector_run_step [OF a collector_run_trans [OF b collector_run_step [OF c collector_run_trans [OF d
          collector_run_step [OF e' collector_run_step [OF f collector_run_refl]]]]]])
  then show ?thesis unfolding may_return_def by (intro exI conjI) auto
qed

text \<open>What the collector keeps of the answers is nearest when each answer is.\<close>

lemma best_nearest:
  assumes "sorts sorter" "0 \<le> sint k"
    and Ss: "\<forall>(S, r) \<in> set Ss. nearest (nat (sint k)) S r \<and> (\<forall>x \<in> set S. \<not> f32_nan (sr_score x))"
    and ys: "mset ys = mset (concat (map snd Ss))"
  shows "nearest (nat (sint k)) (concat (map fst Ss)) (best sorter k ys)"
proof -
  have "\<forall>y \<in> set ys. \<not> f32_nan (sr_score y)"
  proof
    fix y assume "y \<in> set ys"
    then have "y \<in> set (concat (map snd Ss))" using mset_eq_setD [OF ys] by blast
    then obtain S r where Sr: "(S, r) \<in> set Ss" "y \<in> set r" by auto
    then obtain rest where "mset S = mset r + mset rest" "\<forall>x \<in> set S. \<not> f32_nan (sr_score x)"
      using Ss by (auto simp: nearest_def)
    then show "\<not> f32_nan (sr_score y)" using Sr(2) mset_union_set by blast
  qed
  then have "length (sorter ys) = length ys" using assms(1) by (auto simp: sorts_def dest!: spec [of _ ys] mset_eq_length)
  then have "best sorter k ys = take (nat (sint k)) (sorter ys)"
    using assms(2) by (cases "sint k \<le> int (length ys)") (simp_all add: best_def)
  then show ?thesis using nearest_merge [OF assms(1) Ss ys] by simp
qed

section \<open>Properties\<close>

text \<open>
  C11: Searching partitions is exact when each of them is. If every named partition answers with its
  own nearest items (room in \<open>ef\<close>, a connected bottom level, no candidate extension), then whatever
  the order in which the workers finish, a search that returns items returns the \<open>k\<close> nearest of all
  partitions together, sorted; and it can do so. The only other answer without an error is none.
\<close>

theorem search_partitions_exact:
  assumes "get_partitions d is = Inr ps" "\<forall>p \<in> set ps. exact_partition impl q p" "accepted_impl impl" "fair env"
    and "0 \<le> sint k" "sorts sorter"
  shows "\<exists>ws. search_partitions impl env is q k d = Some (Inr ws) \<and>
    (\<forall>out. may_return sorter k ws (Inr out) \<longrightarrow> out = [] \<or>
       nearest (nat (sint k)) (concat (map (\<lambda>p. scored_items (index_distance impl (p_index p)) q (p_index p)) ps)) out) \<and>
    (\<exists>out. may_return sorter k ws (Inr out) \<and>
       nearest (nat (sint k)) (concat (map (\<lambda>p. scored_items (index_distance impl (p_index p)) q (p_index p)) ps)) out)"
proof -
  let ?n = "nat (sint k)"
  obtain Ss where Ss: "partition_workers impl env q k ps = Some (map (\<lambda>(S, r). [SentResult r]) Ss)"
    "map fst Ss = map (\<lambda>p. scored_items (index_distance impl (p_index p)) q (p_index p)) ps"
    "\<forall>(S, r) \<in> set Ss. nearest ?n S r \<and> (\<forall>x \<in> set S. \<not> f32_nan (sr_score x))"
    using exact_workers [OF assms(2-5)] by blast
  have ws: "map (\<lambda>(S, r). [SentResult r]) Ss = map (\<lambda>r. [SentResult r]) (map snd Ss)" by auto
  have near: "nearest ?n (concat (map fst Ss)) (best sorter k ys)" if "mset ys = mset (concat (map snd Ss))" for ys
    by (rule best_nearest [OF assms(6,5) Ss(3) that])
  show ?thesis
  proof (intro exI [of _ "map (\<lambda>(S, r). [SentResult r]) Ss"] conjI allI impI)
    show "search_partitions impl env is q k d = Some (Inr (map (\<lambda>(S, r). [SentResult r]) Ss))"
      using assms(1) Ss(1) by (simp add: search_partitions_def)
  next
    fix out assume "may_return sorter k (map (\<lambda>(S, r). [SentResult r]) Ss) (Inr out)"
    then show "out = [] \<or>
       nearest ?n (concat (map (\<lambda>p. scored_items (index_distance impl (p_index p)) q (p_index p)) ps)) out"
      using collecting_run [of sorter k "map snd Ss" out] near unfolding ws Ss(2) [symmetric] by blast
  next
    show "\<exists>out. may_return sorter k (map (\<lambda>(S, r). [SentResult r]) Ss) (Inr out) \<and>
       nearest ?n (concat (map (\<lambda>p. scored_items (index_distance impl (p_index p)) q (p_index p)) ps)) out"
      using may_return_all [of sorter k "map snd Ss"] near [OF refl] unfolding ws Ss(2) [symmetric] by blast
  qed
qed

text \<open>
  C27: The race at the end of a search. When all workers have sent their results, the channels are
  closed and the loop may read the closed error channel before the buffered results: the search
  then returns nothing, without an error, although every worker succeeded and it could as well have
  returned them all. And when a worker failed, the loop may read a closed result channel instead of
  the buffered error, and returns the others' items as if the search had been complete.
\<close>

theorem search_may_lose_results:
  "may_return sorter k (map (\<lambda>r. [SentResult r]) (r # rs)) (Inr []) \<and>
   may_return sorter k (map (\<lambda>r. [SentResult r]) rs) (Inr (best sorter k (concat rs))) \<and>
   may_return sorter k ([SentError e] # map (\<lambda>r. [SentResult r]) rs) (Inr (best sorter k (concat rs)))"
  using may_return_nothing [of "r # rs"] may_return_all may_hide_failure by blast

section \<open>A concrete search\<close>

definition key_sorter :: "search_result \<Rightarrow> search_result" where
  "key_sorter = sort_key (\<lambda>x. f32_key (sr_score x))"

lemma sorts_key_sorter: "sorts key_sorter"
  unfolding sorts_def key_sorter_def
proof (intro allI impI conjI)
  fix ys :: search_result assume "\<forall>y \<in> set ys. \<not> f32_nan (sr_score y)"
  then show "ascending (sort_key (\<lambda>x. f32_key (sr_score x)) ys)"
    using ascending_sorted [of "sort_key (\<lambda>x. f32_key (sr_score x)) ys"] by simp
qed simp

definition sample_dataset :: dataset where
  "sample_dataset = \<lparr>ds_id = uuid_of 5, ds_meta = \<lparr>dm_id = uuid_of 5, dm_dimension = 1, dm_space = Manhattan,
       dm_partition_count = 1, dm_replication_factor = 1, dm_partitions = [\<lparr>pm_id = uuid_of 7, pm_node_ids = [1, 2]\<rparr>],
       dm_size = 0\<rparr>,
     ds_conn = sample_conn, ds_partitions = [sample_partition], ds_partitions_map = [(uuid_of 7, 0)],
     ds_search_clients = [], ds_data_clients = []\<rparr>"

lemma one_item_distance: "index_distance native_impl one_item = manhattan"
  by (simp add: index_distance_def manhattan_def one_item_def sample_index_def new_hnsw_def)

lemma sample_partition_exact: "exact_partition native_impl [3] sample_partition"
proof -
  have "card (dom (lookup one_item)) = 1" by (simp add: one_item_ok(2))
  moreover have "plain_algorithm (h_config one_item)" "1 \<le> cfg_ef (h_config one_item)"
    by (simp_all add: plain_algorithm_def one_item_def sample_config)
  moreover have "connected one_item"
    by (auto simp: connected_def live_def one_item_store reachable_at.start split: if_splits)
  moreover have "regular manhattan (h_store one_item) [3]" by (rule regular_one_item) (simp add: small_def)
  ultimately show ?thesis
    using one_item_ok(1) one_item_entrypoint
    by (simp add: exact_partition_def sample_partition_def one_item_distance)
qed

theorem search_partitions_exact_witness:
  "\<exists>ws out. search_partitions native_impl (plain_env 0) [uuid_of 7] [3] 4 sample_dataset = Some (Inr ws) \<and>
     may_return key_sorter 4 ws (Inr out) \<and> nearest 4 (scored_items manhattan [3] one_item) out"
proof -
  have "get_partitions sample_dataset [uuid_of 7] = Inr [sample_partition]"
    by (simp add: sample_dataset_def get_partition_def)
  moreover have "\<forall>p \<in> set [sample_partition]. exact_partition native_impl [3] p" using sample_partition_exact by simp
  ultimately show ?thesis
    using search_partitions_exact [of sample_dataset "[uuid_of 7]" "[sample_partition]" native_impl "[3]" "plain_env 0" 4 key_sorter]
      sorts_key_sorter
    by (auto simp: sample_partition_def one_item_distance)
qed

end
