(* ===== verification/DatasetProperties.thy ===== *)
theory DatasetProperties
  imports DatasetSearchProperties
begin

text \<open>
  Routing, batches and sizes of a dataset: which partition an item goes to, what a batch of items
  becomes, and what a caller learns when another node cannot be reached.
\<close>

section \<open>Routing\<close>

definition partition_of :: "dataset \<Rightarrow> batch_item \<Rightarrow> nat option" where
  "partition_of d item = (case uuid_from_bytes (bi_id item) of Inl _ \<Rightarrow> None | Inr i \<Rightarrow> get_partition_for_id i d)"

definition dataset_ok :: "dataset \<Rightarrow> bool" where
  "dataset_ok d = (length (ds_partitions d) = unat (dm_partition_count (ds_meta d)))"

lemma unat_ucast_32_64: "unat (ucast (x :: 32 word) :: 64 word) = unat x"
proof -
  have "unat x < 2 ^ 32" using unsigned_less [of x, where 'a = nat] by simp
  then have "unat x < 2 ^ 64" by (rule less_trans) simp
  then show ?thesis by (simp add: unsigned_ucast_eq take_bit_nat_eq_self_iff)
qed

lemma get_partition_for_id_total:
  assumes "dataset_ok d"
  shows "(\<exists>k. get_partition_for_id i d = Some k) = (dm_partition_count (ds_meta d) \<noteq> 0)"
    "get_partition_for_id i d = Some k \<Longrightarrow> k < length (ds_partitions d)"
proof -
  let ?m = "ucast (dm_partition_count (ds_meta d)) :: 64 word"
  have zero: "?m = 0 \<longleftrightarrow> dm_partition_count (ds_meta d) = 0"
    using unat_ucast_32_64 [of "dm_partition_count (ds_meta d)"] by (metis unat_eq_0)
  show "(\<exists>k. get_partition_for_id i d = Some k) = (dm_partition_count (ds_meta d) \<noteq> 0)"
  proof (cases "?m = 0")
    case True
    then show ?thesis using zero by (simp add: get_partition_for_id_def uuid_mod_def)
  next
    case False
    then obtain k where k: "uuid_mod i ?m = Some k" using uuid_mod_total by blast
    have "unat k < length (ds_partitions d)"
      using uuid_mod_bound [OF k] assms unat_ucast_32_64 [of "dm_partition_count (ds_meta d)"]
      by (simp add: dataset_ok_def word_less_nat_alt)
    then show ?thesis using k False zero by (simp add: get_partition_for_id_def)
  qed
  show "get_partition_for_id i d = Some k \<Longrightarrow> k < length (ds_partitions d)"
    by (auto simp: get_partition_for_id_def bind_eq_Some_conv split: if_splits)
qed

lemma new_partitions_length:
  "new_partitions lg meta n pms (ps, m) = Some (Inr (), (ps', m')) \<Longrightarrow> length ps' = length ps + n"
  by (induction lg meta n pms "(ps, m)" arbitrary: ps m rule: new_partitions.induct) (auto split: sum.splits)

lemma new_dataset_ok: "new_dataset lg i meta c = Some (Inr d) \<Longrightarrow> dataset_ok d"
  using new_partitions_length [of lg meta "unat (dm_partition_count meta)" "dm_partitions meta" "[]" "[]"]
  by (auto simp: new_dataset_def dataset_ok_def split: option.splits sum.splits)

section \<open>Batches\<close>

lemma add_to_group_facts:
  "distinct (map fst gs) \<Longrightarrow> distinct (map fst (add_to_group k item gs))"
  "fst ` set (add_to_group k item gs) = insert k (fst ` set gs)"
  "map_of (add_to_group k item gs) k' =
     (if k' = k then Some ((case map_of gs k of None \<Rightarrow> [] | Some items \<Rightarrow> items) @ [item]) else map_of gs k')"
proof -
  show k: "fst ` set (add_to_group k item gs) = insert k (fst ` set gs)"
    by (induction k item gs rule: add_to_group.induct) auto
  have keys: "fst ` set (add_to_group k item gs) = insert k (fst ` set gs)" for k item gs
    by (induction k item gs rule: add_to_group.induct) auto
  show "distinct (map fst gs) \<Longrightarrow> distinct (map fst (add_to_group k item gs))"
    by (induction k item gs rule: add_to_group.induct) (auto simp: keys)
  show "map_of (add_to_group k item gs) k' =
     (if k' = k then Some ((case map_of gs k of None \<Rightarrow> [] | Some items \<Rightarrow> items) @ [item]) else map_of gs k')"
    by (induction k item gs rule: add_to_group.induct) auto
qed

definition group_items :: "(nat \<times> batch_item list) list \<Rightarrow> nat \<Rightarrow> batch_item list" where
  "group_items gs k = (case map_of gs k of None \<Rightarrow> [] | Some items \<Rightarrow> items)"

lemma group_step: "group_items (add_to_group k item gs) k' = group_items gs k' @ (if k' = k then [item] else [])"
  by (simp add: group_items_def add_to_group_facts(3) split: option.split)

lemma grouping:
  "distinct (map fst gs) \<Longrightarrow> group_batch_items_by_partition d items gs = Some gs' \<Longrightarrow>
   distinct (map fst gs') \<and>
   (\<forall>k. group_items gs' k = group_items gs k @ filter (\<lambda>item. partition_of d item = Some k) items) \<and>
   fst ` set gs' = fst ` set gs \<union> {k. \<exists>item \<in> set items. partition_of d item = Some k}"
proof (induction items arbitrary: gs)
  case (Cons item items)
  obtain i k where ik: "uuid_from_bytes (bi_id item) = Inr i" "get_partition_for_id i d = Some k"
    "group_batch_items_by_partition d items (add_to_group k item gs) = Some gs'"
    using Cons.prems(2) by (auto simp: bind_eq_Some_conv split: sum.splits)
  then have k: "partition_of d item = Some k" by (simp add: partition_of_def)
  have "distinct (map fst (add_to_group k item gs))" using Cons.prems(1) by (rule add_to_group_facts(1))
  from Cons.IH [OF this ik(3)] show ?case by (auto simp: k group_step add_to_group_facts(2))
qed simp

lemma grouping_total:
  "(group_batch_items_by_partition d items gs \<noteq> None) = (\<forall>item \<in> set items. partition_of d item \<noteq> None)"
proof (induction items arbitrary: gs)
  case (Cons item items)
  show ?case
  proof (cases "partition_of d item")
    case None
    then have "group_batch_items_by_partition d (item # items) gs = None"
      by (auto simp: partition_of_def split: sum.splits)
    then show ?thesis using None by simp
  next
    case (Some k)
    then have "group_batch_items_by_partition d (item # items) gs =
        group_batch_items_by_partition d items (add_to_group k item gs)"
      by (auto simp: partition_of_def split: sum.splits)
    then show ?thesis using Some Cons.IH by simp
  qed
qed simp

text \<open>
  C18: A batch is split without loss. When it can be split, every partition gets one group with
  exactly its items, in the order of the request, and no group is empty. It can be split exactly
  when every id is a UUID and the dataset has partitions; otherwise the request panics.
\<close>

theorem batch_is_split_by_partition:
  "(group_batch_items_by_partition d items [] \<noteq> None) = (\<forall>item \<in> set items. partition_of d item \<noteq> None) \<and>
   (\<forall>gs. group_batch_items_by_partition d items [] = Some gs \<longrightarrow> distinct (map fst gs) \<and>
      (\<forall>k. group_items gs k = filter (\<lambda>item. partition_of d item = Some k) items) \<and>
      (\<forall>k. k \<in> fst ` set gs \<longleftrightarrow> group_items gs k \<noteq> []))"
proof -
  have "distinct (map fst gs) \<and> (\<forall>k. group_items gs k = filter (\<lambda>item. partition_of d item = Some k) items) \<and>
      (\<forall>k. k \<in> fst ` set gs \<longleftrightarrow> group_items gs k \<noteq> [])"
    if "group_batch_items_by_partition d items [] = Some gs" for gs
    using grouping [OF _ that] by (auto simp: group_items_def [of "[]"] filter_empty_conv)
  then show ?thesis using grouping_total [of d items "[]"] by blast
qed

definition sample_batch :: "batch_item list" where
  "sample_batch = [plain_item (uuid_of 1) [4] None, plain_item (uuid_of 2) [4] None, plain_item (uuid_of 3) [5] None]"

theorem batch_is_split_by_partition_witness:
  "group_batch_items_by_partition (sample_dataset\<lparr>ds_meta := (ds_meta sample_dataset)\<lparr>dm_partition_count := 2\<rparr>,
      ds_partitions := [sample_partition, sample_partition]\<rparr>) sample_batch [] =
     Some [(1, [plain_item (uuid_of 1) [4] None, plain_item (uuid_of 3) [5] None]), (0, [plain_item (uuid_of 2) [4] None])] \<and>
   distinct (map fst (the (group_batch_items_by_partition (sample_dataset\<lparr>ds_meta := (ds_meta sample_dataset)\<lparr>dm_partition_count := 2\<rparr>,
      ds_partitions := [sample_partition, sample_partition]\<rparr>) sample_batch [])))"
proof -
  let ?d = "sample_dataset\<lparr>ds_meta := (ds_meta sample_dataset)\<lparr>dm_partition_count := 2\<rparr>,
      ds_partitions := [sample_partition, sample_partition]\<rparr>"
  have mod: "uuid_mod (uuid_of 1) 2 = Some 1" "uuid_mod (uuid_of 2) 2 = Some 0" "uuid_mod (uuid_of 3) 2 = Some 1"
    by code_simp+
  then have "group_batch_items_by_partition ?d sample_batch [] =
      Some [(1, [plain_item (uuid_of 1) [4] None, plain_item (uuid_of 3) [5] None]), (0, [plain_item (uuid_of 2) [4] None])]"
    by (simp add: sample_batch_def plain_item_def get_partition_for_id_def sample_dataset_def)
  then show ?thesis using batch_is_split_by_partition [of ?d sample_batch] by auto
qed

section \<open>Other nodes\<close>

text \<open>
  A write that never left the node is reported as done. When the partition of the item is on
  another node and that node has no known address or cannot be dialed, Insert, Update and Remove
  return nil and nothing has changed.
\<close>

theorem failed_dial_reports_success:
  assumes "get_partition_for_id i d = Some k" "\<not> on_this_node d k" "random_node_id r (ds_partitions d ! k) = Some n"
    and "map_of (ds_data_clients d) n = None" "conn_dial (rm_dial rm) (\<lambda>c. c) n (ds_conn d) = (Inl e, c)"
    and "check_dimension v d = None"
  shows "dataset_insert rm R r lg x i v m d = Some (Inr (), d) \<and>
    dataset_update rm R r i v m d = Some (Inr (), d) \<and> dataset_remove rm R r i d = Some (Inr (), d)"
proof -
  have "c = ds_conn d"
    using assms(5) by (auto simp: conn_dial_def Let_def split: option.splits sum.splits)
  then have "route rm r i call local d = Some (Inr (), d)" for call local
    using assms(1-5) by (simp add: route_def proxy_def get_data_manager_client_def)
  then show ?thesis using assms(6) by (simp add: dataset_insert_def dataset_update_def dataset_remove_def)
qed

definition deaf_remote :: remote where
  "deaf_remote = \<lparr>rm_dial = (\<lambda>_. Inl (RemoteError [])), rm_insert = (\<lambda>_ _ _ _ _. None), rm_update = (\<lambda>_ _ _ _ _. None),
     rm_remove = (\<lambda>_ _ _. None), rm_batch = (\<lambda>_ _ _ _ _. Inr []), rm_partition_info = (\<lambda>_ _ _. Inr (0, 0))\<rparr>"

theorem failed_dial_reports_success_witness:
  "dataset_remove deaf_remote sample_raft 0 (uuid_of 1) (sample_dataset\<lparr>ds_conn := sample_conn\<lparr>cn_id := 9\<rparr>\<rparr>) =
     Some (Inr (), sample_dataset\<lparr>ds_conn := sample_conn\<lparr>cn_id := 9\<rparr>\<rparr>)"
proof -
  let ?d = "sample_dataset\<lparr>ds_conn := sample_conn\<lparr>cn_id := 9\<rparr>\<rparr>"
  have mod: "uuid_mod (uuid_of 1) 1 = Some 0" by code_simp
  have "get_partition_for_id (uuid_of 1) ?d = Some 0" using mod by (simp add: get_partition_for_id_def sample_dataset_def)
  moreover have "\<not> on_this_node ?d 0" "random_node_id 0 (ds_partitions ?d ! 0) = Some 1"
    "map_of (ds_data_clients ?d) 1 = None" "check_dimension [4] ?d = None"
    "conn_dial (rm_dial deaf_remote) (\<lambda>c. c) 1 (ds_conn ?d) = (Inl NodeAddressNotFound, sample_conn\<lparr>cn_id := 9\<rparr>)"
    by (simp_all add: on_this_node_def is_on_node_def sample_dataset_def sample_partition_def random_node_id_def
        check_dimension_def conn_dial_def get_cached_conn_def get_address_def sample_conn_def)
  ultimately show ?thesis using failed_dial_reports_success by blast
qed

section \<open>Sizes\<close>

lemma remote_sizes_answers:
  assumes "\<forall>k \<in> set ks. \<exists>n c. random_node_id (r k) (ds_partitions d ! seen k) = Some n \<and>
      map_of (ds_data_clients d) n = Some c \<and>
      rm_partition_info rm c (ds_id d) (p_id (ds_partitions d ! seen k)) = Inr (l (seen k), b (seen k))"
  shows "remote_sizes rm r seen ks (l0, b0) None d =
    Some (Inr (l0 + sum_list (map (\<lambda>k. l (seen k)) ks), b0 + sum_list (map (\<lambda>k. b (seen k)) ks)), d)"
  using assms
proof (induction ks arbitrary: l0 b0)
  case (Cons k ks)
  then have "remote_size rm (r k) (seen k) d = Some (Inr (l (seen k), b (seen k)), d)"
    by (auto simp: remote_size_def get_data_manager_client_def)
  then show ?case using Cons by (simp add: add.assoc)
qed simp

text \<open>
  The size of a dataset is the sum of its local partitions and of the partitions that the
  goroutines ask for, which are those the loop variable has reached and not those each was started
  for: with two remote partitions and goroutines that start late, the second is counted twice.
\<close>

theorem size_counts_the_partitions_seen:
  assumes "fair env" and remote: "ks = filter (\<lambda>k. \<not> on_this_node d k) [0..<length (ds_partitions d)]"
    and "\<forall>k \<in> set ks. \<exists>n c. random_node_id (r k) (ds_partitions d ! seen k) = Some n \<and>
      map_of (ds_data_clients d) n = Some c \<and>
      rm_partition_info rm c (ds_id d) (p_id (ds_partitions d ! seen k)) = Inr (l (seen k), b (seen k))"
  shows "dataset_len rm bytes_size r seen env False d =
    Some (Inr (fst (local_sizes bytes_size d) + sum_list (map (\<lambda>k. l (seen k)) ks)), d)"
proof -
  have "mset (visit env ks) = mset ks" using assms(1) by simp
  then have s: "sum_list (map (\<lambda>k. l (seen k)) (visit env ks)) = sum_list (map (\<lambda>k. l (seen k)) ks)"
    by (rule sum_list_mset_cong)
  have "remote_sizes rm r seen (visit env ks) (local_sizes bytes_size d) None d =
      Some (Inr (fst (local_sizes bytes_size d) + sum_list (map (\<lambda>k. l (seen k)) (visit env ks)),
        snd (local_sizes bytes_size d) + sum_list (map (\<lambda>k. b (seen k)) (visit env ks))), d)"
    using remote_sizes_answers [of "visit env ks" r d seen rm l b "fst (local_sizes bytes_size d)" "snd (local_sizes bytes_size d)"]
      assms(1,3) by simp
  then show ?thesis using s by (simp add: dataset_len_def size_info_def remote andthen_def)
qed

definition sizes_remote :: remote where
  "sizes_remote = deaf_remote\<lparr>rm_partition_info := (\<lambda>_ _ i. if i = uuid_of 7 then Inr (5, 50) else Inr (8, 80))\<rparr>"

theorem size_counts_the_partitions_seen_witness:
  "\<exists>d. map p_id (ds_partitions d) = [uuid_of 7, uuid_of 8] \<and>
     dataset_len sizes_remote (\<lambda>_. 0) (\<lambda>_. 0) (\<lambda>_. 1) (plain_env 0) False d = Some (Inr 16, d)"
proof -
  let ?d = "sample_dataset\<lparr>ds_conn := sample_conn\<lparr>cn_id := 9\<rparr>, ds_data_clients := [(1, 3)],
    ds_partitions := [sample_partition, sample_partition\<lparr>p_id := uuid_of 8\<rparr>]\<rparr>"
  have ks: "filter (\<lambda>k. \<not> on_this_node ?d k) [0..<length (ds_partitions ?d)] = [0, 1]"
    by (simp add: on_this_node_def is_on_node_def sample_partition_def sample_conn_def upt_rec)
  have "dataset_len sizes_remote (\<lambda>_. 0) (\<lambda>_. 0) (\<lambda>_. 1) (plain_env 0) False ?d =
      Some (Inr (fst (local_sizes (\<lambda>_. 0) ?d) + 16), ?d)"
    using size_counts_the_partitions_seen [where l = "\<lambda>k. if k = 0 then 5 else 8" and b = "\<lambda>k. if k = 0 then 50 else 80"
        and r = "\<lambda>_. 0" and seen = "\<lambda>_. 1" and rm = sizes_remote and bytes_size = "\<lambda>_. 0", OF plain_env(1) ks [symmetric]]
    by (simp add: sizes_remote_def random_node_id_def sample_partition_def)
  moreover have "local_sizes (\<lambda>_. 0) ?d = (0, 0)"
    by (simp add: local_sizes_def is_on_node_def sample_partition_def sample_conn_def)
  moreover have "map p_id (ds_partitions ?d) = [uuid_of 7, uuid_of 8]" by (simp add: sample_partition_def)
  ultimately show ?thesis by (intro exI [of _ ?d]) simp
qed

end
