(* ===== verification/DatasetTypes.thy ===== *)
theory DatasetTypes
  imports DatasetProperties
begin

text \<open>
  The dimension of a dataset as a type: \<open>checkDimension\<close> is the only test between a request and
  the vector loops that run to the end of their first operand. The requests of a dataset propose
  vectors of its dimension only, and a replica that applies such changes holds no others, so no
  native distance indexes out of range.
\<close>

section \<open>Vectors of a change\<close>

definition vectors_of :: "partition_change \<Rightarrow> vec list" where
  "vectors_of c = (case pc_type c of
       InsertValue \<Rightarrow> [pc_value c] | UpdateValue \<Rightarrow> [pc_value c]
     | BatchInsertValue \<Rightarrow> map bi_value (pc_batch_items c) | BatchUpdateValue \<Rightarrow> map bi_value (pc_batch_items c)
     | _ \<Rightarrow> [])"

text \<open>The check converts the length to \<open>uint32\<close>; a longer slice than that does not fit a message.\<close>

definition typed_vector :: "dataset \<Rightarrow> vec \<Rightarrow> bool" where
  "typed_vector d v = (check_dimension v d = None \<and> length v < 2 ^ 32)"

definition typed_items :: "dataset \<Rightarrow> item_contents \<Rightarrow> bool" where
  "typed_items d f = (\<forall>i x m. f i = Some (x, m) \<longrightarrow> typed_vector d x)"

lemma typed_itemsD: "typed_items d f \<Longrightarrow> f i = Some (x, m) \<Longrightarrow> typed_vector d x"
  by (auto simp: typed_items_def)

lemma typed_items_simps [simp]:
  "typed_items d Map.empty" "typed_items d f \<Longrightarrow> typed_items d (f(i := None))"
  "typed_items d f \<Longrightarrow> typed_vector d x \<Longrightarrow> typed_items d (f(i \<mapsto> (x, m)))"
  by (auto simp: typed_items_def)

lemma typed_same_dim:
  assumes "typed_vector d x" "typed_vector d y"
  shows "same_dim x y"
proof -
  have len: "unat (of_nat (length v) :: 32 word) = length v" if "typed_vector d v" for v
    unfolding unat_of_nat by (rule mod_less) (use that in \<open>simp add: typed_vector_def\<close>)
  have "(of_nat (length v) :: 32 word) = dm_dimension (ds_meta d)" if "typed_vector d v" for v
    using that unfolding typed_vector_def check_dimension_def by (metis option.distinct(1))
  then show ?thesis unfolding same_dim_def using len assms by metis
qed

lemma native_total:
  assumes "same_dim x y"
  shows "native_euclidean x y \<noteq> None" "native_manhattan x y \<noteq> None" "native_cosine x y \<noteq> None"
proof -
  have "\<exists>d. accumulate f 0 x y = Some d" for f by (rule accumulate_same_dim [OF assms])
  then show "native_euclidean x y \<noteq> None" "native_manhattan x y \<noteq> None" "native_cosine x y \<noteq> None"
    by (simp_all add: native_euclidean_def native_manhattan_def native_cosine_def bind_eq_None_conv)
qed

section \<open>The specification keeps the type\<close>

definition keeps_type :: "dataset \<Rightarrow> (item_contents \<Rightarrow> ('r \<times> item_contents) option) \<Rightarrow> bool" where
  "keeps_type d a = (\<forall>f r f'. typed_items d f \<longrightarrow> a f = Some (r, f') \<longrightarrow> typed_items d f')"

lemma keeps_typeD: "keeps_type d a \<Longrightarrow> typed_items d f \<Longrightarrow> a f = Some (r, f') \<Longrightarrow> typed_items d f'"
  by (auto simp: keeps_type_def)

lemma keeps_type_item:
  "typed_vector d (bi_value item) \<Longrightarrow> keeps_type d (insert_spec item i)"
  "typed_vector d (bi_value item) \<Longrightarrow> keeps_type d (update_spec item i)"
  "keeps_type d (delete_spec item i)"
  by (auto simp: keeps_type_def insert_spec_def update_spec_def delete_spec_def split: if_splits option.splits)

lemma keeps_type_batch:
  assumes "\<And>item i. item \<in> set items \<Longrightarrow> keeps_type d (spec item i)"
  shows "keeps_type d (batch_spec spec items errs)"
proof -
  have "typed_items d f'" if "typed_items d f" "batch_spec spec items errs f = Some (r, f')" for f r f'
    using assms that
  proof (induction items arbitrary: errs f)
    case (Cons item items)
    obtain i r1 f1 where f1: "spec item i f = Some (r1, f1) \<or> f' = f"
      "f' = f \<or> (\<exists>errs. batch_spec spec items errs f1 = Some (r, f'))"
      using Cons.prems(3) by (fastforce split: sum.splits option.splits)
    then show ?case
    proof (cases "f' = f")
      case False
      then have "typed_items d f1" using f1(1) keeps_typeD [OF Cons.prems(1) Cons.prems(2)] by auto
      then show ?thesis using False f1(2) Cons.IH Cons.prems(1) by auto
    qed (use Cons.prems(2) in simp)
  qed simp
  then show ?thesis by (auto simp: keeps_type_def)
qed

lemma keeps_type_log:
  assumes "\<And>c v. unmarshal data = Inr c \<Longrightarrow> v \<in> set (vectors_of c) \<Longrightarrow> typed_vector d v"
  shows "keeps_type d (log_spec unmarshal data)"
proof (cases "unmarshal data")
  case (Inr c)
  have v: "typed_vector d v" if "v \<in> set (vectors_of c)" for v using assms Inr that by blast
  have item: "keeps_type d (reply_item spec c)" if "\<And>i. keeps_type d (spec (change_item c) i)" for spec
    using keeps_typeD [OF that] by (auto simp: keeps_type_def reply_item_def split: sum.splits)
  have items: "keeps_type d (reply_items spec c)"
    if "\<And>item i. item \<in> set (pc_batch_items c) \<Longrightarrow> keeps_type d (spec item i)" for spec
    using keeps_typeD [OF keeps_type_batch [OF that]] by (auto simp: keeps_type_def reply_items_def)
  have "keeps_type d (reply_spec c)"
    unfolding reply_spec_def
    by (cases "pc_type c") (use v in \<open>auto simp: vectors_of_def change_item_def intro!: item items keeps_type_item\<close>,
        auto simp: keeps_type_def)
  from keeps_typeD [OF this] show ?thesis
    using Inr by (auto simp: keeps_type_def log_spec_def change_spec_def split: sum.splits)
qed (simp add: keeps_type_def log_spec_def)

lemma keeps_type_run:
  assumes "typed_items d f" "run_spec spec ds f = Some f'" "\<And>x. x \<in> set ds \<Longrightarrow> keeps_type d (spec x)"
  shows "typed_items d f'"
  using assms
proof (induction ds arbitrary: f)
  case (Cons x ds)
  then obtain r f1 where "spec x f = Some (r, f1)" "run_spec spec ds f1 = Some f'"
    by (auto split: option.splits sum.splits)
  then show ?case using Cons.IH [of f1] Cons.prems(3) keeps_typeD [OF _ Cons.prems(1), of "spec x" r f1] by simp
qed simp

section \<open>Replicas\<close>

text \<open>
  C10: A dataset is typed by its dimension. When a replica starts with vectors of the dataset's
  dimension and every change in its log carries such vectors only, then after any run of its raft
  group all items have that dimension, and no native distance between an item and a vector that
  \<open>checkDimension\<close> accepts (an item or a query) runs past the end of a slice.
\<close>

theorem replicas_hold_typed_vectors:
  assumes "g_process g = Some (process unmarshal impl)" "partition_ok (g_state g)" "accepted_impl impl" "fair env"
    and "\<forall>ev \<in> set evs. plain_event L ev" "\<forall>data \<in> set (log_of (committed_by evs)). legal_data unmarshal data"
    and "\<forall>data \<in> set (log_of (committed_by evs)). \<forall>c. unmarshal data = Inr c \<longrightarrow> (\<forall>v \<in> set (vectors_of c). typed_vector d v)"
    and "typed_items d (items_of (g_state g))" "group_run L W N env evs g = Some g'"
  shows "typed_items d (items_of (g_state g')) \<and>
    (\<forall>q i x m. typed_vector d q \<longrightarrow> items_of (g_state g') i = Some (x, m) \<longrightarrow>
       native_euclidean q x \<noteq> None \<and> native_manhattan q x \<noteq> None \<and> native_cosine q x \<noteq> None)"
proof -
  have "partition_machine.drives unmarshal impl g" using assms(1,2) by (simp add: partition_machine.drives_def)
  moreover have "\<forall>data \<in> set (log_of (committed_by evs)). legal_data unmarshal data \<and> accepted_impl impl"
    using assms(3,6) by blast
  ultimately have "run_spec (log_spec unmarshal) (log_of (committed_by evs)) (items_of (g_state g)) = Some (items_of (g_state g'))"
    using partition_machine.group_run_spec [OF _ assms(4,5) _ assms(9)] by simp
  then have "typed_items d (items_of (g_state g'))"
    by (rule keeps_type_run [OF assms(8)]) (use assms(7) in \<open>blast intro: keeps_type_log\<close>)
  then show ?thesis using native_total [OF typed_same_dim] typed_itemsD by blast
qed

theorem replicas_hold_typed_vectors_witness:
  "\<exists>g'. group_run sample_lib sample_wal sample_net (plain_env 0) [Tick, Ready (sample_ready [] sample_entries)] sample_replica = Some g' \<and>
     typed_items sample_dataset (items_of (g_state g')) \<and>
     (\<forall>q i x m. typed_vector sample_dataset q \<longrightarrow> items_of (g_state g') i = Some (x, m) \<longrightarrow>
       native_euclidean q x \<noteq> None \<and> native_manhattan q x \<noteq> None \<and> native_cosine q x \<noteq> None)"
proof -
  let ?e = "Ready (sample_ready [] sample_entries)"
  have f: "g_process sample_replica = Some (process sample_unmarshal native_impl)" "g_state sample_replica = sample_partition"
    "g_id sample_replica = uuid_of 7" by (simp_all add: sample_replica_def)
  obtain g' where g': "group_run sample_lib sample_wal sample_net (plain_env 0) [Tick, ?e] sample_replica = Some g'"
    using sample_replica_returns(1) [of sample_replica "plain_env 0" sample_net] f by auto
  have ev: "\<forall>ev \<in> set [Tick, ?e]. plain_event sample_lib ev" "committed_by [Tick, ?e] = sample_entries"
    by (simp_all add: plain_event_def sample_ready_def sample_lib_def no_snapshot_def committed_by_def)
  have typed: "typed_vector sample_dataset [x]" for x
    by (simp add: typed_vector_def check_dimension_def sample_dataset_def)
  have c: "vectors_of sample_change = [[7]]" by (simp add: vectors_of_def sample_change_def empty_change_def)
  have "typed_items sample_dataset (items_of (g_state g')) \<and>
     (\<forall>q i x m. typed_vector sample_dataset q \<longrightarrow> items_of (g_state g') i = Some (x, m) \<longrightarrow>
       native_euclidean q x \<noteq> None \<and> native_manhattan q x \<noteq> None \<and> native_cosine q x \<noteq> None)"
    by (rule replicas_hold_typed_vectors [OF f(1) _ accepted_impl_native plain_env(1) ev(1) _ _ _ g'])
      (use f sample_partition_ok typed in \<open>simp_all add: ev sample_log c sample_unmarshal_def\<close>)
  with g' show ?thesis by blast
qed

section \<open>Requests\<close>

text \<open>
  What raft and other nodes are asked: \<open>same_for_typed\<close> relates two raft nodes, and
  \<open>same_calls\<close> two networks, that may differ on vectors \<open>checkDimension\<close> refuses.
\<close>

definition typed_change :: "dataset \<Rightarrow> partition_change \<Rightarrow> bool" where
  "typed_change d c = (\<forall>v \<in> set (vectors_of c). check_dimension v d = None)"

definition same_for_typed :: "dataset \<Rightarrow> raft_env \<Rightarrow> raft_env \<Rightarrow> bool" where
  "same_for_typed d R R' = (\<exists>f. R' = R\<lparr>marshal := f\<rparr> \<and> (\<forall>c. typed_change d c \<longrightarrow> f c = marshal R c))"

definition same_calls :: "dataset \<Rightarrow> remote \<Rightarrow> remote \<Rightarrow> bool" where
  "same_calls d rm rm' = (\<exists>f g h. rm' = rm\<lparr>rm_insert := f, rm_update := g, rm_batch := h\<rparr> \<and>
     (\<forall>c i j v m. check_dimension v d = None \<longrightarrow> f c i j v m = rm_insert rm c i j v m \<and> g c i j v m = rm_update rm c i j v m) \<and>
     (\<forall>t c i j items. (\<forall>item \<in> set items. check_dimension (bi_value item) d = None) \<longrightarrow>
        h t c i j items = rm_batch rm t c i j items))"

lemma propose_same:
  assumes "same_for_typed d R R'" "typed_change d c"
  shows "propose_and_wait R' c p = propose_and_wait R c p"
proof -
  obtain f where f: "R' = R\<lparr>marshal := f\<rparr>" "\<And>c. typed_change d c \<Longrightarrow> f c = marshal R c"
    using assms(1) by (auto simp: same_for_typed_def)
  have "typed_change d (c\<lparr>pc_notification_id := nid\<rparr>)" for nid
    using assms(2) by (simp add: typed_change_def vectors_of_def cong: change_type.case_cong)
  then have "marshal R' (c\<lparr>pc_notification_id := nid\<rparr>) = marshal R (c\<lparr>pc_notification_id := nid\<rparr>)" for nid
    using f by simp
  moreover have "new_id R' = new_id R" "raft_propose R' = raft_propose R" "meanwhile R' = meanwhile R"
    using f(1) by simp_all
  ultimately show ?thesis unfolding propose_and_wait_def by (simp only:)
qed

lemma partition_same:
  assumes "same_for_typed d R R'"
  shows "check_dimension v d = None \<Longrightarrow> partition_insert R' lg r i v m = partition_insert R lg r i v m"
    "check_dimension v d = None \<Longrightarrow> partition_update R' i v m = partition_update R i v m"
    "\<forall>item \<in> set items. check_dimension (bi_value item) d = None \<Longrightarrow>
       partition_batch_insert R' lg rs items = partition_batch_insert R lg rs items"
    "\<forall>item \<in> set items. check_dimension (bi_value item) d = None \<Longrightarrow>
       partition_batch_update R' items = partition_batch_update R items"
proof -
  have level: "map bi_value (with_levels lg rs p items) = map bi_value items" for p
    by (rule nth_equalityI) (simp_all add: with_levels_def)
  have same: "propose_and_wait R' c = propose_and_wait R c" if "typed_change d c" for c
    using propose_same [OF assms that] by (simp add: fun_eq_iff)
  show "partition_insert R' lg r i v m = partition_insert R lg r i v m" if "check_dimension v d = None"
    using that by (simp add: fun_eq_iff partition_insert_def same typed_change_def vectors_of_def empty_change_def)
  show "partition_update R' i v m = partition_update R i v m" if "check_dimension v d = None"
    using that by (simp add: partition_update_def same typed_change_def vectors_of_def empty_change_def)
  show "partition_batch_insert R' lg rs items = partition_batch_insert R lg rs items"
    if "\<forall>item \<in> set items. check_dimension (bi_value item) d = None"
  proof -
    have "vectors_of ((empty_change BatchInsertValue)\<lparr>pc_batch_items := with_levels lg rs p items\<rparr>) = map bi_value items" for p
      by (simp add: vectors_of_def empty_change_def level)
    then have "typed_change d ((empty_change BatchInsertValue)\<lparr>pc_batch_items := with_levels lg rs p items\<rparr>)" for p
      using that by (simp add: typed_change_def)
    then show ?thesis by (simp add: fun_eq_iff partition_batch_insert_def same)
  qed
  show "partition_batch_update R' items = partition_batch_update R items"
    if "\<forall>item \<in> set items. check_dimension (bi_value item) d = None"
    using that by (simp add: partition_batch_update_def same typed_change_def vectors_of_def empty_change_def)
qed

lemma check_dimension_meta: "ds_meta d' = ds_meta d \<Longrightarrow> check_dimension v d' = check_dimension v d"
  by (simp add: check_dimension_def)

lemma get_data_manager_client_keeps: "ds_meta (snd (get_data_manager_client rm n d)) = ds_meta d"
  by (simp add: get_data_manager_client_def split: option.split sum.split prod.split)

lemma handle_request_keeps:
  assumes "handle_partition_batch_request rm from_string t r local k items d = Some (m, d')"
  shows "ds_meta d' = ds_meta d"
proof (cases "on_this_node d k")
  case True
  then show ?thesis using assms
    by (auto simp: handle_partition_batch_request_def on_partition_def bind_eq_Some_conv)
next
  case False
  then obtain n where "(case get_data_manager_client rm n d of
      (Inl e, d') \<Rightarrow> Some (error_to_partition_batch_result items e, d')
    | (Inr c, d') \<Rightarrow> (case rm_batch rm t c (ds_id d) (p_id (ds_partitions d ! k)) items of
          Inl e \<Rightarrow> Some (error_to_partition_batch_result items e, d')
        | Inr es \<Rightarrow> map_option (\<lambda>m. (m, d')) (errors_response_to_partition_batch_result from_string es []))) = Some (m, d')"
    using assms by (auto simp: handle_partition_batch_request_def bind_eq_Some_conv)
  moreover obtain x d1 where "get_data_manager_client rm n d = (x, d1)" by fastforce
  moreover from this have "ds_meta d1 = ds_meta d" using get_data_manager_client_keeps [of rm n d] by simp
  ultimately show ?thesis by (auto split: sum.splits)
qed

definition items_in :: "(nat \<times> batch_item list) list \<Rightarrow> batch_item set" where
  "items_in gs = (\<Union>g \<in> set gs. set (snd g))"

lemma items_in_add: "items_in (add_to_group k item gs) = insert item (items_in gs)"
  by (induction k item gs rule: add_to_group.induct) (auto simp: items_in_def)

lemma grouped_items: "group_batch_items_by_partition d items gs = Some gs' \<Longrightarrow> items_in gs' = items_in gs \<union> set items"
proof (induction items arbitrary: gs)
  case (Cons item items)
  obtain k where "group_batch_items_by_partition d items (add_to_group k item gs) = Some gs'"
    using Cons.prems by (auto simp: bind_eq_Some_conv split: sum.splits)
  from Cons.IH [OF this] show ?case by (simp add: items_in_add)
qed simp

lemma checked_items: "set (snd (check_items d items (errs, checked))) =
    set checked \<union> {item \<in> set items. check_dimension (bi_value item) d = None}"
  by (induction items arbitrary: errs checked) (auto split: option.split)

text \<open>A request that is the same on checked items is the same on all.\<close>

lemma checked_batch_same:
  assumes "\<And>items. \<forall>item \<in> set items. check_dimension (bi_value item) d = None \<Longrightarrow> request' items d = request items d"
  shows "checked_batch request' items d = checked_batch request items d"
proof -
  obtain errs checked where c: "check_items d items ([], []) = (errs, checked)" by fastforce
  then have "request' checked d = request checked d"
    using assms checked_items [of d items "[]" "[]"] by simp
  then show ?thesis by (simp add: checked_batch_def c andthen_def)
qed

lemma handle_request_same:
  assumes "same_calls d0 rm rm'" "ds_meta d = ds_meta d0" "local' items = local items"
    and "\<forall>item \<in> set items. check_dimension (bi_value item) d0 = None"
  shows "handle_partition_batch_request rm' from_string t r local' k items d =
    handle_partition_batch_request rm from_string t r local k items d"
proof -
  have "rm_batch rm' t c i j items = rm_batch rm t c i j items" "rm_dial rm' = rm_dial rm" for c i j
    using assms(1,4) by (auto simp: same_calls_def)
  then show ?thesis unfolding handle_partition_batch_request_def get_data_manager_client_def
    by (simp only: assms(3))
qed

lemma collect_groups_same:
  assumes "same_calls d0 rm rm'"
    and "\<And>k is. \<forall>item \<in> set is. check_dimension (bi_value item) d0 = None \<Longrightarrow> local' k is = local k is"
  shows "ds_meta d = ds_meta d0 \<Longrightarrow> \<forall>item \<in> items_in gs. check_dimension (bi_value item) d0 = None \<Longrightarrow>
    collect_groups rm' from_string t r local' gs errs d = collect_groups rm from_string t r local gs errs d"
proof (induction gs arbitrary: errs d)
  case (Cons g gs)
  obtain k "is" where g: "g = (k, is)" by (cases g)
  have "handle_partition_batch_request rm' from_string t (r k) (local' k) k is d =
      handle_partition_batch_request rm from_string t (r k) (local k) k is d"
    by (rule handle_request_same [OF assms(1) Cons.prems(1) assms(2)]) (use Cons.prems(2) g in \<open>simp_all add: items_in_def\<close>)
  moreover have "collect_groups rm' from_string t r local' gs errs' d' = collect_groups rm from_string t r local gs errs' d'"
    if "handle_partition_batch_request rm from_string t (r k) (local k) k is d = Some (m, d')" for m d' errs'
    using Cons.IH [of d'] Cons.prems handle_request_keeps [OF that] by (simp add: items_in_def)
  ultimately show ?case
    by (cases "handle_partition_batch_request rm from_string t (r k) (local k) k is d") (auto simp: g)
qed simp

lemma partitions_request_same:
  assumes "same_calls d rm rm'" "fair env" "\<forall>item \<in> set items. check_dimension (bi_value item) d = None"
    and "\<And>k is. \<forall>item \<in> set is. check_dimension (bi_value item) d = None \<Longrightarrow> local' k is = local k is"
  shows "partitions_batch_request rm' from_string t r env ends local' items d =
    partitions_batch_request rm from_string t r env ends local items d"
proof (cases "group_batch_items_by_partition d items []")
  case (Some gs)
  have "items_in (visit env gs) = set items"
    using grouped_items [OF Some] by (simp add: items_in_def set_visit [OF assms(2)])
  then have "\<forall>item \<in> items_in (visit env gs). check_dimension (bi_value item) d = None" using assms(3) by simp
  from collect_groups_same [OF assms(1,4) refl this] show ?thesis
    by (simp add: partitions_batch_request_def Some)
qed (simp add: partitions_batch_request_def)

text \<open>
  C13: A dataset asks for vectors of its dimension only. Insert, Update, BatchInsert and
  BatchUpdate behave the same whatever raft would encode, and other nodes would answer, for a
  change that carries a vector \<open>checkDimension\<close> refuses: they never propose or send one.
\<close>

theorem requests_carry_typed_vectors:
  assumes "same_calls d rm rm'" "same_for_typed d R R'" "\<forall>k. same_for_typed d (Rs k) (Rs' k)" "fair env"
  shows "dataset_insert rm' R' r lg x i v m d = dataset_insert rm R r lg x i v m d \<and>
    dataset_update rm' R' r i v m d = dataset_update rm R r i v m d \<and>
    batch_insert rm' from_string rs env ends Rs' lg xs items d = batch_insert rm from_string rs env ends Rs lg xs items d \<and>
    batch_update rm' from_string rs env ends Rs' items d = batch_update rm from_string rs env ends Rs items d"
proof (intro conjI)
  note same = partition_same [OF assms(2)]
  have call: "check_dimension v d = None \<Longrightarrow> rm_insert rm' c j i v m = rm_insert rm c j i v m"
    "check_dimension v d = None \<Longrightarrow> rm_update rm' c j i v m = rm_update rm c j i v m" for c j
    using assms(1) by (auto simp: same_calls_def)
  have "rm_dial rm' = rm_dial rm" using assms(1) by (auto simp: same_calls_def)
  then have route: "route rm' r i call local d = route rm r i call local d" for call local
    unfolding route_def proxy_def get_data_manager_client_def by (simp only:)
  show "dataset_insert rm' R' r lg x i v m d = dataset_insert rm R r lg x i v m d"
    "dataset_update rm' R' r i v m d = dataset_update rm R r i v m d"
    unfolding dataset_insert_def dataset_update_def
    by (cases "check_dimension v d"; simp add: same call route)+
  note batch = partition_same(3,4) [OF assms(3) [rule_format]]
  show "batch_insert rm' from_string rs env ends Rs' lg xs items d = batch_insert rm from_string rs env ends Rs lg xs items d"
    unfolding batch_insert_def
    by (rule checked_batch_same, rule partitions_request_same [OF assms(1,4)], assumption, rule batch(1))
  show "batch_update rm' from_string rs env ends Rs' items d = batch_update rm from_string rs env ends Rs items d"
    unfolding batch_update_def
    by (rule checked_batch_same, rule partitions_request_same [OF assms(1,4)], assumption, rule batch(2))
qed

text \<open>A node whose codec refuses every change with a vector of another dimension.\<close>

definition strict_raft :: "dataset \<Rightarrow> raft_env \<Rightarrow> raft_env" where
  "strict_raft d R = R\<lparr>marshal := (\<lambda>c. if typed_change d c then marshal R c else Inl BadMessage)\<rparr>"

theorem requests_carry_typed_vectors_witness:
  "dataset_insert deaf_remote (strict_raft sample_dataset sample_raft) 0 (\<lambda>x. x) 0 (uuid_of 2) [7, 8] None sample_dataset =
     dataset_insert deaf_remote sample_raft 0 (\<lambda>x. x) 0 (uuid_of 2) [7, 8] None sample_dataset \<and>
   dataset_insert deaf_remote (strict_raft sample_dataset sample_raft) 0 (\<lambda>x. x) 0 (uuid_of 2) [7] None sample_dataset =
     dataset_insert deaf_remote sample_raft 0 (\<lambda>x. x) 0 (uuid_of 2) [7] None sample_dataset \<and>
   strict_raft sample_dataset sample_raft \<noteq> sample_raft"
proof -
  have rm: "same_calls sample_dataset deaf_remote deaf_remote" unfolding same_calls_def
    by (rule exI [of _ "rm_insert deaf_remote"], rule exI [of _ "rm_update deaf_remote"], rule exI [of _ "rm_batch deaf_remote"]) simp
  have R: "same_for_typed sample_dataset sample_raft (strict_raft sample_dataset sample_raft)"
    unfolding same_for_typed_def strict_raft_def by (intro exI conjI, rule refl) simp
  have "\<not> typed_change sample_dataset ((empty_change InsertValue)\<lparr>pc_value := [7, 8]\<rparr>)"
    by (simp add: typed_change_def vectors_of_def empty_change_def check_dimension_def sample_dataset_def)
  then have "marshal (strict_raft sample_dataset sample_raft) ((empty_change InsertValue)\<lparr>pc_value := [7, 8]\<rparr>) \<noteq>
      marshal sample_raft ((empty_change InsertValue)\<lparr>pc_value := [7, 8]\<rparr>)"
    by (simp add: strict_raft_def sample_raft_def)
  then have "strict_raft sample_dataset sample_raft \<noteq> sample_raft" by metis
  moreover note requests_carry_typed_vectors [OF rm R _ plain_env(1), of "\<lambda>_. sample_raft" "\<lambda>_. strict_raft sample_dataset sample_raft"]
  ultimately show ?thesis using R by blast
qed

end
