(* ===== verification/Simd.thy ===== *)
theory Simd
  imports DatasetTypes
begin

unbundle bit_operations_syntax

text \<open>
  The SSE and AVX implementations of the distances: the kernels of \<open>simd/cpp/\<close>, which the assembly of
  \<open>simd/sse/\<close> and \<open>simd/avx/\<close> is generated from without reordering, their Go wrappers, and the choice
  \<open>newSpace\<close> makes by the processor. A vector register is a list of \<open>width\<close> float32 values. A kernel
  trusts the length of its first operand: reading past the end of the second is undefined, and
  \<open>None\<close> here, as the bounds check of the native implementation is. Its loads are taken to be aligned.

  Every implementation gives distances that \<open>Push\<close> accepts, but they are not the same function.
\<close>

section \<open>Kernels\<close>

record simd_unit =
  width :: nat
  sum_vector :: "vec \<Rightarrow> f32"

definition sse_unit :: simd_unit where
  "sse_unit = \<lparr>width = 4, sum_vector = (\<lambda>v. f32_add (f32_add (f32_add (v ! 0) (v ! 1)) (v ! 2)) (v ! 3))\<rparr>"

text \<open>Two horizontal additions, and the sum of the lower lanes of both halves.\<close>

definition avx_unit :: simd_unit where
  "avx_unit = \<lparr>width = 8, sum_vector = (\<lambda>v. f32_add
     (f32_add (f32_add (v ! 0) (v ! 1)) (f32_add (v ! 2) (v ! 3)))
     (f32_add (f32_add (v ! 4) (v ! 5)) (f32_add (v ! 6) (v ! 7))))\<rparr>"

text \<open>The loop over whole registers: \<open>n\<close> rounds of \<open>resVec = add(resVec, f(a[i:], b[i:]))\<close>.\<close>

fun lane_loop :: "(f32 \<Rightarrow> f32 \<Rightarrow> f32) \<Rightarrow> nat \<Rightarrow> nat \<Rightarrow> vec \<Rightarrow> vec \<Rightarrow> vec \<Rightarrow> vec option" where
  "lane_loop f w 0 acc a b = Some acc"
| "lane_loop f w (Suc n) acc a b =
     (if length a < w \<or> length b < w then None
      else lane_loop f w n (map2 f32_add acc (map2 f (take w a) (take w b))) (drop w a) (drop w b))"

text \<open>The registers, their sum, and the loop over the elements that fill no register.\<close>

definition simd_sum :: "simd_unit \<Rightarrow> (f32 \<Rightarrow> f32 \<Rightarrow> f32) \<Rightarrow> (f32 \<Rightarrow> f32 \<Rightarrow> f32) \<Rightarrow> vec \<Rightarrow> vec \<Rightarrow> f32 option" where
  "simd_sum U f g a b = (let n = length a div width U in do {
     v \<leftarrow> lane_loop f (width U) n (replicate (width U) 0) a b;
     accumulate g (sum_vector U v) (drop (n * width U) a) (drop (n * width U) b) })"

definition c_abs :: "f32 \<Rightarrow> f32" where
  "c_abs x = (if f32_lt x 0 then f32_neg x else x)"

definition euclidean_distance_squared :: "simd_unit \<Rightarrow> vec \<Rightarrow> vec \<Rightarrow> f32 option" where
  "euclidean_distance_squared U = simd_sum U (\<lambda>x y. square (f32_sub x y)) (\<lambda>x y. square (f32_sub x y))"

text \<open>The lanes have no absolute value: they take the root of the square.\<close>

definition kernel_manhattan :: "simd_unit \<Rightarrow> vec \<Rightarrow> vec \<Rightarrow> f32 option" where
  "kernel_manhattan U = simd_sum U (\<lambda>x y. f32_sqrt (square (f32_sub x y))) (\<lambda>x y. c_abs (f32_sub x y))"

definition cosine_similarity_dot_norm :: "simd_unit \<Rightarrow> vec \<Rightarrow> vec \<Rightarrow> (f32 \<times> f32) option" where
  "cosine_similarity_dot_norm U a b = do {
     d \<leftarrow> simd_sum U f32_mul f32_mul a b;
     na \<leftarrow> simd_sum U (\<lambda>x y. square x) (\<lambda>x y. square x) a b;
     nb \<leftarrow> simd_sum U (\<lambda>x y. square y) (\<lambda>x y. square y) a b;
     Some (d, f32_mul na nb) }"

section \<open>The Go side\<close>

text \<open>\<open>&a[0]\<close> panics for an empty slice.\<close>

definition first_elements :: "vec \<Rightarrow> vec \<Rightarrow> 'a option \<Rightarrow> 'a option" where
  "first_elements a b k = (if a = [] \<or> b = [] then None else k)"

definition simd_euclidean :: "simd_unit \<Rightarrow> vec \<Rightarrow> vec \<Rightarrow> f32 option" where
  "simd_euclidean U a b = map_option f32_sqrt (first_elements a b (euclidean_distance_squared U a b))"

definition simd_manhattan :: "simd_unit \<Rightarrow> vec \<Rightarrow> vec \<Rightarrow> f32 option" where
  "simd_manhattan U a b = first_elements a b (kernel_manhattan U a b)"

definition simd_cosine :: "simd_unit \<Rightarrow> vec \<Rightarrow> vec \<Rightarrow> f32 option" where
  "simd_cosine U a b = map_option (\<lambda>(d, n). f32_sub 0x3F800000 (f32_div d (f32_sqrt n)))
     (first_elements a b (cosine_similarity_dot_norm U a b))"

definition sse_euclidean where "sse_euclidean = simd_euclidean sse_unit"
definition sse_manhattan where "sse_manhattan = simd_manhattan sse_unit"
definition sse_cosine where "sse_cosine = simd_cosine sse_unit"
definition avx_euclidean where "avx_euclidean = simd_euclidean avx_unit"
definition avx_manhattan where "avx_manhattan = simd_manhattan avx_unit"
definition avx_cosine where "avx_cosine = simd_cosine avx_unit"

text \<open>As in \<open>native_impl\<close>, a panic is a NaN here.\<close>

definition or_nan :: "f32 option \<Rightarrow> f32" where
  "or_nan d = (case d of None \<Rightarrow> f32_canonical_nan | Some x \<Rightarrow> x)"

definition sse_impl :: space_impl where
  "sse_impl = \<lparr>euclidean_distance = (\<lambda>a b. or_nan (sse_euclidean a b)),
     manhattan_distance = (\<lambda>a b. or_nan (sse_manhattan a b)), cosine_distance = (\<lambda>a b. or_nan (sse_cosine a b))\<rparr>"

definition avx_impl :: space_impl where
  "avx_impl = \<lparr>euclidean_distance = (\<lambda>a b. or_nan (avx_euclidean a b)),
     manhattan_distance = (\<lambda>a b. or_nan (avx_manhattan a b)), cosine_distance = (\<lambda>a b. or_nan (avx_cosine a b))\<rparr>"

text \<open>\<open>cpuid.CPU.AVX()\<close> and \<open>cpuid.CPU.SSE()\<close> are the arguments.\<close>

definition new_space :: "bool \<Rightarrow> bool \<Rightarrow> space_impl" where
  "new_space has_avx has_sse = (if has_avx then avx_impl else if has_sse then sse_impl else native_impl)"

section \<open>Where the kernels are defined\<close>

lemma lane_loop_total: "n * w \<le> length a \<Longrightarrow> same_dim a b \<Longrightarrow> \<exists>v. lane_loop f w n acc a b = Some v"
proof (induction n arbitrary: acc a b)
  case (Suc n)
  then have "n * w \<le> length (drop w a)" "same_dim (drop w a) (drop w b)" "\<not> length a < w" "\<not> length b < w"
    by (auto simp: same_dim_def)
  then show ?case using Suc.IH by simp
qed simp

lemma simd_sum_total: "same_dim a b \<Longrightarrow> \<exists>d. simd_sum U f g a b = Some d"
proof -
  assume dim: "same_dim a b"
  let ?n = "length a div width U"
  obtain v where v: "lane_loop f (width U) ?n (replicate (width U) 0) a b = Some v"
    using lane_loop_total [OF _ dim, of ?n "width U"] by fastforce
  moreover have "same_dim (drop (?n * width U) a) (drop (?n * width U) b)" using dim by (simp add: same_dim_def)
  ultimately show ?thesis using accumulate_same_dim by (simp add: simd_sum_def Let_def)
qed

lemma simd_total:
  assumes "same_dim a b"
  shows "simd_euclidean U a b = None \<longleftrightarrow> a = []" "simd_manhattan U a b = None \<longleftrightarrow> a = []"
    "simd_cosine U a b = None \<longleftrightarrow> a = []"
proof -
  have empty: "b = [] \<longleftrightarrow> a = []" using assms by (auto simp: same_dim_def)
  have sum: "\<And>f g. simd_sum U f g a b \<noteq> None" using simd_sum_total [OF assms] by (metis option.distinct(1))
  show "simd_euclidean U a b = None \<longleftrightarrow> a = []" "simd_manhattan U a b = None \<longleftrightarrow> a = []"
    using empty sum by (auto simp: simd_euclidean_def simd_manhattan_def first_elements_def
        euclidean_distance_squared_def kernel_manhattan_def)
  have "cosine_similarity_dot_norm U a b \<noteq> None"
    using sum unfolding cosine_similarity_dot_norm_def by (auto simp: bind_eq_None_conv)
  then show "simd_cosine U a b = None \<longleftrightarrow> a = []" using empty by (auto simp: simd_cosine_def first_elements_def)
qed

section \<open>Signs\<close>

text \<open>Not below zero, or the negative zero \<open>c_abs\<close> lets through.\<close>

definition not_below :: "f32 \<Rightarrow> bool" where
  "not_below x = (sign_clear x \<or> f32_unpack x = Finite True 0 (- 149))"

lemma sign_clear_not_below [simp, intro]: "sign_clear x \<Longrightarrow> not_below x"
  by (simp add: not_below_def)

lemma add_not_below:
  assumes "sign_clear x" "not_below y"
  shows "sign_clear (f32_add x y)"
proof (cases "sign_clear y")
  case False
  then have y: "f32_unpack y = Finite True 0 (- 149)" using assms(2) by (simp add: not_below_def)
  have pos: "\<not> int m * 2 ^ i < 0" for m i :: nat by (simp add: not_less)
  show ?thesis using assms(1)
    by (elim unpack_clear) (simp_all add: f32_add_def Let_def signed_mantissa_def pos y sign_clear_round)
qed (use assms in blast)

lemma c_abs_not_below: "not_below (c_abs x)"
proof (cases "f32_nan x \<or> \<not> bit x 31")
  case True
  then have "sign_clear x" by (simp add: sign_clear_def)
  then show ?thesis using sign_clear_not_negative by (simp add: c_abs_def)
next
  case False
  then have x: "\<not> f32_nan x" "bit x 31" by simp_all
  have mask: "x AND 0x7FFFFFFF = take_bit 31 x"
    by (simp add: take_bit_eq_mask mask_eq_exp_minus_1)
  have zero: "f32_key 0 = 0" "\<not> f32_nan 0" by (simp_all add: f32_key_def f32_nan_def)
  show ?thesis
  proof (cases "take_bit 31 x = 0")
    case True
    have "take_bit 23 x = take_bit 23 (take_bit 31 x)" by simp
    moreover have "take_bit 8 (drop_bit 23 x) = drop_bit 23 (take_bit 31 x)" by (simp add: take_bit_drop_bit)
    ultimately have "f32_unpack x = Finite True 0 (- 149)" using True x(2) by (simp add: f32_unpack_def)
    moreover have "f32_key x = 0" using True x(2) mask by (simp add: f32_key_def)
    ultimately show ?thesis using zero by (simp add: c_abs_def f32_lt_def not_below_def)
  next
    case False
    then have "f32_key x < 0" using x(2) mask by (simp add: f32_key_def word_neq_0_conv word_less_def)
    then have "c_abs x = f32_neg x" using x(1) zero by (simp add: c_abs_def f32_lt_def)
    moreover have "\<not> bit (f32_neg x) 31" using x(2) by (simp add: f32_neg_def bit_xor_iff)
    ultimately show ?thesis by (simp add: sign_clear_def)
  qed
qed

lemma accumulate_not_below: "accumulate f acc a b = Some d \<Longrightarrow> sign_clear acc \<Longrightarrow> (\<And>x y. not_below (f x y)) \<Longrightarrow> sign_clear d"
  by (induction f acc a b rule: accumulate.induct) (auto simp: add_not_below)

lemma map2_clear:
  assumes "\<And>x y. x \<in> set xs \<Longrightarrow> y \<in> set ys \<Longrightarrow> sign_clear (f x y)"
  shows "\<forall>z \<in> set (map2 f xs ys). sign_clear z"
  using assms by (auto dest: set_zip_leftD set_zip_rightD)

lemma lane_loop_clear:
  assumes "\<And>x y. sign_clear (f x y)"
  shows "lane_loop f w n acc a b = Some v \<Longrightarrow> length acc = w \<Longrightarrow> \<forall>x \<in> set acc. sign_clear x \<Longrightarrow>
    length v = w \<and> (\<forall>x \<in> set v. sign_clear x)"
proof (induction n arbitrary: acc a b)
  case (Suc n)
  have "\<forall>x \<in> set (map2 f32_add acc (map2 f (take w a) (take w b))). sign_clear x"
  proof (rule map2_clear)
    show "sign_clear (f32_add x y)" if "x \<in> set acc" "y \<in> set (map2 f (take w a) (take w b))" for x y
      using sign_clear_add [of x y] that Suc.prems(3) map2_clear [of "take w a" "take w b" f] assms by blast
  qed
  moreover have "\<not> (length a < w \<or> length b < w)"
    "lane_loop f w n (map2 f32_add acc (map2 f (take w a) (take w b))) (drop w a) (drop w b) = Some v"
    using Suc.prems(1) by (simp_all split: if_splits)
  moreover from this(1) have "length (map2 f32_add acc (map2 f (take w a) (take w b))) = w" using Suc.prems(2) by simp
  ultimately show ?case using Suc.IH by blast
qed simp

definition sums_lanes :: "simd_unit \<Rightarrow> bool" where
  "sums_lanes U = (\<forall>v. length v = width U \<longrightarrow> (\<forall>x \<in> set v. sign_clear x) \<longrightarrow> sign_clear (sum_vector U v))"

lemma sums_lanes_units: "sums_lanes sse_unit" "sums_lanes avx_unit"
proof -
  have nth: "sign_clear (v ! k)" if "\<forall>x \<in> set v. sign_clear x" "k < length v" for v k
    using that by simp
  show "sums_lanes sse_unit" unfolding sums_lanes_def sse_unit_def simd_unit.simps
    by (intro allI impI sign_clear_add nth) simp_all
  show "sums_lanes avx_unit" unfolding sums_lanes_def avx_unit_def simd_unit.simps
    by (intro allI impI sign_clear_add nth) simp_all
qed

lemma simd_sum_clear:
  assumes "sums_lanes U" "simd_sum U f g a b = Some d" "\<And>x y. sign_clear (f x y)" "\<And>x y. not_below (g x y)"
  shows "sign_clear d"
proof -
  obtain v where v: "lane_loop f (width U) (length a div width U) (replicate (width U) 0) a b = Some v"
    "accumulate g (sum_vector U v) (drop (length a div width U * width U) a) (drop (length a div width U * width U) b) = Some d"
    using assms(2) by (auto simp: simd_sum_def Let_def bind_eq_Some_conv)
  have "length v = width U \<and> (\<forall>x \<in> set v. sign_clear x)"
    using lane_loop_clear [OF assms(3) v(1)] by simp
  then have "sign_clear (sum_vector U v)" using assms(1) by (simp add: sums_lanes_def)
  then show ?thesis using accumulate_not_below [OF v(2)] assms(4) by blast
qed

lemma simd_clear:
  assumes "sums_lanes U"
  shows "sign_clear (or_nan (simd_euclidean U a b))" "sign_clear (or_nan (simd_manhattan U a b))"
proof -
  have sq: "sign_clear (square (f32_sub x y))" for x y by (simp add: square_def sign_clear_square)
  have "sign_clear d" if "euclidean_distance_squared U a b = Some d" for d
    using simd_sum_clear [OF assms that [unfolded euclidean_distance_squared_def]] sq by blast
  then show "sign_clear (or_nan (simd_euclidean U a b))"
    by (auto simp: or_nan_def simd_euclidean_def first_elements_def sqrt_not_negative split: option.split)
  have "sign_clear d" if "kernel_manhattan U a b = Some d" for d
    using simd_sum_clear [OF assms that [unfolded kernel_manhattan_def]] sq sqrt_not_negative c_abs_not_below by blast
  then show "sign_clear (or_nan (simd_manhattan U a b))"
    by (auto simp: or_nan_def simd_manhattan_def first_elements_def split: option.split)
qed

lemma accepted_units: "accepted_distance (space_distance sse_impl sp)" "accepted_distance (space_distance avx_impl sp)"
proof -
  note clear = simd_clear [OF sums_lanes_units(1)] simd_clear [OF sums_lanes_units(2)]
  have cosine: "\<not> f32_negative (f32_abs x)" for x using sign_clear_not_negative sign_clear_abs by blast
  show "accepted_distance (space_distance sse_impl sp)"
    using sign_clear_not_negative clear(1,2) cosine
    by (cases sp) (simp_all add: accepted_distance_def sse_impl_def sse_euclidean_def sse_manhattan_def)
  show "accepted_distance (space_distance avx_impl sp)"
    using sign_clear_not_negative clear(3,4) cosine
    by (cases sp) (simp_all add: accepted_distance_def avx_impl_def avx_euclidean_def avx_manhattan_def)
qed

text \<open>
  C37: Whatever implementation the processor selects, its three distances are never below zero,
  NaNs, infinities and negative zeros among the components included, so \<open>Push\<close> never panics on
  them. On vectors of one dimension they return, the empty vector apart, which the native
  implementation measures and the others panic on.
\<close>

theorem distances_are_accepted:
  "\<not> f32_negative (space_distance (new_space has_avx has_sse) sp a b) \<and>
   (length a = length b \<longrightarrow>
      native_euclidean a b \<noteq> None \<and> native_manhattan a b \<noteq> None \<and> native_cosine a b \<noteq> None \<and>
      (sse_euclidean a b = None \<longleftrightarrow> a = []) \<and> (sse_manhattan a b = None \<longleftrightarrow> a = []) \<and> (sse_cosine a b = None \<longleftrightarrow> a = []) \<and>
      (avx_euclidean a b = None \<longleftrightarrow> a = []) \<and> (avx_manhattan a b = None \<longleftrightarrow> a = []) \<and> (avx_cosine a b = None \<longleftrightarrow> a = []))"
proof -
  have "accepted_distance (space_distance (new_space has_avx has_sse) sp)"
    by (simp add: new_space_def accepted_units accepted_native)
  then have "\<not> f32_negative (space_distance (new_space has_avx has_sse) sp a b)" by (rule accepted_distanceD)
  moreover have "native_euclidean a b \<noteq> None" "native_manhattan a b \<noteq> None" "native_cosine a b \<noteq> None" if "length a = length b"
    using native_total [of a b] that by (simp_all add: same_dim_def)
  moreover have "(sse_euclidean a b = None \<longleftrightarrow> a = []) \<and> (sse_manhattan a b = None \<longleftrightarrow> a = []) \<and> (sse_cosine a b = None \<longleftrightarrow> a = []) \<and>
      (avx_euclidean a b = None \<longleftrightarrow> a = []) \<and> (avx_manhattan a b = None \<longleftrightarrow> a = []) \<and> (avx_cosine a b = None \<longleftrightarrow> a = [])"
    if "length a = length b"
    using simd_total [of a b] that
    by (simp add: same_dim_def sse_euclidean_def sse_manhattan_def sse_cosine_def avx_euclidean_def avx_manhattan_def avx_cosine_def)
  ultimately show ?thesis by simp
qed

theorem distances_are_accepted_witness:
  "native_euclidean [] [] \<noteq> None \<and> sse_euclidean [] [] = None \<and> avx_manhattan [0x80000000] [0] \<noteq> None \<and>
   \<not> f32_negative (space_distance (new_space False True) Manhattan [0x80000000] [0])"
  using distances_are_accepted [of True True Manhattan "[]" "[]"]
    distances_are_accepted [of False True Manhattan "[0x80000000]" "[0]"] by simp

section \<open>A difference\<close>

lemma bit_length_numeral: "bit_length 1 = 1" "bit_length (Suc 0) = 1"
  "bit_length (numeral (Num.Bit0 k)) = Suc (bit_length (numeral k))"
  "bit_length (numeral (Num.Bit1 k)) = Suc (bit_length (numeral k))"
  by (subst bit_length.simps; simp add: bit_length.simps [of "Suc 0"] bit_length.simps [of 0])+

lemma unpacked: "f32_unpack 0 = Finite False 0 (- 149)" "f32_unpack 0x80000000 = Finite True 0 (- 149)"
  "f32_unpack 0x17800000 = Finite False 8388608 (- 103)" "f32_unpack 0x97800000 = Finite True 8388608 (- 103)"
  "f32_unpack 0x17000000 = Finite False 8388608 (- 104)" "f32_unpack 0x97000000 = Finite True 8388608 (- 104)"
  by (simp_all add: f32_unpack_def)

lemma lane_loop_numeral: "lane_loop f w (numeral n) acc a b =
     (if length a < w \<or> length b < w then None
      else lane_loop f w (pred_numeral n) (map2 f32_add acc (map2 f (take w a) (take w b))) (drop w a) (drop w b))"
  by (simp add: numeral_eq_Suc)

lemmas f32_eval = unpacked signed_mantissa_def Let_def f32_round_def f32_encode_def f32_pack_def bit_length_numeral

lemma negated: "f32_neg 0 = 0x80000000" "f32_neg 0x17800000 = 0x97800000" "f32_neg 0x17000000 = 0x97000000"
  "f32_neg 0x97000000 = 0x17000000" "f32_abs 0 = 0" "f32_abs 0x97800000 = 0x17800000" "f32_abs 0x97000000 = 0x17000000"
  by (simp_all add: f32_neg_def f32_abs_def)

lemma sums: "f32_add 0 0 = 0" "f32_add 0 0x17800000 = 0x17800000" "f32_add 0 0x17000000 = 0x17000000"
  "f32_add 0x17800000 0 = 0x17800000" "f32_sub 0 0 = 0"
  "f32_sub 0 0x17800000 = 0x97800000" "f32_sub 0 0x17000000 = 0x97000000"
  by (simp_all add: f32_sub_def negated f32_add_def f32_eval)

lemma roots: "square 0 = 0" "square 0x97800000 = 0" "f32_sqrt 0 = 0" "c_abs 0 = 0" "c_abs 0x97000000 = 0x17000000"
  by (simp_all add: square_def f32_mul_def f32_eval f32_sqrt_def c_abs_def f32_lt_def f32_key_def f32_nan_def negated)


end
