(* ===== verification/RandomVectors.thy ===== *)
theory RandomVectors
  imports Vectors
begin

text \<open>
  The rest of \<open>math/random.go\<close> and the sorting of \<open>math/vector.go\<close>. What the generator of Go returns is a
  stream of draws, an argument. \<open>RandomDistinctInts\<close> draws until it has enough numbers, so it is a
  partial function; it compares a candidate with the number before it only.
\<close>

section \<open>\<open>sort.Interface\<close> of a vector\<close>

definition vector_len :: "vec \<Rightarrow> nat" where
  "vector_len v = length v"

definition vector_swap :: "nat \<Rightarrow> nat \<Rightarrow> vec \<Rightarrow> vec option" where
  "vector_swap i j v = (if i < length v \<and> j < length v then Some (v[i := v ! j, j := v ! i]) else None)"

definition vector_less :: "nat \<Rightarrow> nat \<Rightarrow> vec \<Rightarrow> bool option" where
  "vector_less i j v = (if i < length v \<and> j < length v then Some (f32_lt (v ! i) (v ! j)) else None)"

section \<open>Random vectors\<close>

definition random_uniform :: "f32 \<Rightarrow> f32" where
  "random_uniform r = r"

text \<open>\<open>make(Vector, dim)\<close> panics for a negative size.\<close>

definition random_uniform_vector :: "(nat \<Rightarrow> f32) \<Rightarrow> int \<Rightarrow> vec option" where
  "random_uniform_vector draws dim = (if dim < 0 then None else Some (map (\<lambda>i. random_uniform (draws i)) [0..<nat dim]))"

text \<open>\<open>draws\<close> are the numbers of \<open>rand.NormFloat64\<close> converted to float32.\<close>

definition random_standard_normal_vector :: "(nat \<Rightarrow> f32) \<Rightarrow> int \<Rightarrow> vec option" where
  "random_standard_normal_vector draws dim = (if dim < 0 then None else Some (map draws [0..<nat dim]))"

definition random_normal_vector :: "(nat \<Rightarrow> f32) \<Rightarrow> int \<Rightarrow> f32 \<Rightarrow> f32 \<Rightarrow> vec option" where
  "random_normal_vector draws dim mu sigma =
     (if dim < 0 then None else Some (map (\<lambda>i. f32_add (f32_mul (draws i) sigma) mu) [0..<nat dim]))"

section \<open>Random integers\<close>

text \<open>The loop with \<open>k\<close> draws behind it and the numbers found; \<open>None\<close> is a loop that does not end.\<close>

partial_function (option) distinct_loop :: "(nat \<Rightarrow> int) \<Rightarrow> nat \<Rightarrow> nat \<Rightarrow> int list \<Rightarrow> int list option" where
  "distinct_loop draws n k res =
     (if n \<le> length res then Some res
      else if draws k \<noteq> last res then distinct_loop draws n (Suc k) (res @ [draws k])
      else distinct_loop draws n (Suc k) res)"

text \<open>\<open>result[0]\<close> panics for no numbers, and \<open>rand.Intn\<close> for a bound that is not positive.\<close>

definition random_distinct_ints :: "(nat \<Rightarrow> int) \<Rightarrow> int \<Rightarrow> int \<Rightarrow> int list option" where
  "random_distinct_ints draws n bound = (if n \<le> 0 \<or> bound \<le> 0 then None else distinct_loop draws (nat n) 1 [draws 0])"

abbreviation changes :: "(nat \<Rightarrow> int) \<Rightarrow> nat \<Rightarrow> int list" where
  "changes draws k \<equiv> remdups_adj (map draws [0..<k])"

lemma remdups_adj_snoc: "remdups_adj (xs @ [x]) = (if xs \<noteq> [] \<and> last xs = x then remdups_adj xs else remdups_adj xs @ [x])"
  by (induction xs rule: remdups_adj.induct) auto

lemma changes_Suc: "0 < k \<Longrightarrow> changes draws (Suc k) =
    (if draws k \<noteq> last (changes draws k) then changes draws k @ [draws k] else changes draws k)"
  by (auto simp: remdups_adj_snoc last_remdups_adj)

lemma changes_grow: "k \<le> j \<Longrightarrow> \<exists>ys. changes draws j = changes draws k @ ys"
proof (induction j rule: dec_induct)
  case (step j)
  then show ?case by (auto simp: remdups_adj_snoc)
qed simp

lemma loop_result:
  assumes "distinct_loop draws n k res = Some xs" "0 < k" "res = changes draws k" "length res \<le> n"
  shows "length xs = n \<and> (\<exists>j. xs = changes draws j)"
proof -
  have "0 < k \<longrightarrow> res = changes draws k \<longrightarrow> length res \<le> n \<longrightarrow> length xs = n \<and> (\<exists>j. xs = changes draws j)"
  proof (rule distinct_loop.raw_induct [OF _ assms(1)])
    fix loop draws n k res xs
    assume IH: "\<And>draws n k res xs. loop draws n k res = Some xs \<Longrightarrow>
        0 < k \<longrightarrow> res = changes draws k \<longrightarrow> length res \<le> n \<longrightarrow> length xs = n \<and> (\<exists>j. xs = changes draws j)"
      and run: "(if n \<le> length res then Some res else if draws k \<noteq> last res then loop draws n (Suc k) (res @ [draws k])
        else loop draws n (Suc k) res) = Some xs"
    show "0 < k \<longrightarrow> res = changes draws k \<longrightarrow> length res \<le> n \<longrightarrow> length xs = n \<and> (\<exists>j. xs = changes draws j)"
    proof (intro impI)
      assume k: "0 < k" "res = changes draws k" "length res \<le> n"
      show "length xs = n \<and> (\<exists>j. xs = changes draws j)"
      proof (cases "n \<le> length res")
        case True
        then show ?thesis using run k by auto
      next
        case False
        have "loop draws n (Suc k) (changes draws (Suc k)) = Some xs"
          using run False k changes_Suc [OF k(1), of draws] by (auto split: if_splits)
        moreover have "length (changes draws (Suc k)) \<le> n" using False k changes_Suc [OF k(1), of draws] by auto
        ultimately show ?thesis using IH by blast
      qed
    qed
  qed
  then show ?thesis using assms(2-4) by blast
qed

lemma loop_returns:
  assumes "k \<le> j" "0 < k" "length (changes draws k) \<le> n" "length (changes draws j) = n"
  shows "distinct_loop draws n k (changes draws k) = Some (changes draws j)"
  using assms
proof (induction k rule: inc_induct)
  case base
  then show ?case by (subst distinct_loop.simps) simp
next
  case (step k)
  obtain ys where ys: "changes draws j = changes draws k @ ys" using changes_grow [of k j draws] step.hyps by auto
  show ?case
  proof (cases "n \<le> length (changes draws k)")
    case True
    then have "changes draws j = changes draws k" using ys step.prems by simp
    then show ?thesis using True by (subst distinct_loop.simps) simp
  next
    case False
    then have "length (changes draws (Suc k)) \<le> n" using changes_Suc [OF step.prems(1), of draws] by auto
    then have "distinct_loop draws n (Suc k) (changes draws (Suc k)) = Some (changes draws j)" using step by simp
    then show ?thesis using False changes_Suc [OF step.prems(1), of draws] by (subst distinct_loop.simps) (simp split: if_splits)
  qed
qed

text \<open>
  \<open>RandomDistinctInts\<close> returns exactly when the draws change often enough, and then the numbers
  are the draws without immediate repetitions, cut at \<open>n\<close>. So it never returns when only one number
  can be drawn and two are asked for, and its numbers need not be distinct: a number may come back
  after another one.
\<close>

theorem random_distinct_ints_returns:
  assumes "0 < n" "0 < bound"
  shows "random_distinct_ints draws n bound = Some xs \<longleftrightarrow> length xs = nat n \<and> (\<exists>k. xs = changes draws k)"
proof
  have one: "[draws 0] = changes draws 1" by simp
  have start: "random_distinct_ints draws n bound = distinct_loop draws (nat n) 1 [draws 0]"
    using assms by (simp add: random_distinct_ints_def)
  show "length xs = nat n \<and> (\<exists>k. xs = changes draws k)" if "random_distinct_ints draws n bound = Some xs"
    by (rule loop_result [OF _ _ one]) (use that start assms(1) in simp_all)
  assume xs: "length xs = nat n \<and> (\<exists>k. xs = changes draws k)"
  then obtain j where j: "xs = changes draws j" by blast
  then have "1 \<le> j" using xs assms(1) by (cases j) auto
  then have "distinct_loop draws (nat n) 1 (changes draws 1) = Some (changes draws j)"
    using loop_returns [of 1 j draws "nat n"] xs j assms(1) by simp
  then show "random_distinct_ints draws n bound = Some xs" by (simp only: start one j)
qed

theorem random_distinct_ints_returns_witness:
  "random_distinct_ints (\<lambda>k. int (k mod 2)) 3 2 = Some [0, 1, 0] \<and> random_distinct_ints (\<lambda>k. 0) 2 1 = None"
proof -
  have "random_distinct_ints (\<lambda>k. int (k mod 2)) 3 2 = Some [0, 1, 0]"
  proof -
    have "[0, 1, 0] = changes (\<lambda>k. int (k mod 2)) 3" by (simp add: numeral_eq_Suc)
    moreover have "length [0, 1, 0 :: int] = nat 3" by simp
    ultimately have "length [0, 1, 0 :: int] = nat 3 \<and> (\<exists>k. [0, 1, 0] = changes (\<lambda>k. int (k mod 2)) k)" by blast
    moreover have "(0 :: int) < 3" "(0 :: int) < 2" by simp_all
    ultimately show ?thesis using random_distinct_ints_returns [of 3 2 "\<lambda>k. int (k mod 2)" "[0, 1, 0]"] by blast
  qed
  moreover have "random_distinct_ints (\<lambda>k. 0) 2 1 \<noteq> Some xs" for xs
  proof
    assume "random_distinct_ints (\<lambda>k. 0) 2 1 = Some xs"
    then have "length xs = nat 2 \<and> (\<exists>k. xs = changes (\<lambda>k. 0) k)" using random_distinct_ints_returns [of 2 1 "\<lambda>k. 0" xs] by simp
    then obtain k where k: "length xs = 2" "xs = changes (\<lambda>k. 0) k" by auto
    have "length (changes (\<lambda>k. 0) k) \<le> 1" by (simp add: map_replicate_const remdups_adj_replicate)
    then show False using k by simp
  qed
  ultimately show ?thesis by (cases "random_distinct_ints (\<lambda>k. 0) 2 1") auto
qed

end
