(* ===== verification/MemoryWal.thy ===== *)
theory MemoryWal
  imports RaftGroup
begin

text \<open>
  \<open>storage/wal/memory.go\<close>: a log kept in the \<open>MemoryStorage\<close> of etcd, whose operations are the fields
  of \<open>memory_storage\<close>. \<open>Append\<close> panics (\<open>None\<close>) when entries are missing in between.
\<close>

record 'm memory_storage =
  ms_new :: 'm
  ms_append :: "entry list \<Rightarrow> ('m, unit) prog"
  ms_set_hard_state :: "hard_state \<Rightarrow> ('m, unit) prog"
  ms_apply_snapshot :: "raft_snapshot \<Rightarrow> ('m, unit) prog"
  ms_snapshot :: "'m \<Rightarrow> error + raft_snapshot"
  ms_create_snapshot :: "64 word \<Rightarrow> conf_state option \<Rightarrow> bytes \<Rightarrow> ('m, raft_snapshot) prog"

definition new_memory_wal :: "'m memory_storage \<Rightarrow> 'm" where
  "new_memory_wal M = ms_new M"

definition memory_save ::
  "raft_lib \<Rightarrow> 'm memory_storage \<Rightarrow> hard_state \<Rightarrow> entry list \<Rightarrow> raft_snapshot \<Rightarrow> ('m, unit) prog" where
  "memory_save L M h es s = andthen (ms_append M es) (\<lambda>_. andthen (ms_set_hard_state M h)
     (\<lambda>_. if \<not> is_empty_snap L s then ms_apply_snapshot M s else ret ()))"

text \<open>\<open>DeleteGroup\<close> assigns a new storage to its receiver, a local variable.\<close>

definition memory_delete_group :: "'m memory_storage \<Rightarrow> ('m, unit) prog" where
  "memory_delete_group M m = (let this = ms_new M in Some (Inr (), m))"

definition memory_ops :: "raft_lib \<Rightarrow> 'm memory_storage \<Rightarrow> 'm wal_ops" where
  "memory_ops L M = \<lparr>wal_save = memory_save L M, wal_snapshot = ms_snapshot M, wal_create_snapshot = ms_create_snapshot M\<rparr>"

text \<open>
  \<open>ApplySnapshot\<close> overwrites the contents of the storage with those of the snapshot. \<open>Save\<close> calls it after
  \<open>Append\<close>, so the entries that came with the snapshot are gone.
\<close>

lemma save_overwrites_entries:
  assumes "\<And>s m r m'. ms_apply_snapshot M s m = Some (r, m') \<Longrightarrow> r = Inr () \<Longrightarrow> stored m' = []"
    and "\<not> is_empty_snap L s" "memory_save L M h es s m = Some (Inr (), m')"
  shows "stored m' = []"
proof -
  obtain m1 where "ms_append M es m = Some (Inr (), m1)" using assms(3)
    by (cases "ms_append M es m") (auto simp: memory_save_def andthen_def split: sum.splits)
  then obtain m2 where "ms_set_hard_state M h m1 = Some (Inr (), m2)" using assms(3)
    by (cases "ms_set_hard_state M h m1") (auto simp: memory_save_def andthen_def split: sum.splits)
  with \<open>ms_append M es m = Some (Inr (), m1)\<close> have "ms_apply_snapshot M s m2 = Some (Inr (), m')"
    using assms(2,3) by (simp add: memory_save_def)
  then show ?thesis using assms(1) by blast
qed

end
