(* ===== verification/Allocator.thy ===== *)
theory Allocator
  imports DatasetProperties
begin

text \<open>
  \<open>storage/allocator.go\<close>: which nodes hold a partition, when this node starts or stops the raft
  group of one, and what it proposes when nodes come and go. The partitions are shared with their
  datasets; the allocator's map holds them with the replication factor of their dataset. Random
  shuffles are arguments, and so is what starting a raft group found.
\<close>

section \<open>State\<close>

datatype allocator_update = WatchPartition uuid | UnwatchPartition "partition"

record allocator =
  al_conn :: conn
  al_partitions :: "(uuid \<times> (partition \<times> 32 word)) list"
  al_updates :: "allocator_update list"

definition new_allocator :: "conn \<Rightarrow> allocator" where
  "new_allocator c = \<lparr>al_conn = c, al_partitions = [], al_updates = []\<rparr>"

text \<open>
  \<open>updatesC\<close> has no buffer: a send returns when the loop takes the value. \<open>free\<close> tells whether the
  loop does; while it does not, the caller keeps the mutex of the map.
\<close>

definition send_update :: "bool \<Rightarrow> allocator_update \<Rightarrow> allocator \<Rightarrow> allocator attempt" where
  "send_update free u a = (if free then Returns (a\<lparr>al_updates := al_updates a @ [u]\<rparr>) else Blocks a)"

definition watch :: "bool \<Rightarrow> partition \<Rightarrow> 32 word \<Rightarrow> allocator \<Rightarrow> allocator attempt" where
  "watch free p factor a =
     (if map_of (al_partitions a) (p_id p) = None
      then send_update free (WatchPartition (p_id p))
             (a\<lparr>al_partitions := AList.update (p_id p) (p, factor) (al_partitions a)\<rparr>)
      else Returns a)"

definition unwatch :: "bool \<Rightarrow> uuid \<Rightarrow> allocator \<Rightarrow> allocator attempt" where
  "unwatch free i a = (case map_of (al_partitions a) i of
       Some (p, _) \<Rightarrow> send_update free (UnwatchPartition p) (a\<lparr>al_partitions := AList.delete i (al_partitions a)\<rparr>)
     | None \<Rightarrow> Returns a)"

definition allocator_get_partition :: "uuid \<Rightarrow> allocator \<Rightarrow> error + partition" where
  "allocator_get_partition i a = (case map_of (al_partitions a) i of Some (p, _) \<Rightarrow> Inr p | None \<Rightarrow> Inl PartitionNotFound)"

section \<open>Placement\<close>

text \<open>
  Every round shuffles the one array of node ids in place, by \<open>shuffle i\<close>, and takes a prefix of it
  as a slice: the slices share the array, so their contents are those after the last round.
\<close>

fun shuffle_rounds :: "(nat \<Rightarrow> node_id list \<Rightarrow> node_id list) \<Rightarrow> nat \<Rightarrow> nat \<Rightarrow> node_id list \<Rightarrow> node_id list" where
  "shuffle_rounds shuffle i 0 ids = ids"
| "shuffle_rounds shuffle i (Suc n) ids = shuffle_rounds shuffle (Suc i) n (shuffle i ids)"

definition get_partitions_node_ids ::
  "(nat \<Rightarrow> node_id list \<Rightarrow> node_id list) \<Rightarrow> env \<Rightarrow> nat \<Rightarrow> nat \<Rightarrow> conn \<Rightarrow> node_id list list" where
  "get_partitions_node_ids shuffle env partition_count replication_factor c =
     (let ids = node_ids env c;
          shared = shuffle_rounds shuffle 0 partition_count ids
      in map (\<lambda>_. take (min (length ids) replication_factor) shared) [0..<partition_count])"

section \<open>The loop\<close>

definition is_partition_assigned_to_node :: "allocator \<Rightarrow> partition \<Rightarrow> bool" where
  "is_partition_assigned_to_node a p = is_on_node (cn_id (al_conn a)) p"

text \<open>Without a node list the first node of an iteration decides; an empty list of nodes panics.\<close>

definition can_modify_partition :: "env \<Rightarrow> allocator \<Rightarrow> partition \<Rightarrow> bool option" where
  "can_modify_partition env a p = (case p_node_ids p of
       n # _ \<Rightarrow> Some (n = cn_id (al_conn a))
     | [] \<Rightarrow> (case node_ids env (al_conn a) of [] \<Rightarrow> None | n # _ \<Rightarrow> Some (cn_id (al_conn a) = n)))"

datatype allocator_proposal = ProposeAddNode uuid node_id | ProposeRemoveNode uuid node_id

fun proposals ::
  "(env \<Rightarrow> partition \<times> 32 word \<Rightarrow> bool option) \<Rightarrow> (uuid \<Rightarrow> allocator_proposal) \<Rightarrow> env \<Rightarrow>
   (uuid \<times> (partition \<times> 32 word)) list \<Rightarrow> allocator_proposal list option" where
  "proposals wanted propose env [] = Some []"
| "proposals wanted propose env ((i, p) # ps) = do {
     w \<leftarrow> wanted (sub env 0) p;
     rest \<leftarrow> proposals wanted propose (sub env 1) ps;
     Some (if w then propose i # rest else rest) }"

definition add_node_to_partitions :: "env \<Rightarrow> node_id \<Rightarrow> allocator \<Rightarrow> allocator_proposal list option" where
  "add_node_to_partitions env n a = proposals
     (\<lambda>e (p, factor). map_option (\<lambda>b. b \<and> is_under_replicated factor p) (can_modify_partition e a p))
     (\<lambda>i. ProposeAddNode i n) (sub env 0) (visit (sub env 1) (al_partitions a))"

definition remove_node_from_partitions :: "env \<Rightarrow> node_id \<Rightarrow> allocator \<Rightarrow> allocator_proposal list option" where
  "remove_node_from_partitions env n a = proposals
     (\<lambda>e (p, factor). can_modify_partition e a p)
     (\<lambda>i. ProposeRemoveNode i n) (sub env 0) (visit (sub env 1) (al_partitions a))"

text \<open>A panic of \<open>loadRaft\<close> or \<open>unloadRaft\<close> is recovered; by then the group is set.\<close>

definition start_partition :: "error + unit \<Rightarrow> error + bytes option \<Rightarrow> partition \<Rightarrow> partition" where
  "start_partition new_group wal_snap p = (case load_raft new_group wal_snap p of
     Some (_, p') \<Rightarrow> p' | None \<Rightarrow> p\<lparr>p_raft := True\<rparr>)"

definition stop_partition :: "partition \<Rightarrow> partition" where
  "stop_partition p = (case unload_raft p of Some (_, p') \<Rightarrow> p' | None \<Rightarrow> p)"

datatype allocator_event = NodesChanged nodes_change | NextUpdate

text \<open>
  One turn of \<open>run\<close>. A node change yields proposals that the loop makes one after the other, each
  waiting for its commit; an update starts or stops the raft group of a partition on this node.
  Stopped partitions are returned: the dataset that held them is gone.
\<close>

definition allocator_step ::
  "(uuid \<Rightarrow> error + unit) \<Rightarrow> (uuid \<Rightarrow> error + bytes option) \<Rightarrow> env \<Rightarrow> allocator_event \<Rightarrow> allocator \<Rightarrow>
   (allocator_proposal list \<times> partition list \<times> allocator) option" where
  "allocator_step new_group wal_snap env ev a = (case ev of
       NodesChanged (NodesChangeAddNode n) \<Rightarrow> map_option (\<lambda>ps. (ps, [], a)) (add_node_to_partitions env n a)
     | NodesChanged (NodesChangeRemoveNode n) \<Rightarrow> map_option (\<lambda>ps. (ps, [], a)) (remove_node_from_partitions env n a)
     | NextUpdate \<Rightarrow> Some (case al_updates a of
           [] \<Rightarrow> ([], [], a)
         | WatchPartition i # us \<Rightarrow> (case map_of (al_partitions a) i of
               Some (p, factor) \<Rightarrow>
                 if is_partition_assigned_to_node a p
                 then ([], [], a\<lparr>al_updates := us, al_partitions :=
                   AList.update i (start_partition (new_group i) (wal_snap i) p, factor) (al_partitions a)\<rparr>)
                 else ([], [], a\<lparr>al_updates := us\<rparr>)
             | None \<Rightarrow> ([], [], a\<lparr>al_updates := us\<rparr>))
         | UnwatchPartition p # us \<Rightarrow>
             ([], [if is_partition_assigned_to_node a p then stop_partition p else p], a\<lparr>al_updates := us\<rparr>)))"

section \<open>Properties\<close>

lemma mset_shuffle_rounds: "(\<And>i ids. mset (shuffle i ids) = mset ids) \<Longrightarrow> mset (shuffle_rounds shuffle i n ids) = mset ids"
  by (induction n arbitrary: i ids) simp_all



lemma proposals_exact:
  assumes "\<forall>(i, p) \<in> set ps. \<forall>e. wanted e p = Some (w p)"
  shows "proposals wanted propose env ps = Some (map (\<lambda>(i, p). propose i) (filter (\<lambda>(i, p). w p) ps))"
  using assms by (induction ps arbitrary: env) auto

text \<open>An announced node is proposed for exactly the under-replicated partitions this node leads.\<close>

lemma added_node_is_proposed:
  assumes "fair env" "\<forall>(i, p, factor) \<in> set (al_partitions a). p_node_ids p \<noteq> []"
  shows "\<exists>props. add_node_to_partitions env n a = Some props \<and>
    set props = {ProposeAddNode i n | i p factor. (i, p, factor) \<in> set (al_partitions a) \<and>
      hd (p_node_ids p) = cn_id (al_conn a) \<and> is_under_replicated factor p}"
proof -
  let ?w = "\<lambda>(p, factor). hd (p_node_ids p) = cn_id (al_conn a) \<and> is_under_replicated factor p"
  have "proposals (\<lambda>e (p, factor). map_option (\<lambda>b. b \<and> is_under_replicated factor p) (can_modify_partition e a p))
      (\<lambda>i. ProposeAddNode i n) (sub env 0) (visit (sub env 1) (al_partitions a)) =
    Some (map (\<lambda>(i, p). ProposeAddNode i n) (filter (\<lambda>(i, p). ?w p) (visit (sub env 1) (al_partitions a))))"
    by (rule proposals_exact) (use assms in \<open>auto simp: can_modify_partition_def split: list.split\<close>)
  moreover have "set (visit (sub env 1) (al_partitions a)) = set (al_partitions a)" using assms(1) by simp
  ultimately show ?thesis unfolding add_node_to_partitions_def by auto
qed

text \<open>
  A node that holds a partition already can be added to it again: the loop proposes every
  announced node for every under-replicated partition this node leads, and the partition appends it
  without looking. It then counts as another replica, although no further node holds the data.
\<close>

theorem duplicate_node_counts_as_replica:
  assumes "add_node this new_group wal_snap n p = Some p'" "is_on_node n p"
    and "length (p_node_ids p) + 1 = unat factor"
  shows "is_under_replicated factor p \<and> \<not> is_under_replicated factor p' \<and>
    set (p_node_ids p') = set (p_node_ids p) \<and> card (set (p_node_ids p')) < unat factor"
proof -
  have ids: "p_node_ids p' = p_node_ids p @ [n]"
    using assms(1)
    by (auto simp: add_node_def load_raft_def process_snapshot_def bind_eq_Some_conv Let_def
        split: if_splits sum.splits option.splits)
  have "card (set (p_node_ids p)) \<le> length (p_node_ids p)" by (rule card_length)
  then show ?thesis using ids assms(2,3) by (auto simp: is_under_replicated_def is_on_node_def insert_absorb)
qed

theorem duplicate_node_counts_as_replica_witness:
  "\<exists>p'. add_node 9 (Inr ()) (Inr None) 2 sample_partition = Some p' \<and> p_node_ids p' = [1, 2, 2] \<and>
     is_under_replicated 3 sample_partition \<and> \<not> is_under_replicated 3 p'"
proof -
  let ?p = "sample_partition\<lparr>p_node_ids := p_node_ids sample_partition @ [2]\<rparr>"
  have run: "add_node 9 (Inr ()) (Inr None) 2 sample_partition = Some ?p" by (simp add: add_node_def)
  moreover have "is_on_node 2 sample_partition" "length (p_node_ids sample_partition) + 1 = unat (3 :: 32 word)"
    "p_node_ids ?p = [1, 2, 2]"
    by (simp_all add: is_on_node_def sample_partition_def)
  ultimately show ?thesis using duplicate_node_counts_as_replica [OF run, of 3] by blast
qed

end
