(* ===== verification/DatasetManager.thy ===== *)
theory DatasetManager
  imports Allocator
begin

text \<open>
  \<open>storage/dataset_manager.go\<close>: the catalogue of datasets, a state machine driven by the zero
  group. It applies the creation and deletion of datasets and the changes of the node lists of
  partitions; it tells the allocator which partitions to watch. The protobuf codec is an argument,
  as is what starting the raft group of a partition on this node found.
\<close>

section \<open>State\<close>

datatype manager_change_type = CreateDataset | DeleteDataset | UpdatePartitionNodes | UnknownManagerChange int

record manager_change =
  mc_type :: manager_change_type
  mc_notification_id :: bytes
  mc_data :: bytes

datatype nodes_change_type = AddPartitionNode | RemovePartitionNode | UnknownNodesChange int

record partition_nodes_change =
  nc_type :: nodes_change_type
  nc_dataset_id :: bytes
  nc_partition_id :: bytes
  nc_node_id :: node_id

record manager_codec =
  un_change :: "bytes \<Rightarrow> error + manager_change"
  un_dataset :: "bytes \<Rightarrow> error + dataset_meta"
  un_nodes_change :: "bytes \<Rightarrow> error + partition_nodes_change"
  un_snapshot :: "bytes \<Rightarrow> error + dataset_meta list"
  m_change :: "manager_change \<Rightarrow> error + bytes"
  m_dataset :: "dataset_meta \<Rightarrow> error + bytes"
  m_nodes_change :: "partition_nodes_change \<Rightarrow> error + bytes"
  m_snapshot :: "dataset_meta list \<Rightarrow> error + bytes"

datatype allocator_call = CallWatch uuid | CallUnwatch uuid

text \<open>A dataset that could not be built leaves a nil pointer in the map.\<close>

record manager =
  mg_datasets :: "(uuid \<times> dataset option) list"
  mg_conn :: conn
  mg_notificator :: "error option notificator"
  mg_calls :: "allocator_call list"

definition new_dataset_manager :: "conn \<Rightarrow> manager" where
  "new_dataset_manager c = \<lparr>mg_datasets = [], mg_conn = c, mg_notificator = new_notificator, mg_calls = []\<rparr>"

text \<open>What the node brings to a change: \<open>math.Log\<close>, its id, the result of starting a raft group.\<close>

record node_start =
  nd_log :: "f32 \<Rightarrow> f32"
  nd_new_group :: "uuid \<Rightarrow> error + unit"
  nd_snapshot :: "uuid \<Rightarrow> error + bytes option"

section \<open>Reading the catalogue\<close>

text \<open>
  \<open>Meta()\<close>: the message of a dataset shares its partition messages with the partitions, so it shows
  their current node lists.
\<close>

definition dataset_proto :: "dataset \<Rightarrow> dataset_meta" where
  "dataset_proto d = (ds_meta d)\<lparr>dm_partitions :=
     map2 (\<lambda>pm p. pm\<lparr>pm_node_ids := p_node_ids p\<rparr>) (dm_partitions (ds_meta d)) (ds_partitions d) @
     drop (length (ds_partitions d)) (dm_partitions (ds_meta d))\<rparr>"

definition manager_get :: "uuid \<Rightarrow> manager \<Rightarrow> error + dataset option" where
  "manager_get i m = (case map_of (mg_datasets m) i of Some d \<Rightarrow> Inr d | None \<Rightarrow> Inl DatasetNotFound)"

text \<open>\<open>List\<close> without sizes; a nil dataset panics.\<close>

fun list_datasets :: "(uuid \<times> dataset option) list \<Rightarrow> (error + dataset_meta list) option" where
  "list_datasets [] = Some (Inr [])"
| "list_datasets ((i, None) # ds) = None"
| "list_datasets ((i, Some d) # ds) = map_option (map_sum (\<lambda>e. e) ((#) (dataset_proto d))) (list_datasets ds)"

definition manager_list :: "env \<Rightarrow> manager \<Rightarrow> (error + dataset_meta list) option" where
  "manager_list env m = list_datasets (visit env (mg_datasets m))"

definition put_dataset :: "uuid \<Rightarrow> dataset option \<Rightarrow> manager \<Rightarrow> manager" where
  "put_dataset i d m = m\<lparr>mg_datasets := AList.update i d (mg_datasets m)\<rparr>"

text \<open>
  \<open>List\<close> with sizes: \<open>size_of\<close> is \<open>dataset.Len\<close>. The size is written into the message that the
  dataset keeps.
\<close>

definition sized_meta :: "(dataset, 64 word) prog \<Rightarrow> (dataset, dataset_meta) prog" where
  "sized_meta size_of = andthen size_of (\<lambda>n d.
     let d' = d\<lparr>ds_meta := (ds_meta d)\<lparr>dm_size := n\<rparr>\<rparr> in Some (Inr (dataset_proto d'), d'))"

fun list_sized :: "(dataset, 64 word) prog \<Rightarrow> (uuid \<times> dataset option) list \<Rightarrow> (manager, dataset_meta list) prog" where
  "list_sized size_of [] m = Some (Inr [], m)"
| "list_sized size_of ((i, None) # ds) m = None"
| "list_sized size_of ((i, Some d) # ds) m = (case sized_meta size_of d of
       None \<Rightarrow> None
     | Some (Inl e, d') \<Rightarrow> Some (Inl e, put_dataset i (Some d') m)
     | Some (Inr meta, d') \<Rightarrow> andthen (list_sized size_of ds) (\<lambda>metas. ret (meta # metas)) (put_dataset i (Some d') m))"

definition manager_list_sized :: "(dataset, 64 word) prog \<Rightarrow> env \<Rightarrow> (manager, dataset_meta list) prog" where
  "manager_list_sized size_of env m = list_sized size_of (visit env (mg_datasets m)) m"

section \<open>Applying a change\<close>

definition tell_manager :: "uuid \<Rightarrow> error option \<Rightarrow> manager \<Rightarrow> manager option" where
  "tell_manager nid r m = do {
     (_, n) \<leftarrow> notify nid r False (mg_notificator m);
     Some (m\<lparr>mg_notificator := n\<rparr>) }"

definition tell_and_return :: "uuid \<Rightarrow> error option \<Rightarrow> (manager, unit) prog" where
  "tell_and_return nid r m = map_option (\<lambda>m'. (Inr (), m')) (tell_manager nid r m)"

definition watch_all :: "dataset \<Rightarrow> manager \<Rightarrow> manager" where
  "watch_all d m = m\<lparr>mg_calls := mg_calls m @ map (\<lambda>p. CallWatch (p_id p)) (ds_partitions d)\<rparr>"

definition create_dataset :: "manager_codec \<Rightarrow> node_start \<Rightarrow> uuid \<Rightarrow> bytes \<Rightarrow> (manager, unit) prog" where
  "create_dataset C N nid data m = (case un_dataset C data of
       Inl e \<Rightarrow> Some (Inl e, m)
     | Inr meta \<Rightarrow> (case uuid_from_bytes (dm_id meta) of
           Inl e \<Rightarrow> Some (Inl e, m)
         | Inr i \<Rightarrow>
             if map_of (mg_datasets m) i \<noteq> None then tell_and_return nid (Some DatasetAlreadyExists) m
             else (case new_dataset (nd_log N) i meta (mg_conn m) of
                 None \<Rightarrow> None
               | Some (Inl e) \<Rightarrow> tell_and_return nid (Some e) (put_dataset i None m)
               | Some (Inr d) \<Rightarrow> tell_and_return nid None (watch_all d (put_dataset i (Some d) m)))))"

definition delete_dataset :: "uuid \<Rightarrow> bytes \<Rightarrow> (manager, unit) prog" where
  "delete_dataset nid data m = (case uuid_from_bytes data of
       Inl e \<Rightarrow> Some (Inl e, m)
     | Inr i \<Rightarrow> (case map_of (mg_datasets m) i of
           None \<Rightarrow> tell_and_return nid (Some DatasetNotFound) m
         | Some None \<Rightarrow> None
         | Some (Some d) \<Rightarrow> tell_and_return nid None
             (m\<lparr>mg_calls := mg_calls m @ map (\<lambda>p. CallUnwatch (p_id p)) (ds_partitions d),
                mg_datasets := AList.delete i (mg_datasets m)\<rparr>)))"

definition change_nodes :: "node_start \<Rightarrow> node_id \<Rightarrow> nodes_change_type \<Rightarrow> node_id \<Rightarrow> partition \<Rightarrow> partition option" where
  "change_nodes N this t n p = (case t of
       AddPartitionNode \<Rightarrow> add_node this (nd_new_group N (p_id p)) (nd_snapshot N (p_id p)) n p
     | RemovePartitionNode \<Rightarrow> remove_node this n p
     | UnknownNodesChange _ \<Rightarrow> Some p)"

definition update_partition_nodes :: "manager_codec \<Rightarrow> node_start \<Rightarrow> uuid \<Rightarrow> bytes \<Rightarrow> (manager, unit) prog" where
  "update_partition_nodes C N nid data m = (case un_nodes_change C data of
       Inl e \<Rightarrow> Some (Inl e, m)
     | Inr change \<Rightarrow> (case uuid_from_bytes (nc_dataset_id change) of
           Inl e \<Rightarrow> tell_and_return nid (Some e) m
         | Inr i \<Rightarrow> (case uuid_from_bytes (nc_partition_id change) of
               Inl e \<Rightarrow> tell_and_return nid (Some e) m
             | Inr j \<Rightarrow> (case manager_get i m of
                   Inl e \<Rightarrow> tell_and_return nid (Some e) m
                 | Inr None \<Rightarrow> None
                 | Inr (Some d) \<Rightarrow> (case get_partition j d of
                       Inl e \<Rightarrow> tell_and_return nid (Some e) m
                     | Inr k \<Rightarrow> do {
                         p \<leftarrow> change_nodes N (cn_id (mg_conn m)) (nc_type change) (nc_node_id change) (ds_partitions d ! k);
                         tell_and_return nid None
                           (put_dataset i (Some (d\<lparr>ds_partitions := (ds_partitions d)[k := p]\<rparr>)) m) })))))"

definition manager_process :: "manager_codec \<Rightarrow> node_start \<Rightarrow> bytes \<Rightarrow> (manager, unit) prog" where
  "manager_process C N data m = (case un_change C data of
       Inl e \<Rightarrow> Some (Inl e, m)
     | Inr change \<Rightarrow> (case uuid_from_bytes (mc_notification_id change) of
           Inl e \<Rightarrow> Some (Inl e, m)
         | Inr nid \<Rightarrow> (case mc_type change of
               CreateDataset \<Rightarrow> create_dataset C N nid (mc_data change) m
             | DeleteDataset \<Rightarrow> delete_dataset nid (mc_data change) m
             | UpdatePartitionNodes \<Rightarrow> update_partition_nodes C N nid (mc_data change) m
             | UnknownManagerChange _ \<Rightarrow> Some (Inr (), m))))"

section \<open>Snapshots\<close>

fun load_datasets :: "node_start \<Rightarrow> dataset_meta list \<Rightarrow> (manager, unit) prog" where
  "load_datasets N [] m = Some (Inr (), m)"
| "load_datasets N (meta # metas) m = (case uuid_from_bytes (dm_id meta) of
       Inl e \<Rightarrow> Some (Inl e, m)
     | Inr i \<Rightarrow>
         if map_of (mg_datasets m) i \<noteq> None then load_datasets N metas m
         else (case new_dataset (nd_log N) i meta (mg_conn m) of
             None \<Rightarrow> None
           | Some (Inl e) \<Rightarrow> Some (Inl e, put_dataset i None m)
           | Some (Inr d) \<Rightarrow> load_datasets N metas (watch_all d (put_dataset i (Some d) m))))"

definition manager_process_snapshot :: "manager_codec \<Rightarrow> node_start \<Rightarrow> bytes \<Rightarrow> (manager, unit) prog" where
  "manager_process_snapshot C N data m = (case un_snapshot C data of
     Inl e \<Rightarrow> Some (Inl e, m) | Inr metas \<Rightarrow> load_datasets N metas m)"

definition manager_snapshot :: "manager_codec \<Rightarrow> env \<Rightarrow> manager \<Rightarrow> (error + bytes) option" where
  "manager_snapshot C env m = (case manager_list env m of
     None \<Rightarrow> None | Some (Inl e) \<Rightarrow> Some (Inl e) | Some (Inr metas) \<Rightarrow> Some (m_snapshot C metas))"

section \<open>Proposing\<close>

text \<open>
  The three requests propose a change and wait for its notification, as a partition does. \<open>Create\<close>
  first draws the ids and places the partitions.
\<close>

record manager_env =
  me_new_id :: uuid
  me_propose :: "bytes \<Rightarrow> error option"
  me_meanwhile :: "bytes \<Rightarrow> manager \<Rightarrow> manager option"

definition finish_manager_proposal :: "uuid \<Rightarrow> error + 'a \<Rightarrow> (manager, 'a) prog" where
  "finish_manager_proposal nid r m = do {
     (_, n) \<leftarrow> notificator_remove nid (mg_notificator m);
     Some (r, m\<lparr>mg_notificator := n\<rparr>) }"

definition propose_manager_change ::
  "manager_codec \<Rightarrow> manager_env \<Rightarrow> manager_change_type \<Rightarrow> bytes \<Rightarrow> (manager \<Rightarrow> error + 'a) \<Rightarrow> (manager, 'a) prog" where
  "propose_manager_change C E t data result m = do {
     (cr, n) \<leftarrow> create (me_new_id E) 0 (mg_notificator m);
     let m1 = m\<lparr>mg_notificator := n\<rparr>;
     (case cr of
        Inl e \<Rightarrow> Some (Inl e, m1)
      | Inr (c, nid) \<Rightarrow> (case m_change C \<lparr>mc_type = t, mc_notification_id = nid, mc_data = data\<rparr> of
            Inl e \<Rightarrow> finish_manager_proposal nid (Inl e) m1
          | Inr proposal \<Rightarrow> (case me_propose E proposal of
                Some e \<Rightarrow> finish_manager_proposal nid (Inl e) m1
              | None \<Rightarrow> do {
                  m2 \<leftarrow> me_meanwhile E proposal (m1\<lparr>mg_notificator := await c n\<rparr>);
                  finish_manager_proposal nid
                    (case answer c (mg_notificator m2) of
                       None \<Rightarrow> Inl deadline_exceeded
                     | Some (Some e) \<Rightarrow> Inl e
                     | Some None \<Rightarrow> result m2) m2 }))) }"

definition manager_create ::
  "manager_codec \<Rightarrow> manager_env \<Rightarrow> uuid \<Rightarrow> (nat \<Rightarrow> uuid) \<Rightarrow> (nat \<Rightarrow> node_id list \<Rightarrow> node_id list) \<Rightarrow> env \<Rightarrow> dataset_meta \<Rightarrow>
   (manager, dataset option) prog" where
  "manager_create C E i pids shuffle env meta m =
     (let n = unat (dm_partition_count meta);
          placed = get_partitions_node_ids shuffle env n (unat (dm_replication_factor meta)) (mg_conn m);
          meta' = meta\<lparr>dm_id := i,
            dm_partitions := map (\<lambda>k. \<lparr>pm_id = pids k, pm_node_ids = placed ! k\<rparr>) [0..<n]\<rparr>
      in case m_dataset C meta' of
           Inl e \<Rightarrow> Some (Inl e, m)
         | Inr data \<Rightarrow> propose_manager_change C E CreateDataset data (manager_get i) m)"

definition manager_delete :: "manager_codec \<Rightarrow> manager_env \<Rightarrow> uuid \<Rightarrow> (manager, unit) prog" where
  "manager_delete C E i = propose_manager_change C E DeleteDataset i (\<lambda>_. Inr ())"

definition propose_partition_nodes_change ::
  "manager_codec \<Rightarrow> manager_env \<Rightarrow> uuid \<Rightarrow> uuid \<Rightarrow> node_id \<Rightarrow> nodes_change_type \<Rightarrow> (manager, unit) prog" where
  "propose_partition_nodes_change C E i j n t m =
     (case m_nodes_change C \<lparr>nc_type = t, nc_dataset_id = i, nc_partition_id = j, nc_node_id = n\<rparr> of
        Inl e \<Rightarrow> Some (Inl e, m)
      | Inr data \<Rightarrow> propose_manager_change C E UpdatePartitionNodes data (\<lambda>_. Inr ()) m)"

definition add_partition_node :: "manager_codec \<Rightarrow> manager_env \<Rightarrow> uuid \<Rightarrow> uuid \<Rightarrow> node_id \<Rightarrow> (manager, unit) prog" where
  "add_partition_node C E i j n = propose_partition_nodes_change C E i j n AddPartitionNode"

definition remove_partition_node :: "manager_codec \<Rightarrow> manager_env \<Rightarrow> uuid \<Rightarrow> uuid \<Rightarrow> node_id \<Rightarrow> (manager, unit) prog" where
  "remove_partition_node C E i j n = propose_partition_nodes_change C E i j n RemovePartitionNode"

end
