(* ===== verification/ManagerFacts.thy ===== *)
theory ManagerFacts
  imports DatasetManager
begin

text \<open>
  The catalogue of datasets as a replicated state machine. Its specification is a map from ids to
  the messages that describe the datasets; the interpretation \<open>manager_machine\<close> of \<open>state_machine\<close>
  shows that nodes which apply the same log agree on it, and a snapshot restores it.
\<close>

section \<open>The specification\<close>

type_synonym catalogue = "uuid \<Rightarrow> dataset_meta option"

definition legal_meta :: "dataset_meta \<Rightarrow> bool" where
  "legal_meta meta = (length (dm_partitions meta) = unat (dm_partition_count meta) \<and>
     (\<forall>pm \<in> set (dm_partitions meta). length (pm_id pm) = 16) \<and> distinct (map pm_id (dm_partitions meta)))"

definition create_spec :: "manager_codec \<Rightarrow> bytes \<Rightarrow> catalogue \<Rightarrow> ((error + unit) \<times> catalogue) option" where
  "create_spec C data f = Some (case un_dataset C data of
       Inl e \<Rightarrow> (Inl e, f)
     | Inr meta \<Rightarrow> (case uuid_from_bytes (dm_id meta) of
           Inl e \<Rightarrow> (Inl e, f)
         | Inr i \<Rightarrow> (Inr (), if f i = None then f(i \<mapsto> meta) else f)))"

definition delete_spec :: "bytes \<Rightarrow> catalogue \<Rightarrow> ((error + unit) \<times> catalogue) option" where
  "delete_spec data f = Some (case uuid_from_bytes data of Inl e \<Rightarrow> (Inl e, f) | Inr i \<Rightarrow> (Inr (), f(i := None)))"

fun change_node_ids :: "nodes_change_type \<Rightarrow> node_id \<Rightarrow> node_id list \<Rightarrow> node_id list" where
  "change_node_ids AddPartitionNode n ids = ids @ [n]"
| "change_node_ids RemovePartitionNode n ids = filter (\<lambda>x. x \<noteq> n) ids"
| "change_node_ids (UnknownNodesChange _) n ids = ids"

definition change_partition :: "partition_nodes_change \<Rightarrow> partition_meta \<Rightarrow> partition_meta" where
  "change_partition ch pm =
     (if pm_id pm = nc_partition_id ch then pm\<lparr>pm_node_ids := change_node_ids (nc_type ch) (nc_node_id ch) (pm_node_ids pm)\<rparr>
      else pm)"

definition update_nodes_spec :: "manager_codec \<Rightarrow> bytes \<Rightarrow> catalogue \<Rightarrow> ((error + unit) \<times> catalogue) option" where
  "update_nodes_spec C data f = Some (case un_nodes_change C data of
       Inl e \<Rightarrow> (Inl e, f)
     | Inr ch \<Rightarrow> (Inr (),
         if length (nc_dataset_id ch) = 16 \<and> length (nc_partition_id ch) = 16 \<and> f (nc_dataset_id ch) \<noteq> None
         then f(nc_dataset_id ch := map_option
           (\<lambda>meta. meta\<lparr>dm_partitions := map (change_partition ch) (dm_partitions meta)\<rparr>) (f (nc_dataset_id ch)))
         else f))"

definition manager_spec :: "manager_codec \<Rightarrow> bytes \<Rightarrow> catalogue \<Rightarrow> ((error + unit) \<times> catalogue) option" where
  "manager_spec C data f = (case un_change C data of
       Inl e \<Rightarrow> Some (Inl e, f)
     | Inr c \<Rightarrow> (case uuid_from_bytes (mc_notification_id c) of
           Inl e \<Rightarrow> Some (Inl e, f)
         | Inr _ \<Rightarrow> (case mc_type c of
               CreateDataset \<Rightarrow> create_spec C (mc_data c) f
             | DeleteDataset \<Rightarrow> delete_spec (mc_data c) f
             | UpdatePartitionNodes \<Rightarrow> update_nodes_spec C (mc_data c) f
             | UnknownManagerChange _ \<Rightarrow> Some (Inr (), f))))"

section \<open>Well-formed datasets\<close>

definition dataset_wf :: "uuid \<Rightarrow> dataset \<Rightarrow> bool" where
  "dataset_wf i d = (ds_id d = i \<and> dm_id (ds_meta d) = i \<and> length i = 16 \<and> legal_meta (ds_meta d) \<and>
     map p_id (ds_partitions d) = map pm_id (dm_partitions (ds_meta d)) \<and>
     (\<forall>j k. map_of (ds_partitions_map d) j = Some k \<longleftrightarrow> k < length (ds_partitions d) \<and> p_id (ds_partitions d ! k) = j))"

lemma partition_position:
  "dataset_wf i d \<Longrightarrow> map_of (ds_partitions_map d) j = Some k \<longleftrightarrow>
     k < length (ds_partitions d) \<and> p_id (ds_partitions d ! k) = j"
  by (simp add: dataset_wf_def)

lemma new_partitions_legal:
  assumes "length pms = n" "\<forall>pm \<in> set pms. length (pm_id pm) = 16" "distinct (map p_id ps @ map pm_id pms)"
    "\<forall>j k. map_of m j = Some k \<longleftrightarrow> k < length ps \<and> p_id (ps ! k) = j"
  shows "\<exists>m'. new_partitions lg meta n pms (ps, m) = Some (Inr (), (ps @ map (\<lambda>pm.
      new_partition lg (dm_space meta) (dm_dimension meta) (pm_id pm) (pm_node_ids pm)) pms, m')) \<and>
    (\<forall>j k. map_of m' j = Some k \<longleftrightarrow> k < length ps + n \<and> (map p_id ps @ map pm_id pms) ! k = j)"
  using assms
proof (induction pms arbitrary: n ps m)
  case Nil
  then show ?case by (auto simp: nth_append)
next
  case (Cons pm pms)
  obtain n' where n: "n = Suc n'" "length pms = n'" using Cons.prems(1) by auto
  let ?p = "new_partition lg (dm_space meta) (dm_dimension meta) (pm_id pm) (pm_node_ids pm)"
  have id: "p_id ?p = pm_id pm" "uuid_from_bytes (pm_id pm) = Inr (pm_id pm)"
    using Cons.prems(2) by (simp_all add: new_partition_def uuid_from_bytes_def)
  have "map_of (AList.update (pm_id pm) (length ps) m) j = Some k \<longleftrightarrow>
      k < length (ps @ [?p]) \<and> p_id ((ps @ [?p]) ! k) = j" for j k
  proof -
    have "pm_id pm \<notin> p_id ` set ps" using Cons.prems(3) by auto
    then have "p_id (ps ! k) \<noteq> pm_id pm" if "k < length ps" using that by (metis nth_mem image_eqI)
    then show ?thesis using Cons.prems(4) id(1) by (auto simp: nth_append less_Suc_eq)
  qed
  then obtain m' where "new_partitions lg meta n' pms (ps @ [?p], AList.update (pm_id pm) (length ps) m) =
      Some (Inr (), ((ps @ [?p]) @ map (\<lambda>pm. new_partition lg (dm_space meta) (dm_dimension meta) (pm_id pm) (pm_node_ids pm)) pms, m'))"
    "\<forall>j k. map_of m' j = Some k \<longleftrightarrow> k < length (ps @ [?p]) + n' \<and> (map p_id (ps @ [?p]) @ map pm_id pms) ! k = j"
    using Cons.IH [of n' "ps @ [?p]" "AList.update (pm_id pm) (length ps) m"] Cons.prems n id(1) by auto
  then show ?case using n id by simp
qed

lemma new_dataset_legal:
  assumes "legal_meta meta" "dm_id meta = i" "length i = 16"
  shows "\<exists>d. new_dataset lg i meta c = Some (Inr d) \<and> dataset_wf i d \<and> dataset_proto d = meta"
proof -
  let ?mk = "\<lambda>pm. new_partition lg (dm_space meta) (dm_dimension meta) (pm_id pm) (pm_node_ids pm)"
  have legal: "length (dm_partitions meta) = unat (dm_partition_count meta)"
    "\<forall>pm \<in> set (dm_partitions meta). length (pm_id pm) = 16" "distinct (map pm_id (dm_partitions meta))"
    using assms(1) by (simp_all add: legal_meta_def)
  obtain m where m: "new_partitions lg meta (unat (dm_partition_count meta)) (dm_partitions meta) ([], []) =
      Some (Inr (), (map ?mk (dm_partitions meta), m))"
    "\<forall>j k. map_of m j = Some k \<longleftrightarrow> k < length (dm_partitions meta) \<and> map pm_id (dm_partitions meta) ! k = j"
    using new_partitions_legal [of "dm_partitions meta" "unat (dm_partition_count meta)" "[]" "[]" lg meta] legal by auto
  let ?d = "\<lparr>ds_id = i, ds_meta = meta, ds_conn = c, ds_partitions = map ?mk (dm_partitions meta),
      ds_partitions_map = m, ds_search_clients = [], ds_data_clients = []\<rparr>"
  have new: "new_dataset lg i meta c = Some (Inr ?d)" using m(1) by (simp add: new_dataset_def)
  have wf: "dataset_wf i ?d"
    using assms m(2) by (auto simp: dataset_wf_def new_partition_def o_def)
  have proto: "map2 (\<lambda>pm p. pm\<lparr>pm_node_ids := p_node_ids p\<rparr>) pms (map ?mk pms) = pms" for pms
    by (induction pms) (auto simp: new_partition_def)
  have "dataset_proto ?d = meta\<lparr>dm_partitions := dm_partitions meta\<rparr>"
    using proto [of "dm_partitions meta"] by (simp add: dataset_proto_def)
  also have "\<dots> = meta" by (cases meta) simp
  finally have "dataset_proto ?d = meta" .
  with new wf show ?thesis by (intro exI conjI)
qed

lemma proto_partitions:
  assumes "length (ds_partitions d) = length (dm_partitions (ds_meta d))"
  shows "dm_partitions (dataset_proto d) =
    map2 (\<lambda>pm p. pm\<lparr>pm_node_ids := p_node_ids p\<rparr>) (dm_partitions (ds_meta d)) (ds_partitions d)"
  using assms by (simp add: dataset_proto_def)

lemma add_node_fields:
  assumes "add_node this ng snap n p = Some p'"
  shows "p_node_ids p' = p_node_ids p @ [n]" "p_id p' = p_id p"
  using assms
  by (auto simp: add_node_def load_raft_def process_snapshot_def bind_eq_Some_conv Let_def
      split: if_splits sum.splits option.splits)

lemma remove_node_fields:
  assumes "remove_node this n p = Some p'"
  shows "p_node_ids p' = filter (\<lambda>x. x \<noteq> n) (p_node_ids p)" "p_id p' = p_id p"
  using assms by (auto simp: remove_node_def unload_raft_def Let_def split: if_splits)

lemma change_nodes_fields:
  assumes "change_nodes N this t n p = Some p'"
  shows "p_node_ids p' = change_node_ids t n (p_node_ids p)" "p_id p' = p_id p"
  using assms add_node_fields remove_node_fields by (cases t; fastforce simp: change_nodes_def)+

text \<open>Starting the raft group of a partition on this node does not panic.\<close>

definition starts :: "node_start \<Rightarrow> bool" where
  "starts N = (\<forall>i data p. nd_snapshot N i = Inr (Some data) \<longrightarrow> process_snapshot data p \<noteq> None)"

lemma load_raft_total: "starts N \<Longrightarrow> load_raft g (nd_snapshot N i) p \<noteq> None"
  by (simp add: load_raft_def starts_def split: sum.split option.split del: not_None_eq)

lemma change_nodes_total: "starts N \<Longrightarrow> change_nodes N this t n p \<noteq> None"
  by (cases t) (simp_all add: change_nodes_def add_node_def remove_node_def unload_raft_def load_raft_total Let_def
      del: not_None_eq)

lemma updated_dataset:
  assumes wf: "dataset_wf i d" and k: "k < length (ds_partitions d)" "p_id (ds_partitions d ! k) = nc_partition_id ch"
    and p: "p_id p = nc_partition_id ch"
      "p_node_ids p = change_node_ids (nc_type ch) (nc_node_id ch) (p_node_ids (ds_partitions d ! k))"
  shows "dataset_wf i (d\<lparr>ds_partitions := (ds_partitions d)[k := p]\<rparr>)"
    "dataset_proto (d\<lparr>ds_partitions := (ds_partitions d)[k := p]\<rparr>) =
      (dataset_proto d)\<lparr>dm_partitions := map (change_partition ch) (dm_partitions (dataset_proto d))\<rparr>"
proof -
  let ?ps = "ds_partitions d" and ?pms = "dm_partitions (ds_meta d)"
  have ids: "map p_id ?ps = map pm_id ?pms" and dist: "distinct (map pm_id ?pms)"
    using wf by (simp_all add: dataset_wf_def legal_meta_def)
  have len: "length ?ps = length ?pms" using ids by (metis length_map)
  have same: "map p_id (?ps[k := p]) = map p_id ?ps" using p(1) k by (simp add: map_update list_update_same_conv)
  have nth: "p_id ((?ps[k := p]) ! l) = p_id (?ps ! l)" if "l < length ?ps" for l
    using p(1) k that by (cases "l = k") auto
  have "(l < length ?ps \<and> p_id ((?ps[k := p]) ! l) = j) = (l < length ?ps \<and> p_id (?ps ! l) = j)" for l j
    using nth by auto
  then show "dataset_wf i (d\<lparr>ds_partitions := (ds_partitions d)[k := p]\<rparr>)"
    using wf same by (simp add: dataset_wf_def)
  have "map2 (\<lambda>pm p. pm\<lparr>pm_node_ids := p_node_ids p\<rparr>) ?pms (?ps[k := p]) =
      map (change_partition ch) (map2 (\<lambda>pm p. pm\<lparr>pm_node_ids := p_node_ids p\<rparr>) ?pms ?ps)"
  proof (rule nth_equalityI)
    fix l assume "l < length (map2 (\<lambda>pm p. pm\<lparr>pm_node_ids := p_node_ids p\<rparr>) ?pms (?ps[k := p]))"
    then have l: "l < length ?pms" "l < length ?ps" using len by auto
    have eq: "pm_id (?pms ! l) = nc_partition_id ch \<longleftrightarrow> l = k"
    proof -
      have "pm_id (?pms ! l) = p_id (?ps ! l)" "pm_id (?pms ! k) = p_id (?ps ! k)"
        using ids l k(1) len by (metis nth_map)+
      then show ?thesis using dist l k len by (metis (no_types, lifting) length_map nth_eq_iff_index_eq nth_map)
    qed
    then show "map2 (\<lambda>pm p. pm\<lparr>pm_node_ids := p_node_ids p\<rparr>) ?pms (?ps[k := p]) ! l =
        map (change_partition ch) (map2 (\<lambda>pm p. pm\<lparr>pm_node_ids := p_node_ids p\<rparr>) ?pms ?ps) ! l"
      using l p(2) len k(1) by (cases "l = k") (auto simp: change_partition_def)
  qed (use len in simp)
  then show "dataset_proto (d\<lparr>ds_partitions := (ds_partitions d)[k := p]\<rparr>) =
      (dataset_proto d)\<lparr>dm_partitions := map (change_partition ch) (dm_partitions (dataset_proto d))\<rparr>"
    using len by (simp add: dataset_proto_def)
qed

section \<open>Refinement\<close>

definition catalogue_of :: "manager \<Rightarrow> catalogue" where
  "catalogue_of m i = (case map_of (mg_datasets m) i of Some (Some d) \<Rightarrow> Some (dataset_proto d) | _ \<Rightarrow> None)"

definition manager_ok :: "manager \<Rightarrow> bool" where
  "manager_ok m = (notificator_ok (mg_notificator m) \<and> distinct (map fst (mg_datasets m)) \<and>
     (\<forall>(i, x) \<in> set (mg_datasets m). \<exists>d. x = Some d \<and> dataset_wf i d))"

definition legal_entry :: "manager_codec \<Rightarrow> bytes \<Rightarrow> bool" where
  "legal_entry C data = (\<forall>c meta. un_change C data = Inr c \<longrightarrow> mc_type c = CreateDataset \<longrightarrow>
     un_dataset C (mc_data c) = Inr meta \<longrightarrow> legal_meta meta)"

lemma new_manager_ok: "manager_ok (new_dataset_manager c)" "catalogue_of (new_dataset_manager c) = Map.empty"
  by (simp_all add: manager_ok_def new_dataset_manager_def catalogue_of_def fun_eq_iff)

lemma manager_dataset:
  assumes "manager_ok m"
  shows "map_of (mg_datasets m) i = None \<or> (\<exists>d. map_of (mg_datasets m) i = Some (Some d) \<and> dataset_wf i d)"
  using assms by (cases "map_of (mg_datasets m) i") (auto simp: manager_ok_def dest: map_of_SomeD)

lemma tell_refines: "manager_ok m \<Longrightarrow> refines manager_ok catalogue_of (tell_and_return nid r m) (Some (Inr (), catalogue_of m))"
  using notify_ok [of "mg_notificator m" nid r False]
  by (auto simp: refines_def tell_and_return_def tell_manager_def manager_ok_def catalogue_of_def fun_eq_iff)

lemma put_ok:
  assumes "manager_ok m" "dataset_wf i d"
  shows "manager_ok (put_dataset i (Some d) m)"
    "catalogue_of (put_dataset i (Some d) m) = (catalogue_of m)(i \<mapsto> dataset_proto d)"
  using assms by (auto simp: manager_ok_def put_dataset_def set_AList_update catalogue_of_def fun_eq_iff)

lemma watch_ok: "manager_ok (watch_all d m) = manager_ok m" "catalogue_of (watch_all d m) = catalogue_of m"
  by (simp_all add: manager_ok_def watch_all_def catalogue_of_def fun_eq_iff)

lemma create_refines:
  assumes "manager_ok m" "\<And>meta. un_dataset C data = Inr meta \<Longrightarrow> legal_meta meta"
  shows "refines manager_ok catalogue_of (create_dataset C N nid data m) (create_spec C data (catalogue_of m))"
proof (cases "un_dataset C data")
  case (Inl e)
  then show ?thesis using assms(1) by (simp add: create_dataset_def create_spec_def refines_Some)
next
  case (Inr meta)
  show ?thesis
  proof (cases "uuid_from_bytes (dm_id meta)")
    case (Inl e)
    then show ?thesis using Inr assms(1) by (simp add: create_dataset_def create_spec_def refines_Some)
  next
    case (Inr i)
    then have i: "dm_id meta = i" "length i = 16" by (auto simp: uuid_from_bytes_def split: if_splits)
    show ?thesis
    proof (cases "map_of (mg_datasets m) i")
      case None
      obtain d where d: "new_dataset (nd_log N) i meta (mg_conn m) = Some (Inr d)" "dataset_wf i d" "dataset_proto d = meta"
        using new_dataset_legal [OF assms(2) [OF \<open>un_dataset C data = Inr meta\<close>] i] by blast
      have "catalogue_of m i = None" using None by (simp add: catalogue_of_def)
      then show ?thesis
        using None Inr \<open>un_dataset C data = Inr meta\<close> d put_ok [OF assms(1) d(2)]
          tell_refines [of "watch_all d (put_dataset i (Some d) m)" nid None]
        by (simp add: create_dataset_def create_spec_def watch_ok)
    next
      case (Some x)
      then obtain y where y: "catalogue_of m i = Some y"
        using manager_dataset [OF assms(1), of i] by (auto simp: catalogue_of_def)
      show ?thesis
        using y Some Inr \<open>un_dataset C data = Inr meta\<close> tell_refines [OF assms(1)]
        by (simp add: create_dataset_def create_spec_def)
    qed
  qed
qed

lemma delete_refines:
  assumes "manager_ok m"
  shows "refines manager_ok catalogue_of (delete_dataset nid data m) (delete_spec data (catalogue_of m))"
proof (cases "uuid_from_bytes data")
  case (Inl e)
  then show ?thesis using assms by (simp add: delete_dataset_def delete_spec_def refines_Some)
next
  case (Inr i)
  consider "map_of (mg_datasets m) i = None" | d where "map_of (mg_datasets m) i = Some (Some d)"
    using manager_dataset [OF assms, of i] by metis
  then show ?thesis
  proof cases
    case 1
    then have "(catalogue_of m)(i := None) = catalogue_of m" by (auto simp: catalogue_of_def fun_eq_iff)
    then show ?thesis using 1 Inr tell_refines [OF assms] by (simp add: delete_dataset_def delete_spec_def)
  next
    case 2
    let ?m = "m\<lparr>mg_calls := mg_calls m @ map (\<lambda>p. CallUnwatch (p_id p)) (ds_partitions d),
        mg_datasets := AList.delete i (mg_datasets m)\<rparr>"
    have "manager_ok ?m" "catalogue_of ?m = (catalogue_of m)(i := None)"
      using assms by (auto simp: manager_ok_def set_AList_delete catalogue_of_def fun_eq_iff)
    then show ?thesis using 2 Inr tell_refines [of ?m nid None] by (simp add: delete_dataset_def delete_spec_def)
  qed
qed

lemma proto_ids:
  assumes "dataset_wf i d"
  shows "map pm_id (dm_partitions (dataset_proto d)) = map p_id (ds_partitions d)"
proof -
  have len: "length (ds_partitions d) = length (dm_partitions (ds_meta d))"
    using assms unfolding dataset_wf_def by (metis length_map)
  have "map pm_id (map2 (\<lambda>pm p. pm\<lparr>pm_node_ids := p_node_ids p\<rparr>) pms ps) = map pm_id pms"
    if "length ps = length pms" for pms ps
    using that by (induction ps pms rule: list_induct2) auto
  then show ?thesis using assms len by (simp add: proto_partitions dataset_wf_def)
qed

lemma update_nodes_refines:
  assumes ok: "manager_ok m" and N: "starts N"
  shows "refines manager_ok catalogue_of (update_partition_nodes C N nid data m) (update_nodes_spec C data (catalogue_of m))"
proof (cases "un_nodes_change C data")
  case (Inl e)
  then show ?thesis using ok by (simp add: update_partition_nodes_def update_nodes_spec_def refines_Some)
next
  case (Inr ch)
  let ?i = "nc_dataset_id ch" and ?j = "nc_partition_id ch"
  have same: "refines manager_ok catalogue_of (tell_and_return nid r m) (update_nodes_spec C data (catalogue_of m))"
    if "\<not> (length ?i = 16 \<and> length ?j = 16 \<and> catalogue_of m ?i \<noteq> None)" for r
    using that Inr tell_refines [OF ok, of nid r] by (auto simp: update_nodes_spec_def)
  show ?thesis
  proof (cases "length ?i = 16 \<and> length ?j = 16")
    case False
    then show ?thesis using same Inr
      by (auto simp: update_partition_nodes_def uuid_from_bytes_def)
  next
    case True
    then have ids: "uuid_from_bytes ?i = Inr ?i" "uuid_from_bytes ?j = Inr ?j" by (simp_all add: uuid_from_bytes_def)
    consider "map_of (mg_datasets m) ?i = None" | d where "map_of (mg_datasets m) ?i = Some (Some d)" "dataset_wf ?i d"
      using manager_dataset [OF ok, of "nc_dataset_id ch"] by metis
    then show ?thesis
    proof cases
      case 1
      then show ?thesis using same [of "Some DatasetNotFound"] Inr ids
        by (simp add: update_partition_nodes_def manager_get_def catalogue_of_def)
    next
      case (2 d)
      have cat: "catalogue_of m ?i = Some (dataset_proto d)" using 2(1) by (simp add: catalogue_of_def)
      have spec: "update_nodes_spec C data (catalogue_of m) = Some (Inr (), (catalogue_of m)(?i \<mapsto>
          (dataset_proto d)\<lparr>dm_partitions := map (change_partition ch) (dm_partitions (dataset_proto d))\<rparr>))"
        using Inr True cat by (simp add: update_nodes_spec_def)
      show ?thesis
      proof (cases "map_of (ds_partitions_map d) ?j")
        case None
        have "?j \<notin> set (map p_id (ds_partitions d))"
        proof
          assume "?j \<in> set (map p_id (ds_partitions d))"
          then obtain k where "k < length (ds_partitions d)" "p_id (ds_partitions d ! k) = ?j" by (auto simp: in_set_conv_nth)
          then have "map_of (ds_partitions_map d) ?j = Some k" using partition_position [OF 2(2)] by blast
          then show False using None by simp
        qed
        then have "?j \<notin> set (map pm_id (dm_partitions (dataset_proto d)))" using proto_ids [OF 2(2)] by simp
        then have "map (change_partition ch) (dm_partitions (dataset_proto d)) = dm_partitions (dataset_proto d)"
          by (intro map_idI) (metis change_partition_def image_eqI list.set_map)
        then have "(catalogue_of m)(?i \<mapsto> (dataset_proto d)\<lparr>dm_partitions :=
            map (change_partition ch) (dm_partitions (dataset_proto d))\<rparr>) = catalogue_of m"
          using cat by (auto simp: fun_eq_iff)
        then show ?thesis
          using Inr ids 2(1) None spec tell_refines [OF ok, of nid "Some PartitionNotFound"]
          by (simp add: update_partition_nodes_def manager_get_def get_partition_def del: fun_upd_apply)
      next
        case (Some k)
        then have k: "k < length (ds_partitions d)" "p_id (ds_partitions d ! k) = ?j"
          using partition_position [OF 2(2)] by blast+
        obtain p where p: "change_nodes N (cn_id (mg_conn m)) (nc_type ch) (nc_node_id ch) (ds_partitions d ! k) = Some p"
          using change_nodes_total [OF N] by blast
        let ?d = "d\<lparr>ds_partitions := (ds_partitions d)[k := p]\<rparr>"
        note new = updated_dataset [OF 2(2) k, of p] change_nodes_fields [OF p]
        have "dataset_wf ?i ?d" using new k by simp
        from put_ok [OF ok this] have "manager_ok (put_dataset ?i (Some ?d) m)"
          "catalogue_of (put_dataset ?i (Some ?d) m) = (catalogue_of m)(?i \<mapsto>
             (dataset_proto d)\<lparr>dm_partitions := map (change_partition ch) (dm_partitions (dataset_proto d))\<rparr>)"
          using new k by simp_all
        then show ?thesis
          using Inr ids 2(1) Some p spec tell_refines [of "put_dataset ?i (Some ?d) m" nid None]
          by (simp add: update_partition_nodes_def manager_get_def get_partition_def del: fun_upd_apply)
      qed
    qed
  qed
qed

lemma manager_process_refines:
  assumes "manager_ok m" "starts N" "legal_entry C data"
  shows "refines manager_ok catalogue_of (manager_process C N data m) (manager_spec C data (catalogue_of m))"
proof (cases "un_change C data")
  case (Inl e)
  then show ?thesis using assms(1) by (simp add: manager_process_def manager_spec_def refines_Some)
next
  case (Inr c)
  show ?thesis
  proof (cases "uuid_from_bytes (mc_notification_id c)")
    case (Inl e)
    then show ?thesis using Inr assms(1) by (simp add: manager_process_def manager_spec_def refines_Some)
  next
    case (Inr nid)
    then show ?thesis
      using \<open>un_change C data = Inr c\<close> assms create_refines [OF assms(1), of C "mc_data c" N nid]
        delete_refines [OF assms(1), of nid "mc_data c"] update_nodes_refines [OF assms(1,2), of C nid "mc_data c"]
      by (cases "mc_type c") (auto simp: manager_process_def manager_spec_def legal_entry_def refines_Some)
  qed
qed

interpretation manager_machine: state_machine "\<lambda>_. manager_process C N" "manager_spec C" manager_ok catalogue_of
    "\<lambda>data. legal_entry C data \<and> starts N" for C N
  by unfold_locales (auto intro: manager_process_refines)

end
