(* ===== verification/SharedGroup.thy ===== *)
theory SharedGroup
  imports ManagerFacts
begin

text \<open>
  \<open>storage/raft/shared_group.go\<close>: several state machines behind the zero group, each with a proxy
  under a name. The state of the zero group is the map of the proxies and the joint state \<open>'s\<close> of
  their machines; a proxy's functions act on that state. The map is part of the state because the
  functions registered in the group look the proxies up when they are called.
\<close>

section \<open>State\<close>

record 's proxy_fns =
  px_process :: "(env \<Rightarrow> bytes \<Rightarrow> ('s, unit) prog) option"
  px_process_snapshot :: "(bytes \<Rightarrow> ('s, unit) prog) option"
  px_snapshot :: "(env \<Rightarrow> 's \<Rightarrow> (error + bytes) option) option"

record 's shared =
  sh_proxies :: "(string \<times> 's proxy_fns) list"
  sh_state :: 's

text \<open>The codec of the two messages; a decoded map is listed in the order the loop visits it.\<close>

record shared_codec =
  un_proposal :: "bytes \<Rightarrow> error + string \<times> bytes"
  m_proposal :: "string \<Rightarrow> bytes \<Rightarrow> error + bytes"
  un_snapshots :: "bytes \<Rightarrow> error + (string \<times> bytes) list"
  m_snapshots :: "(string \<times> bytes) list \<Rightarrow> error + bytes"

definition new_proxy :: "'s proxy_fns" where
  "new_proxy = \<lparr>px_process = None, px_process_snapshot = None, px_snapshot = None\<rparr>"

section \<open>Operations\<close>

text \<open>\<open>Get\<close> makes the proxy when there is none.\<close>

definition shared_get :: "string \<Rightarrow> 's shared \<Rightarrow> 's shared" where
  "shared_get name sh = (case map_of (sh_proxies sh) name of
       Some _ \<Rightarrow> sh
     | None \<Rightarrow> sh\<lparr>sh_proxies := AList.update name new_proxy (sh_proxies sh)\<rparr>)"

definition shared_process :: "shared_codec \<Rightarrow> env \<Rightarrow> bytes \<Rightarrow> ('s shared, unit) prog" where
  "shared_process K env data sh = (case un_proposal K data of
       Inl e \<Rightarrow> Some (Inl e, sh)
     | Inr (name, d) \<Rightarrow> (case map_of (sh_proxies sh) name of
           None \<Rightarrow> Some (Inr (), sh)
         | Some px \<Rightarrow> do {
             f \<leftarrow> px_process px;
             (r, s) \<leftarrow> f env d (sh_state sh);
             Some (r, sh\<lparr>sh_state := s\<rparr>) }))"

text \<open>A name without a proxy is a nil pointer.\<close>

fun load_snapshots :: "(string \<times> bytes) list \<Rightarrow> ('s shared, unit) prog" where
  "load_snapshots [] sh = Some (Inr (), sh)"
| "load_snapshots ((name, d) # ds) sh = do {
     px \<leftarrow> map_of (sh_proxies sh) name;
     f \<leftarrow> px_process_snapshot px;
     (r, s) \<leftarrow> f d (sh_state sh);
     (case r of
        Inl e \<Rightarrow> Some (Inl e, sh\<lparr>sh_state := s\<rparr>)
      | Inr _ \<Rightarrow> load_snapshots ds (sh\<lparr>sh_state := s\<rparr>)) }"

definition shared_process_snapshot :: "shared_codec \<Rightarrow> bytes \<Rightarrow> ('s shared, unit) prog" where
  "shared_process_snapshot K data sh = (case un_snapshots K data of
     Inl e \<Rightarrow> Some (Inl e, sh) | Inr ds \<Rightarrow> load_snapshots ds sh)"

fun take_snapshots :: "env \<Rightarrow> 's \<Rightarrow> (string \<times> 's proxy_fns) list \<Rightarrow> (error + (string \<times> bytes) list) option" where
  "take_snapshots env s [] = Some (Inr [])"
| "take_snapshots env s ((name, px) # pxs) = (case px_snapshot px of
       None \<Rightarrow> take_snapshots (sub env 1) s pxs
     | Some f \<Rightarrow> (case f (sub env 0) s of
           None \<Rightarrow> None
         | Some (Inl e) \<Rightarrow> Some (Inl e)
         | Some (Inr d) \<Rightarrow> map_option (map_sum (\<lambda>e. e) ((#) (name, d))) (take_snapshots (sub env 1) s pxs)))"

definition shared_snapshot :: "shared_codec \<Rightarrow> env \<Rightarrow> 's shared \<Rightarrow> (error + bytes) option" where
  "shared_snapshot K env sh = (case take_snapshots (sub env 1) (sh_state sh) (visit env (sh_proxies sh)) of
     None \<Rightarrow> None | Some (Inl e) \<Rightarrow> Some (Inl e) | Some (Inr ds) \<Rightarrow> Some (m_snapshots K ds))"

text \<open>\<open>NewSharedGroup\<close> registers the three functions in the group.\<close>

definition new_shared_group ::
  "shared_codec \<Rightarrow> ('s shared, 'w) raft_group \<Rightarrow> (error + unit) \<times> ('s shared, 'w) raft_group" where
  "new_shared_group K g =
     (let (r1, g1) = register_process_fn (shared_process K) g in
      if isl r1 then (r1, g1) else
      let (r2, g2) = register_process_snapshot_fn (shared_process_snapshot K) g1 in
      if isl r2 then (r2, g2) else register_snapshot_fn (shared_snapshot K) g2)"

text \<open>The registrations of a proxy, on the proxy of that name.\<close>

definition proxy_register_process_fn :: "(env \<Rightarrow> bytes \<Rightarrow> ('s, unit) prog) \<Rightarrow> 's proxy_fns \<Rightarrow> (error + unit) \<times> 's proxy_fns" where
  "proxy_register_process_fn f px =
     (if px_process px \<noteq> None then (Inl ProcessFnAlreadyRegistered, px) else (Inr (), px\<lparr>px_process := Some f\<rparr>))"

definition proxy_register_process_snapshot_fn :: "(bytes \<Rightarrow> ('s, unit) prog) \<Rightarrow> 's proxy_fns \<Rightarrow> (error + unit) \<times> 's proxy_fns" where
  "proxy_register_process_snapshot_fn f px =
     (if px_process_snapshot px \<noteq> None then (Inl ProcessFnAlreadyRegistered, px)
      else (Inr (), px\<lparr>px_process_snapshot := Some f\<rparr>))"

definition proxy_register_snapshot_fn :: "(env \<Rightarrow> 's \<Rightarrow> (error + bytes) option) \<Rightarrow> 's proxy_fns \<Rightarrow> (error + unit) \<times> 's proxy_fns" where
  "proxy_register_snapshot_fn f px =
     (if px_snapshot px \<noteq> None then (Inl SnapshotFnAlreadyRegistered, px) else (Inr (), px\<lparr>px_snapshot := Some f\<rparr>))"

definition shared_propose ::
  "shared_codec \<Rightarrow> (bytes \<Rightarrow> error option) \<Rightarrow> string \<Rightarrow> bytes \<Rightarrow> ('s shared, 'w) raft_group \<Rightarrow>
   error option \<times> ('s shared, 'w) raft_group" where
  "shared_propose K offer name data g = (case m_proposal K name data of
     Inl e \<Rightarrow> (Some e, g) | Inr proposal \<Rightarrow> group_propose offer proposal g)"

section \<open>A machine behind a proxy is a machine\<close>

text \<open>
  \<open>proxied\<close> is the contract of a state machine that a proxy of the given name leads to, and the only
  proxy: the shared group is then itself a state machine, which skips the entries of other names.
\<close>

definition proxied_spec ::
  "shared_codec \<Rightarrow> string \<Rightarrow> (bytes \<Rightarrow> 'm \<Rightarrow> ((error + unit) \<times> 'm) option) \<Rightarrow> bytes \<Rightarrow> 'm \<Rightarrow> ((error + unit) \<times> 'm) option" where
  "proxied_spec K name spec data m = (case un_proposal K data of
     Inl e \<Rightarrow> Some (Inl e, m) | Inr (n, d) \<Rightarrow> if n = name then spec d m else Some (Inr (), m))"

definition leads_to :: "string \<Rightarrow> (env \<Rightarrow> bytes \<Rightarrow> ('s, unit) prog) \<Rightarrow> ('s \<Rightarrow> bool) \<Rightarrow> 's shared \<Rightarrow> bool" where
  "leads_to name step ok sh = (ok (sh_state sh) \<and>
     (\<exists>px. sh_proxies sh = [(name, px)] \<and> px_process px = Some step))"

definition proxied_legal :: "shared_codec \<Rightarrow> string \<Rightarrow> (bytes \<Rightarrow> bool) \<Rightarrow> bytes \<Rightarrow> bool" where
  "proxied_legal K name legal data = (\<forall>d. un_proposal K data = Inr (name, d) \<longrightarrow> legal d)"

locale proxied = state_machine step spec ok view legal
  for step :: "env \<Rightarrow> bytes \<Rightarrow> ('s, unit) prog" and spec :: "bytes \<Rightarrow> 'm \<Rightarrow> ((error + unit) \<times> 'm) option"
    and ok :: "'s \<Rightarrow> bool" and view :: "'s \<Rightarrow> 'm" and legal :: "bytes \<Rightarrow> bool" +
  fixes K :: shared_codec and name :: string
begin

lemma shared_refines:
  assumes "leads_to name step ok sh" "fair env" "proxied_legal K name legal data"
  shows "refines (leads_to name step ok) (\<lambda>sh. view (sh_state sh)) (shared_process K env data sh)
    (proxied_spec K name spec data (view (sh_state sh)))"
proof (cases "un_proposal K data")
  case (Inl e)
  then show ?thesis using assms(1) by (simp add: shared_process_def proxied_spec_def refines_Some)
next
  case (Inr nd)
  obtain n d where nd: "nd = (n, d)" by (cases nd)
  obtain px where px: "sh_proxies sh = [(name, px)]" "px_process px = Some step" "ok (sh_state sh)"
    using assms(1) by (auto simp: leads_to_def)
  show ?thesis
  proof (cases "n = name")
    case False
    then show ?thesis using Inr nd px assms(1) by (simp add: shared_process_def proxied_spec_def refines_Some)
  next
    case True
    have "legal d" using assms(3) Inr nd True by (simp add: proxied_legal_def)
    have ref: "refines ok view (step env d (sh_state sh)) (spec d (view (sh_state sh)))"
      by (rule step_refines [OF px(3) assms(2) \<open>legal d\<close>])
    show ?thesis
    proof (cases "spec d (view (sh_state sh))")
      case None
      then show ?thesis using Inr nd px True ref by (simp add: shared_process_def proxied_spec_def)
    next
      case (Some rm)
      obtain r m where rm: "rm = (r, m)" by (cases rm)
      then obtain s where "step env d (sh_state sh) = Some (r, s)" "ok s" "view s = m"
        using ref Some by (auto simp: refines_Some)
      then show ?thesis using Some rm Inr nd px True
        by (simp add: shared_process_def proxied_spec_def refines_Some leads_to_def)
    qed
  qed
qed

sublocale shared: state_machine "shared_process K" "proxied_spec K name spec" "leads_to name step ok"
    "\<lambda>sh. view (sh_state sh)" "proxied_legal K name legal"
  by unfold_locales (rule shared_refines)

end

end
