(* ===== verification/ManagerProperties.thy ===== *)
theory ManagerProperties
  imports SharedGroup
begin

text \<open>
  What the zero group gives to the catalogue of datasets. The interpretation \<open>catalogue_group\<close> of
  \<open>proxied\<close> puts the dataset manager behind its proxy; the snapshot of a catalogue is loaded again
  by a manager that may already have datasets.
\<close>

interpretation catalogue_group: proxied "\<lambda>_. manager_process C N" "manager_spec C" manager_ok catalogue_of
    "\<lambda>data. legal_entry C data \<and> starts N" K name for C N K name
  by unfold_locales

section \<open>Snapshots\<close>

definition snapshot_codec :: "manager_codec \<Rightarrow> bool" where
  "snapshot_codec C = (\<forall>metas data. m_snapshot C metas = Inr data \<longrightarrow> un_snapshot C data = Inr metas)"

lemma ball_image_cong: "f ` S = f ` T \<Longrightarrow> (\<forall>x \<in> S. P (f x)) = (\<forall>x \<in> T. P (f x))"
proof -
  assume "f ` S = f ` T"
  then have "(\<forall>y \<in> f ` S. P y) = (\<forall>y \<in> f ` T. P y)" by simp
  then show ?thesis by simp
qed

lemma proto_legal:
  assumes "dataset_wf i d"
  shows "legal_meta (dataset_proto d)" "dm_id (dataset_proto d) = i" "length i = 16"
proof -
  have len: "length (ds_partitions d) = length (dm_partitions (ds_meta d))"
    using assms unfolding dataset_wf_def by (metis length_map)
  have ids: "map pm_id (dm_partitions (dataset_proto d)) = map pm_id (dm_partitions (ds_meta d))"
    using proto_ids [OF assms] assms by (simp add: dataset_wf_def)
  then have "length (dm_partitions (dataset_proto d)) = length (dm_partitions (ds_meta d))" by (metis length_map)
  moreover have "pm_id ` set (dm_partitions (dataset_proto d)) = pm_id ` set (dm_partitions (ds_meta d))"
    using ids by (metis list.set_map)
  then have "(\<forall>pm \<in> set (dm_partitions (dataset_proto d)). length (pm_id pm) = 16) =
      (\<forall>pm \<in> set (dm_partitions (ds_meta d)). length (pm_id pm) = 16)"
    by (rule ball_image_cong)
  ultimately show "legal_meta (dataset_proto d)"
    using assms ids by (simp add: legal_meta_def dataset_wf_def dataset_proto_def)
  show "dm_id (dataset_proto d) = i" "length i = 16" using assms by (simp_all add: dataset_wf_def dataset_proto_def)
qed

text \<open>The messages of a catalogue, in the order of an iteration.\<close>

definition catalogue_list :: "(uuid \<times> dataset option) list \<Rightarrow> dataset_meta list" where
  "catalogue_list ds = map (\<lambda>(i, x). dataset_proto (the x)) ds"

lemma list_datasets_all:
  assumes "\<forall>(i, x) \<in> set ds. \<exists>d. x = Some d \<and> dataset_wf i d"
  shows "list_datasets ds = Some (Inr (catalogue_list ds))"
  using assms by (induction ds) (auto simp: catalogue_list_def)

lemma load_datasets_adds:
  assumes "manager_ok m" "\<forall>(i, x) \<in> set ds. \<exists>d. x = Some d \<and> dataset_wf i d" "distinct (map fst ds)"
  shows "\<exists>m'. load_datasets N (catalogue_list ds) m = Some (Inr (), m') \<and> manager_ok m' \<and>
    catalogue_of m' = map_of (map (\<lambda>(i, x). (i, dataset_proto (the x))) ds) ++ catalogue_of m"
  using assms
proof (induction ds arbitrary: m)
  case Nil
  then show ?case by (simp add: catalogue_list_def)
next
  case (Cons ix ds)
  let ?cat = "\<lambda>ds. map_of (map (\<lambda>(i, x). (i, dataset_proto (the x))) ds)"
  obtain i d where ix: "ix = (i, Some d)" "dataset_wf i d" using Cons.prems(2) by auto
  have id: "uuid_from_bytes (dm_id (dataset_proto d)) = Inr i"
    using proto_legal [OF ix(2)] by (simp add: uuid_from_bytes_def)
  have fresh: "?cat ds i = None" using Cons.prems(3) ix(1) by (force simp: map_of_eq_None_iff)
  have rest: "\<forall>(i, x) \<in> set ds. \<exists>d. x = Some d \<and> dataset_wf i d" "distinct (map fst ds)"
    using Cons.prems(2,3) by auto
  show ?case
  proof (cases "map_of (mg_datasets m) i")
    case None
    obtain d' where d': "new_dataset (nd_log N) i (dataset_proto d) (mg_conn m) = Some (Inr d')"
      "dataset_wf i d'" "dataset_proto d' = dataset_proto d"
      using new_dataset_legal [OF proto_legal [OF ix(2)]] by blast
    let ?m = "watch_all d' (put_dataset i (Some d') m)"
    have m: "manager_ok ?m" "catalogue_of ?m = (catalogue_of m)(i \<mapsto> dataset_proto d)"
      using put_ok [OF Cons.prems(1) d'(2)] d'(3) by (simp_all add: watch_ok)
    obtain m' where m': "load_datasets N (catalogue_list ds) ?m = Some (Inr (), m')" "manager_ok m'"
      "catalogue_of m' = ?cat ds ++ catalogue_of ?m" using Cons.IH [OF m(1) rest] by blast
    have "catalogue_of m i = None" using None by (simp add: catalogue_of_def)
    then have "?cat ds ++ catalogue_of ?m = ?cat (ix # ds) ++ catalogue_of m"
      using m(2) ix(1) fresh by (auto simp: fun_eq_iff map_add_def split: option.splits)
    moreover have "load_datasets N (catalogue_list (ix # ds)) m = load_datasets N (catalogue_list ds) ?m"
      using None id ix(1) d'(1) by (simp add: catalogue_list_def)
    ultimately show ?thesis using m' by (intro exI [of _ m']) (simp only:)
  next
    case (Some x)
    then obtain y where y: "catalogue_of m i = Some y"
      using manager_dataset [OF Cons.prems(1), of i] by (auto simp: catalogue_of_def)
    obtain m' where m': "load_datasets N (catalogue_list ds) m = Some (Inr (), m')" "manager_ok m'"
      "catalogue_of m' = ?cat ds ++ catalogue_of m" using Cons.IH [OF Cons.prems(1) rest] by blast
    have "?cat ds ++ catalogue_of m = ?cat (ix # ds) ++ catalogue_of m"
      using y ix(1) by (auto simp: fun_eq_iff map_add_def split: option.splits)
    moreover have "load_datasets N (catalogue_list (ix # ds)) m = load_datasets N (catalogue_list ds) m"
      using Some id ix(1) by (simp add: catalogue_list_def)
    ultimately show ?thesis using m' by (intro exI [of _ m']) (simp only:)
  qed
qed

lemma catalogue_visited:
  assumes "manager_ok m" "fair env"
  shows "map_of (map (\<lambda>(i, x). (i, dataset_proto (the x))) (visit env (mg_datasets m))) = catalogue_of m"
proof
  fix i
  let ?ds = "visit env (mg_datasets m)"
  have dist: "distinct (map fst ?ds)" "set ?ds = set (mg_datasets m)" "distinct (map fst (mg_datasets m))"
    using assms by (simp_all add: manager_ok_def)
  have "map_of ?ds = map_of (mg_datasets m)" using dist by (intro map_of_inject_set [THEN iffD2]) auto
  moreover have "map_of (map (\<lambda>(i, x). (i, dataset_proto (the x))) ?ds) i = map_option (\<lambda>x. dataset_proto (the x)) (map_of ?ds i)"
    by (simp add: map_of_map)
  ultimately show "map_of (map (\<lambda>(i, x). (i, dataset_proto (the x))) ?ds) i = catalogue_of m i"
    using manager_dataset [OF assms(1), of i] by (auto simp: catalogue_of_def)
qed

lemma snapshot_loaded:
  assumes "manager_ok m" "fair env" "snapshot_codec C" "manager_snapshot C env m = Some (Inr data)" "manager_ok m0"
  shows "\<exists>m'. manager_process_snapshot C N data m0 = Some (Inr (), m') \<and> manager_ok m' \<and>
    catalogue_of m' = catalogue_of m ++ catalogue_of m0"
proof -
  let ?ds = "visit env (mg_datasets m)"
  have all: "\<forall>(i, x) \<in> set ?ds. \<exists>d. x = Some d \<and> dataset_wf i d" "distinct (map fst ?ds)"
    using assms(1,2) by (simp_all add: manager_ok_def)
  have "m_snapshot C (catalogue_list ?ds) = Inr data"
    using assms(4) list_datasets_all [OF all(1)] by (simp add: manager_snapshot_def manager_list_def)
  then have "un_snapshot C data = Inr (catalogue_list ?ds)" using assms(3) by (simp add: snapshot_codec_def)
  then show ?thesis using load_datasets_adds [OF assms(5) all, of N] catalogue_visited [OF assms(1,2)]
    by (simp add: manager_process_snapshot_def)
qed

section \<open>Properties\<close>


text \<open>
  C29: A snapshot of the catalogue is loaded completely by a new node. Loading never fails on a
  snapshot that the manager wrote. But a node that already has datasets keeps them: loading only
  adds, so what was deleted or changed since then stays as the node had it.
\<close>

theorem catalogue_snapshot_is_added:
  assumes "manager_ok m" "fair env" "snapshot_codec C" "manager_snapshot C env m = Some (Inr data)" "manager_ok m0"
  shows "\<exists>m' new. manager_process_snapshot C N data m0 = Some (Inr (), m') \<and> manager_ok m' \<and>
    catalogue_of m' = catalogue_of m ++ catalogue_of m0 \<and>
    manager_process_snapshot C N data (new_dataset_manager c) = Some (Inr (), new) \<and> catalogue_of new = catalogue_of m"
  using snapshot_loaded [OF assms, of N] snapshot_loaded [OF assms(1-4) new_manager_ok(1) [of c], of N] new_manager_ok(2) [of c]
  by auto

section \<open>Concrete inputs\<close>

definition sample_dataset_meta :: dataset_meta where
  "sample_dataset_meta = \<lparr>dm_id = uuid_of 1, dm_dimension = 2, dm_space = Euclidean, dm_partition_count = 1,
     dm_replication_factor = 1, dm_partitions = [\<lparr>pm_id = uuid_of 2, pm_node_ids = [1]\<rparr>], dm_size = 0\<rparr>"

definition sample_manager_codec :: manager_codec where
  "sample_manager_codec = \<lparr>
     un_change = (\<lambda>b. if b = [1] then Inr \<lparr>mc_type = CreateDataset, mc_notification_id = uuid_of 3, mc_data = []\<rparr>
       else if b = [2] then Inr \<lparr>mc_type = DeleteDataset, mc_notification_id = uuid_of 3, mc_data = uuid_of 1\<rparr>
       else if b = [3] then Inr \<lparr>mc_type = UpdatePartitionNodes, mc_notification_id = uuid_of 3, mc_data = []\<rparr>
       else Inl BadMessage),
     un_dataset = (\<lambda>_. Inr sample_dataset_meta),
     un_nodes_change = (\<lambda>_. Inr \<lparr>nc_type = AddPartitionNode, nc_dataset_id = uuid_of 1, nc_partition_id = uuid_of 2, nc_node_id = 5\<rparr>),
     un_snapshot = (\<lambda>b. if b = [1] then Inr [sample_dataset_meta] else Inr []),
     m_change = (\<lambda>_. Inl BadMessage), m_dataset = (\<lambda>_. Inl BadMessage), m_nodes_change = (\<lambda>_. Inl BadMessage),
     m_snapshot = (\<lambda>ms. if ms = [sample_dataset_meta] then Inr [1] else if ms = [] then Inr [] else Inl BadMessage)\<rparr>"

definition sample_shared_codec :: shared_codec where
  "sample_shared_codec = \<lparr>un_proposal = (\<lambda>b. case b of x # b' \<Rightarrow> if x = 7 then Inr (''datasets'', b') else Inr (''other'', b') | [] \<Rightarrow> Inl BadMessage),
     m_proposal = (\<lambda>n d. Inr (7 # d)), un_snapshots = (\<lambda>b. Inr [(''datasets'', b)]),
     m_snapshots = (\<lambda>ds. Inr (concat (map snd ds)))\<rparr>"

definition sample_node_start :: node_start where
  "sample_node_start = \<lparr>nd_log = (\<lambda>x. x), nd_new_group = (\<lambda>_. Inr ()), nd_snapshot = (\<lambda>_. Inr None)\<rparr>"

definition sample_zero_group :: "(manager shared, raft_snapshot) raft_group" where
  "sample_zero_group = \<lparr>g_id = uuid_nil, g_transport = sample_transport, g_process = Some (shared_process sample_shared_codec),
     g_process_snapshot = Some (shared_process_snapshot sample_shared_codec),
     g_snapshot = Some (shared_snapshot sample_shared_codec), g_conf_state = None, g_leader_id = 2, g_wal = no_snapshot,
     g_state = \<lparr>sh_proxies = [(''datasets'', \<lparr>px_process = Some (\<lambda>_. manager_process sample_manager_codec sample_node_start),
       px_process_snapshot = Some (manager_process_snapshot sample_manager_codec sample_node_start),
       px_snapshot = Some (manager_snapshot sample_manager_codec)\<rparr>)], sh_state = new_dataset_manager sample_conn\<rparr>,
     g_last_applied = 0, g_calls = []\<rparr>"

lemma sample_meta_legal: "legal_meta sample_dataset_meta"
  by (simp add: legal_meta_def sample_dataset_meta_def uuid_of_simps)


theorem catalogue_snapshot_is_added_witness:
  "\<exists>m data m'. catalogue_of m = [uuid_of 1 \<mapsto> sample_dataset_meta] \<and>
     manager_snapshot sample_manager_codec (plain_env 0) m = Some (Inr data) \<and>
     manager_process_snapshot sample_manager_codec sample_node_start data (new_dataset_manager sample_conn) = Some (Inr (), m') \<and>
     catalogue_of m' = [uuid_of 1 \<mapsto> sample_dataset_meta]"
proof -
  have codec: "snapshot_codec sample_manager_codec"
    by (simp add: snapshot_codec_def sample_manager_codec_def)
  obtain d where d: "new_dataset (\<lambda>x. x) (uuid_of 1) sample_dataset_meta sample_conn = Some (Inr d)"
    "dataset_wf (uuid_of 1) d" "dataset_proto d = sample_dataset_meta"
    using new_dataset_legal [OF sample_meta_legal, of "uuid_of 1"] by (auto simp: sample_dataset_meta_def uuid_of_simps)
  define m where "m = put_dataset (uuid_of 1) (Some d) (new_dataset_manager sample_conn)"
  have m: "manager_ok m" "catalogue_of m = [uuid_of 1 \<mapsto> sample_dataset_meta]"
    using put_ok [OF new_manager_ok(1) d(2)] d(3) new_manager_ok(2) by (simp_all add: m_def)
  have data: "manager_snapshot sample_manager_codec (plain_env 0) m = Some (Inr [1])"
    using d(3) by (simp add: manager_snapshot_def manager_list_def m_def put_dataset_def new_dataset_manager_def
        sample_manager_codec_def)
  obtain m' where "manager_process_snapshot sample_manager_codec sample_node_start [1] (new_dataset_manager sample_conn) = Some (Inr (), m')"
    "catalogue_of m' = catalogue_of m"
    using catalogue_snapshot_is_added [OF m(1) plain_env(1) codec data new_manager_ok(1) [of sample_conn],
      where N = sample_node_start and c = sample_conn] by blast
  then show ?thesis using m(2) data by auto
qed

end
