(* ===== verification/NodesManager.thy ===== *)
theory NodesManager
  imports ManagerProperties
begin

text \<open>
  \<open>storage/raft/nodes_manager.go\<close> and \<open>services/nodes_manager.go\<close>: a node joins the cluster by
  asking one of the given addresses, which proposes it to the zero group and answers with the
  nodes it knows. The connection and the zero group are those of the transport the group uses; the
  client side is an argument: what dialing an address and the stream of the answer brought.
\<close>

section \<open>Streams\<close>

text \<open>
  A server stream is what was sent and the error that ended it, if one did; the end is \<open>io.EOF\<close>
  otherwise. \<open>refuses n\<close> is the error of the \<open>n\<close>-th send.
\<close>

type_synonym 'a stream = "'a list \<times> error option"

fun send_each :: "(nat \<Rightarrow> error option) \<Rightarrow> nat \<Rightarrow> 'a list \<Rightarrow> 'a stream" where
  "send_each refuses n [] = ([], None)"
| "send_each refuses n (x # xs) = (case refuses n of
       Some e \<Rightarrow> ([], Some e)
     | None \<Rightarrow> (case send_each refuses (Suc n) xs of (ys, r) \<Rightarrow> (x # ys, r)))"

lemma send_each_all [simp]: "send_each (\<lambda>_. None) n xs = (xs, None)"
  by (induction xs arbitrary: n) auto

lemma send_each_prefix: "send_each refuses n xs = (ys, r) \<Longrightarrow> ys = take (length ys) xs \<and> (r = None \<longrightarrow> ys = xs)"
  by (induction xs arbitrary: n ys r) (auto split: option.splits prod.splits)

section \<open>Joining\<close>

type_synonym node_message = "node_id \<times> string"

text \<open>The loop of \<open>tryJoin\<close>. A call of \<open>AddNode\<close> that does not return ends the model with \<open>None\<close>.\<close>

fun read_nodes :: "node_message list \<Rightarrow> error option \<Rightarrow> (conn, unit) prog" where
  "read_nodes [] (Some e) c = Some (Inl e, c)"
| "read_nodes [] None c = Some (Inr (), c)"
| "read_nodes ((i, addr) # ns) e c = (case conn_add_node i addr c of
     Returns c' \<Rightarrow> read_nodes ns e c' | _ \<Rightarrow> None)"

record join_client =
  jc_dial :: "string \<Rightarrow> error + client"
  jc_add_node :: "client \<Rightarrow> node_message \<Rightarrow> error + node_message stream"

definition try_join :: "join_client \<Rightarrow> string \<Rightarrow> (conn, unit) prog" where
  "try_join J addr c = (case dial_address (jc_dial J) addr of
       Inl e \<Rightarrow> Some (Inl e, c)
     | Inr k \<Rightarrow> (case jc_add_node J k (cn_id c, cn_address c) of
           Inl e \<Rightarrow> Some (Inl e, c\<lparr>cn_closed := cn_closed c @ [k]\<rparr>)
         | Inr (ns, e) \<Rightarrow> map_option (\<lambda>(r, c'). (r, c'\<lparr>cn_closed := cn_closed c' @ [k]\<rparr>)) (read_nodes ns e c)))"

text \<open>\<open>failed\<close> is the text of the error of \<open>Join\<close>.\<close>

fun nodes_join :: "(error \<Rightarrow> string) \<Rightarrow> join_client \<Rightarrow> string list \<Rightarrow> (conn, unit) prog" where
  "nodes_join failed J [] c = Some (Inr (), c)"
| "nodes_join failed J (addr # addrs) c = (case try_join J addr c of
       None \<Rightarrow> None
     | Some (Inr _, c') \<Rightarrow> Some (Inr (), c')
     | Some (Inl e, c') \<Rightarrow> if addrs = [] then Some (Inl (RemoteError (failed e)), c') else nodes_join failed J addrs c')"

section \<open>The nodes of the cluster\<close>

definition nodes_list :: "('s, 'w) raft_group \<Rightarrow> node_message list" where
  "nodes_list g = conn_nodes (t_conn (g_transport g))"

text \<open>\<open>[]byte(address)\<close>.\<close>

definition bytes_of :: "string \<Rightarrow> bytes" where
  "bytes_of s = map (\<lambda>c. of_nat (of_char c)) s"

definition nodes_add ::
  "(conf_change \<Rightarrow> error option) \<Rightarrow> node_id \<Rightarrow> string \<Rightarrow> ('s, 'w) raft_group \<Rightarrow>
   (error + node_message list) \<times> ('s, 'w) raft_group" where
  "nodes_add offer i addr g = (case propose_join offer i (bytes_of addr) g of
       (Some e, g') \<Rightarrow> (Inl e, g')
     | (None, g') \<Rightarrow> (Inr (AList.update i addr (conn_nodes (t_conn (g_transport g')))), g'))"

definition nodes_remove ::
  "(conf_change \<Rightarrow> error option) \<Rightarrow> node_id \<Rightarrow> ('s, 'w) raft_group \<Rightarrow> error option \<times> ('s, 'w) raft_group" where
  "nodes_remove offer i = propose_leave offer i"

section \<open>The service\<close>

definition serve_list_nodes :: "(nat \<Rightarrow> error option) \<Rightarrow> env \<Rightarrow> ('s, 'w) raft_group \<Rightarrow> node_message stream" where
  "serve_list_nodes refuses env g = send_each refuses 0 (visit env (nodes_list g))"

definition serve_add_node ::
  "(nat \<Rightarrow> error option) \<Rightarrow> env \<Rightarrow> (conf_change \<Rightarrow> error option) \<Rightarrow> node_message \<Rightarrow> ('s, 'w) raft_group \<Rightarrow>
   node_message stream \<times> ('s, 'w) raft_group" where
  "serve_add_node refuses env offer n g = (case nodes_add offer (fst n) (snd n) g of
       (Inl e, g') \<Rightarrow> (([], Some e), g')
     | (Inr ns, g') \<Rightarrow> (send_each refuses 0 (visit env ns), g'))"

definition serve_remove_node ::
  "(conf_change \<Rightarrow> error option) \<Rightarrow> node_id \<Rightarrow> ('s, 'w) raft_group \<Rightarrow> (error + unit) \<times> ('s, 'w) raft_group" where
  "serve_remove_node offer i g = (case nodes_remove offer i g of (Some e, g') \<Rightarrow> (Inl e, g') | (None, g') \<Rightarrow> (Inr (), g'))"

text \<open>
  \<open>LoadInfo\<close>: what the operating system reports, the first error met. Fractions are the bits of
  float64 values that are only passed on.
\<close>

record memory_stat =
  mem_total :: "64 word"
  mem_available :: "64 word"
  mem_used :: "64 word"
  mem_free :: "64 word"
  mem_used_percent :: "64 word"

record load_stat =
  load_one :: "64 word"
  load_five :: "64 word"
  load_fifteen :: "64 word"

record load_info =
  li_uptime :: "64 word"
  li_load :: load_stat
  li_memory :: memory_stat

definition serve_load_info :: "error + 64 word \<Rightarrow> error + memory_stat \<Rightarrow> error + load_stat \<Rightarrow> error + load_info" where
  "serve_load_info host mem load = (case host of Inl e \<Rightarrow> Inl e | Inr uptime \<Rightarrow>
     (case mem of Inl e \<Rightarrow> Inl e | Inr m \<Rightarrow>
     (case load of Inl e \<Rightarrow> Inl e | Inr l \<Rightarrow> Inr \<lparr>li_uptime = uptime, li_load = l, li_memory = m\<rparr>)))"

section \<open>What a join learns\<close>

text \<open>Every subscriber has room for \<open>n\<close> more announcements.\<close>

definition room_for :: "nat \<Rightarrow> conn \<Rightarrow> bool" where
  "room_for n c = (\<forall>ch \<in> set (cn_notifications c). idle ch \<and> length (buffered ch) + n \<le> capacity ch)"

definition added :: "node_id \<Rightarrow> string \<Rightarrow> conn \<Rightarrow> conn \<Rightarrow> bool" where
  "added i addr c c' = (members c' = insert i (members c) \<and>
     (\<forall>j a. map_of (cn_addresses c) j = Some a \<longrightarrow> map_of (cn_addresses c') j = Some a) \<and>
     (i \<notin> members c \<longrightarrow> map_of (cn_addresses c') i = Some addr))"

lemma add_node_with_room:
  assumes "room_for (Suc n) c"
  shows "\<exists>c'. conn_add_node i addr c = Returns c' \<and> room_for n c' \<and> added i addr c c'"
proof (cases "map_of (cn_addresses c) i")
  case (Some a)
  then have "conn_add_node i addr c = Returns c" "i \<in> members c" by (auto simp: conn_add_node_def members_def)
  moreover have "room_for n c" using assms by (auto simp: room_for_def)
  ultimately show ?thesis by (simp add: added_def insert_absorb)
next
  case None
  let ?c = "c\<lparr>cn_addresses := AList.update i addr (cn_addresses c)\<rparr>"
  have room: "\<forall>ch \<in> set (cn_notifications c). idle ch" "\<forall>ch \<in> set (cn_notifications c). length (buffered ch) < capacity ch"
    using assms by (auto simp: room_for_def)
  then obtain chs where chs: "send_all (NodesChangeAddNode i) (cn_notifications c) = Returns chs"
    using send_all_Blocks [OF room(1), of "NodesChangeAddNode i"] by blast
  then have eq: "chs = map (\<lambda>ch. ch\<lparr>buffered := buffered ch @ [NodesChangeAddNode i]\<rparr>) (cn_notifications c)"
    using send_all_Returns [OF room(1)] by blast
  have "conn_add_node i addr c = Returns (?c\<lparr>cn_notifications := chs\<rparr>)"
    using None chs by (simp add: conn_add_node_def send_nodes_change_notification_def)
  moreover have "room_for n (?c\<lparr>cn_notifications := chs\<rparr>)"
    using assms by (auto simp: room_for_def eq idle_def)
  moreover have "added i addr c (?c\<lparr>cn_notifications := chs\<rparr>)"
    using None by (auto simp: added_def update_conv')
  ultimately show ?thesis by blast
qed

lemma conn_add_node_keeps: "conn_add_node i addr c = Returns c' \<Longrightarrow> cn_id c' = cn_id c \<and> cn_address c' = cn_address c \<and>
    cn_closed c' = cn_closed c"
  by (auto simp: conn_add_node_def send_nodes_change_notification_def split: if_splits attempt.splits)

lemma read_nodes_with_room:
  assumes "room_for (length ns) c"
  shows "\<exists>c'. read_nodes ns None c = Some (Inr (), c') \<and> members c' = fst ` set ns \<union> members c \<and>
    (\<forall>j a. map_of (cn_addresses c) j = Some a \<longrightarrow> map_of (cn_addresses c') j = Some a) \<and>
    (distinct (map fst ns) \<longrightarrow> (\<forall>(i, a) \<in> set ns. i \<notin> members c \<longrightarrow> map_of (cn_addresses c') i = Some a))"
  using assms
proof (induction ns arbitrary: c)
  case (Cons n ns)
  obtain i addr where n: "n = (i, addr)" by (cases n)
  have "room_for (Suc (length ns)) c" using Cons.prems by simp
  then obtain c1 where c1: "conn_add_node i addr c = Returns c1" "room_for (length ns) c1" "added i addr c c1"
    using add_node_with_room by blast
  obtain c2 where c2: "read_nodes ns None c1 = Some (Inr (), c2)" "members c2 = fst ` set ns \<union> members c1"
    "\<forall>j a. map_of (cn_addresses c1) j = Some a \<longrightarrow> map_of (cn_addresses c2) j = Some a"
    "distinct (map fst ns) \<longrightarrow> (\<forall>(i, a) \<in> set ns. i \<notin> members c1 \<longrightarrow> map_of (cn_addresses c2) i = Some a)"
    using Cons.IH [OF c1(2)] by blast
  have "\<forall>(j, a) \<in> set (n # ns). j \<notin> members c \<longrightarrow> map_of (cn_addresses c2) j = Some a"
    if "distinct (map fst (n # ns))"
    using that c1(3) c2(3,4) n by (fastforce simp: added_def image_iff)
  then show ?case using c1 c2 n by (intro exI [of _ c2]) (auto simp: added_def)
qed simp

lemma text_of_bytes_of [simp]: "text_of (bytes_of s) = s"
proof -
  have "char_of (unat (of_nat (of_char c :: nat) :: 8 word)) = (c :: char)" for c
    using of_char_mod_256 [of c] by (simp add: unsigned_of_nat take_bit_eq_mod)
  then show ?thesis by (simp add: text_of_def bytes_of_def o_def)
qed

lemma update_fst_set: "fst ` set (AList.update i a m) = insert i (fst ` set m)"
  using dom_update [of i a m] by (simp add: dom_map_of_conv_image_fst)

text \<open>The nodes that the answer to a join lists.\<close>

lemma added_nodes:
  assumes "nodes_add offer i addr g = (Inr ns, g')"
  shows "fst ` set ns = insert i (members (t_conn (g_transport g)))"
    "distinct (map fst (cn_addresses (t_conn (g_transport g)))) \<Longrightarrow> distinct (map fst ns)"
    "length ns \<le> Suc (length (nodes_list g))"
    "g' = g\<lparr>g_calls := g_calls g @ [CallProposeConfChange
       \<lparr>cc_type = ConfChangeAddNode, cc_node_id = i, cc_context = bytes_of addr\<rparr>]\<rparr>"
    "\<And>j. j \<noteq> i \<Longrightarrow> map_of ns j = map_of (nodes_list g) j"
proof -
  have ns: "ns = AList.update i addr (cn_addresses (t_conn (g_transport g)))"
    and g': "g' = g\<lparr>g_calls := g_calls g @ [CallProposeConfChange
       \<lparr>cc_type = ConfChangeAddNode, cc_node_id = i, cc_context = bytes_of addr\<rparr>]\<rparr>"
    using assms by (auto simp: nodes_add_def propose_join_def propose_conf_change_def conn_nodes_def split: option.splits)
  show "fst ` set ns = insert i (members (t_conn (g_transport g)))"
    unfolding ns update_fst_set by (simp add: members_def dom_map_of_conv_image_fst)
  show "distinct (map fst ns)" if "distinct (map fst (cn_addresses (t_conn (g_transport g))))"
    unfolding ns by (rule distinct_update [OF that])
  have "length (AList.update i addr m) \<le> Suc (length m)" for m :: "(node_id \<times> string) list"
    by (induction m) auto
  then show "length ns \<le> Suc (length (nodes_list g))" by (simp add: ns nodes_list_def conn_nodes_def)
  show "g' = g\<lparr>g_calls := g_calls g @ [CallProposeConfChange
       \<lparr>cc_type = ConfChangeAddNode, cc_node_id = i, cc_context = bytes_of addr\<rparr>]\<rparr>" by (rule g')
  show "map_of ns j = map_of (nodes_list g) j" if "j \<noteq> i" for j
    using that by (simp add: ns nodes_list_def conn_nodes_def update_conv')
qed


definition sample_joiner :: conn where
  "sample_joiner = sample_conn\<lparr>cn_id := 9, cn_address := '':6001'', cn_addresses := [(9, '':6001'')],
     cn_notifications := [make_channel 10]\<rparr>"

definition sample_join_client :: join_client where
  "sample_join_client = \<lparr>jc_dial = (\<lambda>a. if a = ''seed'' then Inr 3 else Inl (RemoteError [])),
     jc_add_node = (\<lambda>k n. if k = 3 then Inr (fst (serve_add_node (\<lambda>_. None) (plain_env 0) (\<lambda>_. None) n sample_zero_group))
       else Inl (RemoteError []))\<rparr>"


end
