(* ===== verification/Services.thy ===== *)
theory Services
  imports NodesManager
begin

text \<open>
  \<open>services/data_manager.go\<close>, \<open>services/search.go\<close> and \<open>services/dataset_manager.go\<close>: the gRPC
  services. A handler parses the ids of its request, finds the dataset in the catalogue and calls it.
  The dataset is the one the catalogue points to, so its change is put back there. A reply is a
  value or an error, a server stream is the list of what was sent and how it ended.
\<close>

section \<open>Finding the dataset\<close>

definition find_dataset :: "bytes \<Rightarrow> manager \<Rightarrow> error + uuid \<times> dataset option" where
  "find_dataset b m = (case uuid_from_bytes b of
     Inl e \<Rightarrow> Inl e | Inr i \<Rightarrow> map_sum (\<lambda>e. e) (Pair i) (manager_get i m))"

text \<open>A method of a nil dataset panics.\<close>

definition on_dataset :: "uuid \<times> dataset option \<Rightarrow> (dataset, 'a) prog \<Rightarrow> (manager, 'a) prog" where
  "on_dataset ref f m = do {
     d \<leftarrow> snd ref;
     (r, d') \<leftarrow> f d;
     Some (r, put_dataset (fst ref) (Some d') m) }"

definition with_dataset :: "bytes \<Rightarrow> (dataset, 'a) prog \<Rightarrow> (manager, 'a) prog" where
  "with_dataset b f m = (case find_dataset b m of Inl e \<Rightarrow> Some (Inl e, m) | Inr ref \<Rightarrow> on_dataset ref f m)"

section \<open>The data manager\<close>

text \<open>The id of the item is parsed after the dataset was found.\<close>

definition with_item :: "bytes \<Rightarrow> bytes \<Rightarrow> (uuid \<Rightarrow> (dataset, 'a) prog) \<Rightarrow> (manager, 'a) prog" where
  "with_item b i f m = (case find_dataset b m of
       Inl e \<Rightarrow> Some (Inl e, m)
     | Inr ref \<Rightarrow> (case uuid_from_bytes i of Inl e \<Rightarrow> Some (Inl e, m) | Inr u \<Rightarrow> on_dataset ref (f u) m))"

definition serve_insert ::
  "remote \<Rightarrow> raft_env \<Rightarrow> nat \<Rightarrow> (f32 \<Rightarrow> f32) \<Rightarrow> f32 \<Rightarrow> bytes \<Rightarrow> bytes \<Rightarrow> vec \<Rightarrow> metadata \<Rightarrow> (manager, unit) prog" where
  "serve_insert rm R r lg x b i v md = with_item b i (\<lambda>u. dataset_insert rm R r lg x u v md)"

definition serve_update ::
  "remote \<Rightarrow> raft_env \<Rightarrow> nat \<Rightarrow> bytes \<Rightarrow> bytes \<Rightarrow> vec \<Rightarrow> metadata \<Rightarrow> (manager, unit) prog" where
  "serve_update rm R r b i v md = with_item b i (\<lambda>u. dataset_update rm R r u v md)"

definition serve_remove :: "remote \<Rightarrow> raft_env \<Rightarrow> nat \<Rightarrow> bytes \<Rightarrow> bytes \<Rightarrow> (manager, unit) prog" where
  "serve_remove rm R r b i = with_item b i (dataset_remove rm R r)"

text \<open>\<open>to_string\<close> is \<open>UUID.String\<close>, \<open>render\<close> what \<open>Sprintf\<close> makes of an error.\<close>

fun errors_map_to_batch_response ::
  "(uuid \<Rightarrow> string) \<Rightarrow> (error \<Rightarrow> string) \<Rightarrow> batch_result \<Rightarrow> (string \<times> string) list \<Rightarrow> (string \<times> string) list" where
  "errors_map_to_batch_response to_string render [] res = res"
| "errors_map_to_batch_response to_string render ((i, e) # es) res =
     errors_map_to_batch_response to_string render es (AList.update (to_string i) (render e) res)"

definition serve_batch ::
  "(uuid \<Rightarrow> string) \<Rightarrow> (error \<Rightarrow> string) \<Rightarrow> (dataset, batch_result) prog \<Rightarrow> bytes \<Rightarrow> (manager, (string \<times> string) list) prog" where
  "serve_batch to_string render f b =
     andthen (with_dataset b f) (\<lambda>errs. ret (errors_map_to_batch_response to_string render errs []))"

definition serve_batch_insert ::
  "(uuid \<Rightarrow> string) \<Rightarrow> (error \<Rightarrow> string) \<Rightarrow> remote \<Rightarrow> (string \<Rightarrow> error + uuid) \<Rightarrow> (nat \<Rightarrow> nat) \<Rightarrow> env \<Rightarrow> nat option \<Rightarrow>
   (nat \<Rightarrow> raft_env) \<Rightarrow> (f32 \<Rightarrow> f32) \<Rightarrow> (nat \<Rightarrow> nat \<Rightarrow> f32) \<Rightarrow> bytes \<Rightarrow> batch_item list \<Rightarrow> (manager, (string \<times> string) list) prog" where
  "serve_batch_insert to_string render rm from_string r env ends R lg xs b items =
     serve_batch to_string render (batch_insert rm from_string r env ends R lg xs items) b"

definition serve_batch_update ::
  "(uuid \<Rightarrow> string) \<Rightarrow> (error \<Rightarrow> string) \<Rightarrow> remote \<Rightarrow> (string \<Rightarrow> error + uuid) \<Rightarrow> (nat \<Rightarrow> nat) \<Rightarrow> env \<Rightarrow> nat option \<Rightarrow>
   (nat \<Rightarrow> raft_env) \<Rightarrow> bytes \<Rightarrow> batch_item list \<Rightarrow> (manager, (string \<times> string) list) prog" where
  "serve_batch_update to_string render rm from_string r env ends R b items =
     serve_batch to_string render (batch_update rm from_string r env ends R items) b"

definition serve_batch_remove ::
  "(uuid \<Rightarrow> string) \<Rightarrow> (error \<Rightarrow> string) \<Rightarrow> remote \<Rightarrow> (string \<Rightarrow> error + uuid) \<Rightarrow> (nat \<Rightarrow> nat) \<Rightarrow> env \<Rightarrow> nat option \<Rightarrow>
   (nat \<Rightarrow> raft_env) \<Rightarrow> bytes \<Rightarrow> batch_item list \<Rightarrow> (manager, (string \<times> string) list) prog" where
  "serve_batch_remove to_string render rm from_string r env ends R b items =
     serve_batch to_string render (batch_remove rm from_string r env ends R items) b"

text \<open>The handlers that name a partition parse its id before they look for the dataset.\<close>

definition with_partition :: "bytes \<Rightarrow> bytes \<Rightarrow> (uuid \<Rightarrow> (dataset, 'a) prog) \<Rightarrow> (manager, 'a) prog" where
  "with_partition b p f m = (case uuid_from_bytes b of
       Inl e \<Rightarrow> Some (Inl e, m)
     | Inr _ \<Rightarrow> (case uuid_from_bytes p of Inl e \<Rightarrow> Some (Inl e, m) | Inr j \<Rightarrow> with_dataset b (f j) m))"

definition serve_partition_batch ::
  "(uuid \<Rightarrow> string) \<Rightarrow> (error \<Rightarrow> string) \<Rightarrow> (uuid \<Rightarrow> (dataset, batch_result) prog) \<Rightarrow> bytes \<Rightarrow> bytes \<Rightarrow>
   (manager, (string \<times> string) list) prog" where
  "serve_partition_batch to_string render f b p =
     andthen (with_partition b p f) (\<lambda>errs. ret (errors_map_to_batch_response to_string render errs []))"

definition serve_partition_batch_insert ::
  "(uuid \<Rightarrow> string) \<Rightarrow> (error \<Rightarrow> string) \<Rightarrow> raft_env \<Rightarrow> (f32 \<Rightarrow> f32) \<Rightarrow> (nat \<Rightarrow> f32) \<Rightarrow> bytes \<Rightarrow> bytes \<Rightarrow> batch_item list \<Rightarrow>
   (manager, (string \<times> string) list) prog" where
  "serve_partition_batch_insert to_string render R lg xs b p items =
     serve_partition_batch to_string render (\<lambda>j. dataset_partition_batch_insert R lg xs j items) b p"

definition serve_partition_batch_update ::
  "(uuid \<Rightarrow> string) \<Rightarrow> (error \<Rightarrow> string) \<Rightarrow> raft_env \<Rightarrow> bytes \<Rightarrow> bytes \<Rightarrow> batch_item list \<Rightarrow>
   (manager, (string \<times> string) list) prog" where
  "serve_partition_batch_update to_string render R b p items =
     serve_partition_batch to_string render (\<lambda>j. dataset_partition_batch_update R j items) b p"

definition serve_partition_batch_remove ::
  "(uuid \<Rightarrow> string) \<Rightarrow> (error \<Rightarrow> string) \<Rightarrow> raft_env \<Rightarrow> bytes \<Rightarrow> bytes \<Rightarrow> batch_item list \<Rightarrow>
   (manager, (string \<times> string) list) prog" where
  "serve_partition_batch_remove to_string render R b p items =
     serve_partition_batch to_string render (\<lambda>j. dataset_partition_batch_remove R j items) b p"

definition serve_partition_info :: "(hnsw \<Rightarrow> 64 word) \<Rightarrow> bytes \<Rightarrow> bytes \<Rightarrow> (manager, 64 word \<times> 64 word) prog" where
  "serve_partition_info bytes_size b p = with_partition b p (\<lambda>j d. Some (partition_info bytes_size j d, d))"

section \<open>The search service\<close>

text \<open>
  \<open>gather\<close> is what the collecting loop returns for the workers it has; \<open>may_return\<close> tells which
  results are possible. The items are sent one by one.
\<close>

definition to_stream_item :: "search_result_item \<Rightarrow> stream_item" where
  "to_stream_item x = \<lparr>si_id = sr_id x, si_metadata = sr_metadata x, si_score = sr_score x\<rparr>"

definition send_results :: "(nat \<Rightarrow> error option) \<Rightarrow> error + search_result \<Rightarrow> search_stream" where
  "send_results refuses r = (case r of Inl e \<Rightarrow> ([], Some e) | Inr xs \<Rightarrow> send_each refuses 0 (map to_stream_item xs))"

definition serve_search ::
  "(sent list list \<Rightarrow> error + search_result) \<Rightarrow> (nat \<Rightarrow> error option) \<Rightarrow> remote \<Rightarrow>
   (client \<Rightarrow> uuid list \<Rightarrow> vec \<Rightarrow> 32 word \<Rightarrow> error + search_stream) \<Rightarrow> (nat \<Rightarrow> nat) \<Rightarrow> env \<Rightarrow> bytes \<Rightarrow> vec \<Rightarrow> 32 word \<Rightarrow>
   manager \<Rightarrow> (search_stream \<times> manager) option" where
  "serve_search gather refuses rm rpc r env b q k m = do {
     (ws, m') \<leftarrow> with_dataset b (dataset_search rm rpc r env q (ucast k)) m;
     Some (send_results refuses (case ws of Inl e \<Rightarrow> Inl e | Inr w \<Rightarrow> gather w), m') }"

fun parse_ids :: "bytes list \<Rightarrow> error + uuid list" where
  "parse_ids [] = Inr []"
| "parse_ids (b # bs) = (case uuid_from_bytes b of
     Inl e \<Rightarrow> Inl e | Inr i \<Rightarrow> map_sum (\<lambda>e. e) ((#) i) (parse_ids bs))"

definition serve_search_partitions ::
  "(sent list list \<Rightarrow> error + search_result) \<Rightarrow> (nat \<Rightarrow> error option) \<Rightarrow> space_impl \<Rightarrow> env \<Rightarrow> bytes \<Rightarrow> bytes list \<Rightarrow> vec \<Rightarrow>
   32 word \<Rightarrow> manager \<Rightarrow> search_stream option" where
  "serve_search_partitions gather refuses impl env b ps q k m = (case uuid_from_bytes b of
       Inl e \<Rightarrow> Some ([], Some e)
     | Inr i \<Rightarrow> (case parse_ids ps of
           Inl e \<Rightarrow> Some ([], Some e)
         | Inr is \<Rightarrow> (case manager_get i m of
               Inl e \<Rightarrow> Some ([], Some e)
             | Inr od \<Rightarrow> do {
                 d \<leftarrow> od;
                 ws \<leftarrow> search_partitions impl env is q (ucast k) d;
                 Some (send_results refuses (case ws of Inl e \<Rightarrow> Inl e | Inr w \<Rightarrow> gather w)) })))"

section \<open>The dataset manager\<close>

definition serve_list ::
  "(nat \<Rightarrow> error option) \<Rightarrow> remote \<Rightarrow> (hnsw \<Rightarrow> 64 word) \<Rightarrow> (nat \<Rightarrow> nat) \<Rightarrow> (nat \<Rightarrow> nat) \<Rightarrow> env \<Rightarrow> bool \<Rightarrow> bool \<Rightarrow> manager \<Rightarrow>
   (dataset_meta stream \<times> manager) option" where
  "serve_list refuses rm bytes_size r seen env ends with_size m = do {
     (res, m') \<leftarrow> (if with_size then manager_list_sized (dataset_len rm bytes_size r seen (sub env 0) ends) (sub env 1) m
                  else map_option (\<lambda>res. (res, m)) (manager_list (sub env 1) m));
     Some (case res of Inl e \<Rightarrow> ([], Some e) | Inr metas \<Rightarrow> send_each refuses 0 metas, m') }"

text \<open>The size is written into the message of the dataset, as 0 when it could not be read.\<close>

definition serve_get ::
  "remote \<Rightarrow> (hnsw \<Rightarrow> 64 word) \<Rightarrow> (nat \<Rightarrow> nat) \<Rightarrow> (nat \<Rightarrow> nat) \<Rightarrow> env \<Rightarrow> bool \<Rightarrow> bool \<Rightarrow> bytes \<Rightarrow> (manager, dataset_meta) prog" where
  "serve_get rm bytes_size r seen env ends with_size b = with_dataset b (\<lambda>d.
     if with_size
     then do {
       (res, d') \<leftarrow> dataset_len rm bytes_size r seen env ends d;
       let n = (case res of Inl _ \<Rightarrow> 0 | Inr n \<Rightarrow> n);
       let d'' = d'\<lparr>ds_meta := (ds_meta d')\<lparr>dm_size := n\<rparr>\<rparr>;
       Some (map_sum (\<lambda>e. e) (\<lambda>_. dataset_proto d'') res, d'') }
     else Some (Inr (dataset_proto d), d))"

definition serve_create ::
  "manager_codec \<Rightarrow> manager_env \<Rightarrow> uuid \<Rightarrow> (nat \<Rightarrow> uuid) \<Rightarrow> (nat \<Rightarrow> node_id list \<Rightarrow> node_id list) \<Rightarrow> env \<Rightarrow> dataset_meta \<Rightarrow>
   (manager, dataset_meta) prog" where
  "serve_create C E i pids shuffle env meta =
     andthen (manager_create C E i pids shuffle env meta) (\<lambda>od. case od of None \<Rightarrow> panic | Some d \<Rightarrow> ret (dataset_proto d))"

definition serve_delete :: "manager_codec \<Rightarrow> manager_env \<Rightarrow> bytes \<Rightarrow> (manager, unit) prog" where
  "serve_delete C E b m = (case uuid_from_bytes b of Inl e \<Rightarrow> Some (Inl e, m) | Inr i \<Rightarrow> manager_delete C E i m)"

definition serve_dataset_size ::
  "remote \<Rightarrow> (hnsw \<Rightarrow> 64 word) \<Rightarrow> (nat \<Rightarrow> nat) \<Rightarrow> (nat \<Rightarrow> nat) \<Rightarrow> env \<Rightarrow> bool \<Rightarrow> bytes \<Rightarrow> (manager, 64 word \<times> 64 word) prog" where
  "serve_dataset_size rm bytes_size r seen env ends b = with_dataset b (size_info rm bytes_size r seen env ends)"

end
