(* ===== verification/ServicesProperties.thy ===== *)
theory ServicesProperties
  imports Services
begin

text \<open>
  What the services promise across nodes: the errors of a batch survive the way through a reply,
  and a search that asks other nodes for their partitions is as exact as the nodes are.
\<close>

section \<open>The errors of a batch\<close>

lemma errors_map_append:
  "inj_on to_string (fst ` set es) \<Longrightarrow> distinct (map fst es) \<Longrightarrow>
   \<forall>i \<in> fst ` set es. to_string i \<notin> fst ` set res \<Longrightarrow>
   errors_map_to_batch_response to_string render es res = res @ map (\<lambda>(i, e). (to_string i, render e)) es"
proof (induction es arbitrary: res)
  case (Cons p es)
  obtain i e where p: "p = (i, e)" by (cases p)
  have "map_of res (to_string i) = None" using Cons.prems(3) p by (force simp: map_of_eq_None_iff)
  then have new: "AList.update (to_string i) (render e) res = res @ [(to_string i, render e)]"
    by (rule length_AList_update_fresh)
  have "errors_map_to_batch_response to_string render es (res @ [(to_string i, render e)]) =
      (res @ [(to_string i, render e)]) @ map (\<lambda>(i, e). (to_string i, render e)) es"
  proof (rule Cons.IH)
    show "inj_on to_string (fst ` set es)" "distinct (map fst es)" using Cons.prems by auto
    have "i \<notin> fst ` set es" using Cons.prems(2) p by force
    then show "\<forall>j \<in> fst ` set es. to_string j \<notin> fst ` set (res @ [(to_string i, render e)])"
      using Cons.prems(1,3) p by (auto simp: inj_on_def)
  qed
  then show ?case using p new by simp
qed simp

lemma errors_read:
  "\<forall>(i, e) \<in> set es. from_string (to_string i) = Inr i \<Longrightarrow> distinct (map fst m @ map fst es) \<Longrightarrow>
   errors_response_to_partition_batch_result from_string (map (\<lambda>(i, e). (to_string i, render e)) es) m =
     Some (m @ map (\<lambda>(i, e). (i, RemoteError (render e))) es)"
proof (induction es arbitrary: m)
  case (Cons p es)
  obtain i e where p: "p = (i, e)" by (cases p)
  have "map_of m i = None" using Cons.prems(2) p by (force simp: map_of_eq_None_iff)
  then have "AList.update i (RemoteError (render e)) m = m @ [(i, RemoteError (render e))]"
    by (rule length_AList_update_fresh)
  moreover have "distinct (map fst (m @ [(i, RemoteError (render e))]) @ map fst es)" using Cons.prems(2) p by auto
  ultimately show ?case using Cons p by auto
qed simp

text \<open>
  The errors of a batch survive the reply. The node that proxies a batch reads back, for every
  item that the other node reported, that node's error under the item's id, and nothing else.
\<close>

theorem batch_errors_survive_the_reply:
  assumes "distinct (map fst errs)" "\<forall>(i, e) \<in> set errs. from_string (to_string i) = Inr i"
  shows "\<exists>m. errors_response_to_partition_batch_result from_string
      (errors_map_to_batch_response to_string render errs []) [] = Some m \<and>
    (\<forall>i. map_of m i = map_option (\<lambda>e. RemoteError (render e)) (map_of errs i))"
proof -
  have "inj_on to_string (fst ` set errs)"
  proof (rule inj_onI)
    fix i j assume "i \<in> fst ` set errs" "j \<in> fst ` set errs" "to_string i = to_string j"
    then have "from_string (to_string i) = Inr i" "from_string (to_string i) = Inr j" using assms(2) by auto
    then show "i = j" by simp
  qed
  then have "errors_map_to_batch_response to_string render errs [] = map (\<lambda>(i, e). (to_string i, render e)) errs"
    using errors_map_append [of to_string errs "[]" render] assms(1) by simp
  then have "errors_response_to_partition_batch_result from_string
      (errors_map_to_batch_response to_string render errs []) [] = Some (map (\<lambda>(i, e). (i, RemoteError (render e))) errs)"
    using errors_read [OF assms(2), of "[]" render] assms(1) by simp
  moreover have "map_of (map (\<lambda>(i, e). (i, RemoteError (render e))) errs) i =
      map_option (\<lambda>e. RemoteError (render e)) (map_of errs i)" for i
    by (simp add: map_of_map)
  ultimately show ?thesis by blast
qed

definition hex_string :: "uuid \<Rightarrow> string" where
  "hex_string u = map (\<lambda>b. char_of (unat b)) u"

theorem batch_errors_survive_the_reply_witness:
  "\<exists>m. errors_response_to_partition_batch_result (\<lambda>s. Inr (bytes_of s))
      (errors_map_to_batch_response hex_string (\<lambda>_. ''x'') [(uuid_of 1, ItemNotFound)] []) [] = Some m \<and>
    map_of m (uuid_of 1) = Some (RemoteError ''x'')"
proof -
  have "unat b mod 256 = unat b" for b :: "8 word" using unsigned_less [of b, where 'a = nat] by simp
  then have "bytes_of (hex_string u) = u" for u by (simp add: bytes_of_def hex_string_def o_def)
  then show ?thesis
    using batch_errors_survive_the_reply [of "[(uuid_of 1, ItemNotFound)]" "\<lambda>s. Inr (bytes_of s)" hex_string "\<lambda>_. ''x''"]
    by auto
qed

section \<open>A search across nodes\<close>

lemma nearest_mset: "mset S = mset S' \<Longrightarrow> nearest n S r = nearest n S' r"
  using mset_eq_length [of S S'] by (simp add: nearest_def)

lemma read_results:
  "\<forall>x \<in> set xs. length (sr_id x) = 16 \<Longrightarrow> read_stream (map to_stream_item xs) None rs = [SentResult (rs @ xs)]"
  by (induction xs arbitrary: rs) (auto simp: to_stream_item_def uuid_from_bytes_def)

lemma parse_ids_ok: "\<forall>i \<in> set is. length i = 16 \<Longrightarrow> parse_ids is = Inr is"
  by (induction "is") (auto simp: uuid_from_bytes_def)

text \<open>Every id of a partition is asked from one node.\<close>

lemma mset_add_query_node:
  "mset (concat (map snd (add_query_node n i m))) = add_mset i (mset (concat (map snd m)))"
  by (induction m) auto

lemma mset_query_nodes:
  "query_nodes r k ps m = Some qs \<Longrightarrow> mset (concat (map snd qs)) = mset (concat (map snd m)) + mset (map p_id ps)"
  by (induction ps arbitrary: k m) (auto simp: bind_eq_Some_conv mset_add_query_node)

text \<open>The client of a node stays the same while other clients are fetched.\<close>

definition reaches :: "remote \<Rightarrow> (client \<Rightarrow> node_id) \<Rightarrow> node_id \<Rightarrow> dataset \<Rightarrow> bool" where
  "reaches rm node_of n d = (\<exists>c. fst (get_node_search_client rm n d) = Inr c \<and> node_of c = n)"

lemma reaches_step:
  assumes "get_node_search_client rm n d = (Inr c, d')" "reaches rm node_of n' d"
  shows "reaches rm node_of n' d' \<and> ds_id d' = ds_id d"
proof -
  have d': "d' = d \<or> (\<exists>c'. d' = d\<lparr>ds_conn := c', ds_search_clients := AList.update n c (ds_search_clients d)\<rparr> \<and>
      conn_dial (rm_dial rm) (\<lambda>c. c) n (ds_conn d) = (Inr c, c'))"
    using assms(1) by (auto simp: get_node_search_client_def split: option.splits prod.splits sum.splits)
  show ?thesis
  proof (cases "d' = d")
    case True
    then show ?thesis using assms(2) by simp
  next
    case False
    then obtain c' where c': "d' = d\<lparr>ds_conn := c', ds_search_clients := AList.update n c (ds_search_clients d)\<rparr>"
      "conn_dial (rm_dial rm) (\<lambda>c. c) n (ds_conn d) = (Inr c, c')" "map_of (ds_search_clients d) n = None"
      using d' assms(1) by (auto simp: get_node_search_client_def split: option.splits prod.splits sum.splits)
    show ?thesis
    proof (cases "n' = n")
      case True
      then show ?thesis using assms c'(1) by (simp add: reaches_def get_node_search_client_def update_conv')
    next
      case False
      have "get_cached_conn n' c' = get_cached_conn n' (ds_conn d)" "cn_addresses c' = cn_addresses (ds_conn d)"
        using c'(2) False by (auto simp: conn_dial_def get_cached_conn_def update_conv' Let_def split: option.splits sum.splits)
      then have "fst (conn_dial (rm_dial rm) (\<lambda>c. c) n' c') = fst (conn_dial (rm_dial rm) (\<lambda>c. c) n' (ds_conn d))"
        by (auto simp: conn_dial_def get_address_def get_cached_conn_def Let_def split: option.splits sum.splits)
      then have "fst (get_node_search_client rm n' d') = fst (get_node_search_client rm n' d)"
        using c'(1) False
        by (auto simp: get_node_search_client_def update_conv' split: option.splits sum.splits prod.splits)
      then show ?thesis using assms(2) c'(1) by (simp add: reaches_def)
    qed
  qed
qed

text \<open>
  The collecting loop of a node that reads the results before it sees the channels closed: one of
  the runs \<open>may_return\<close> allows.
\<close>

definition gathers :: "(search_result \<Rightarrow> search_result) \<Rightarrow> 64 word \<Rightarrow> (sent list list \<Rightarrow> error + search_result) \<Rightarrow> bool" where
  "gathers sorter k gather = (\<forall>rs. \<exists>ys. mset ys = mset (concat rs) \<and>
     gather (map (\<lambda>r. [SentResult r]) rs) = Inr (best sorter k ys))"

text \<open>
  \<open>holds\<close>: the dataset of a node has the named partitions, each searched exactly, with the items
  that every replica of the partition has.
\<close>

definition holds :: "space_impl \<Rightarrow> vec \<Rightarrow> uuid \<Rightarrow> (uuid \<Rightarrow> search_result) \<Rightarrow> uuid list \<Rightarrow> manager \<Rightarrow> bool" where
  "holds impl q i items is m = (\<exists>d ps. manager_get i m = Inr (Some d) \<and> get_partitions d is = Inr ps \<and>
     map p_id ps = is \<and> (\<forall>p \<in> set ps. exact_partition impl q p \<and>
       mset (scored_items (index_distance impl (p_index p)) q (p_index p)) = mset (items (p_id p))))"

lemma node_answers:
  assumes "holds impl q i items is m" "accepted_impl impl" "fair env" "sorts sorter" "0 \<le> sint (ucast k :: 64 word)"
    and "gathers sorter (ucast k) gather" "length i = 16" "\<forall>j \<in> set is. length j = 16"
    and "\<forall>j \<in> set is. \<forall>x \<in> set (items j). length (sr_id x) = 16"
  shows "\<exists>r. serve_search_partitions gather (\<lambda>_. None) impl env i is q k m = Some (map to_stream_item r, None) \<and>
    nearest (nat (sint (ucast k :: 64 word))) (concat (map items is)) r \<and>
    (\<forall>x \<in> set (concat (map items is)). \<not> f32_nan (sr_score x)) \<and> (\<forall>x \<in> set r. length (sr_id x) = 16)"
proof -
  let ?k = "ucast k :: 64 word" and ?items = "\<lambda>p. scored_items (index_distance impl (p_index p)) q (p_index p)"
  obtain d ps where d: "manager_get i m = Inr (Some d)" "get_partitions d is = Inr ps" "map p_id ps = is"
    "\<forall>p \<in> set ps. exact_partition impl q p" "\<forall>p \<in> set ps. mset (?items p) = mset (items (p_id p))"
    using assms(1) unfolding holds_def by blast
  obtain Ss where Ss: "partition_workers impl env q ?k ps = Some (map (\<lambda>(S, r). [SentResult r]) Ss)"
    "map fst Ss = map ?items ps" "\<forall>(S, r) \<in> set Ss. nearest (nat (sint ?k)) S r \<and> (\<forall>x \<in> set S. \<not> f32_nan (sr_score x))"
    using exact_workers [OF d(4) assms(2,3,5)] by blast
  have ws: "map (\<lambda>(S, r). [SentResult r]) Ss = map (\<lambda>r. [SentResult r]) (map snd Ss)" by auto
  obtain ys where ys: "mset ys = mset (concat (map snd Ss))"
    "gather (map (\<lambda>(S, r). [SentResult r]) Ss) = Inr (best sorter ?k ys)"
    using assms(6) unfolding ws gathers_def by blast
  have same: "mset (concat (map ?items ps)) = mset (concat (map items is))"
    using d(5) unfolding d(3) [symmetric] by (induction ps) auto
  have near: "nearest (nat (sint ?k)) (concat (map items is)) (best sorter ?k ys)"
    using best_nearest [OF assms(4,5) Ss(3) ys(1)] nearest_mset [OF same] Ss(2) by simp
  have set_items: "set (concat (map items is)) = set (concat (map fst Ss))"
    using mset_eq_setD [OF same] Ss(2) by simp
  then have nan: "\<forall>x \<in> set (concat (map items is)). \<not> f32_nan (sr_score x)" using Ss(3) by fastforce
  have "set (best sorter ?k ys) \<subseteq> set (concat (map items is))"
  proof -
    obtain rest where "mset (concat (map items is)) = mset (best sorter ?k ys) + mset rest"
      using near by (auto simp: nearest_def)
    then show ?thesis using mset_union_set by blast
  qed
  then have "\<forall>x \<in> set (best sorter ?k ys). length (sr_id x) = 16" using assms(9) by fastforce
  moreover have "serve_search_partitions gather (\<lambda>_. None) impl env i is q k m =
      Some (map to_stream_item (best sorter ?k ys), None)"
    using d(1,2) Ss(1) ys(2) assms(7,8)
    by (simp add: serve_search_partitions_def uuid_from_bytes_def parse_ids_ok search_partitions_def send_results_def)
  ultimately show ?thesis using near nan by blast
qed

definition answered ::
  "(client \<Rightarrow> uuid list \<Rightarrow> vec \<Rightarrow> 32 word \<Rightarrow> error + search_stream) \<Rightarrow> vec \<Rightarrow> 64 word \<Rightarrow> nat \<Rightarrow>
   (uuid \<Rightarrow> search_result) \<Rightarrow> client \<Rightarrow> uuid list \<Rightarrow> bool" where
  "answered rpc q k l items c is = (\<exists>r. rpc c is q (ucast k) = Inr (map to_stream_item r, None) \<and>
      nearest l (concat (map items is)) r \<and> (\<forall>x \<in> set r. length (sr_id x) = 16) \<and>
      (\<forall>x \<in> set (concat (map items is)). \<not> f32_nan (sr_score x)))"

lemma workers_answer:
  assumes "\<forall>(n, is) \<in> set qs. reaches rm node_of n d"
    and "\<forall>(n, is) \<in> set qs. \<forall>c. node_of c = n \<longrightarrow> answered rpc q k l items c is"
  shows "\<exists>Ss d'. node_workers rm rpc qs q k d = (map (\<lambda>(S, r). [SentResult r]) Ss, d') \<and>
    map fst Ss = map (\<lambda>(n, is). concat (map items is)) qs \<and>
    (\<forall>(S, r) \<in> set Ss. nearest l S r \<and> (\<forall>x \<in> set S. \<not> f32_nan (sr_score x)))"
  using assms
proof (induction qs arbitrary: d)
  case (Cons nq qs)
  obtain n "is" where nq: "nq = (n, is)" by (cases nq)
  obtain c d1 where c: "get_node_search_client rm n d = (Inr c, d1)" "node_of c = n"
    using Cons.prems(1) nq by (cases "get_node_search_client rm n d") (auto simp: reaches_def)
  obtain r where r: "rpc c is q (ucast k) = Inr (map to_stream_item r, None)" "nearest l (concat (map items is)) r"
    "\<forall>x \<in> set r. length (sr_id x) = 16" "\<forall>x \<in> set (concat (map items is)). \<not> f32_nan (sr_score x)"
  proof -
    have "answered rpc q k l items c is" using Cons.prems(2) nq c(2) by simp
    then show thesis using that unfolding answered_def by blast
  qed
  have first: "search_partitions_on_node rm rpc n is q k d = ([SentResult r], d1)"
    using c r(1) read_results [OF r(3), of "[]"] by (simp add: search_partitions_on_node_def)
  have "\<forall>(n, is) \<in> set qs. reaches rm node_of n d1"
    using Cons.prems(1) reaches_step [OF c(1)] by fastforce
  moreover have "\<forall>(n, is) \<in> set qs. \<forall>c. node_of c = n \<longrightarrow> answered rpc q k l items c is"
    using Cons.prems(2) by simp
  ultimately obtain Ss d2 where Ss: "node_workers rm rpc qs q k d1 = (map (\<lambda>(S, r). [SentResult r]) Ss, d2)"
    "map fst Ss = map (\<lambda>(n, is). concat (map items is)) qs"
    "\<forall>(S, r) \<in> set Ss. nearest l S r \<and> (\<forall>x \<in> set S. \<not> f32_nan (sr_score x))"
    using Cons.IH by blast
  have all: "node_workers rm rpc (nq # qs) q k d = (map (\<lambda>(S, r). [SentResult r]) ((concat (map items is), r) # Ss), d2)"
    using first Ss(1) nq by simp
  show ?case
  proof (intro exI conjI)
    show "node_workers rm rpc (nq # qs) q k d = (map (\<lambda>(S, r). [SentResult r]) ((concat (map items is), r) # Ss), d2)"
      by (rule all)
    show "map fst ((concat (map items is), r) # Ss) = map (\<lambda>(n, is). concat (map items is)) (nq # qs)"
      using Ss(2) nq by simp
    show "\<forall>(S, r) \<in> set ((concat (map items is), r) # Ss). nearest l S r \<and> (\<forall>x \<in> set S. \<not> f32_nan (sr_score x))"
      using Ss(3) r(2,4) by simp
  qed
qed simp

lemma uint_int_unat: "uint (w::64 word) = int (unat w)" by simp
lemma sint_small: "unat k < 2 ^ 63 \<Longrightarrow> sint (k :: 64 word) = int (unat k)"
proof -
  assume "unat k < 2 ^ 63"
  then have "int (unat k) < int (2 ^ 63)" by (simp only: of_nat_less_iff)
  then have "uint k < 2 ^ 63" unfolding uint_int_unat by simp
  have "sint k = signed_take_bit 63 (uint k)" by (simp add: sint_uint)
  also have "\<dots> = uint k" by (rule signed_take_bit_int_eq_self) (use \<open>uint k < 2 ^ 63\<close> uint_ge_0 [of k] in linarith)+
  finally show ?thesis by simp
qed

lemma concat_items: "concat (map (\<lambda>(n, is). concat (map items is)) qs) = concat (map items (concat (map snd qs)))"
  by (induction qs) auto

lemma mset_concat_cong: "mset xs = mset ys \<Longrightarrow> mset (concat (map f xs)) = mset (concat (map f ys))"
proof -
  have *: "mset (concat (map f zs)) = (\<Sum>z \<in># mset zs. mset (f z))" for zs by (induction zs) auto
  show "mset xs = mset ys \<Longrightarrow> mset (concat (map f xs)) = mset (concat (map f ys))" by (simp add: *)
qed


section \<open>A concrete cluster\<close>

definition sample_gather :: "sent list list \<Rightarrow> error + search_result" where
  "sample_gather ws = Inr (best key_sorter 4 (concat (answers ws)))"

lemma sample_gathers: "gathers key_sorter 4 sample_gather"
proof -
  have "answers (map (\<lambda>r. [SentResult r]) rs) = rs" for rs by (induction rs) (simp_all add: answers_def)
  then show ?thesis by (auto simp: gathers_def sample_gather_def)
qed

definition sample_catalogue :: manager where
  "sample_catalogue = (new_dataset_manager sample_conn)\<lparr>mg_datasets := [(uuid_of 5, Some sample_dataset)]\<rparr>"

definition sample_rpc :: "client \<Rightarrow> uuid list \<Rightarrow> vec \<Rightarrow> 32 word \<Rightarrow> error + search_stream" where
  "sample_rpc c is q k = (case serve_search_partitions sample_gather (\<lambda>_. None) native_impl (plain_env 0) (uuid_of 5) is q k
     sample_catalogue of Some s \<Rightarrow> Inr s | None \<Rightarrow> Inl BadMessage)"


end
