(* ===== verification/Server.thy ===== *)
theory Server
  imports ServicesProperties WalProperties
begin

text \<open>
  \<open>server.go\<close>, \<open>config.go\<close> and \<open>cmd/anndb/main.go\<close>: how a node starts. The components share one
  connection, which the model keeps in the transport of the zero group. What the operating system
  answers is an argument (\<open>surroundings\<close>), as are the key-value store and the codecs.
\<close>

section \<open>Configuration\<close>

record server_config =
  raft_node_id :: node_id
  data_dir :: string
  port :: string
  join_nodes :: "string list"
  do_not_join_cluster :: bool
  tls_cert_file :: string
  tls_key_file :: string

definition new_server_config :: server_config where
  "new_server_config = \<lparr>raft_node_id = 0, data_dir = ''/anndb_data'', port = ''6000'', join_nodes = [],
     do_not_join_cluster = False, tls_cert_file = [], tls_key_file = []\<rparr>"

definition getenv_default :: "(string \<Rightarrow> string) \<Rightarrow> string \<Rightarrow> string \<Rightarrow> string" where
  "getenv_default environment key default_val = (let val = environment key in if val = [] then default_val else val)"

text \<open>\<open>strings.Split(raw, ",")\<close> and \<open>strings.Trim(s, " ")\<close>.\<close>

fun split_commas :: "string \<Rightarrow> string list" where
  "split_commas [] = [[]]"
| "split_commas (c # s) = (if c = CHR '','' then [] # split_commas s
     else case split_commas s of w # ws \<Rightarrow> (c # w) # ws | [] \<Rightarrow> [[c]])"

definition trim_spaces :: "string \<Rightarrow> string" where
  "trim_spaces s = rev (dropWhile (\<lambda>c. c = CHR '' '') (rev (dropWhile (\<lambda>c. c = CHR '' '') s)))"

definition split_comma_separated_values :: "string \<Rightarrow> string list" where
  "split_comma_separated_values raw = map trim_spaces (filter (\<lambda>s. 0 < length s) (split_commas raw))"

text \<open>The flags, where one was given; the environment gives the defaults.\<close>

definition main_config :: "(string \<Rightarrow> string) \<Rightarrow> (string \<rightharpoonup> string) \<Rightarrow> node_id \<Rightarrow> server_config" where
  "main_config environment flags id_flag =
     (let flag = (\<lambda>name key default_val. case flags name of Some v \<Rightarrow> v | None \<Rightarrow> getenv_default environment key default_val);
          raw = flag ''join'' ''ANNDB_JOIN'' [];
          cfg = new_server_config\<lparr>raft_node_id := id_flag, port := flag ''port'' ''ANNDB_PORT'' ''6000'',
            data_dir := flag ''data-dir'' ''ANNDB_DATA_DIR'' ''/tmp'', tls_cert_file := flag ''cert'' ''ANNDB_CERT'' [],
            tls_key_file := flag ''key'' ''ANNDB_KEY'' []\<rparr>
      in if raw = ''false'' then cfg\<lparr>do_not_join_cluster := True\<rparr>
         else cfg\<lparr>join_nodes := split_comma_separated_values raw\<rparr>)"

section \<open>The identity of the node\<close>

definition other_node_id :: error where
  "other_node_id = RemoteError ''Starting node with custom id which does not match the one stored in WAL''"

text \<open>\<open>now\<close> is the clock; the id 0 asks for a new one.\<close>

definition get_raft_node_id :: "'d kv \<Rightarrow> 64 word \<Rightarrow> node_id \<Rightarrow> ('d, node_id) prog" where
  "get_raft_node_id V now wanted db = (case get_badger_raft_id V db of
       None \<Rightarrow> None
     | Some (Inr i) \<Rightarrow> Some (if 0 < wanted \<and> wanted \<noteq> i then Inl other_node_id else Inr i, db)
     | Some (Inl e) \<Rightarrow>
         if e \<noteq> KeyNotFound then Some (Inl e, db)
         else let i = (if 0 < wanted then wanted else now)
              in andthen (set_badger_raft_id V i) (\<lambda>_. ret i) db)"

definition get_zero_node_ids :: "server_config \<Rightarrow> node_id \<Rightarrow> node_id list" where
  "get_zero_node_ids cfg i = (if do_not_join_cluster cfg then [] else if length (join_nodes cfg) = 0 then [i] else [])"

section \<open>Setting up\<close>

definition server_address :: "server_config \<Rightarrow> string" where
  "server_address cfg = CHR '':'' # port cfg"

text \<open>\<open>NewDatasetManager\<close> registers its three functions with the proxy it was given.\<close>

definition register_manager :: "manager_codec \<Rightarrow> node_start \<Rightarrow> string \<Rightarrow> (manager shared, unit) prog" where
  "register_manager C N name sh = do {
     px \<leftarrow> map_of (sh_proxies sh) name;
     let (r1, px1) = proxy_register_process_fn (\<lambda>_. manager_process C N) px;
     let (r2, px2) = (if isl r1 then (r1, px1) else proxy_register_process_snapshot_fn (manager_process_snapshot C N) px1);
     let (r3, px3) = (if isl r2 then (r2, px2) else proxy_register_snapshot_fn (manager_snapshot C) px2);
     Some (r3, sh\<lparr>sh_proxies := AList.update name px3 (sh_proxies sh)\<rparr>) }"

record 'd surroundings =
  op_db :: "error + 'd"
  op_now :: "64 word"
  op_certificate :: "error option"
  op_network :: network
  op_early :: "group_event list"
  op_listen :: "error option"
  op_tls :: "error option"

record 'd server =
  sv_config :: server_config
  sv_group :: "(manager shared, 'd wal) raft_group"
  sv_start :: raft_start

text \<open>
  \<open>setup\<close>. The loop of the zero group runs from \<open>Start\<close> on: \<open>op_early\<close> are the turns it makes before
  the dataset manager is registered. The addresses of this node and of its peers live in the
  transport. \<open>None\<close> is a panic or \<open>log.Fatal\<close>.
\<close>

definition zero_group ::
  "'d kv \<Rightarrow> wal_codec \<Rightarrow> shared_codec \<Rightarrow> server_config \<Rightarrow> transport \<Rightarrow> 'd \<Rightarrow>
   ((error + (manager shared, 'd wal) raft_group) \<times> raft_start) option" where
  "zero_group V C K cfg t db = do {
     w \<leftarrow> new_badger_wal V C uuid_nil db;
     let state = \<lparr>sh_proxies = [], sh_state = new_dataset_manager (t_conn t)\<rparr>;
     let (r, _, st) = new_raft_group uuid_nil (get_zero_node_ids cfg (t_node_id t)) w 0 t state;
     Some (case r of Inl e \<Rightarrow> Inl e | Inr g \<Rightarrow> (case new_shared_group K g of (Inl e, _) \<Rightarrow> Inl e | (Inr _, g') \<Rightarrow> Inr g'), st) }"

definition attach_manager ::
  "manager_codec \<Rightarrow> node_start \<Rightarrow> ((manager shared, 'd wal) raft_group, unit) prog" where
  "attach_manager M N g = do {
     (r, sh) \<leftarrow> register_manager M N ''datasets'' (shared_get ''datasets'' (g_state g));
     Some (r, g\<lparr>g_state := sh\<rparr>) }"

definition start_zero_group ::
  "'d kv \<Rightarrow> wal_codec \<Rightarrow> manager_codec \<Rightarrow> raft_lib \<Rightarrow> node_start \<Rightarrow> 'd surroundings \<Rightarrow> env \<Rightarrow>
   ((manager shared, 'd wal) raft_group, unit) prog" where
  "start_zero_group V C M L N Q env = andthen (group_start L (badger_ops V C)) (\<lambda>_ g. do {
     g' \<leftarrow> group_run L (badger_ops V C) (op_network Q) env (op_early Q) g;
     attach_manager M N g' })"

definition server_setup ::
  "'d kv \<Rightarrow> wal_codec \<Rightarrow> shared_codec \<Rightarrow> manager_codec \<Rightarrow> raft_lib \<Rightarrow> node_start \<Rightarrow> 'd surroundings \<Rightarrow> env \<Rightarrow> server_config \<Rightarrow>
   (error + 'd server) option" where
  "server_setup V C K M L N Q env cfg = (case op_db Q of
       Inl e \<Rightarrow> Some (Inl e)
     | Inr db \<Rightarrow> do {
         (r, db') \<leftarrow> get_raft_node_id V (op_now Q) (raft_node_id cfg) db;
         (case r of Inl e \<Rightarrow> Some (Inl e) | Inr i \<Rightarrow>
         (case new_conn i (server_address cfg) (tls_cert_file cfg) (op_certificate Q) of Inl e \<Rightarrow> Some (Inl e) | Inr c \<Rightarrow>
         (case new_transport i (server_address cfg) c of Returns t \<Rightarrow> do {
            (r, st) \<leftarrow> zero_group V C K cfg t db';
            (case r of Inl e \<Rightarrow> Some (Inl e) | Inr g \<Rightarrow> do {
            (r, g') \<leftarrow> start_zero_group V C M L N Q env g;
            Some (case (r, op_listen Q, op_tls Q) of
                (Inl e, _, _) \<Rightarrow> Inl e
              | (_, Some e, _) \<Rightarrow> Inl e
              | (_, None, Some e) \<Rightarrow> if tls_cert_file cfg \<noteq> [] \<and> tls_key_file cfg \<noteq> [] then Inl e
                  else Inr \<lparr>sv_config = cfg\<lparr>raft_node_id := i\<rparr>, sv_group = g', sv_start = st\<rparr>
              | (_, None, None) \<Rightarrow> Inr \<lparr>sv_config = cfg\<lparr>raft_node_id := i\<rparr>, sv_group = g', sv_start = st\<rparr>) }) }
          | _ \<Rightarrow> None))) })"

definition server_join :: "(error \<Rightarrow> string) \<Rightarrow> join_client \<Rightarrow> 'd server \<Rightarrow> ((error + unit) \<times> 'd server) option" where
  "server_join failed J sv =
     (if length (join_nodes (sv_config sv)) = 0 then Some (Inr (), sv)
      else map_option (\<lambda>(r, c). (r, sv\<lparr>sv_group := (sv_group sv)\<lparr>g_transport := (g_transport (sv_group sv))\<lparr>t_conn := c\<rparr>\<rparr>\<rparr>))
             (nodes_join failed J (join_nodes (sv_config sv)) (t_conn (g_transport (sv_group sv)))))"

definition server_stop :: "env \<Rightarrow> 'd server \<Rightarrow> 'd server option" where
  "server_stop env sv = do {
     let g = group_stop (sv_group sv);
     c \<leftarrow> close_all env (t_conn (g_transport g));
     Some (sv\<lparr>sv_group := g\<lparr>g_transport := (g_transport g)\<lparr>t_conn := c\<rparr>\<rparr>\<rparr>) }"

end
