(* ===== verification/ServerProperties.thy ===== *)
theory ServerProperties
  imports Server
begin

text \<open>
  What a node guarantees when it starts, and three ways in which a restart goes wrong: the snapshot
  of the zero group is loaded before there is anything to load it, the loop may apply entries before
  the catalogue is registered, and a restarted group does not compact its log again.
\<close>

section \<open>The identity of a node\<close>

lemma raft_id_reads:
  assumes "kv_laws V rows" "rows db raft_id_key = Some (be_bytes 8 i)"
  shows "get_raft_node_id V now wanted db = Some (if wanted = 0 \<or> wanted = i then Inr i else Inl other_node_id, db)"
  using assms by (auto simp: get_raft_node_id_def get_badger_raft_id_def kv_laws_def be_word_be_bytes word_gt_0)

lemma node_id_stored:
  assumes "kv_laws V rows" "rows db raft_id_key = None"
  shows "\<exists>db' i. get_raft_node_id V now wanted db = Some (Inr i, db') \<and> i = (if wanted = 0 then now else wanted) \<and>
    rows db' = (rows db)(raft_id_key \<mapsto> be_bytes 8 i)"
proof -
  define i where "i = (if wanted = 0 then now else wanted)"
  have "\<exists>d. kv_flush V [SetKey raft_id_key (be_bytes 8 i)] db = Some (Inr (), d) \<and>
      rows d = fold apply_op [SetKey raft_id_key (be_bytes 8 i)] (rows db)"
    using assms(1) unfolding kv_laws_def by blast
  then obtain db' where db': "kv_flush V [SetKey raft_id_key (be_bytes 8 i)] db = Some (Inr (), db')"
    "rows db' = (rows db)(raft_id_key \<mapsto> be_bytes 8 i)" by auto
  have "kv_get V raft_id_key db = Inl KeyNotFound" "\<And>x. kv_refuses V x = None"
    using assms by (simp_all add: kv_laws_def)
  then have "get_raft_node_id V now wanted db = Some (Inr i, db')"
    using db'(1) by (auto simp: get_raft_node_id_def get_badger_raft_id_def set_badger_raft_id_def i_def andthen_def
        ret_def word_gt_0 Let_def)
  then show ?thesis using db'(2) i_def by blast
qed

text \<open>
  C32: A node keeps its id. The first start stores the id it was given, or the time; every later
  start on that store takes the stored id, whatever the clock says, and refuses another one.
\<close>

theorem node_keeps_its_id:
  assumes "kv_laws V rows" "rows db raft_id_key = None"
  shows "\<exists>db' i. get_raft_node_id V now wanted db = Some (Inr i, db') \<and> i = (if wanted = 0 then now else wanted) \<and>
    rows db' = (rows db)(raft_id_key \<mapsto> be_bytes 8 i) \<and>
    (\<forall>now' wanted' later. rows later raft_id_key = rows db' raft_id_key \<longrightarrow>
       get_raft_node_id V now' wanted' later = Some (if wanted' = 0 \<or> wanted' = i then Inr i else Inl other_node_id, later))"
proof -
  obtain db' i where i: "get_raft_node_id V now wanted db = Some (Inr i, db')" "i = (if wanted = 0 then now else wanted)"
    "rows db' = (rows db)(raft_id_key \<mapsto> be_bytes 8 i)" using node_id_stored [OF assms] by blast
  then have "\<forall>now' wanted' later. rows later raft_id_key = rows db' raft_id_key \<longrightarrow>
      get_raft_node_id V now' wanted' later = Some (if wanted' = 0 \<or> wanted' = i then Inr i else Inl other_node_id, later)"
    using raft_id_reads [OF assms(1), of _ i] by simp
  with i show ?thesis by blast
qed

theorem node_keeps_its_id_witness:
  "\<exists>db'. get_raft_node_id list_kv 42 0 [] = Some (Inr 42, db') \<and> get_raft_node_id list_kv 77 0 db' = Some (Inr 42, db') \<and>
     get_raft_node_id list_kv 77 5 db' = Some (Inl other_node_id, db')"
  using node_keeps_its_id [OF list_kv_laws, of "[]" 42 0] by auto

section \<open>Starting the zero group\<close>

lemma zero_group_new:
  assumes "kv_laws V rows" "codec_laws C" "proper_group uuid_nil" "new_badger_wal V C uuid_nil db = Some w"
    and "map_of (t_groups t) uuid_nil = None"
  shows "\<exists>g. zero_group V C K cfg t db = Some (Inr g, start_raft_node (get_zero_node_ids cfg (t_node_id t))) \<and> g_wal g = w \<and> g_id g = uuid_nil \<and> g_conf_state g = None \<and>
    g_process g = Some (shared_process K) \<and> g_process_snapshot g = Some (shared_process_snapshot K) \<and>
    g_snapshot g = Some (shared_snapshot K) \<and> g_state g = \<lparr>sh_proxies = [], sh_state = new_dataset_manager (t_conn t)\<rparr> \<and>
    g_last_applied g = 0 \<and> t_conn (g_transport g) = t_conn t \<and> t_node_id (g_transport g) = t_node_id t"
  using assms(4,5)
  by (simp add: zero_group_def new_raft_group_def add_group_def new_shared_group_def register_process_fn_def
      register_process_snapshot_fn_def register_snapshot_fn_def)

text \<open>The transport of a new node: it knows its own address only.\<close>

lemma new_transport_returns:
  "\<exists>t. new_transport i addr \<lparr>cn_id = i, cn_address = addr, cn_addresses = [], cn_conns = [], cn_closed = [],
       cn_notifications = []\<rparr> = Returns t \<and> t_groups t = [] \<and> t_node_id t = i \<and> cn_addresses (t_conn t) = [(i, addr)] \<and>
     cn_id (t_conn t) = i"
  by (simp add: new_transport_def conn_add_node_def send_nodes_change_notification_def)

text \<open>Behind no proxy every entry is skipped: the machine of the zero group before its manager is there.\<close>

definition skipping :: "shared_codec \<Rightarrow> bytes \<Rightarrow> 'm \<Rightarrow> ((error + unit) \<times> 'm) option" where
  "skipping K data m = (case un_proposal K data of Inl e \<Rightarrow> Some (Inl e, m) | Inr _ \<Rightarrow> Some (Inr (), m))"

interpretation unproxied: state_machine "shared_process K" "skipping K" "\<lambda>sh. sh_proxies sh = []" "\<lambda>sh. sh" "\<lambda>_. True" for K
  by unfold_locales (simp add: shared_process_def skipping_def refines_Some split: sum.split)

lemma run_skipping: "run_spec (skipping K) ds m = Some m' \<Longrightarrow> m' = m"
  by (induction ds) (auto simp: skipping_def split: sum.splits)

lemma early_events_skipped:
  assumes "g_process g = Some (shared_process K)" "sh_proxies (g_state g) = []" "fair env" "\<forall>ev \<in> set evs. plain_event L ev"
    and "group_run L W N env evs g = Some g'"
  shows "g_state g' = g_state g \<and> g_process g' = g_process g"
proof -
  have d: "unproxied.drives K g" using assms(1,2) by (simp add: unproxied.drives_def)
  have "unproxied.drives K g' \<and> run_spec (skipping K) (log_of (committed_by evs)) (g_state g) = Some (g_state g')"
    by (rule unproxied.group_run_spec [OF d assms(3,4)]) (use assms(5) in auto)
  then show ?thesis using assms(1) run_skipping by (auto simp: unproxied.drives_def)
qed

definition manager_proxy :: "manager_codec \<Rightarrow> node_start \<Rightarrow> manager proxy_fns" where
  "manager_proxy M N = \<lparr>px_process = Some (\<lambda>_. manager_process M N),
     px_process_snapshot = Some (manager_process_snapshot M N), px_snapshot = Some (manager_snapshot M)\<rparr>"

lemma register_manager_proxy:
  "register_manager M N name (shared_get name sh) =
     (case map_of (sh_proxies sh) name of None \<Rightarrow>
        Some (Inr (), sh\<lparr>sh_proxies := AList.update name (manager_proxy M N) (AList.update name new_proxy (sh_proxies sh))\<rparr>)
      | Some px \<Rightarrow> register_manager M N name sh)"
  by (auto simp: register_manager_def shared_get_def new_proxy_def manager_proxy_def proxy_register_process_fn_def
      proxy_register_process_snapshot_fn_def proxy_register_snapshot_fn_def update_conv' split: option.split)

lemma attached:
  assumes "sh_proxies (g_state g) = []" "manager_ok (sh_state (g_state g))"
  shows "\<exists>g'. attach_manager M N g = Some (Inr (), g') \<and> g_process g' = g_process g \<and> g_id g' = g_id g \<and>
    sh_state (g_state g') = sh_state (g_state g) \<and> g_transport g' = g_transport g \<and> g_wal g' = g_wal g \<and>
    g_conf_state g' = g_conf_state g \<and> g_snapshot g' = g_snapshot g \<and>
    g_last_applied g' = g_last_applied g \<and> sh_proxies (g_state g') = [(''datasets'', manager_proxy M N)] \<and>
    leads_to ''datasets'' (\<lambda>_. manager_process M N) manager_ok (g_state g')"
  using assms by (simp add: attach_manager_def register_manager_proxy leads_to_def manager_proxy_def)

text \<open>The start of a new node, step by step.\<close>

lemma node_started:
  assumes "kv_laws V rows" "codec_laws C" "rows db = Map.empty"
    and "Q = \<lparr>op_db = Inr db, op_now = now, op_certificate = None, op_network = net, op_early = [], op_listen = None, op_tls = None\<rparr>"
    and "\<forall>s. is_empty_snap L s = (rs_index s = 0)"
  shows "\<exists>sv. server_setup V C K M L N Q env cfg = Some (Inr sv) \<and>
    g_process (sv_group sv) = Some (shared_process K) \<and> g_id (sv_group sv) = uuid_nil \<and>
    leads_to ''datasets'' (\<lambda>_. manager_process M N) manager_ok (g_state (sv_group sv)) \<and>
    catalogue_of (sh_state (g_state (sv_group sv))) = Map.empty \<and>
    nodes_list (sv_group sv) = [(raft_node_id (sv_config sv), server_address cfg)] \<and>
    g_conf_state (sv_group sv) = None \<and> represents C rows (g_wal (sv_group sv)) empty_log \<and>
    g_snapshot (sv_group sv) = Some (shared_snapshot K) \<and> g_last_applied (sv_group sv) = 0 \<and>
    sh_proxies (g_state (sv_group sv)) = [(''datasets'', manager_proxy M N)] \<and>
    mg_datasets (sh_state (g_state (sv_group sv))) = [] \<and>
    sv_start sv = (if do_not_join_cluster cfg \<or> join_nodes cfg \<noteq> [] then RestartNode else StartNode [raft_node_id (sv_config sv)])"
proof -
  obtain db' i where i: "get_raft_node_id V now (raft_node_id cfg) db = Some (Inr i, db')"
    "rows db' = (rows db)(raft_id_key \<mapsto> be_bytes 8 i)"
    using node_id_stored [OF assms(1), of db now "raft_node_id cfg"] assms(3) by auto
  let ?c = "\<lparr>cn_id = i, cn_address = server_address cfg, cn_addresses = [], cn_conns = [], cn_closed = [], cn_notifications = []\<rparr>"
  obtain t where t: "new_transport i (server_address cfg) ?c = Returns t" "t_groups t = []" "t_node_id t = i"
    "cn_addresses (t_conn t) = [(i, server_address cfg)]" "cn_id (t_conn t) = i"
    using new_transport_returns by blast
  have nil: "proper_group uuid_nil" by code_simp
  have raftid: "length raft_id_key = 6" by (simp add: raft_id_key_def)
  then have "rows db' k = None" if "length k \<noteq> 6" for k using that i(2) assms(3) by auto
  then have none: "\<forall>k. take 16 k = uuid_nil \<longrightarrow> rows db' k = None" "rows db' (hard_state_key uuid_nil) = None"
    "rows db' (snapshot_key uuid_nil) = None"
    by (auto simp: uuid_nil_def length_keys dest: arg_cong [of _ _ length])
  obtain w where w: "new_badger_wal V C uuid_nil db' = Some w" "represents C rows w empty_log"
    using opened_new [OF assms(1,2) nil none] by blast
  let ?st = "start_raft_node (get_zero_node_ids cfg (t_node_id t))"
  obtain g where g: "zero_group V C K cfg t db' = Some (Inr g, ?st)" "g_wal g = w" "g_id g = uuid_nil"
    "g_process g = Some (shared_process K)" "g_state g = \<lparr>sh_proxies = [], sh_state = new_dataset_manager (t_conn t)\<rparr>"
    "t_conn (g_transport g) = t_conn t" "g_conf_state g = None" "g_snapshot g = Some (shared_snapshot K)" "g_last_applied g = 0"
    using zero_group_new [OF assms(1,2) nil w(1), of t K cfg] t(2) by auto
  have "badger_snapshot V C w = Inr zero_snapshot"
    using snapshot_reads [OF assms(1,2) w(2)] by (simp add: empty_log_def)
  then have start: "group_start L (badger_ops V C) g = Some (Inr (), g)"
    using g(2) assms(5) by (simp add: group_start_def badger_ops_def zero_snapshot_def)
  obtain g' where g': "attach_manager M N g = Some (Inr (), g')" "g_process g' = g_process g" "g_id g' = g_id g"
    "sh_state (g_state g') = sh_state (g_state g)" "g_transport g' = g_transport g"
    "g_wal g' = g_wal g" "g_conf_state g' = g_conf_state g" "g_snapshot g' = g_snapshot g" "g_last_applied g' = g_last_applied g"
    "sh_proxies (g_state g') = [(''datasets'', manager_proxy M N)]"
    "leads_to ''datasets'' (\<lambda>_. manager_process M N) manager_ok (g_state g')"
    using attached [of g M N] g(5) new_manager_ok(1) by auto
  have "start_zero_group V C M L N Q env g = Some (Inr (), g')"
    using start g'(1) assms(4) by (simp add: start_zero_group_def andthen_def)
  then have "server_setup V C K M L N Q env cfg = Some (Inr \<lparr>sv_config = cfg\<lparr>raft_node_id := i\<rparr>, sv_group = g', sv_start = ?st\<rparr>)"
    using i(1) t(1) g(1) assms(4) by (simp add: server_setup_def new_conn_def)
  then show ?thesis
    using g' g t w(2) new_manager_ok(2)
    by (simp add: new_dataset_manager_def nodes_list_def conn_nodes_def start_raft_node_def get_zero_node_ids_def)
qed

text \<open>
  C33: A new node starts ready. On an empty store its zero group drives the catalogue through the
  proxy, which is what the replication of the catalogue rests on; the catalogue is empty, the node
  knows its own address, and the cluster it bootstraps consists of itself unless it is to join one.
\<close>

theorem new_node_starts:
  assumes "kv_laws V rows" "codec_laws C" "rows db = Map.empty"
    and "Q = \<lparr>op_db = Inr db, op_now = now, op_certificate = None, op_network = net, op_early = [], op_listen = None, op_tls = None\<rparr>"
    and "\<forall>s. is_empty_snap L s = (rs_index s = 0)"
  shows "\<exists>sv. server_setup V C K M L N Q env cfg = Some (Inr sv) \<and>
    g_process (sv_group sv) = Some (shared_process K) \<and> g_id (sv_group sv) = uuid_nil \<and>
    leads_to ''datasets'' (\<lambda>_. manager_process M N) manager_ok (g_state (sv_group sv)) \<and>
    catalogue_of (sh_state (g_state (sv_group sv))) = Map.empty \<and>
    nodes_list (sv_group sv) = [(raft_node_id (sv_config sv), server_address cfg)] \<and>
    sv_start sv = (if do_not_join_cluster cfg \<or> join_nodes cfg \<noteq> [] then RestartNode else StartNode [raft_node_id (sv_config sv)])"
  using node_started [OF assms] by blast

definition sample_surroundings :: "(bytes \<times> bytes) list \<Rightarrow> (bytes \<times> bytes) list surroundings" where
  "sample_surroundings db = \<lparr>op_db = Inr db, op_now = 42, op_certificate = None, op_network = sample_net, op_early = [],
     op_listen = None, op_tls = None\<rparr>"

definition plain_lib :: raft_lib where
  "plain_lib = \<lparr>is_empty_snap = (\<lambda>s. rs_index s = 0), unmarshal_conf_change = (\<lambda>_. Inl BadMessage), apply_conf_change = (\<lambda>_ _. [])\<rparr>"

lemma sample_started:
  "\<exists>sv. server_setup list_kv byte_codec sample_shared_codec sample_manager_codec plain_lib sample_node_start
      (sample_surroundings []) (plain_env 0) new_server_config = Some (Inr sv) \<and>
    g_conf_state (sv_group sv) = None \<and> represents byte_codec map_of (g_wal (sv_group sv)) empty_log \<and>
    g_snapshot (sv_group sv) = Some (shared_snapshot sample_shared_codec) \<and>
    sh_proxies (g_state (sv_group sv)) = [(''datasets'', manager_proxy sample_manager_codec sample_node_start)] \<and>
    mg_datasets (sh_state (g_state (sv_group sv))) = []"
proof -
  have "\<forall>s. is_empty_snap plain_lib s = (rs_index s = 0)" by (simp add: plain_lib_def)
  from node_started [OF list_kv_laws byte_codec_laws _ sample_surroundings_def this, of "[]"
      sample_shared_codec sample_manager_codec sample_node_start "plain_env 0" new_server_config]
  show ?thesis by (metis map_of.simps(1))
qed

theorem new_node_starts_witness:
  "\<exists>sv. server_setup list_kv byte_codec sample_shared_codec sample_manager_codec plain_lib sample_node_start
      (sample_surroundings []) (plain_env 0) new_server_config = Some (Inr sv) \<and>
    catalogue_of (sh_state (g_state (sv_group sv))) = Map.empty \<and> sv_start sv = StartNode [raft_node_id (sv_config sv)]"
  using new_node_starts [OF list_kv_laws byte_codec_laws _ sample_surroundings_def, of "[]" plain_lib
      sample_shared_codec sample_manager_codec sample_node_start "plain_env 0" new_server_config]
  by (auto simp: plain_lib_def new_server_config_def)

section \<open>Restarting\<close>

text \<open>
  C34: Entries that the loop applies before the catalogue is registered are lost. The zero group runs
  from \<open>Start\<close> on, while the dataset manager is made afterwards: whatever was committed in between is
  taken as applied, without an error, and the catalogue stays empty although the log creates
  datasets. A restarting node hands over its whole log in that moment.
\<close>

theorem entries_before_registration_are_lost:
  assumes "kv_laws V rows" "codec_laws C" "new_badger_wal V C uuid_nil db = Some w" "map_of (t_groups t) uuid_nil = None"
    and "zero_group V C K cfg t db = Some (Inr g, st)" "badger_snapshot V C w = Inr s" "is_empty_snap L s"
    and "fair env" "\<forall>ev \<in> set (op_early Q). plain_event L ev"
    and "start_zero_group V C M L N Q env g = Some (r, g')"
  shows "r = Inr () \<and> catalogue_of (sh_state (g_state g')) = Map.empty \<and> g_process g' = Some (shared_process K) \<and>
    leads_to ''datasets'' (\<lambda>_. manager_process M N) manager_ok (g_state g')"
proof -
  have nil: "proper_group uuid_nil" by code_simp
  have g: "g_wal g = w" "g_process g = Some (shared_process K)"
    "g_state g = \<lparr>sh_proxies = [], sh_state = new_dataset_manager (t_conn t)\<rparr>"
    using zero_group_new [OF assms(1,2) nil assms(3,4), of K cfg] assms(5) by auto
  have "group_start L (badger_ops V C) g = Some (Inr (), g)"
    using g(1) assms(6,7) by (simp add: group_start_def badger_ops_def)
  then obtain g1 where g1: "group_run L (badger_ops V C) (op_network Q) env (op_early Q) g = Some g1"
    "attach_manager M N g1 = Some (r, g')"
    using assms(10) by (auto simp: start_zero_group_def andthen_def bind_eq_Some_conv)
  have kept: "g_state g1 = g_state g" "g_process g1 = g_process g"
    using early_events_skipped [OF g(2) _ assms(8,9) g1(1)] g(3) by auto
  obtain g2 where "attach_manager M N g1 = Some (Inr (), g2)" "g_process g2 = g_process g1"
    "sh_state (g_state g2) = sh_state (g_state g1)" "leads_to ''datasets'' (\<lambda>_. manager_process M N) manager_ok (g_state g2)"
    using attached [of g1 M N] kept g(3) new_manager_ok(1) by auto
  then show ?thesis using g1(2) kept g(2,3) new_manager_ok(2) by simp
qed

text \<open>
  C35: A node whose zero group has stored a snapshot cannot start again. \<open>Start\<close> loads the snapshot,
  and the snapshot of the catalogue is looked up among proxies that do not exist yet: the nil proxy
  panics, on every attempt.
\<close>

theorem restart_with_snapshot_panics:
  assumes "kv_laws V rows" "codec_laws C" "represents C rows w l" "w_group w = uuid_nil"
    and "lg_snapshot l = Some s" "un_snapshots K (rs_data s) = Inr ((name, d) # ds)" "\<not> is_empty_snap L s"
    and "op_db Q = Inr (w_db w)" "op_certificate Q = None"
    and "rows (w_db w) raft_id_key = Some (be_bytes 8 i)" "raft_node_id cfg = 0 \<or> raft_node_id cfg = i"
  shows "server_setup V C K M L N Q env cfg = None"
proof -
  have nil: "proper_group uuid_nil" by code_simp
  obtain w' where w': "new_badger_wal V C uuid_nil (w_db w) = Some w'" "represents C rows w' l"
    using reopened [OF assms(1-3)] assms(4) by auto
  have snap: "badger_snapshot V C w' = Inr s" using snapshot_reads [OF assms(1,2) w'(2)] assms(5) by simp
  let ?c = "\<lparr>cn_id = i, cn_address = server_address cfg, cn_addresses = [], cn_conns = [], cn_closed = [], cn_notifications = []\<rparr>"
  obtain t where t: "new_transport i (server_address cfg) ?c = Returns t" "t_groups t = []"
    using new_transport_returns by blast
  obtain g st where g: "zero_group V C K cfg t (w_db w) = Some (Inr g, st)" "g_wal g = w'"
    "g_process_snapshot g = Some (shared_process_snapshot K)"
    "g_state g = \<lparr>sh_proxies = [], sh_state = new_dataset_manager (t_conn t)\<rparr>"
    using zero_group_new [OF assms(1,2) nil w'(1), of t K cfg] t(2) by auto
  have "group_start L (badger_ops V C) g = None"
    using g snap assms(6,7)
    by (simp add: group_start_def badger_ops_def process_snapshot_data_def lift_state_def shared_process_snapshot_def)
  then have "start_zero_group V C M L N Q env g = None" by (simp add: start_zero_group_def andthen_def)
  then show ?thesis
    using assms(8,9,11) raft_id_reads [OF assms(1,10)] t(1) g(1) by (auto simp: server_setup_def new_conn_def)
qed

lemma represents_raft_id:
  assumes "represents C rows w l" "rows db = (rows (w_db w))(raft_id_key \<mapsto> v)"
  shows "represents C rows (w\<lparr>w_db := db\<rparr>) l"
proof -
  have g: "length (w_group w) = 16" using represents_group [OF assms(1)] by simp
  have "length raft_id_key = 6" by (simp add: raft_id_key_def)
  then have "rows db k = rows (w_db w) k" if "length k \<noteq> 6" for k using that assms(2) by auto
  then have other: "length k \<noteq> 6 \<Longrightarrow> rows db k = rows (w_db w) k" for k by blast
  have "rows db k = rows (w_db w) k" if "take 16 k = w_group w" for k
  proof (rule other)
    have "length (take 16 k) = 16" using that g by simp
    then show "length k \<noteq> 6" by auto
  qed
  moreover have "rows db (hard_state_key (w_group w)) = rows (w_db w) (hard_state_key (w_group w))"
    "rows db (snapshot_key (w_group w)) = rows (w_db w) (snapshot_key (w_group w))"
    using g by (simp_all add: other length_keys)
  ultimately show ?thesis using assms(1) by (auto simp: represents_def stores_def caches_def)
qed

definition early_ready :: ready where
  "early_ready = \<lparr>rd_lead = None, rd_messages = [], rd_hard_state = sample_hard, rd_entries = [], rd_snapshot = zero_snapshot,
     rd_committed = [\<lparr>e_term = 1, e_index = 1, e_type = EntryNormal, e_data = [7, 1]\<rparr>]\<rparr>"

theorem entries_before_registration_are_lost_witness:
  "\<exists>w g st g'. new_badger_wal list_kv byte_codec uuid_nil [] = Some w \<and>
    zero_group list_kv byte_codec sample_shared_codec new_server_config sample_transport [] = Some (Inr g, st) \<and>
    start_zero_group list_kv byte_codec sample_manager_codec plain_lib sample_node_start
      ((sample_surroundings [])\<lparr>op_early := [Ready early_ready]\<rparr>) (plain_env 0) g = Some (Inr (), g') \<and>
    g_last_applied g' = 1 \<and> catalogue_of (sh_state (g_state g')) = Map.empty"
proof -
  let ?Q = "(sample_surroundings [])\<lparr>op_early := [Ready early_ready]\<rparr>"
  have nil: "proper_group uuid_nil" by code_simp
  obtain w where w: "new_badger_wal list_kv byte_codec uuid_nil [] = Some w" "represents byte_codec map_of w empty_log"
    using opened_new [OF list_kv_laws byte_codec_laws nil, of "[]"] by auto
  have groups: "map_of (t_groups sample_transport) uuid_nil = None" by (simp add: sample_transport_def)
  note zero = zero_group_new [OF list_kv_laws byte_codec_laws nil w(1) groups, of sample_shared_codec new_server_config]
  then obtain g st where g: "zero_group list_kv byte_codec sample_shared_codec new_server_config sample_transport [] = Some (Inr g, st)"
    "g_wal g = w" "g_process g = Some (shared_process sample_shared_codec)" "sh_proxies (g_state g) = []"
    "manager_ok (sh_state (g_state g))"
    using new_manager_ok(1) by auto
  have snap: "badger_snapshot list_kv byte_codec w = Inr zero_snapshot"
    using snapshot_reads [OF list_kv_laws byte_codec_laws w(2)] by (simp add: empty_log_def)
  have "can_save [] zero_snapshot empty_log"
    by (auto simp: can_save_def zero_snapshot_def follows_def intro!: exI [of _ 0])
  then obtain w1 where w1: "badger_save list_kv byte_codec sample_hard [] zero_snapshot w = Some (Inr (), w1)"
    using save_represents [OF list_kv_laws byte_codec_laws w(2), of "[]" zero_snapshot sample_hard] by blast
  have "\<exists>g1. group_run plain_lib (badger_ops list_kv byte_codec) sample_net (plain_env 0) [Ready early_ready] g = Some g1 \<and>
      g_last_applied g1 = 1 \<and> g_state g1 = g_state g"
    using g w1
    by (simp add: group_step_def handle_ready_def early_ready_def send_if_def save_ready_def badger_ops_def fatal_def
        install_snapshot_def plain_lib_def zero_snapshot_def apply_entry_def process_data_def lift_state_def
        shared_process_def sample_shared_codec_def is_leader_def)
  then obtain g1 where g1: "group_run plain_lib (badger_ops list_kv byte_codec) sample_net (plain_env 0) [Ready early_ready] g = Some g1"
    "g_last_applied g1 = 1" "g_state g1 = g_state g" by blast
  obtain g' where g': "attach_manager sample_manager_codec sample_node_start g1 = Some (Inr (), g')" "g_last_applied g' = 1"
    using attached [of g1 sample_manager_codec sample_node_start] g1(2,3) g(4,5) by auto
  have run: "start_zero_group list_kv byte_codec sample_manager_codec plain_lib sample_node_start ?Q (plain_env 0) g = Some (Inr (), g')"
  proof -
    have "group_start plain_lib (badger_ops list_kv byte_codec) g = Some (Inr (), g)"
      using g(2) snap by (simp add: group_start_def badger_ops_def plain_lib_def zero_snapshot_def)
    then show ?thesis using g1(1) g'(1)
      by (simp add: start_zero_group_def andthen_def sample_surroundings_def del: group_run.simps)
  qed
  have plain: "is_empty_snap plain_lib zero_snapshot" "\<forall>ev \<in> set (op_early ?Q). plain_event plain_lib ev"
    by (simp_all add: plain_lib_def zero_snapshot_def plain_event_def early_ready_def)
  have "catalogue_of (sh_state (g_state g')) = Map.empty"
    using entries_before_registration_are_lost [OF list_kv_laws byte_codec_laws w(1) groups g(1) snap plain(1) plain_env(1) plain(2) run]
    by simp
  then show ?thesis using w(1) g(1) run g'(2) by blast
qed

lemma sample_snapshot_stored:
  "\<exists>w. w_group w = uuid_nil \<and> represents byte_codec map_of w sample_compacted \<and>
     map_of (w_db w) raft_id_key = Some (be_bytes 8 (42 :: 64 word))"
proof -
  have nil: "proper_group uuid_nil" by code_simp
  obtain w0 where w0: "w_group w0 = uuid_nil" "represents byte_codec map_of w0 empty_log"
    using opened_new [OF list_kv_laws byte_codec_laws nil, of "[]"] by auto
  obtain w1 where w1: "w_group w1 = uuid_nil" "represents byte_codec map_of w1 sample_log"
    using save_represents [OF list_kv_laws byte_codec_laws w0(2) sample_saves(1), of sample_hard] sample_saves(2) w0(1) by auto
  have "base sample_log = 0" "length (lg_entries sample_log) = 3"
    by (simp_all add: sample_log_def base_def zero_entry_def)
  then obtain w2 where w2: "w_group w2 = uuid_nil" "represents byte_codec map_of w2 sample_compacted"
    using create_snapshot_compacts [OF list_kv_laws byte_codec_laws w1(2), of 1 "[1]" "[9]"] w1(1)
    by (auto simp: sample_compacted_def)
  let ?db = "AList.update raft_id_key (be_bytes 8 (42 :: 64 word)) (w_db w2)"
  have "represents byte_codec map_of (w2\<lparr>w_db := ?db\<rparr>) sample_compacted"
    by (rule represents_raft_id [OF w2(2)]) (simp add: update_conv')
  then show ?thesis using w2(1) by (intro exI [of _ "w2\<lparr>w_db := ?db\<rparr>"]) (simp add: update_conv')
qed

theorem restart_with_snapshot_panics_witness:
  "\<exists>db. map_of db raft_id_key = Some (be_bytes 8 (42 :: 64 word)) \<and>
    server_setup list_kv byte_codec sample_shared_codec sample_manager_codec plain_lib sample_node_start
      (sample_surroundings db) (plain_env 0) new_server_config = None"
proof -
  obtain w where w: "w_group w = uuid_nil" "represents byte_codec map_of w sample_compacted"
    "map_of (w_db w) raft_id_key = Some (be_bytes 8 (42 :: 64 word))" using sample_snapshot_stored by blast
  let ?s = "snapshot_at 1 [1] [9] sample_log"
  have s: "lg_snapshot sample_compacted = Some ?s" "un_snapshots sample_shared_codec (rs_data ?s) = Inr [(''datasets'', rs_data ?s)]"
    "\<not> is_empty_snap plain_lib ?s"
    by (simp_all add: sample_compacted_def compact_def sample_shared_codec_def plain_lib_def snapshot_at_def)
  show ?thesis
    using restart_with_snapshot_panics [OF list_kv_laws byte_codec_laws w(2,1) s, of "sample_surroundings (w_db w)" 42 new_server_config
      sample_manager_codec sample_node_start "plain_env 0"] w(3)
    by (auto simp: sample_surroundings_def new_server_config_def)
qed

section \<open>Snapshots after a restart\<close>

text \<open>Without a configuration change the configuration state stays as it was when the group was made.\<close>

lemma lift_state_conf: "lift_state f g = Some (r, g') \<Longrightarrow> g_conf_state g' = g_conf_state g"
  by (auto simp: lift_state_def bind_eq_Some_conv)

lemma fatal_conf: "fatal (lift_state f) g = Some g' \<Longrightarrow> g_conf_state g' = g_conf_state g"
  by (auto simp: fatal_Some dest: lift_state_conf)

lemma apply_entries_conf:
  "\<forall>e \<in> set es. e_type e = EntryNormal \<Longrightarrow> apply_entries L env es g = Some g' \<Longrightarrow> g_conf_state g' = g_conf_state g"
proof (induction es arbitrary: env g)
  case (Cons e es)
  obtain g1 where g1: "apply_entry L (sub env 0) e g = Some g1" "apply_entries L (sub env 1) es g1 = Some g'"
    using Cons.prems(2) by (auto simp: bind_eq_Some_conv)
  have "g_conf_state g1 = g_conf_state g"
    using g1(1) Cons.prems(1)
    by (auto simp: apply_entry_def bind_eq_Some_conv fatal_Some process_data_def dest: lift_state_conf split: if_splits)
  then show ?case using Cons.IH [OF _ g1(2)] Cons.prems(1) by simp
qed simp

definition no_conf_change :: "group_event \<Rightarrow> bool" where
  "no_conf_change ev = (case ev of Ready rd \<Rightarrow> \<forall>e \<in> set (rd_committed rd). e_type e = EntryNormal | _ \<Rightarrow> True)"

lemma send_if_conf: "g_conf_state (send_if b N ms g) = g_conf_state g"
  by (auto simp: send_if_def Let_def split: prod.split)

lemma group_step_conf:
  assumes "no_conf_change ev" "group_step L W N env ev g = Some g'"
  shows "g_conf_state g' = g_conf_state g"
proof (cases ev)
  case (Ready rd)
  let ?g1 = "case rd_lead rd of None \<Rightarrow> g | Some l \<Rightarrow> g\<lparr>g_leader_id := l\<rparr>"
  obtain g3 g4 g5 where g: "save_ready W rd (send_if (is_leader ?g1) N (rd_messages rd) ?g1) = Some g3"
    "install_snapshot L (rd_snapshot rd) g3 = Some g4" "apply_entries L env (rd_committed rd) g4 = Some g5"
    "g' = (send_if (\<not> is_leader g5) N (rd_messages rd) g5)\<lparr>g_calls := g_calls (send_if (\<not> is_leader g5) N (rd_messages rd) g5) @ [CallAdvance]\<rparr>"
    using assms(2) Ready by (auto simp: group_step_def handle_ready_def Let_def bind_eq_Some_conv)
  have "g_conf_state g3 = g_conf_state g"
    using g(1) by (auto simp: save_ready_def send_if_conf split: option.splits)
  moreover have "g_conf_state g4 = g_conf_state g3"
    using g(2) by (auto simp: install_snapshot_def process_snapshot_data_def fatal_Some dest: lift_state_conf split: if_splits)
  moreover have "g_conf_state g5 = g_conf_state g4"
    using apply_entries_conf [OF _ g(3)] assms(1) Ready by (simp add: no_conf_change_def)
  ultimately show ?thesis by (simp add: g(4) send_if_conf)
qed (use assms in \<open>auto simp: group_step_def try_snapshot_def bind_eq_Some_conv split: option.splits sum.splits if_splits\<close>)

lemma group_run_conf:
  "\<forall>ev \<in> set evs. no_conf_change ev \<Longrightarrow> group_run L W N env evs g = Some g' \<Longrightarrow> g_conf_state g' = g_conf_state g"
proof (induction evs arbitrary: env g)
  case (Cons ev evs)
  then show ?case by (auto simp: bind_eq_Some_conv dest!: group_step_conf split: if_splits)
qed simp

text \<open>
  C36: A restarted group compacts its log no more. The configuration state is kept in memory only, and
  a snapshot needs one: until the cluster changes its members again, every snapshot attempt of a
  group that was made anew fails and leaves the log as it is, however many entries are applied.
\<close>

theorem restarted_group_takes_no_snapshot:
  assumes "g_conf_state g = None" "\<forall>ev \<in> set evs. no_conf_change ev"
    and "group_run L (badger_ops V C) N env evs g = Some g'"
  shows "g_conf_state g' = None \<and>
    (\<forall>env' g''. group_step L (badger_ops V C) N env' SnapshotTick g' = Some g'' \<longrightarrow> g'' = g')"
proof -
  have none: "g_conf_state g' = None" using group_run_conf [OF assms(2,3)] assms(1) by simp
  have "g'' = g'" if "group_step L (badger_ops V C) N env' SnapshotTick g' = Some g''" for env' g''
    using that none
    by (auto simp: group_step_def try_snapshot_def badger_ops_def badger_create_snapshot_def fail_def bind_eq_Some_conv
        split: option.splits sum.splits if_splits)
  with none show ?thesis by blast
qed

theorem restarted_group_takes_no_snapshot_witness:
  "\<exists>sv g g'. server_setup list_kv byte_codec sample_shared_codec sample_manager_codec plain_lib sample_node_start
      (sample_surroundings []) (plain_env 0) new_server_config = Some (Inr sv) \<and>
    g = (sv_group sv)\<lparr>g_last_applied := 9000\<rparr> \<and>
    group_run plain_lib (badger_ops list_kv byte_codec) sample_net (plain_env 0) [Tick] g = Some g' \<and>
    group_step plain_lib (badger_ops list_kv byte_codec) sample_net (plain_env 0) SnapshotTick g' = Some g' \<and>
    rs_index (projr (badger_snapshot list_kv byte_codec (g_wal g'))) + snapshot_offset < g_last_applied g'"
proof -
  obtain sv where sv: "server_setup list_kv byte_codec sample_shared_codec sample_manager_codec plain_lib sample_node_start
      (sample_surroundings []) (plain_env 0) new_server_config = Some (Inr sv)"
    "g_conf_state (sv_group sv) = None" "represents byte_codec map_of (g_wal (sv_group sv)) empty_log"
    "g_snapshot (sv_group sv) = Some (shared_snapshot sample_shared_codec)"
    "sh_proxies (g_state (sv_group sv)) = [(''datasets'', manager_proxy sample_manager_codec sample_node_start)]"
    "mg_datasets (sh_state (g_state (sv_group sv))) = []" using sample_started by blast
  let ?g = "(sv_group sv)\<lparr>g_last_applied := 9000\<rparr>"
  let ?W = "badger_ops list_kv byte_codec"
  let ?g' = "?g\<lparr>g_calls := g_calls ?g @ [CallTick]\<rparr>"
  have snap: "badger_snapshot list_kv byte_codec (g_wal ?g') = Inr zero_snapshot"
    using snapshot_reads [OF list_kv_laws byte_codec_laws sv(3)] by (simp add: empty_log_def)
  have run: "group_run plain_lib ?W sample_net (plain_env 0) [Tick] ?g = Some ?g'" by (simp add: group_step_def)
  have "manager_snapshot sample_manager_codec (plain_env 0) (sh_state (g_state (sv_group sv))) = Some (Inr [])"
    using sv(6) by (simp add: manager_snapshot_def manager_list_def sample_manager_codec_def)
  then have data: "shared_snapshot sample_shared_codec (plain_env 0) (g_state ?g') = Some (Inr [])"
    using sv(5) by (simp add: shared_snapshot_def manager_proxy_def sample_shared_codec_def)
  have "\<exists>g''. group_step plain_lib ?W sample_net (plain_env 0) SnapshotTick ?g' = Some g''"
    using sv(2,4) snap data
    by (simp add: group_step_def try_snapshot_def badger_ops_def badger_create_snapshot_def fail_def zero_snapshot_def
        snapshot_offset_def)
  moreover have "g_conf_state ?g = None" using sv(2) by simp
  moreover have "\<forall>ev \<in> set [Tick]. no_conf_change ev" by (simp add: no_conf_change_def)
  ultimately have "group_step plain_lib ?W sample_net (plain_env 0) SnapshotTick ?g' = Some ?g'"
    using restarted_group_takes_no_snapshot [OF _ _ run] by blast
  moreover have "rs_index (projr (badger_snapshot list_kv byte_codec (g_wal ?g'))) + snapshot_offset < g_last_applied ?g'"
    using snap by (simp add: zero_snapshot_def snapshot_offset_def)
  ultimately show ?thesis using sv(1) run by blast
qed

end
