(* ===== verification/Cli.thy ===== *)
theory Cli
  imports ServicesProperties
begin

text \<open>
  \<open>cmd/cli/commands/\<close>: the commands of the command line client. A command reads its flags, dials one
  node, makes one call and returns the rows of the table it prints. The clients of gRPC are an argument,
  as are \<open>UUID.String\<close> and \<open>uuid.FromString\<close>; a panic is \<open>None\<close>. Drawing the table is left out, and so
  is the printing of the uptime and of fractions, which stay numbers.
\<close>

section \<open>Arguments\<close>

datatype cli_error = Message string | Syntax | OutOfRange | Failed error

text \<open>An absent flag is the empty string, or 0.\<close>

record cli_context =
  cx_string :: "string \<Rightarrow> string"
  cx_uint :: "string \<Rightarrow> 64 word"
  cx_args :: "string list"

text \<open>\<open>net.JoinHostPort\<close>: a host with a colon is an IPv6 address.\<close>

definition join_host_port :: "string \<Rightarrow> string \<Rightarrow> string" where
  "join_host_port host port = (if CHR '':'' \<in> set host then ''['' @ host @ '']'' else host) @ CHR '':'' # port"

definition dial_node_by_addr :: "(string \<Rightarrow> error + client) \<Rightarrow> string \<Rightarrow> cli_error + client" where
  "dial_node_by_addr dial addr = (case dial addr of Inl e \<Rightarrow> Inl (Failed e) | Inr k \<Rightarrow> Inr k)"

definition dial_node :: "(string \<Rightarrow> error + client) \<Rightarrow> cli_context \<Rightarrow> cli_error + client" where
  "dial_node dial c = (let port = (if cx_string c ''port'' = [] then ''6001'' else cx_string c ''port'')
     in dial_node_by_addr dial (join_host_port (cx_string c ''host'') port))"

section \<open>Numbers\<close>

text \<open>\<open>strconv.ParseUint(s, 16, 64)\<close>.\<close>

definition hex_value :: "char \<Rightarrow> nat option" where
  "hex_value c = (let n = of_char c in
     if 48 \<le> n \<and> n \<le> 57 then Some (n - 48)
     else if 97 \<le> n \<and> n \<le> 102 then Some (n - 87)
     else if 65 \<le> n \<and> n \<le> 70 then Some (n - 55)
     else None)"

fun parse_digits :: "64 word \<Rightarrow> string \<Rightarrow> cli_error + 64 word" where
  "parse_digits n [] = Inr n"
| "parse_digits n (c # cs) = (case hex_value c of
       None \<Rightarrow> Inl Syntax
     | Some d \<Rightarrow>
         if 2 ^ 60 \<le> n then Inl OutOfRange
         else let m = n * 16 + of_nat d in if m < n * 16 then Inl OutOfRange else parse_digits m cs)"

definition parse_uint16 :: "string \<Rightarrow> cli_error + 64 word" where
  "parse_uint16 s = (if s = [] then Inl Syntax else parse_digits 0 s)"

text \<open>The digits \<open>fmt\<close> prints in a base of at most 16.\<close>

definition digit :: "nat \<Rightarrow> char" where
  "digit d = (if d < 10 then char_of (48 + d) else char_of (87 + d))"

fun digits :: "nat \<Rightarrow> nat \<Rightarrow> string" where
  "digits base n = (if base < 2 \<or> n < base then [digit n] else digits base (n div base) @ [digit (n mod base)])"

declare digits.simps [simp del]

text \<open>\<open>%d\<close>, and \<open>%16x\<close>, which pads with spaces on the left.\<close>

definition format_d :: "nat \<Rightarrow> string" where
  "format_d n = digits 10 n"

definition format_16x :: "64 word \<Rightarrow> string" where
  "format_16x i = (let s = digits 16 (unat i) in replicate (16 - length s) (CHR '' '') @ s)"

section \<open>Nodes\<close>

text \<open>\<open>AddNode\<close> returns when its stream is open, before the service has answered.\<close>

record cli_remote =
  cr_dial :: "string \<Rightarrow> error + client"
  cr_list_nodes :: "client \<Rightarrow> error + node_message stream"
  cr_load_info :: "client \<Rightarrow> error + load_info"
  cr_add_node :: "client \<Rightarrow> node_message \<Rightarrow> error + node_message stream"
  cr_remove_node :: "client \<Rightarrow> node_id \<Rightarrow> error option"
  cr_list_datasets :: "client \<Rightarrow> bool \<Rightarrow> error + dataset_meta stream"
  cr_get_dataset :: "client \<Rightarrow> bytes \<Rightarrow> bool \<Rightarrow> error + dataset_meta"
  cr_create_dataset :: "client \<Rightarrow> dataset_meta \<Rightarrow> error + dataset_meta"
  cr_delete_dataset :: "client \<Rightarrow> bytes \<Rightarrow> error option"

definition get_nodes_manager_client_for_addr :: "cli_remote \<Rightarrow> string \<Rightarrow> cli_error + client" where
  "get_nodes_manager_client_for_addr R addr = dial_node_by_addr (cr_dial R) addr"

definition get_nodes_manager_client :: "cli_remote \<Rightarrow> cli_context \<Rightarrow> cli_error + client" where
  "get_nodes_manager_client R c = dial_node (cr_dial R) c"

record node_row =
  nr_id :: string
  nr_address :: string
  nr_uptime :: "64 word"
  nr_load :: "64 word"
  nr_memory :: "64 word"

text \<open>\<open>time.Duration(uptime) * time.Second\<close> is a 64 bit product.\<close>

definition node_row_of :: "node_message \<Rightarrow> load_info \<Rightarrow> node_row" where
  "node_row_of n info = \<lparr>nr_id = format_16x (fst n), nr_address = snd n, nr_uptime = li_uptime info * 1000000000,
     nr_load = load_five (li_load info), nr_memory = mem_used_percent (li_memory info)\<rparr>"

fun list_rows :: "cli_remote \<Rightarrow> node_message list \<Rightarrow> error option \<Rightarrow> node_row list \<Rightarrow> cli_error + node_row list" where
  "list_rows R [] None rows = Inr rows"
| "list_rows R [] (Some e) rows = Inl (Failed e)"
| "list_rows R (n # ns) e rows = (case get_nodes_manager_client_for_addr R (snd n) of
       Inl err \<Rightarrow> Inl err
     | Inr k \<Rightarrow> (case cr_load_info R k of
           Inl err \<Rightarrow> Inl (Failed err)
         | Inr info \<Rightarrow> list_rows R ns e (rows @ [node_row_of n info])))"

definition list_nodes_command :: "cli_remote \<Rightarrow> cli_context \<Rightarrow> cli_error + node_row list" where
  "list_nodes_command R c = (case get_nodes_manager_client R c of
       Inl e \<Rightarrow> Inl e
     | Inr k \<Rightarrow> (case cr_list_nodes R k of Inl e \<Rightarrow> Inl (Failed e) | Inr (ns, e) \<Rightarrow> list_rows R ns e []))"

definition add_node_command :: "cli_remote \<Rightarrow> cli_context \<Rightarrow> cli_error + unit" where
  "add_node_command R c =
     (let i = cx_string c ''node-id''; address = cx_string c ''node-address''; port = cx_string c ''node-port''
      in if i = [] then Inl (Message ''Must provide node id'')
         else if address = [] then Inl (Message ''Must provide node address'')
         else if port = [] then Inl (Message ''Must provide node port'')
         else (case parse_uint16 i of
             Inl e \<Rightarrow> Inl e
           | Inr n \<Rightarrow> (case get_nodes_manager_client R c of
                 Inl e \<Rightarrow> Inl e
               | Inr k \<Rightarrow> (case cr_add_node R k (n, join_host_port address port) of Inl e \<Rightarrow> Inl (Failed e) | Inr _ \<Rightarrow> Inr ()))))"

definition remove_node_command :: "cli_remote \<Rightarrow> cli_context \<Rightarrow> cli_error + unit" where
  "remove_node_command R c = (case cx_args c of
       [] \<Rightarrow> Inl (Message ''No node id provided'')
     | a # _ \<Rightarrow> (case parse_uint16 a of
           Inl e \<Rightarrow> Inl e
         | Inr n \<Rightarrow> (case get_nodes_manager_client R c of
               Inl e \<Rightarrow> Inl e
             | Inr k \<Rightarrow> (case cr_remove_node R k n of Some e \<Rightarrow> Inl (Failed e) | None \<Rightarrow> Inr ()))))"

section \<open>Datasets\<close>

text \<open>The names protobuf gives the spaces.\<close>

fun space_name :: "space \<Rightarrow> string" where
  "space_name Euclidean = ''Euclidean''"
| "space_name Manhattan = ''Manhattan''"
| "space_name Cosine = ''Cosine''"

definition space_string_to_space_proto :: "string \<Rightarrow> cli_error + space" where
  "space_string_to_space_proto s =
     (if s = ''euclidean'' then Inr Euclidean
      else if s = ''manhattan'' then Inr Manhattan
      else if s = ''cosine'' then Inr Cosine
      else Inl (Message ''Invalid space''))"

definition get_dataset_manager_client :: "cli_remote \<Rightarrow> cli_context \<Rightarrow> cli_error + client" where
  "get_dataset_manager_client R c = dial_node (cr_dial R) c"

text \<open>\<open>uuid.Must(uuid.FromBytes(b))\<close> as text.\<close>

definition must_uuid :: "(uuid \<Rightarrow> string) \<Rightarrow> bytes \<Rightarrow> string option" where
  "must_uuid to_string b = (case uuid_from_bytes b of Inl _ \<Rightarrow> None | Inr i \<Rightarrow> Some (to_string i))"

fun dataset_rows ::
  "(uuid \<Rightarrow> string) \<Rightarrow> dataset_meta list \<Rightarrow> error option \<Rightarrow> string list list \<Rightarrow> (cli_error + string list list) option" where
  "dataset_rows to_string [] None rows = Some (Inr rows)"
| "dataset_rows to_string [] (Some e) rows = Some (Inl (Failed e))"
| "dataset_rows to_string (d # ds) e rows = (case must_uuid to_string (dm_id d) of
       None \<Rightarrow> None
     | Some i \<Rightarrow> dataset_rows to_string ds e (rows @ [[i, format_d (unat (dm_size d)), format_d (unat (dm_dimension d)),
         space_name (dm_space d), format_d (unat (dm_partition_count d)), format_d (unat (dm_replication_factor d))]]))"

definition list_datasets_command :: "(uuid \<Rightarrow> string) \<Rightarrow> cli_remote \<Rightarrow> cli_context \<Rightarrow> (cli_error + string list list) option" where
  "list_datasets_command to_string R c = (case get_dataset_manager_client R c of
       Inl e \<Rightarrow> Some (Inl e)
     | Inr k \<Rightarrow> (case cr_list_datasets R k True of
           Inl e \<Rightarrow> Some (Inl (Failed e))
         | Inr (ds, e) \<Rightarrow> dataset_rows to_string ds e []))"

fun join_commas :: "string list \<Rightarrow> string" where
  "join_commas [] = []"
| "join_commas [s] = s"
| "join_commas (s # ss) = s @ CHR '','' # join_commas ss"

fun partition_rows :: "(uuid \<Rightarrow> string) \<Rightarrow> partition_meta list \<Rightarrow> string list list option" where
  "partition_rows to_string [] = Some []"
| "partition_rows to_string (p # ps) = do {
     i \<leftarrow> must_uuid to_string (pm_id p);
     rows \<leftarrow> partition_rows to_string ps;
     Some ([i, join_commas (map format_16x (pm_node_ids p))] # rows) }"

definition get_dataset_command ::
  "(string \<Rightarrow> error + uuid) \<Rightarrow> (uuid \<Rightarrow> string) \<Rightarrow> cli_remote \<Rightarrow> cli_context \<Rightarrow> (cli_error + string list list) option" where
  "get_dataset_command from_string to_string R c = (case cx_args c of
       [] \<Rightarrow> Some (Inl (Message ''No dataset id provided''))
     | a # _ \<Rightarrow> (case from_string a of
           Inl e \<Rightarrow> Some (Inl (Failed e))
         | Inr i \<Rightarrow> (case get_dataset_manager_client R c of
               Inl e \<Rightarrow> Some (Inl e)
             | Inr k \<Rightarrow> (case cr_get_dataset R k i False of
                   Inl e \<Rightarrow> Some (Inl (Failed e))
                 | Inr d \<Rightarrow> map_option Inr (partition_rows to_string (dm_partitions d))))))"

text \<open>The numbers are cut to 32 bits; a flag that is not given is 0.\<close>

definition requested_dataset :: "cli_context \<Rightarrow> space \<Rightarrow> dataset_meta" where
  "requested_dataset c s = \<lparr>dm_id = [], dm_dimension = ucast (cx_uint c ''dim''), dm_space = s,
     dm_partition_count = ucast (cx_uint c ''partition-count''),
     dm_replication_factor = ucast (cx_uint c ''replication-factor''), dm_partitions = [], dm_size = 0\<rparr>"

definition create_dataset_command :: "(uuid \<Rightarrow> string) \<Rightarrow> cli_remote \<Rightarrow> cli_context \<Rightarrow> (cli_error + string) option" where
  "create_dataset_command to_string R c = (case space_string_to_space_proto (cx_string c ''space'') of
       Inl e \<Rightarrow> Some (Inl e)
     | Inr s \<Rightarrow> (case get_dataset_manager_client R c of
           Inl e \<Rightarrow> Some (Inl e)
         | Inr k \<Rightarrow> (case cr_create_dataset R k (requested_dataset c s) of
               Inl e \<Rightarrow> Some (Inl (Failed e))
             | Inr d \<Rightarrow> map_option Inr (must_uuid to_string (dm_id d)))))"

definition delete_dataset_command :: "(string \<Rightarrow> error + uuid) \<Rightarrow> cli_remote \<Rightarrow> cli_context \<Rightarrow> cli_error + unit" where
  "delete_dataset_command from_string R c = (case cx_args c of
       [] \<Rightarrow> Inl (Message ''Missing dataset id'')
     | a # _ \<Rightarrow> (case from_string a of
           Inl e \<Rightarrow> Inl (Failed e)
         | Inr i \<Rightarrow> (case get_dataset_manager_client R c of
               Inl e \<Rightarrow> Inl e
             | Inr k \<Rightarrow> (case cr_delete_dataset R k i of Some e \<Rightarrow> Inl (Failed e) | None \<Rightarrow> Inr ()))))"

section \<open>Numbers that are printed and read\<close>

lemma hex_value_digit: "d < 16 \<Longrightarrow> hex_value (digit d) = Some d"
  by (simp add: hex_value_def digit_def)

lemma digits_chars: "base \<le> 16 \<Longrightarrow> 2 \<le> base \<Longrightarrow> c \<in> set (digits base n) \<Longrightarrow> \<exists>d < 16. c = digit d"
proof (induction base n rule: digits.induct)
  case (1 base n)
  show ?case
  proof (cases "n < base")
    case True
    then show ?thesis using 1(2-4) by (intro exI [of _ n]) (simp add: digits.simps [of base n])
  next
    case False
    moreover have "n mod base < 16" using 1(2,3) by (meson less_le_trans mod_less_divisor zero_less_numeral order_trans less_le)
    ultimately show ?thesis using 1 by (auto simp: digits.simps [of base n])
  qed
qed

lemma length_digits: "n < 16 ^ m \<Longrightarrow> 0 < m \<Longrightarrow> length (digits 16 n) \<le> m \<and> digits 16 n \<noteq> []"
proof (induction m arbitrary: n)
  case (Suc m)
  show ?case
  proof (cases "n < 16")
    case False
    then have "0 < m" using Suc.prems(1) by (cases m) auto
    moreover have "n div 16 < 16 ^ m" using Suc.prems(1) by (simp add: less_mult_imp_div_less)
    ultimately show ?thesis using Suc.IH [of "n div 16"] False by (simp add: digits.simps [of 16 n])
  qed (simp add: digits.simps [of 16 n])
qed simp

lemma parse_append: "parse_digits n (xs @ ys) = (case parse_digits n xs of Inl e \<Rightarrow> Inl e | Inr m \<Rightarrow> parse_digits m ys)"
  by (induction xs arbitrary: n) (auto simp: Let_def split: option.split)

lemma parse_printed: "n < 2 ^ 64 \<Longrightarrow> parse_digits 0 (digits 16 n) = Inr (of_nat n)"
proof (induction n rule: less_induct)
  case (less n)
  show ?case
  proof (cases "n < 16")
    case True
    then show ?thesis by (simp add: digits.simps [of 16 n] hex_value_digit)
  next
    case False
    let ?q = "of_nat (n div 16) :: 64 word"
    have q: "unat ?q = n div 16" using less.prems by (simp add: unat_of_nat)
    have "n div 16 < 2 ^ 60" using less.prems by (simp add: less_mult_imp_div_less)
    then have small: "\<not> 2 ^ 60 \<le> ?q" using q by (simp add: word_le_nat_alt)
    have eq: "?q * 16 + of_nat (n mod 16) = (of_nat n :: 64 word)"
      by (metis div_mult_mod_eq of_nat_add of_nat_mult of_nat_numeral)
    have "unat (?q * 16) = n div 16 * 16" using q less.prems by (simp add: unat_word_ariths)
    then have "\<not> (of_nat n :: 64 word) < ?q * 16" using less.prems by (simp add: word_less_nat_alt unat_of_nat)
    then have "parse_digits ?q [digit (n mod 16)] = Inr (of_nat n)"
      using small by (simp add: hex_value_digit eq)
    moreover have "parse_digits 0 (digits 16 (n div 16)) = Inr ?q" using less False by simp
    ultimately show ?thesis using False by (simp add: digits.simps [of 16 n] parse_append)
  qed
qed

lemma no_space: "c \<in> set (digits 16 n) \<Longrightarrow> c \<noteq> CHR '' ''"
proof -
  assume "c \<in> set (digits 16 n)"
  then obtain d where "d < 16" "c = digit d" using digits_chars [of 16 c n] by auto
  moreover have "hex_value (CHR '' '') = None" by (simp add: hex_value_def)
  ultimately show ?thesis using hex_value_digit [of d] by auto
qed

abbreviation trimmed :: "string \<Rightarrow> string" where
  "trimmed \<equiv> dropWhile (\<lambda>c. c = CHR '' '')"

lemma trimmed_printed: "trimmed (format_16x i) = digits 16 (unat i)" "digits 16 (unat i) \<noteq> []"
  "length (digits 16 (unat i)) \<le> 16" "unat i < 2 ^ 60 \<Longrightarrow> length (digits 16 (unat i)) < 16"
proof -
  have d: "length (digits 16 (unat i)) \<le> 16 \<and> digits 16 (unat i) \<noteq> []"
    using length_digits [of "unat i" 16] unsigned_less [of i, where ?'a = nat] by simp
  then show "digits 16 (unat i) \<noteq> []" "length (digits 16 (unat i)) \<le> 16" by simp_all
  then show "trimmed (format_16x i) = digits 16 (unat i)"
    using no_space [of "hd (digits 16 (unat i))" "unat i"]
    by (cases "digits 16 (unat i)") (simp_all add: format_16x_def Let_def dropWhile_append)
  show "length (digits 16 (unat i)) < 16" if "unat i < 2 ^ 60"
    using length_digits [of "unat i" 15] that by simp
qed

text \<open>
  C39: The node ids of the client survive printing. An id in the table is 16 characters wide; without
  the padding it is read back as the same 64 bits, so the id copied from the list names that node
  in a call of \<open>nodes remove\<close>. With its padding an id below \<open>2 ^ 60\<close> is refused.
\<close>

theorem printed_ids_are_read_back:
  "length (format_16x i) = 16 \<and> parse_uint16 (trimmed (format_16x i)) = Inr i \<and>
   (unat i < 2 ^ 60 \<longrightarrow> parse_uint16 (format_16x i) = Inl Syntax) \<and>
   (\<forall>R c k. cx_args c = [trimmed (format_16x i)] \<longrightarrow> get_nodes_manager_client R c = Inr k \<longrightarrow>
      remove_node_command R c = (case cr_remove_node R k i of Some e \<Rightarrow> Inl (Failed e) | None \<Rightarrow> Inr ()))"
proof -
  have len: "length (format_16x i) = 16" using trimmed_printed(3) [of i] by (simp add: format_16x_def Let_def)
  have parse: "parse_uint16 (trimmed (format_16x i)) = Inr i"
    using parse_printed [of "unat i"] unsigned_less [of i, where ?'a = nat] trimmed_printed(1,2) [of i]
    by (simp add: parse_uint16_def)
  have pad: "parse_uint16 (format_16x i) = Inl Syntax" if small: "unat i < 2 ^ 60"
  proof -
    obtain n where n: "16 - length (digits 16 (unat i)) = Suc n"
      using trimmed_printed(4) [OF small] by (metis Suc_diff_Suc)
    have "hex_value (CHR '' '') = None" by (simp add: hex_value_def)
    then show ?thesis using n by (simp add: parse_uint16_def format_16x_def Let_def)
  qed
  show ?thesis using len parse pad by (simp add: remove_node_command_def)
qed

theorem printed_ids_are_read_back_witness:
  "\<exists>R c. remove_node_command R c = Inr () \<and> cr_remove_node R 3 0x2A = None \<and> cx_args c = [trimmed (format_16x 0x2A)]"
proof -
  let ?R = "\<lparr>cr_dial = (\<lambda>_. Inr 3), cr_list_nodes = (\<lambda>_. Inl EOF), cr_load_info = (\<lambda>_. Inl EOF), cr_add_node = (\<lambda>_ _. Inl EOF),
    cr_remove_node = (\<lambda>_ i. if i = 0x2A then None else Some EOF), cr_list_datasets = (\<lambda>_ _. Inl EOF),
    cr_get_dataset = (\<lambda>_ _ _. Inl EOF), cr_create_dataset = (\<lambda>_ _. Inl EOF), cr_delete_dataset = (\<lambda>_ _. Some EOF)\<rparr>"
  let ?c = "\<lparr>cx_string = (\<lambda>_. []), cx_uint = (\<lambda>_. 0), cx_args = [trimmed (format_16x 0x2A)]\<rparr>"
  have "get_nodes_manager_client ?R ?c = Inr 3" by (simp add: get_nodes_manager_client_def dial_node_def dial_node_by_addr_def Let_def)
  then have "remove_node_command ?R ?c = Inr ()" using printed_ids_are_read_back [of "0x2A"] by simp
  then show ?thesis by (intro exI [of _ ?R] exI [of _ ?c]) simp
qed

text \<open>What the service answers does not reach the caller of \<open>nodes add\<close>.\<close>

lemma add_node_ignores_the_answer:
  assumes "cr_add_node R = (\<lambda>k n. Inr (says n))" "get_nodes_manager_client R c = Inr k" "parse_uint16 (cx_string c ''node-id'') = Inr i"
    and "cx_string c ''node-address'' \<noteq> []" "cx_string c ''node-port'' \<noteq> []"
  shows "add_node_command R c = Inr ()"
  using assms by (auto simp: add_node_command_def Let_def parse_uint16_def)

section \<open>A dataset of no partitions\<close>

lemma no_partition:
  assumes "dm_partition_count (ds_meta d) = 0"
  shows "route rm r i call local d = None"
  using assms by (simp add: route_def get_partition_for_id_def uuid_mod_def)

lemma new_dataset_without_partitions:
  assumes "dm_partition_count meta = 0"
  shows "\<exists>d. new_dataset lg i meta c = Some (Inr d) \<and> ds_meta d = meta"
  using assms by (simp add: new_dataset_def)

lemma created_dataset:
  assumes "un_dataset C data = Inr meta" "uuid_from_bytes (dm_id meta) = Inr i" "map_of (mg_datasets m) i = None"
    and "new_dataset (nd_log N) i meta (mg_conn m) = Some (Inr d)" "create_dataset C N nid data m = Some (r, m')"
  shows "r = Inr ()" "map_of (mg_datasets m') i = Some (Some d)"
  using assms by (auto simp: create_dataset_def tell_and_return_def tell_manager_def watch_all_def put_dataset_def
      bind_eq_Some_conv update_conv')

text \<open>
  C40: A dataset without partitions is accepted and brings its nodes down. \<open>datasets create\<close> asks for
  no partitions when the flag is absent (or a multiple of \<open>2 ^ 32\<close>), the manager applies the change
  without an error, and from then on every Insert, Update and Remove that names the dataset panics
  on a division by zero: the service has no answer and the process ends.
\<close>

theorem dataset_without_partitions_panics:
  assumes "ucast (cx_uint c ''partition-count'') = (0 :: 32 word)" "length i = 16" "length u = 16"
    and "un_dataset C data = Inr ((requested_dataset c s)\<lparr>dm_id := i, dm_partitions := []\<rparr>)" "map_of (mg_datasets m) i = None"
    and "create_dataset C N nid data m = Some (res, m')" "of_nat (length v) = (ucast (cx_uint c ''dim'') :: 32 word)"
  shows "res = Inr () \<and> serve_insert rm R r lg x i u v md m' = None \<and> serve_update rm R r i u v md m' = None \<and>
    serve_remove rm R r i u m' = None"
proof -
  let ?meta = "(requested_dataset c s)\<lparr>dm_id := i, dm_partitions := []\<rparr>"
  have zero: "dm_partition_count ?meta = 0" using assms(1) by (simp add: requested_dataset_def)
  obtain d where d: "new_dataset (nd_log N) i ?meta (mg_conn m) = Some (Inr d)" "ds_meta d = ?meta"
    using new_dataset_without_partitions [OF zero] by blast
  have id: "uuid_from_bytes (dm_id ?meta) = Inr i" "uuid_from_bytes i = Inr i" "uuid_from_bytes u = Inr u"
    using assms(2,3) by (simp_all add: uuid_from_bytes_def)
  note m' = created_dataset [OF assms(4) id(1) assms(5) d(1) assms(6)]
  have found: "find_dataset i m' = Inr (i, Some d)" using m'(2) id(2) by (simp add: find_dataset_def manager_get_def)
  have "check_dimension v d = None" using assms(7) d(2) by (simp add: check_dimension_def requested_dataset_def)
  moreover have "route rm r u call local d = None" for call local using no_partition zero d(2) by simp
  ultimately have "dataset_insert rm R r lg x u v md d = None" "dataset_update rm R r u v md d = None"
    "dataset_remove rm R r u d = None"
    by (simp_all add: dataset_insert_def dataset_update_def dataset_remove_def)
  then show ?thesis using m'(1) found id(3)
    by (simp add: serve_insert_def serve_update_def serve_remove_def with_item_def on_dataset_def)
qed

definition bare_context :: cli_context where
  "bare_context = \<lparr>cx_string = (\<lambda>_. ''euclidean''), cx_uint = (\<lambda>f. if f = ''dim'' then 1 else 0), cx_args = []\<rparr>"

theorem dataset_without_partitions_panics_witness:
  "\<exists>m'. create_dataset (sample_manager_codec\<lparr>un_dataset := (\<lambda>_. Inr ((requested_dataset bare_context Euclidean)\<lparr>dm_id := uuid_of 1, dm_partitions := []\<rparr>))\<rparr>)
       sample_node_start (uuid_of 3) [] (new_dataset_manager sample_conn) = Some (Inr (), m') \<and>
     serve_insert deaf_remote sample_raft 0 (\<lambda>x. x) 0 (uuid_of 1) (uuid_of 2) [5] None m' = None"
proof -
  let ?C = "sample_manager_codec\<lparr>un_dataset := (\<lambda>_. Inr ((requested_dataset bare_context Euclidean)\<lparr>dm_id := uuid_of 1, dm_partitions := []\<rparr>))\<rparr>"
  let ?m = "new_dataset_manager sample_conn"
  have zero: "ucast (cx_uint bare_context ''partition-count'') = (0 :: 32 word)" "ucast (cx_uint bare_context ''dim'') = (1 :: 32 word)"
    by (simp_all add: bare_context_def)
  have un: "un_dataset ?C [] = Inr ((requested_dataset bare_context Euclidean)\<lparr>dm_id := uuid_of 1, dm_partitions := []\<rparr>)" by simp
  have none: "map_of (mg_datasets ?m) (uuid_of 1) = None" by (simp add: new_dataset_manager_def)
  have "create_dataset ?C sample_node_start (uuid_of 3) [] ?m \<noteq> None"
    by (simp add: create_dataset_def zero requested_dataset_def new_dataset_def new_dataset_manager_def tell_and_return_def
        tell_manager_def notify_def new_notificator_def watch_all_def put_dataset_def)
  then obtain res m' where run: "create_dataset ?C sample_node_start (uuid_of 3) [] ?m = Some (res, m')" by auto
  have "length (uuid_of 1) = 16" "length (uuid_of 2) = 16" "of_nat (length [5 :: f32]) = (ucast (cx_uint bare_context ''dim'') :: 32 word)"
    by (simp_all add: zero)
  from dataset_without_partitions_panics [OF zero(1) this(1,2) un none run this(3), of deaf_remote sample_raft 0 "\<lambda>x. x" 0 None]
  show ?thesis using run by auto
qed

end
