(* ===== verification/Spec2Isabelle.thy ===== *)
theory Spec2Isabelle
  imports HnswProperties PartitionRecovery Simd RandomVectors MemoryWal ServerProperties Cli
begin

text \<open>
  A verification development for anndb, a distributed database for approximate nearest neighbour
  search written in Go. All paths are those under \<open>src/\<close>.

  \<^bold>\<open>The program.\<close> A dataset is split into partitions. A replica of a partition is an HNSW index
  (\<open>index/\<close>) that applies the entries of a raft log (\<open>storage/partition.go\<close>,
  \<open>storage/raft/group.go\<close>), which a node keeps in a key-value store (\<open>storage/wal/badger.go\<close>).
  The catalogue of datasets (\<open>storage/dataset_manager.go\<close>) is itself replicated by the zero group,
  behind a proxy (\<open>storage/raft/shared_group.go\<close>). A dataset (\<open>storage/dataset.go\<close>) routes items to
  their partitions by id and asks one goroutine per node, and one per partition, for a search. The
  allocator (\<open>storage/allocator.go\<close>) places replicas and reacts to nodes that join and leave
  (\<open>cluster/conn.go\<close>, \<open>storage/raft/nodes_manager.go\<close>). The gRPC services (\<open>services/\<close>) and
  \<open>server.go\<close> stand before all of it, a command line client (\<open>cmd/cli/\<close>) before them.

  \<^bold>\<open>How it is modelled.\<close> A Go function is a HOL function of the name of the source that takes the
  state it changes and returns it updated; \<open>('s, 'a) prog\<close> of \<open>Prelude\<close> is
  \<open>'s \<Rightarrow> ((error + 'a) \<times> 's) option\<close>: \<open>Inl\<close> is a returned error, \<open>None\<close> a panic or \<open>log.Fatal\<close>.
  Structs are records, enums datatypes, machine integers words, float32 values the words of their bit
  patterns with IEEE-754 arithmetic written out (\<open>Float32\<close>), nil-able maps options of association
  lists. Pointers are addresses into an explicit store where the code shares what they point to (the
  vertices of an index, the channels of the notificator). The order in which Go visits a map, the
  random numbers, the clock and the answers of other nodes are arguments: \<open>env\<close> is a stream of visiting
  orders, and \<open>fair\<close> says that each is a permutation, so the theorems hold for every order. Raft,
  badger, protobuf and gRPC are not under \<open>src/\<close>: they are arguments too, with their documented laws
  as named hypotheses (\<open>kv_laws\<close>, \<open>codec_laws\<close>, \<open>plain_event\<close>), which the witnesses instantiate.

  \<^bold>\<open>The theories\<close>, in the order of their imports:
  \<^item> \<open>Prelude\<close>: types, programs and their sequencing, maps, bytes of words. \<open>Wire\<close>:
    \<open>encoding/binary\<close> on a buffer. \<open>Float32\<close>, \<open>Vectors\<close>: \<open>math/\<close> and \<open>index/space/\<close>, the native
    distances. \<open>Metadata\<close>: \<open>index/metadata.go\<close>. \<open>GoHeap\<close>, \<open>PriorityQueue\<close>: \<open>container/heap\<close> and
    \<open>utils/priority_queue.go\<close>; the locales \<open>heap_order\<close> (a comparison that is a weak order makes the
    sifting loops restore the heap) and \<open>popping\<close> (popping until empty sorts) are interpreted on both
    kinds of queue.
  \<^item> \<open>HnswConfig\<close>, \<open>HnswVertex\<close>, \<open>HnswSearch\<close>, \<open>Hnsw\<close>, \<open>HnswPersistence\<close>: the definitions of
    \<open>index/\<close>. \<open>HnswSearchFacts\<close> (searches on a well-formed graph neither panic nor leave it),
    \<open>HnswSelectFacts\<close> (the selections), \<open>HnswGraph\<close> (links and pruning keep the graph well formed),
    \<open>HnswMap\<close> (the index refines a finite map), \<open>HnswExact\<close> and \<open>HnswResults\<close> (what a search returns),
    \<open>HnswRoundTrip\<close> (\<open>Load\<close> after \<open>Save\<close>), \<open>HnswReload\<close> (into a new index, which is well formed then),
    \<open>HnswSamples\<close>, \<open>HnswProperties\<close>. The searches of the source
    loop over queues; here they recurse with a measure on the unvisited vertices, no fuel is needed.
  \<^item> \<open>Notificator\<close>, \<open>ClusterConn\<close>, \<open>RaftTransport\<close>: \<open>utils/notificator.go\<close>, \<open>cluster/conn.go\<close>,
    \<open>storage/raft/transport.go\<close>; a send on a full channel that would block is the value \<open>Blocks\<close>.
  \<^item> \<open>RaftGroup\<close>, \<open>RaftFacts\<close>: the loop of \<open>storage/raft/group.go\<close> as a run over the events its select
    statement takes. The locale \<open>state_machine\<close> states what a group asks of the functions it is given
    and proves once that the state of a replica is a function of the committed entries.
  \<^item> \<open>Partition\<close>, \<open>PartitionFacts\<close>, \<open>PartitionProperties\<close>: the locale \<open>item_operation\<close> is the contract of
    insert, update and delete on the index; single changes and batches are proved over it, and the
    partition interprets \<open>state_machine\<close> with a finite map as its specification.
  \<^item> \<open>Dataset\<close>, \<open>DatasetSearch\<close>, \<open>DatasetSearchProperties\<close>, \<open>DatasetProperties\<close>: routing and batches; the
    concurrent search as a step relation \<open>collector_step\<close> in which every interleaving of workers,
    channel reads and the closing goroutine is a run.
  \<^item> \<open>Allocator\<close>: one turn of its loop per event.
  \<^item> \<open>DatasetManager\<close>, \<open>ManagerFacts\<close>, \<open>SharedGroup\<close>, \<open>ManagerProperties\<close>: the catalogue interprets
    \<open>state_machine\<close>; the locale \<open>proxied\<close> carries any state machine through the shared group
    (\<open>sublocale shared\<close>) and is interpreted on the catalogue.
  \<^item> \<open>Wal\<close>, \<open>WalFacts\<close>, \<open>WalOps\<close>, \<open>WalSave\<close>, \<open>WalSnapshot\<close>, \<open>WalProperties\<close>: the stored log. \<open>raft_log\<close> is the
    log as raft sees it and \<open>represents\<close> relates it to the rows of the store and the cache of the
    object; every operation is shown to commute with that relation, also when the log is opened again.
  \<^item> \<open>Recovery\<close>, \<open>PartitionRecovery\<close>: a group with its stored log, stopped and started again. The locale
    \<open>recoverable\<close> extends \<open>state_machine\<close> by a snapshot that a new machine can load. Its invariant
    \<open>backed\<close> (the snapshot and the entries in the store give the state) holds over every event of a run
    that is \<open>orderly\<close>, which spells out what raft promises, and gives the state back after a restart. The
    partition interprets it: \<open>Save\<close> and \<open>Load\<close> of the index, the log and the loop meet in one theorem.
  \<^item> \<open>DatasetTypes\<close>: the dimension of a dataset as a type that requests check and replicas keep.
  \<^item> \<open>Simd\<close>: the SSE and AVX kernels of \<open>simd/cpp/\<close> with their sums in order, the wrappers of \<open>simd/\<close> and
    \<open>index/space/\<close>, and how they compare with the native distances. \<open>RandomVectors\<close>: the generators of
    \<open>math/random.go\<close>. \<open>MemoryWal\<close>: \<open>storage/wal/memory.go\<close>.
  \<^item> \<open>NodesManager\<close>, \<open>Services\<close>, \<open>ServicesProperties\<close>: joining, the handlers, and the composition of
    dataset, partitions, streams and services over several nodes.
  \<^item> \<open>Server\<close>, \<open>ServerProperties\<close>: configuration, \<open>setup\<close> in its order, and what a restart does.
  \<^item> \<open>Cli\<close>: the commands of the client, up to the rows of the tables they print.

  \<^bold>\<open>Bounds.\<close> Lengths and counters are kept at their width; hypotheses such as \<open>saveable_index\<close> (levels,
  edges and keys fit the fields they are written to) say where the code relies on a value being small,
  and the findings of the manifest name the places where it does not check. No definition takes fuel:
  the one loop that may not end (\<open>RandomDistinctInts\<close>) is a \<open>partial_function\<close>, and a theorem says exactly
  when it returns.

  \<^bold>\<open>Not modelled.\<close> Locks: an operation is atomic, except where the order of its parts is observable
  (the collecting loop of a search, the loop of a raft group, the requests that wait for their commit)
  and is a sequence of steps or an argument. The assembly of the SSE and AVX distances: the
  model follows the C++ it is generated from, reads past the end of an operand are undefined and
  loads are taken to be aligned. The types of etcd behind \<open>storage/wal/memory.go\<close>, the random generator
  of Go, the counters of the operating system that \<open>LoadInfo\<close> passes on, gRPC, protobuf, raft and
  badger are arguments. \<open>Sort\<close> of a vector is \<open>sort.Sort\<close>. \<open>BytesSize\<close> estimates with float64 exponentials
  for reports and is an argument. The client's tables are not drawn, and its command table is data
  of a library; the demo client and the benchmarks are straight-line programs that log times.
  Listening, TLS, logging and signals have no state of the program.
\<close>

end
